(* ===== verification/Prelude.thy ===== *)
theory Prelude
  imports Main "HOL-Library.Word" "HOL-Library.Multiset"
begin

text \<open>
  Shared vocabulary of the development: the fixed-width integer types of
  \<^verbatim>\<open>kernel/include/types.h\<close>, the error codes and the \<^verbatim>\<open>ValueOrError\<close> result type of
  \<^verbatim>\<open>kernel/include/errno.h\<close>, and the generic lemmas on lists, options and words that
  the component theories use.
\<close>

section \<open>Machine integers\<close>

type_synonym u8 = "8 word"
type_synonym u16 = "16 word"
type_synonym u32 = "32 word"
type_synonym u64 = "64 word"
type_synonym size_t = "64 word"
type_synonym physaddr_t = "64 word"
type_synonym virtaddr_t = "64 word"
type_synonym pid_t = "32 word"

section \<open>Results of fallible operations\<close>

text \<open>The error codes of \<^verbatim>\<open>errno.h\<close> that the modelled code returns.\<close>

datatype errno =
    ENOSYS | ENOENT | ENOTDIR | EEXIST | ENODEV | ENOEXEC | EAGAIN | EACCES | EIO | ESRCH
  | ERANGE | ENOMEM | EINTR | EPERM | ETIMEDOUT | EBUSY | ENOTSUP | ECHILD | EBADF | EINVAL
  | ELOOP | ENOLINK | EPIPE | EFAULT | EISDIR | ESPIPE | EMFILE | ENOTEMPTY | ENOTTY | EROFS

text \<open>
  \<^verbatim>\<open>ValueOrError<T>\<close>: either an error code or a value. \<open>Inl\<close> is the error.
\<close>

type_synonym 'a value_or_error = "errno + 'a"

section \<open>Lemma collections\<close>

named_theorems abs_simps \<open>equations that push an abstraction function through an operation\<close>
named_theorems inv_intros \<open>an operation keeps its component's invariant\<close>

section \<open>Words\<close>

unbundle bit_operations_syntax

lemma unat_of_nat_less: "n < 2 ^ LENGTH('a) \<Longrightarrow> unat (of_nat n :: 'a::len word) = n"
  by (simp add: unat_of_nat)

lemma unat_drop_div: "unat (drop_bit n w) = unat w div 2 ^ n"
  by (subst unat_drop_bit_eq) (rule drop_bit_eq_div)

lemma unat_take_mod: "unat (take_bit n w) = unat w mod 2 ^ n"
  by (subst unsigned_take_bit_eq) (rule take_bit_eq_mod)

lemma and_low_mask:
  "(w :: 'a::len word) AND 1 = take_bit 1 w"
  "(w :: 'a::len word) AND 7 = take_bit 3 w"
  "(w :: 'a::len word) AND 15 = take_bit 4 w"
  "(w :: 'a::len word) AND 0x3F = take_bit 6 w"
  "(w :: 'a::len word) AND 0xFF = take_bit 8 w"
  "(w :: 'a::len word) AND 0x1FF = take_bit 9 w"
  "(w :: 'a::len word) AND 0xFFF = take_bit 12 w"
  "(w :: 'a::len word) AND 0x1FFFFFFF = take_bit 29 w"
  "(w :: 'a::len word) AND 0xFFFFFFFF = take_bit 32 w"
  by (simp_all add: take_bit_eq_mask mask_eq_exp_minus_1)

end
