(* ===== verification/Range_List.thy ===== *)
theory Range_List
  imports Prelude
begin

text \<open>
  \<^verbatim>\<open>std::RangeList<T>\<close> (\<^verbatim>\<open>kernel/std/include/range_list.hpp\<close>): a sequence of half-open
  ranges kept as a doubly linked list between the sentinels \<^verbatim>\<open>head\<close> and \<^verbatim>\<open>tail\<close>. The
  physical memory manager keeps the bootloader memory it may reclaim in one.

  The list is modelled by the sequence of its nodes' ranges, in list order. A cursor into
  the list is a split of the sequence: the nodes before it and the nodes from it on, so
  deleting the node under the cursor (\<^verbatim>\<open>delete_range\<close>) drops the head of the second part.
\<close>

section \<open>Ranges and the operations of the list\<close>

record 't Range =
  r_start :: 't
  r_end :: 't

text \<open>
  One iteration of the inner loop of \<^verbatim>\<open>add\<close>: \<open>merge_ranges res m\<close> is the new value of the
  result range when the merged range \<open>m\<close> is absorbed into it (and deleted from the list),
  and \<open>None\<close> when the two are unrelated.
\<close>

definition merge_ranges :: "'t::linorder Range \<Rightarrow> 't Range \<Rightarrow> 't Range option" where
  "merge_ranges res m =
     (if r_start m \<ge> r_start res \<and> r_start m \<le> r_end res then
        Some (if r_end m > r_end res then res\<lparr>r_end := r_end m\<rparr> else res)
      else if r_end m \<ge> r_start res \<and> r_end m \<le> r_end res then
        Some (res\<lparr>r_start := r_start m\<rparr>)
      else if r_start m \<le> r_start res \<and> r_end m \<ge> r_end res then
        Some (res\<lparr>r_start := r_start m, r_end := r_end m\<rparr>)
      else None)"

text \<open>The inner loop over a stretch of nodes that does not contain the result range.\<close>

fun merge_scan :: "'t::linorder Range \<Rightarrow> 't Range list \<Rightarrow> 't Range \<times> 't Range list" where
  "merge_scan res [] = (res, [])"
| "merge_scan res (m # ms) =
     (case merge_ranges res m of
        Some res' \<Rightarrow> merge_scan res' ms
      | None \<Rightarrow> (case merge_scan res ms of (res', ms') \<Rightarrow> (res', m # ms')))"

lemma length_merge_scan: "length (snd (merge_scan r ms)) \<le> length ms"
  by (induction r ms rule: merge_scan.induct) (auto split: option.splits prod.splits intro: le_SucI)

text \<open>
  The outer loop: the result range is the first node of the second argument; the inner loop
  visits the nodes before it, skips it, and visits the nodes after it.
\<close>

function merge_all :: "'t::linorder Range list \<Rightarrow> 't Range list \<Rightarrow> 't Range list" where
  "merge_all bs [] = bs"
| "merge_all bs (r # as) =
     (case merge_scan r bs of (r1, bs') \<Rightarrow>
      case merge_scan r1 as of (r2, as') \<Rightarrow> merge_all (bs' @ [r2]) as')"
  by pat_completeness auto
termination
proof (relation "measure (\<lambda>(bs, as). length as)", simp, clarsimp)
  fix r1 r2 :: "'t::linorder Range" and as as'
  assume "(r2, as') = merge_scan r1 as"
  then show "length as' < Suc (length as)"
    using length_merge_scan [of r1 as] by (metis le_imp_less_Suc snd_conv)
qed

definition range_add :: "'t::linorder \<Rightarrow> 't \<Rightarrow> 't Range list \<Rightarrow> 't Range list" where
  "range_add s e rl = merge_all [] (rl @ [\<lparr>r_start = s, r_end = e\<rparr>])"

fun range_remove :: "'t::linorder \<Rightarrow> 't \<Rightarrow> 't Range list \<Rightarrow> 't Range list" where
  "range_remove s e [] = []"
| "range_remove s e (r # rs) =
     (if s \<le> r_start r \<and> e \<ge> r_end r then range_remove s e rs
      else
        let startBound = (s \<ge> r_start r \<and> s < r_end r);
            endBound = (e \<ge> r_start r \<and> e < r_end r)
        in if startBound \<and> \<not> endBound then r\<lparr>r_end := s\<rparr> # range_remove s e rs
           else if \<not> startBound \<and> endBound then r\<lparr>r_start := e\<rparr> # range_remove s e rs
           else if startBound \<and> endBound then
             \<lparr>r_start = r_start r, r_end = s\<rparr> # r\<lparr>r_start := e\<rparr> # rs
           else r # range_remove s e rs)"

definition range_clear :: "'t Range list \<Rightarrow> 't Range list" where
  "range_clear rl = []"

fun is_bound :: "'t::linorder Range list \<Rightarrow> 't \<Rightarrow> bool" where
  "is_bound [] v = False"
| "is_bound (r # rs) v = (if v \<ge> r_start r \<and> v < r_end r then True else is_bound rs v)"

section \<open>Invariant: valid ranges, pairwise apart\<close>

definition valid_range :: "'t::linorder Range \<Rightarrow> bool" where
  "valid_range r \<longleftrightarrow> r_start r \<le> r_end r"

definition apart :: "'t::linorder Range \<Rightarrow> 't Range \<Rightarrow> bool" where
  "apart r m \<longleftrightarrow> r_end r < r_start m \<or> r_end m < r_start r"

definition ranges_wf :: "'t::linorder Range list \<Rightarrow> bool" where
  "ranges_wf rl \<longleftrightarrow> list_all valid_range rl \<and> sorted_wrt apart rl"

lemma apart_sym: "apart r m \<longleftrightarrow> apart m r"
  by (auto simp: apart_def)

lemma merge_ranges_None_iff:
  "valid_range r \<Longrightarrow> valid_range m \<Longrightarrow> merge_ranges r m = None \<longleftrightarrow> apart r m"
  by (auto simp: merge_ranges_def apart_def valid_range_def)

lemma merge_ranges_SomeD:
  assumes "valid_range r" "valid_range m" "merge_ranges r m = Some h"
  shows "r_start h = min (r_start r) (r_start m)" "r_end h = max (r_end r) (r_end m)"
    "\<not> apart r m"
  using assms by (auto simp: merge_ranges_def apart_def valid_range_def split: if_splits)

lemma merge_ranges_valid:
  "valid_range r \<Longrightarrow> valid_range m \<Longrightarrow> merge_ranges r m = Some h \<Longrightarrow> valid_range h"
  by (auto simp: merge_ranges_def valid_range_def split: if_splits)

lemma apart_hullI:
  assumes "valid_range r" "valid_range m" "valid_range x" "merge_ranges r m = Some h"
    and "apart m x"
  shows "apart h x \<longleftrightarrow> apart r x"
  using assms merge_ranges_SomeD [OF assms(1,2,4)]
  by (auto simp: apart_def valid_range_def min_def max_def split: if_splits)

definition covers :: "'t::linorder Range \<Rightarrow> 't \<Rightarrow> bool" where
  "covers r v \<longleftrightarrow> r_start r \<le> v \<and> v < r_end r"

lemma covers_merged:
  assumes "valid_range r" "valid_range m" "merge_ranges r m = Some h"
  shows "covers h v \<longleftrightarrow> covers r v \<or> covers m v"
  using assms merge_ranges_SomeD [OF assms]
  by (auto simp: covers_def valid_range_def apart_def min_def max_def split: if_splits)

lemma is_bound_iff: "is_bound rl v \<longleftrightarrow> (\<exists>r\<in>set rl. covers r v)"
  by (induction rl) (auto simp: covers_def)

section \<open>The merge loop\<close>

lemma merge_scan_apart:
  assumes "valid_range r" "\<forall>m\<in>set ms. valid_range m \<and> apart r m"
  shows "merge_scan r ms = (r, ms)"
  using assms
proof (induction ms)
  case (Cons m ms)
  then have "merge_ranges r m = None" by (simp add: merge_ranges_None_iff)
  with Cons show ?case by simp
qed simp

lemma merge_scan_append:
  "merge_scan r (xs @ ys) =
     (case merge_scan r xs of (r1, xs') \<Rightarrow>
      case merge_scan r1 ys of (r2, ys') \<Rightarrow> (r2, xs' @ ys'))"
  by (induction r xs rule: merge_scan.induct) (auto split: option.splits prod.splits)

lemma merge_scan_valid:
  assumes "valid_range r" "list_all valid_range ms" "merge_scan r ms = (r', ms')"
  shows "valid_range r' \<and> list_all valid_range ms'"
  using assms
  by (induction r ms arbitrary: ms' rule: merge_scan.induct)
     (auto split: option.splits prod.splits dest: merge_ranges_valid)

lemma merge_scan_covers:
  assumes "valid_range r" "list_all valid_range ms" "merge_scan r ms = (r', ms')"
  shows "covers r' v \<or> is_bound ms' v \<longleftrightarrow> covers r v \<or> is_bound ms v"
  using assms
proof (induction r ms arbitrary: ms' rule: merge_scan.induct)
  case (2 res m ms)
  show ?case
  proof (cases "merge_ranges res m")
    case None
    then obtain ms1 where "merge_scan res ms = (r', ms1)" "ms' = m # ms1"
      using 2(5) by (auto split: prod.splits)
    then show ?thesis using 2(1) [OF None, of ms1] 2(3,4) by (auto simp: is_bound_iff)
  next
    case (Some h)
    have "valid_range h" using 2(3,4) Some merge_ranges_valid by auto
    then have "covers r' v \<or> is_bound ms' v \<longleftrightarrow> covers h v \<or> is_bound ms v"
      using 2 Some by simp
    then show ?thesis
      using covers_merged [OF _ _ Some, of v] 2(3,4) by (auto simp: is_bound_iff)
  qed
qed simp

text \<open>Over nodes that are pairwise apart the scan absorbs exactly the ones that touch \<open>r\<close>.\<close>

lemma merge_scan_filter:
  assumes "valid_range r" "ranges_wf ms" "merge_scan r ms = (r', ms')"
  shows "ms' = filter (apart r) ms \<and> (\<forall>m\<in>set ms'. apart r' m) \<and>
    (\<forall>x. valid_range x \<and> apart r x \<and> (\<forall>m\<in>set ms. apart m x) \<longrightarrow> apart r' x)"
  using assms
proof (induction r ms arbitrary: ms' rule: merge_scan.induct)
  case (2 r m ms)
  have m: "valid_range m" "\<forall>k\<in>set ms. valid_range k \<and> apart m k" and ms: "ranges_wf ms"
    using 2(4) by (auto simp: ranges_wf_def list_all_iff)
  show ?case
  proof (cases "merge_ranges r m")
    case None
    then obtain ms1 where ms1: "merge_scan r ms = (r', ms1)" "ms' = m # ms1"
      using 2(5) by (auto split: prod.splits)
    have "apart r m" using None 2(3) m(1) by (simp add: merge_ranges_None_iff)
    then show ?thesis
      using 2(1) [OF None 2(3) ms ms1(1)] ms1(2) m by (auto simp: apart_sym)
  next
    case (Some h)
    have h: "valid_range h" using 2(3) m(1) Some merge_ranges_valid by auto
    have eq: "apart h x \<longleftrightarrow> apart r x" if "valid_range x" "apart m x" for x
      using apart_hullI [OF 2(3) m(1) that(1) Some that(2)] .
    have "filter (apart h) ms = filter (apart r) ms"
      using m(2) eq by (auto intro!: filter_cong)
    moreover have "\<not> apart r m" using merge_ranges_SomeD(3) [OF 2(3) m(1) Some] .
    ultimately show ?thesis
      using 2(2) [OF Some h ms] 2(5) Some eq by auto
  qed
qed simp

definition merge_inv :: "'t::linorder Range list \<Rightarrow> 't Range list \<Rightarrow> bool" where
  "merge_inv bs as \<longleftrightarrow> list_all valid_range (bs @ as) \<and> sorted_wrt apart bs \<and>
     ((\<exists>xs h ys. as = xs @ h # ys \<and> sorted_wrt apart (bs @ xs @ ys) \<and> (\<forall>b\<in>set bs. apart b h)) \<or>
      (\<exists>xs h ys. bs = xs @ h # ys \<and> sorted_wrt apart (xs @ ys @ as)))"


text \<open>
  The invariant of the outer loop: every node is valid, the nodes already used as result
  range are pairwise apart, and at most one node \<open>h\<close> (the one that holds the inserted range)
  touches others. It is either still ahead of the cursor, and then apart from everything
  behind it, or behind the cursor.
\<close>

lemma merge_inv_aheadI:
  assumes "list_all valid_range (bs @ xs @ h # ys)" "sorted_wrt apart (bs @ xs @ ys)"
    "\<forall>b\<in>set bs. apart b h"
  shows "merge_inv bs (xs @ h # ys)"
  unfolding merge_inv_def using assms by (auto simp: sorted_wrt_append)

lemma merge_inv_behindI':
  assumes "list_all valid_range ((xs @ h # ys) @ as)" "sorted_wrt apart (xs @ h # ys)"
    "sorted_wrt apart (xs @ ys @ as)"
  shows "merge_inv (xs @ h # ys) as"
  unfolding merge_inv_def
  by (rule conjI [OF assms(1)], rule conjI [OF assms(2)], rule disjI2)
     (intro exI conjI, rule refl, rule assms(3))

lemma merge_inv_behindI:
  assumes "list_all valid_range (bs @ h # as)" "sorted_wrt apart (bs @ as)"
    "\<forall>b\<in>set bs. apart h b"
  shows "merge_inv (bs @ [h]) as"
  by (rule merge_inv_behindI') (use assms in \<open>auto simp: sorted_wrt_append apart_sym\<close>)

lemma merge_inv_start:
  assumes "ranges_wf rl" "s \<le> e"
  shows "merge_inv [] (rl @ [\<lparr>r_start = s, r_end = e\<rparr>])"
  using assms by (intro merge_inv_aheadI) (auto simp: ranges_wf_def valid_range_def)

lemma merge_inv_step_ahead:
  assumes val: "list_all valid_range (bs @ r # as)"
    and split: "r # as = xs @ h # ys" and wf: "sorted_wrt apart (bs @ xs @ ys)"
    and beh: "\<forall>b\<in>set bs. apart b h"
    and scan: "merge_scan r bs = (r1, bs')" "merge_scan r1 as = (r2, as')"
  shows "merge_inv (bs' @ [r2]) as'"
proof -
  have valr: "valid_range r" and vala: "list_all valid_range as" using val by auto
  have "\<forall>b\<in>set bs. valid_range b \<and> apart r b"
    using val split wf beh by (cases xs) (auto simp: list_all_iff sorted_wrt_append apart_sym)
  then have b: "r1 = r" "bs' = bs" using merge_scan_apart [OF valr] scan(1) by auto
  have v2: "valid_range r2" "list_all valid_range as'"
    using merge_scan_valid [OF valr vala] scan(2) b by auto
  show ?thesis
  proof (cases xs)
    case Nil
    then have "ranges_wf as" and h: "h = r" "ys = as"
      using split wf vala by (auto simp: ranges_wf_def sorted_wrt_append)
    note f = merge_scan_filter [OF valr this(1), of r2 as']
    have "\<forall>b\<in>set bs. apart r2 b"
      using f scan(2) b(1) beh h wf val
      by (auto simp: list_all_iff sorted_wrt_append apart_sym)
    moreover have "sorted_wrt apart (bs @ as')"
      using f scan(2) b(1) wf h Nil by (auto simp: sorted_wrt_append sorted_wrt_filter)
    ultimately show ?thesis
      unfolding b using v2 val by (intro merge_inv_behindI) auto
  next
    case (Cons x xs')
    then have x: "x = r" and as: "as = xs' @ h # ys" using split by auto
    have val': "\<forall>k\<in>set xs'. valid_range k \<and> apart r k" "valid_range h" "ranges_wf ys"
      using val wf as Cons x by (auto simp: list_all_iff sorted_wrt_append ranges_wf_def)
    have sx: "merge_scan r xs' = (r, xs')" by (rule merge_scan_apart [OF valr val'(1)])
    show ?thesis
    proof (cases "merge_ranges r h")
      case None
      then have rh: "apart r h" using merge_ranges_None_iff valr val'(2) by blast
      have "\<forall>k\<in>set ys. valid_range k \<and> apart r k"
        using val wf as Cons x by (auto simp: list_all_iff sorted_wrt_append)
      then have "r2 = r" "as' = as"
        using scan(2) sx None as b(1) merge_scan_apart [OF valr] by (auto simp: merge_scan_append)
      moreover have "sorted_wrt apart ((bs @ [r]) @ xs' @ ys)" using wf Cons x by simp
      ultimately show ?thesis
        unfolding b as using beh rh val as by (simp only:) (rule merge_inv_aheadI, auto)
    next
      case (Some g)
      have g: "valid_range g" using merge_ranges_valid [OF valr val'(2) Some] .
      obtain ys' where ys': "merge_scan g ys = (r2, ys')" "as' = xs' @ ys'"
        using scan(2) sx Some as b(1) by (auto simp: merge_scan_append split: prod.splits)
      note f = merge_scan_filter [OF g val'(3) ys'(1)]
      have "apart r2 k" if k: "k \<in> set bs" for k
      proof -
        have vk: "valid_range k" and "apart h k" and "apart r k" "\<forall>m\<in>set ys. apart m k"
          using k val beh wf Cons x by (auto simp: list_all_iff apart_sym sorted_wrt_append)
        then show ?thesis using f apart_hullI [OF valr val'(2) vk Some] by blast
      qed
      moreover have "sorted_wrt apart (bs @ xs' @ ys')"
        using wf f Cons by (auto simp: sorted_wrt_append sorted_wrt_filter)
      ultimately show ?thesis
        unfolding b ys'(2) using v2 val ys'(2) by (intro merge_inv_behindI) auto
    qed
  qed
qed

lemma merge_inv_step_behind:
  assumes val: "list_all valid_range (bs @ r # as)" and bs: "sorted_wrt apart bs"
    and split: "bs = xs @ h # ys" and wf: "sorted_wrt apart (xs @ ys @ r # as)"
    and scan: "merge_scan r bs = (r1, bs')" "merge_scan r1 as = (r2, as')"
  shows "merge_inv (bs' @ [r2]) as'"
proof -
  have valr: "valid_range r" and vala: "list_all valid_range as" and valh: "valid_range h"
    using val split by auto
  have xy: "\<forall>k\<in>set xs \<union> set ys. valid_range k \<and> apart r k \<and> apart h k"
    using val wf split bs by (auto simp: list_all_iff sorted_wrt_append apart_sym)
  have wfa: "ranges_wf as" using wf vala by (auto simp: ranges_wf_def sorted_wrt_append)
  have sx: "merge_scan r xs = (r, xs)" using merge_scan_apart [OF valr] xy by auto
  show ?thesis
  proof (cases "merge_ranges r h")
    case None
    then have rh: "apart r h" using merge_ranges_None_iff valr valh by blast
    have "merge_scan r ys = (r, ys)" using merge_scan_apart [OF valr] xy by auto
    then have b: "r1 = r" "bs' = bs" using scan(1) sx None split by (auto simp: merge_scan_append)
    have "merge_scan r as = (r, as)"
      using merge_scan_apart [OF valr] vala wf by (auto simp: list_all_iff sorted_wrt_append)
    then have a: "r2 = r" "as' = as" using scan(2) b by auto
    have "sorted_wrt apart (bs @ [r])" using bs xy rh split by (auto simp: sorted_wrt_append apart_sym)
    then show ?thesis
      unfolding a b using val wf split merge_inv_behindI' [of xs h "ys @ [r]" as] by simp
  next
    case (Some g)
    have g: "valid_range g" using merge_ranges_valid [OF valr valh Some] .
    have gk: "\<forall>k\<in>set xs \<union> set ys. apart g k"
      using apart_hullI [OF valr valh _ Some] xy by blast
    then have "merge_scan g ys = (g, ys)" using merge_scan_apart [OF g] xy by auto
    then have b: "r1 = g" "bs' = xs @ ys" using scan(1) sx Some split by (auto simp: merge_scan_append)
    note f = merge_scan_filter [OF g wfa scan(2) [unfolded b]]
    have v2: "valid_range r2" "list_all valid_range as'"
      using merge_scan_valid [OF g vala] scan(2) b by auto
    have "apart r2 k" if k: "k \<in> set xs \<union> set ys" for k
    proof -
      have "\<forall>m\<in>set as. apart m k" using k wf by (auto simp: sorted_wrt_append apart_sym)
      then show ?thesis using f gk xy k by blast
    qed
    moreover have "sorted_wrt apart ((xs @ ys) @ as')"
      using wf f by (auto simp: sorted_wrt_append sorted_wrt_filter)
    ultimately show ?thesis
      unfolding b using v2 xy by (intro merge_inv_behindI) (auto simp: list_all_iff)
  qed
qed

lemma merge_inv_step:
  assumes "merge_inv bs (r # as)" "merge_scan r bs = (r1, bs')" "merge_scan r1 as = (r2, as')"
  shows "merge_inv (bs' @ [r2]) as'"
  using assms merge_inv_step_ahead [OF _ _ _ _ assms(2,3)] merge_inv_step_behind [OF _ _ _ _ assms(2,3)]
  unfolding merge_inv_def [of bs] by metis

lemma merge_all_correct:
  assumes "merge_inv bs as"
  shows "ranges_wf (merge_all bs as) \<and>
    (\<forall>v. is_bound (merge_all bs as) v \<longleftrightarrow> is_bound (bs @ as) v)"
  using assms
proof (induction bs as rule: merge_all.induct)
  case (1 bs)
  then show ?case by (auto simp: merge_inv_def ranges_wf_def)
next
  case (2 bs r as)
  obtain r1 bs' where s1: "merge_scan r bs = (r1, bs')" by fastforce
  obtain r2 as' where s2: "merge_scan r1 as = (r2, as')" by fastforce
  have val: "valid_range r" "list_all valid_range bs" "list_all valid_range as"
    using "2.prems" by (auto simp: merge_inv_def)
  have "covers r1 v \<or> is_bound bs' v \<longleftrightarrow> covers r v \<or> is_bound bs v" for v
    by (rule merge_scan_covers [OF val(1,2) s1])
  moreover have "covers r2 v \<or> is_bound as' v \<longleftrightarrow> covers r1 v \<or> is_bound as v" for v
    using merge_scan_covers [OF _ val(3) s2] merge_scan_valid [OF val(1,2) s1] by blast
  ultimately have "is_bound ((bs' @ [r2]) @ as') v \<longleftrightarrow> is_bound (bs @ r # as) v" for v
    by (simp add: is_bound_iff) blast
  then show ?case
    using "2.IH" [OF s1 [symmetric] s2 [symmetric]] merge_inv_step [OF "2.prems" s1 s2] s1 s2
    by simp
qed

section \<open>What the operations promise\<close>

lemma range_add_wf [inv_intros]: "ranges_wf rl \<Longrightarrow> s \<le> e \<Longrightarrow> ranges_wf (range_add s e rl)"
  using merge_all_correct [OF merge_inv_start] by (auto simp: range_add_def)

lemma range_add_bound:
  "ranges_wf rl \<Longrightarrow> s \<le> e \<Longrightarrow> is_bound (range_add s e rl) v \<longleftrightarrow> is_bound rl v \<or> (s \<le> v \<and> v < e)"
  using merge_all_correct [OF merge_inv_start, of rl s e]
  by (simp add: range_add_def) (simp add: is_bound_iff covers_def, blast)

text \<open>
  The effect of \<^verbatim>\<open>remove\<close> on one node. On a well-formed list the loop is the concatenation of
  these effects: the \<^verbatim>\<open>break\<close> after a split loses nothing, because no later node can meet
  the removed range.
\<close>

definition remove_pieces :: "'t::linorder \<Rightarrow> 't \<Rightarrow> 't Range \<Rightarrow> 't Range list" where
  "remove_pieces s e r =
     (if s \<le> r_start r \<and> e \<ge> r_end r then []
      else if s \<ge> r_start r \<and> s < r_end r then
        (if e < r_end r then [\<lparr>r_start = r_start r, r_end = s\<rparr>, r\<lparr>r_start := e\<rparr>]
         else [r\<lparr>r_end := s\<rparr>])
      else if e \<ge> r_start r \<and> e < r_end r then [r\<lparr>r_start := e\<rparr>]
      else [r])"

lemma remove_pieces_apart:
  assumes "s < e" "valid_range r" "valid_range m" "apart r m"
    "r_start r \<le> s" "e < r_end r"
  shows "remove_pieces s e m = [m]"
  using assms by (auto simp: remove_pieces_def apart_def valid_range_def)

lemma range_remove_pieces:
  assumes "ranges_wf rl" "s < e"
  shows "range_remove s e rl = concat (map (remove_pieces s e) rl)"
  using assms
proof (induction s e rl rule: range_remove.induct)
  case (2 s e r rs)
  have rs: "ranges_wf rs" and r: "valid_range r" "\<forall>m\<in>set rs. valid_range m \<and> apart r m"
    using "2.prems" by (auto simp: ranges_wf_def list_all_iff)
  show ?case
  proof (cases "r_start r \<le> s \<and> e < r_end r")
    case True
    then have "remove_pieces s e m = [m]" if "m \<in> set rs" for m
      using remove_pieces_apart [OF "2.prems"(2)] r that by blast
    then have "map (remove_pieces s e) rs = map (\<lambda>m. [m]) rs" by simp
    then have "concat (map (remove_pieces s e) rs) = rs" by (simp only: concat_map_singleton) simp
    moreover have "range_remove s e (r # rs) = remove_pieces s e r @ rs"
      using True "2.prems"(2) by (auto simp: remove_pieces_def)
    ultimately show ?thesis by simp
  next
    case False
    then show ?thesis
      using 2 rs r(1) by (auto simp: remove_pieces_def Let_def valid_range_def)
  qed
qed simp

lemma remove_pieces_sub:
  assumes "s < e" "valid_range r" "p \<in> set (remove_pieces s e r)"
  shows "valid_range p" "r_start r \<le> r_start p" "r_end p \<le> r_end r"
  using assms by (auto simp: remove_pieces_def valid_range_def split: if_splits)

lemma remove_pieces_wf: "s < e \<Longrightarrow> valid_range r \<Longrightarrow> sorted_wrt apart (remove_pieces s e r)"
  by (auto simp: remove_pieces_def apart_def)

lemma remove_pieces_covers:
  assumes "s < e"
  shows "(\<exists>p\<in>set (remove_pieces s e r). covers p v) \<longleftrightarrow> covers r v \<and> \<not> (s \<le> v \<and> v < e)"
  using assms by (auto simp: remove_pieces_def covers_def)

lemma sorted_wrt_concat:
  assumes "sorted_wrt (\<lambda>x y. \<forall>p\<in>set (f x). \<forall>q\<in>set (f y). P p q) xs" "\<forall>x\<in>set xs. sorted_wrt P (f x)"
  shows "sorted_wrt P (concat (map f xs))"
  using assms by (induction xs) (auto simp: sorted_wrt_append)

lemma range_remove_wf [inv_intros]:
  assumes "ranges_wf rl" "s < e"
  shows "ranges_wf (range_remove s e rl)"
proof -
  have val: "\<forall>r\<in>set rl. valid_range r" using assms by (auto simp: ranges_wf_def list_all_iff)
  have "apart p q" if "valid_range r" "valid_range m" "apart r m" "p \<in> set (remove_pieces s e r)" "q \<in> set (remove_pieces s e m)"
    for r m p q
    using remove_pieces_sub [OF assms(2) that(1,4)] remove_pieces_sub [OF assms(2) that(2,5)] that(3)
    by (auto simp: apart_def)
  then have "sorted_wrt (\<lambda>x y. \<forall>p\<in>set (remove_pieces s e x). \<forall>q\<in>set (remove_pieces s e y). apart p q) rl"
    using assms(1) val unfolding ranges_wf_def
    by (blast intro: sorted_wrt_mono_rel)
  then show ?thesis
    using val assms(2) unfolding range_remove_pieces [OF assms] ranges_wf_def
    by (auto simp: list_all_iff intro!: sorted_wrt_concat intro: remove_pieces_wf elim!: remove_pieces_sub(1))
qed

lemma range_remove_bound:
  assumes "ranges_wf rl" "s < e"
  shows "is_bound (range_remove s e rl) v \<longleftrightarrow> is_bound rl v \<and> \<not> (s \<le> v \<and> v < e)"
  using remove_pieces_covers [OF assms(2), of _ v]
  by (auto simp: range_remove_pieces [OF assms] is_bound_iff)

section \<open>The interface\<close>

text \<open>
  What a client of the range list relies on: a set of values to which half-open ranges are
  added and from which they are removed.
\<close>

locale range_set =
  fixes empty :: "'s"
    and add :: "'t::linorder \<Rightarrow> 't \<Rightarrow> 's \<Rightarrow> 's"
    and remove :: "'t \<Rightarrow> 't \<Rightarrow> 's \<Rightarrow> 's"
    and bound :: "'s \<Rightarrow> 't \<Rightarrow> bool"
    and inv :: "'s \<Rightarrow> bool"
  assumes bound_empty: "\<not> bound empty v"
    and bound_add: "inv rs \<Longrightarrow> s \<le> e \<Longrightarrow> bound (add s e rs) v \<longleftrightarrow> bound rs v \<or> (s \<le> v \<and> v < e)"
    and bound_remove: "inv rs \<Longrightarrow> s < e \<Longrightarrow> bound (remove s e rs) v \<longleftrightarrow> bound rs v \<and> \<not> (s \<le> v \<and> v < e)"
    and inv_empty: "inv empty"
    and inv_add: "inv rs \<Longrightarrow> s \<le> e \<Longrightarrow> inv (add s e rs)"
    and inv_remove: "inv rs \<Longrightarrow> s < e \<Longrightarrow> inv (remove s e rs)"
begin

lemma add_all:
  assumes "inv rs" "\<forall>(s, e)\<in>set xs. s \<le> e"
  shows "inv (fold (\<lambda>(s, e). add s e) xs rs) \<and>
    (bound (fold (\<lambda>(s, e). add s e) xs rs) v \<longleftrightarrow>
       bound rs v \<or> (\<exists>(s, e)\<in>set xs. s \<le> v \<and> v < e))"
  using assms
proof (induction xs arbitrary: rs)
  case (Cons x xs)
  obtain s e where x: "x = (s, e)" by fastforce
  with Cons.prems have "inv (add s e rs)" "s \<le> e" by (auto intro: inv_add)
  then show ?case using Cons bound_add x by auto
qed simp

lemma remove_add:
  assumes "inv rs" "s < e" "\<And>v. s \<le> v \<Longrightarrow> v < e \<Longrightarrow> \<not> bound rs v"
  shows "bound (remove s e (add s e rs)) = bound rs"
  using assms bound_remove [OF inv_add] bound_add by (auto simp: fun_eq_iff less_imp_le)

end

interpretation rl: range_set "[]" range_add range_remove is_bound ranges_wf
  by unfold_locales
     (simp_all add: range_add_bound range_remove_bound range_add_wf range_remove_wf, simp add: ranges_wf_def)

section \<open>Properties\<close>

text \<open>C6: \<^verbatim>\<open>RangeList::add\<close>. Adding a range to a list of pairwise separated ranges leaves a list of
  pairwise separated ranges (one pass of the merge loop is enough, although a result range
  grows while it is being compared), and afterwards \<^verbatim>\<open>is_bound\<close> holds for exactly the values
  that were bound before or lie in the added range.\<close>
theorem range_add_correct:
  assumes "ranges_wf rl" "s \<le> e"
  shows "ranges_wf (range_add s e rl) \<and>
    (\<forall>v. is_bound (range_add s e rl) v \<longleftrightarrow> is_bound rl v \<or> (s \<le> v \<and> v < e))"
  using rl.inv_add [OF assms] rl.bound_add [OF assms] by blast

theorem range_add_correct_witness:
  "ranges_wf (range_add (8::int) 22 [\<lparr>r_start = 0, r_end = 10\<rparr>, \<lparr>r_start = 40, r_end = 50\<rparr>, \<lparr>r_start = 20, r_end = 30\<rparr>]) \<and>
   is_bound (range_add (8::int) 22 [\<lparr>r_start = 0, r_end = 10\<rparr>, \<lparr>r_start = 40, r_end = 50\<rparr>, \<lparr>r_start = 20, r_end = 30\<rparr>]) 15"
  using range_add_correct [of "[\<lparr>r_start = 0, r_end = 10\<rparr>, \<lparr>r_start = 40, r_end = 50\<rparr>, \<lparr>r_start = 20, r_end = 30\<rparr>]" "8::int" 22]
  by (simp add: ranges_wf_def valid_range_def apart_def)

text \<open>\<^verbatim>\<open>RangeList::remove\<close>. Removing a non-empty range keeps the ranges separated and unbinds
  exactly the values of the removed range; the \<^verbatim>\<open>break\<close> after splitting a node skips nothing.\<close>
theorem range_remove_correct:
  assumes "ranges_wf rl" "s < e"
  shows "ranges_wf (range_remove s e rl) \<and>
    (\<forall>v. is_bound (range_remove s e rl) v \<longleftrightarrow> is_bound rl v \<and> \<not> (s \<le> v \<and> v < e))"
  using rl.inv_remove [OF assms] rl.bound_remove [OF assms] by blast

theorem range_remove_correct_witness:
  "range_remove (12::int) 15 [\<lparr>r_start = 0, r_end = 5\<rparr>, \<lparr>r_start = 10, r_end = 20\<rparr>] =
     [\<lparr>r_start = 0, r_end = 5\<rparr>, \<lparr>r_start = 10, r_end = 12\<rparr>, \<lparr>r_start = 15, r_end = 20\<rparr>] \<and>
   \<not> is_bound (range_remove (12::int) 15 [\<lparr>r_start = 0, r_end = 5\<rparr>, \<lparr>r_start = 10, r_end = 20\<rparr>]) 13"
  using range_remove_correct [of "[\<lparr>r_start = 0, r_end = 5\<rparr>, \<lparr>r_start = 10, r_end = 20\<rparr>]" "12::int" 15]
  by (simp add: ranges_wf_def valid_range_def apart_def)

end
