(* ===== verification/Std_List.thy ===== *)
theory Std_List
  imports Prelude
begin

text \<open>
  \<^verbatim>\<open>std::List<T>\<close> (\<^verbatim>\<open>kernel/std/include/list.hpp\<close>): the kernel's doubly linked list, used by
  the pager, the futex table, the process table and the event manager. Lists live in one
  heap: a reference is null, one of the two sentinels \<^verbatim>\<open>head\<close> and \<^verbatim>\<open>tail\<close> of list object \<open>i\<close>,
  or an allocated node. The pointer assignments of the source are kept one by one; a
  dereference of null is \<open>None\<close>. \<open>fresh\<close> is the next address the allocator hands out.

  The lemmas show that the pointer code implements a sequence: \<open>list_at h i xs\<close> says that
  list object \<open>i\<close> is the sequence of nodes \<open>xs\<close>, and every operation is described by what
  it does to that sequence.
\<close>

section \<open>The heap and the operations\<close>

datatype ref = Null | Head nat | Tail nat | Node nat

record 'a lheap =
  nxt :: "ref \<Rightarrow> ref"
  prv :: "ref \<Rightarrow> ref"
  val :: "nat \<Rightarrow> 'a"
  fresh :: nat
  len :: "nat \<Rightarrow> size_t"

definition list_init :: "nat \<Rightarrow> 'a lheap \<Rightarrow> 'a lheap" where
  "list_init i h = h\<lparr>nxt := (nxt h)(Head i := Tail i, Tail i := Null),
     prv := (prv h)(Head i := Null, Tail i := Head i), len := (len h)(i := 0)\<rparr>"

definition list_begin :: "nat \<Rightarrow> 'a lheap \<Rightarrow> ref" where
  "list_begin i h = nxt h (Head i)"

definition list_end :: "nat \<Rightarrow> 'a lheap \<Rightarrow> ref" where
  "list_end i h = Tail i"

text \<open>\<^verbatim>\<open>operator*\<close> of an iterator: only a node carries a value.\<close>

fun deref_val :: "'a lheap \<Rightarrow> ref \<Rightarrow> 'a option" where
  "deref_val h (Node n) = Some (val h n)"
| "deref_val h _ = None"

definition list_front :: "nat \<Rightarrow> 'a lheap \<Rightarrow> 'a option" where
  "list_front i h = deref_val h (nxt h (Head i))"

definition list_back :: "nat \<Rightarrow> 'a lheap \<Rightarrow> 'a option" where
  "list_back i h = deref_val h (prv h (Tail i))"

definition list_empty :: "nat \<Rightarrow> 'a lheap \<Rightarrow> bool" where
  "list_empty i h \<longleftrightarrow> len h i = 0"

definition list_size :: "nat \<Rightarrow> 'a lheap \<Rightarrow> u32" where
  "list_size i h = ucast (len h i)"

definition list_insert :: "nat \<Rightarrow> ref \<Rightarrow> 'a \<Rightarrow> 'a lheap \<Rightarrow> ('a lheap \<times> ref) option" where
  "list_insert i cur v h =
     (if cur = Null \<or> prv h cur = Null then None
      else
        let n = fresh h; en = Node n;
            h1 = h\<lparr>fresh := Suc n, val := (val h)(n := v),
                   nxt := (nxt h)(en := cur), prv := (prv h)(en := prv h cur)\<rparr>;
            h2 = h1\<lparr>nxt := (nxt h1)(prv h1 cur := en)\<rparr>;
            h3 = h2\<lparr>prv := (prv h2)(cur := en)\<rparr>
        in Some (h3\<lparr>len := (len h3)(i := len h3 i + 1)\<rparr>, en))"

definition list_erase :: "nat \<Rightarrow> ref \<Rightarrow> 'a lheap \<Rightarrow> ('a lheap \<times> ref) option" where
  "list_erase i cur h =
     (if cur = Tail i then Some (h, Tail i)
      else if cur = Null \<or> prv h cur = Null \<or> nxt h cur = Null then None
      else
        let h1 = h\<lparr>nxt := (nxt h)(prv h cur := nxt h cur)\<rparr>;
            h2 = h1\<lparr>prv := (prv h1)(nxt h1 cur := prv h1 cur)\<rparr>;
            nx = nxt h2 cur
        in Some (h2\<lparr>len := (len h2)(i := len h2 i - 1)\<rparr>, nx))"

definition list_push_front :: "nat \<Rightarrow> 'a \<Rightarrow> 'a lheap \<Rightarrow> 'a lheap option" where
  "list_push_front i v h = map_option fst (list_insert i (list_begin i h) v h)"

definition list_push_back :: "nat \<Rightarrow> 'a \<Rightarrow> 'a lheap \<Rightarrow> 'a lheap option" where
  "list_push_back i v h = map_option fst (list_insert i (list_end i h) v h)"

definition list_pop_front :: "nat \<Rightarrow> 'a lheap \<Rightarrow> 'a lheap option" where
  "list_pop_front i h = map_option fst (list_erase i (list_begin i h) h)"

definition list_pop_back :: "nat \<Rightarrow> 'a lheap \<Rightarrow> 'a lheap option" where
  "list_pop_back i h = map_option fst (list_erase i (prv h (list_end i h)) h)"

text \<open>
  The loops walk the \<^verbatim>\<open>next\<close> pointers until they meet \<^verbatim>\<open>&tail\<close>; on a corrupted list they
  may run through null (\<open>None\<close>) or not stop (also \<open>None\<close>).
\<close>

partial_function (option) contains_from :: "'a lheap \<Rightarrow> nat \<Rightarrow> 'a \<Rightarrow> ref \<Rightarrow> bool option" where
  "contains_from h i v e =
     (if e = Tail i then Some False
      else case deref_val h e of
        None \<Rightarrow> None
      | Some w \<Rightarrow> if w = v then Some True else contains_from h i v (nxt h e))"

definition list_contains :: "nat \<Rightarrow> 'a \<Rightarrow> 'a lheap \<Rightarrow> bool option" where
  "list_contains i v h = contains_from h i v (nxt h (Head i))"

text \<open>\<^verbatim>\<open>clear\<close>: the walk frees every node (the freed addresses are not reused here).\<close>

partial_function (option) free_from :: "'a lheap \<Rightarrow> nat \<Rightarrow> ref \<Rightarrow> nat list option" where
  "free_from h i e =
     (if e = Tail i then Some []
      else case e of
        Node n \<Rightarrow> Option.bind (free_from h i (nxt h e)) (\<lambda>fs. Some (n # fs))
      | _ \<Rightarrow> None)"

definition list_clear :: "nat \<Rightarrow> 'a lheap \<Rightarrow> ('a lheap \<times> nat list) option" where
  "list_clear i h =
     (case free_from h i (nxt h (Head i)) of
        None \<Rightarrow> None
      | Some freed \<Rightarrow>
          Some (h\<lparr>len := (len h)(i := 0), nxt := (nxt h)(Head i := Tail i),
                  prv := (prv h)(Tail i := Head i)\<rparr>, freed))"

text \<open>
  The copy constructor: list object \<open>i\<close> is built from \<open>j\<close>. The cursor \<^verbatim>\<open>last\<close> is set to
  \<^verbatim>\<open>&head\<close> before the loop and is not moved inside it.
\<close>

definition link_after :: "ref \<Rightarrow> 'a \<Rightarrow> 'a lheap \<Rightarrow> 'a lheap option" where
  "link_after lst v h =
     (let n = fresh h; e = Node n;
          h1 = h\<lparr>fresh := Suc n, val := (val h)(n := v),
                 nxt := (nxt h)(e := nxt h lst), prv := (prv h)(e := lst)\<rparr>
      in if nxt h1 lst = Null then None
         else let h2 = h1\<lparr>prv := (prv h1)(nxt h1 lst := e)\<rparr>
              in Some (h2\<lparr>nxt := (nxt h2)(lst := e)\<rparr>))"

partial_function (option) copy_from :: "nat \<Rightarrow> ref \<Rightarrow> ref \<Rightarrow> 'a lheap \<Rightarrow> 'a lheap option" where
  "copy_from j lst entry h =
     (if entry = Tail j then Some h
      else case deref_val h entry of
        None \<Rightarrow> None
      | Some v \<Rightarrow> (case link_after lst v h of
            None \<Rightarrow> None
          | Some h' \<Rightarrow> copy_from j lst (nxt h' entry) h'))"

definition list_copy :: "nat \<Rightarrow> nat \<Rightarrow> 'a lheap \<Rightarrow> 'a lheap option" where
  "list_copy i j h =
     (let h1 = list_init i h; h2 = h1\<lparr>len := (len h1)(i := len h1 j)\<rparr>
      in copy_from j (Head i) (nxt h2 (Head j)) h2)"

text \<open>The move constructor: list object \<open>i\<close> takes the nodes of \<open>j\<close>.\<close>

definition list_move :: "nat \<Rightarrow> nat \<Rightarrow> 'a lheap \<Rightarrow> 'a lheap option" where
  "list_move i j h =
     (let h1 = h\<lparr>nxt := (nxt h)(Head i := nxt h (Head j), Tail i := Null),
                 prv := (prv h)(Head i := Null, Tail i := prv h (Tail j)),
                 len := (len h)(i := len h j)\<rparr>
      in if nxt h1 (Head i) = Null \<or> prv h1 (Tail i) = Null then None
         else
           let h2 = h1\<lparr>prv := (prv h1)(nxt h1 (Head i) := Head i)\<rparr>;
               h3 = h2\<lparr>nxt := (nxt h2)(prv h2 (Tail i) := Tail i)\<rparr>
           in Some (h3\<lparr>nxt := (nxt h3)(Head j := Tail j), prv := (prv h3)(Tail j := Head j),
                       len := (len h3)(j := 0)\<rparr>))"

text \<open>
  \<^verbatim>\<open>sort\<close>: the nodes are unlinked into a null-terminated chain and inserted one by one before
  the first node whose value is greater. \<open>insert_pos\<close> is the inner \<^verbatim>\<open>for\<close> loop: the node
  before which \<^verbatim>\<open>current\<close> goes, or \<^verbatim>\<open>&tail\<close>.
\<close>

partial_function (option) insert_pos ::
    "('a \<Rightarrow> 'a \<Rightarrow> bool) \<Rightarrow> 'a lheap \<Rightarrow> nat \<Rightarrow> ref \<Rightarrow> ref \<Rightarrow> ref option" where
  "insert_pos cmp h i cur it =
     (if it = Tail i then Some it
      else case deref_val h cur of
        None \<Rightarrow> None
      | Some c \<Rightarrow> (case deref_val h it of
            None \<Rightarrow> None
          | Some w \<Rightarrow> if cmp c w then Some it else insert_pos cmp h i cur (nxt h it)))"

definition relink_before :: "ref \<Rightarrow> ref \<Rightarrow> 'a lheap \<Rightarrow> 'a lheap" where
  "relink_before cur it h =
     (let h1 = h\<lparr>prv := (prv h)(cur := prv h it)\<rparr>;
          h2 = h1\<lparr>nxt := (nxt h1)(cur := it)\<rparr>;
          h3 = h2\<lparr>nxt := (nxt h2)(prv h2 it := cur)\<rparr>
      in h3\<lparr>prv := (prv h3)(it := cur)\<rparr>)"

partial_function (option) sort_from ::
    "('a \<Rightarrow> 'a \<Rightarrow> bool) \<Rightarrow> nat \<Rightarrow> ref \<Rightarrow> 'a lheap \<Rightarrow> 'a lheap option" where
  "sort_from cmp i cur h =
     (if cur = Null then Some h
      else
        let next = nxt h cur
        in case insert_pos cmp h i cur (nxt h (Head i)) of
             None \<Rightarrow> None
           | Some it \<Rightarrow> sort_from cmp i next (relink_before cur it h))"

definition list_sort :: "('a \<Rightarrow> 'a \<Rightarrow> bool) \<Rightarrow> nat \<Rightarrow> 'a lheap \<Rightarrow> 'a lheap option" where
  "list_sort cmp i h =
     (let cur = nxt h (Head i);
          h1 = h\<lparr>nxt := (nxt h)(prv h (Tail i) := Null)\<rparr>;
          h2 = h1\<lparr>nxt := (nxt h1)(Head i := Tail i), prv := (prv h1)(Tail i := Head i)\<rparr>
      in sort_from cmp i cur h2)"

section \<open>The sequence a list object holds\<close>

fun links :: "(ref \<Rightarrow> ref) \<Rightarrow> (ref \<Rightarrow> ref) \<Rightarrow> ref list \<Rightarrow> bool" where
  "links n p (a # b # rs) \<longleftrightarrow> n a = b \<and> p b = a \<and> links n p (b # rs)"
| "links n p _ \<longleftrightarrow> True"

definition spine :: "nat \<Rightarrow> nat list \<Rightarrow> ref list" where
  "spine i xs = Head i # map Node xs @ [Tail i]"

definition linked :: "'a lheap \<Rightarrow> nat \<Rightarrow> nat list \<Rightarrow> bool" where
  "linked h i xs \<longleftrightarrow> links (nxt h) (prv h) (spine i xs) \<and> distinct xs \<and>
     (\<forall>x\<in>set xs. x < fresh h) \<and> prv h (Head i) = Null \<and> nxt h (Tail i) = Null"

definition list_at :: "'a lheap \<Rightarrow> nat \<Rightarrow> nat list \<Rightarrow> bool" where
  "list_at h i xs \<longleftrightarrow> linked h i xs \<and> len h i = of_nat (length xs)"

definition contents :: "'a lheap \<Rightarrow> nat list \<Rightarrow> 'a list" where
  "contents h xs = map (val h) xs"

lemma links_append:
  "links n p (xs @ y # ys) \<longleftrightarrow> links n p (xs @ [y]) \<and> links n p (y # ys)"
  by (induction n p xs rule: links.induct) auto

lemma links_cong:
  assumes "\<And>a. a \<in> set (butlast rs) \<Longrightarrow> n a = n' a" "\<And>a. a \<in> set (tl rs) \<Longrightarrow> p a = p' a"
  shows "links n p rs \<longleftrightarrow> links n' p' rs"
  using assms by (induction n p rs rule: links.induct) auto

lemma links_insert:
  assumes "links n p (as @ a # b # bs)" "distinct (as @ a # b # bs)" "c \<notin> set (as @ a # b # bs)"
  shows "links (n(c := b, a := c)) (p(c := a, b := c)) (as @ a # c # b # bs)"
proof -
  let ?n = "n(c := b, a := c)" and ?p = "p(c := a, b := c)"
  have l: "links n p (as @ [a])" "links n p (b # bs)"
    using assms(1) links_append [of n p as a "b # bs"] by simp_all
  have "links ?n ?p (as @ [a]) \<longleftrightarrow> links n p (as @ [a])"
    by (rule links_cong) (use assms(2,3) in \<open>auto dest: list.set_sel(2) [rotated]\<close>)
  moreover have "links ?n ?p (b # bs) \<longleftrightarrow> links n p (b # bs)"
    by (rule links_cong) (use assms(2,3) in \<open>auto split: if_splits dest: in_set_butlastD\<close>)
  moreover have "links ?n ?p [a, c, b]" using assms(2,3) by auto
  ultimately show ?thesis
    using l links_append [of ?n ?p as a "c # b # bs"] by simp
qed

lemma links_remove:
  assumes "links n p (as @ a # c # b # bs)" "distinct (as @ a # c # b # bs)"
  shows "links (n(a := b)) (p(b := a)) (as @ a # b # bs)"
proof -
  let ?n = "n(a := b)" and ?p = "p(b := a)"
  have l: "links n p (as @ [a])" "links n p (b # bs)"
    using assms(1) links_append [of n p as a "c # b # bs"] by simp_all
  have "links ?n ?p (as @ [a]) \<longleftrightarrow> links n p (as @ [a])"
    by (rule links_cong) (use assms(2) in \<open>auto dest: list.set_sel(2) [rotated]\<close>)
  moreover have "links ?n ?p (b # bs) \<longleftrightarrow> links n p (b # bs)"
    by (rule links_cong) (use assms(2) in \<open>auto split: if_splits dest: in_set_butlastD\<close>)
  ultimately show ?thesis
    using l links_append [of ?n ?p as a "b # bs"] by simp
qed

text \<open>The reference of the node at the start of \<open>ys\<close>, and of the node at the end of \<open>xs\<close>.\<close>

definition ref_first :: "nat \<Rightarrow> nat list \<Rightarrow> ref" where
  "ref_first i ys = (case ys of [] \<Rightarrow> Tail i | y # _ \<Rightarrow> Node y)"

definition ref_last :: "nat \<Rightarrow> nat list \<Rightarrow> ref" where
  "ref_last i xs = (if xs = [] then Head i else Node (last xs))"

lemma spine_split:
  obtains as bs where "spine i (xs @ ys) = as @ ref_last i xs # ref_first i ys # bs"
    "\<And>n. spine i (xs @ n # ys) = as @ ref_last i xs # Node n # ref_first i ys # bs"
proof -
  have a: "Head i # map Node xs = butlast (Head i # map Node xs) @ [ref_last i xs]"
    by (cases xs rule: rev_cases) (simp_all add: ref_last_def butlast_append)
  have b: "map Node ys @ [Tail i] = ref_first i ys # tl (map Node ys @ [Tail i])"
    by (simp add: ref_first_def split: list.split)
  have "spine i (xs @ zs) = butlast (Head i # map Node xs) @ [ref_last i xs] @ map Node zs @ [Tail i]" for zs
    using a by (simp add: spine_def)
  then have "spine i (xs @ ys) = butlast (Head i # map Node xs) @ ref_last i xs #
      ref_first i ys # tl (map Node ys @ [Tail i])"
    "\<And>n. spine i (xs @ n # ys) = butlast (Head i # map Node xs) @ ref_last i xs # Node n #
      ref_first i ys # tl (map Node ys @ [Tail i])"
    using b by (simp_all only: list.map append_Cons append_Nil)
  then show thesis by (rule that)
qed

lemma distinct_spine: "distinct xs \<Longrightarrow> distinct (spine i xs)"
  by (auto simp: spine_def distinct_map inj_on_def)

lemma set_spine: "set (spine i xs) = {Head i, Tail i} \<union> Node ` set xs"
  by (auto simp: spine_def)

lemma list_at_links:
  assumes "list_at h i (xs @ ys)"
  shows "nxt h (ref_last i xs) = ref_first i ys" "prv h (ref_first i ys) = ref_last i xs"
proof -
  obtain as bs where "spine i (xs @ ys) = as @ ref_last i xs # ref_first i ys # bs"
    by (rule spine_split)
  then have "links (nxt h) (prv h) (ref_last i xs # ref_first i ys # bs)"
    using assms links_append by (metis list_at_def linked_def)
  then show "nxt h (ref_last i xs) = ref_first i ys" "prv h (ref_first i ys) = ref_last i xs"
    by simp_all
qed

lemma list_at_frame:
  assumes "list_at h j zs"
    and "\<And>a. a \<in> set (spine j zs) \<Longrightarrow> nxt h' a = nxt h a \<and> prv h' a = prv h a"
    and "fresh h \<le> fresh h'" "len h' j = len h j"
  shows "list_at h' j zs"
proof -
  have "links (nxt h') (prv h') (spine j zs) \<longleftrightarrow> links (nxt h) (prv h) (spine j zs)"
    by (rule links_cong) (auto simp: assms(2) spine_def dest: in_set_butlastD)
  then show ?thesis
    using assms(1,3,4) assms(2) [of "Head j"] assms(2) [of "Tail j"]
    by (auto simp: list_at_def linked_def set_spine)
qed

lemma ref_in_spine: "ref_first i ys \<in> set (spine i ys)" "ref_last i xs \<in> set (spine i xs)"
  by (auto simp: ref_first_def ref_last_def spine_def split: list.split)

lemma ref_not_Null [simp]: "ref_first i ys \<noteq> Null" "ref_last i xs \<noteq> Null"
  by (auto simp: ref_first_def ref_last_def split: list.split)

lemma ref_first_neq [simp]:
  "ref_first i ys \<noteq> Head j" "ref_last i xs \<noteq> Tail j" "Head j \<noteq> ref_first i ys" "Tail j \<noteq> ref_last i xs"
  by (auto simp: ref_first_def ref_last_def split: list.split)

lemma list_insert_at:
  assumes "list_at h i (xs @ ys)"
  obtains h' where "list_insert i (ref_first i ys) v h = Some (h', Node (fresh h))"
    "list_at h' i (xs @ fresh h # ys)" "val h' = (val h)(fresh h := v)" "fresh h' = Suc (fresh h)"
    "\<And>j zs. j \<noteq> i \<Longrightarrow> list_at h j zs \<Longrightarrow> set zs \<inter> set (xs @ ys) = {} \<Longrightarrow> list_at h' j zs"
proof -
  let ?n = "Node (fresh h)" and ?a = "ref_last i xs" and ?b = "ref_first i ys"
  let ?h' = "h\<lparr>nxt := (nxt h)(?n := ?b, ?a := ?n), prv := (prv h)(?n := ?a, ?b := ?n),
    val := (val h)(fresh h := v), fresh := Suc (fresh h), len := (len h)(i := len h i + 1)\<rparr>"
  note pq = list_at_links [OF assms]
  obtain as bs where sp: "spine i (xs @ ys) = as @ ?a # ?b # bs"
    "spine i (xs @ fresh h # ys) = as @ ?a # ?n # ?b # bs"
    by (rule spine_split) blast
  have fr: "?n \<notin> set (spine i (xs @ ys))" using assms by (auto simp: list_at_def linked_def set_spine)
  have dist: "distinct (spine i (xs @ ys))" using assms by (auto simp: list_at_def linked_def intro: distinct_spine)
  have nb: "?b \<noteq> ?n" using fr sp by auto
  have ins: "list_insert i ?b v h = Some (?h', ?n)"
    using pq nb by (simp add: list_insert_def Let_def)
  have at1: "list_at ?h' i (xs @ fresh h # ys)"
    using links_insert [of "nxt h" "prv h" as ?a ?b bs ?n] dist fr assms
    by (auto simp: list_at_def linked_def sp less_SucI)
  have fr1: "list_at ?h' j zs"
    if j: "j \<noteq> i" and l: "list_at h j zs" and d: "set zs \<inter> set (xs @ ys) = {}" for j zs
  proof (rule list_at_frame [OF l])
    fix a assume a: "a \<in> set (spine j zs)"
    have "?n \<notin> set (spine j zs)" using l by (auto simp: list_at_def linked_def set_spine)
    moreover have "set (spine j zs) \<inter> set (spine i (xs @ ys)) = {}"
      using j d by (auto simp: set_spine)
    then have "?a \<notin> set (spine j zs)" "?b \<notin> set (spine j zs)" unfolding sp by auto
    ultimately show "nxt ?h' a = nxt h a \<and> prv ?h' a = prv h a" using a by auto
  qed (use j in auto)
  show thesis by (rule that [OF ins at1 _ _ fr1]) simp_all
qed

lemma list_erase_at:
  assumes "list_at h i (xs @ n # ys)"
  obtains h' where "list_erase i (Node n) h = Some (h', ref_first i ys)"
    "list_at h' i (xs @ ys)" "val h' = val h" "fresh h' = fresh h"
    "\<And>j zs. j \<noteq> i \<Longrightarrow> list_at h j zs \<Longrightarrow> set zs \<inter> set (xs @ n # ys) = {} \<Longrightarrow> list_at h' j zs"
proof -
  let ?a = "ref_last i xs" and ?b = "ref_first i ys"
  let ?h' = "h\<lparr>nxt := (nxt h)(?a := ?b), prv := (prv h)(?b := ?a), len := (len h)(i := len h i - 1)\<rparr>"
  have pq: "prv h (Node n) = ?a" "nxt h (Node n) = ?b"
    using list_at_links(2) [OF assms] list_at_links(1) [of h i "xs @ [n]" ys] assms
    by (simp_all add: ref_first_def ref_last_def)
  obtain as bs where sp: "spine i (xs @ ys) = as @ ?a # ?b # bs"
    "spine i (xs @ n # ys) = as @ ?a # Node n # ?b # bs"
    by (rule spine_split) blast
  have dist: "distinct (spine i (xs @ n # ys))" using assms by (auto simp: list_at_def linked_def intro: distinct_spine)
  have er: "list_erase i (Node n) h = Some (?h', ?b)"
    using pq dist by (auto simp: list_erase_def Let_def sp)
  have at1: "list_at ?h' i (xs @ ys)"
    using links_remove [of "nxt h" "prv h" as ?a "Node n" ?b bs] dist assms
    by (auto simp: list_at_def linked_def sp)
  have fr1: "list_at ?h' j zs"
    if j: "j \<noteq> i" and l: "list_at h j zs" and d: "set zs \<inter> set (xs @ n # ys) = {}" for j zs
  proof (rule list_at_frame [OF l])
    fix a assume a: "a \<in> set (spine j zs)"
    have "set (spine j zs) \<inter> set (spine i (xs @ n # ys)) = {}"
      using j d by (auto simp: set_spine)
    then show "nxt ?h' a = nxt h a \<and> prv ?h' a = prv h a" using a unfolding sp by auto
  qed (use j in auto)
  show thesis by (rule that [OF er at1 _ _ fr1]) simp_all
qed

section \<open>What the operations do to the sequence\<close>

lemma list_init_at: "list_at (list_init i h) i []"
  by (simp add: list_at_def linked_def list_init_def spine_def)

lemma list_begin_at: "list_at h i xs \<Longrightarrow> list_begin i h = ref_first i xs"
  using list_at_links(1) [of h i "[]" xs] by (simp add: list_begin_def ref_last_def)

lemma contents_fresh:
  assumes "list_at h i xs" "val h' = (val h)(fresh h := v)"
  shows "contents h' xs = contents h xs"
  using assms by (auto simp: contents_def list_at_def linked_def)

lemma list_push_back_at:
  assumes "list_at h i xs"
  obtains h' where "list_push_back i v h = Some h'" "list_at h' i (xs @ [fresh h])"
    "contents h' (xs @ [fresh h]) = contents h xs @ [v]"
proof -
  obtain h' where "list_insert i (ref_first i []) v h = Some (h', Node (fresh h))"
    "list_at h' i (xs @ [fresh h])" "val h' = (val h)(fresh h := v)"
    by (rule list_insert_at [of h i xs "[]" v, simplified, OF assms]) blast
  moreover from this contents_fresh [OF assms] have "contents h' xs = contents h xs" by blast
  ultimately show thesis
    by (intro that [of h']) (auto simp: list_push_back_def list_end_def ref_first_def contents_def)
qed

lemma list_push_front_at:
  assumes "list_at h i xs"
  obtains h' where "list_push_front i v h = Some h'" "list_at h' i (fresh h # xs)"
    "contents h' (fresh h # xs) = v # contents h xs"
proof -
  obtain h' where "list_insert i (ref_first i xs) v h = Some (h', Node (fresh h))"
    "list_at h' i (fresh h # xs)" "val h' = (val h)(fresh h := v)"
    by (rule list_insert_at [of h i "[]" xs v, simplified, OF assms]) blast
  moreover from this contents_fresh [OF assms] have "contents h' xs = contents h xs" by blast
  ultimately show thesis
    using list_begin_at [OF assms] by (intro that [of h']) (auto simp: list_push_front_def contents_def)
qed

lemma list_pop_front_at:
  assumes "list_at h i xs"
  obtains h' where "list_pop_front i h = Some h'" "list_at h' i (tl xs)"
    "contents h' (tl xs) = tl (contents h xs)"
proof (cases xs)
  case Nil
  then show thesis using assms list_begin_at [OF assms]
    by (intro that [of h]) (auto simp: list_pop_front_def list_erase_def ref_first_def contents_def)
next
  case (Cons n ys)
  then obtain h' where "list_erase i (Node n) h = Some (h', ref_first i ys)" "list_at h' i ys" "val h' = val h"
    using assms by (auto elim: list_erase_at [of h i "[]" n ys, simplified])
  then show thesis using assms list_begin_at [OF assms] Cons
    by (intro that [of h']) (auto simp: list_pop_front_def ref_first_def contents_def)
qed

lemma list_pop_back_at:
  assumes "list_at h i xs"
  shows "xs = [] \<Longrightarrow> list_pop_back i h = None"
    and "xs \<noteq> [] \<Longrightarrow> \<exists>h'. list_pop_back i h = Some h' \<and> list_at h' i (butlast xs) \<and>
      contents h' (butlast xs) = butlast (contents h xs)"
proof -
  have pr: "prv h (Tail i) = ref_last i xs"
    using list_at_links(2) [of h i xs "[]"] assms by (simp add: ref_first_def)
  show "list_pop_back i h = None" if "xs = []"
    using that assms pr by (simp add: list_pop_back_def list_end_def list_erase_def ref_last_def list_at_def linked_def)
  show "\<exists>h'. list_pop_back i h = Some h' \<and> list_at h' i (butlast xs) \<and>
      contents h' (butlast xs) = butlast (contents h xs)" if ne: "xs \<noteq> []"
  proof -
    obtain ys n where xs: "xs = ys @ [n]" using ne by (cases xs rule: rev_cases) auto
    then obtain h' where "list_erase i (Node n) h = Some (h', ref_first i [])" "list_at h' i ys" "val h' = val h"
      using assms by (auto elim: list_erase_at [of h i ys n "[]", simplified])
    then show ?thesis using pr xs
      by (auto simp: list_pop_back_def list_end_def ref_last_def contents_def)
  qed
qed

lemma nxt_node: "list_at h i (xs @ n # ys) \<Longrightarrow> nxt h (Node n) = ref_first i ys"
  using list_at_links(1) [of h i "xs @ [n]" ys] by (simp add: ref_last_def)

lemma contains_from_at:
  "list_at h i (xs @ ys) \<Longrightarrow> contains_from h i v (ref_first i ys) = Some (v \<in> set (contents h ys))"
proof (induction ys arbitrary: xs)
  case Nil
  then show ?case by (subst contains_from.simps) (simp add: ref_first_def contents_def)
next
  case (Cons n ys)
  then have "contains_from h i v (ref_first i ys) = Some (v \<in> set (contents h ys))"
    using Cons.IH [of "xs @ [n]"] by simp
  then show ?case using nxt_node [OF Cons.prems]
    by (subst contains_from.simps) (auto simp: ref_first_def contents_def)
qed

lemma free_from_at: "list_at h i (xs @ ys) \<Longrightarrow> free_from h i (ref_first i ys) = Some ys"
proof (induction ys arbitrary: xs)
  case Nil
  then show ?case by (subst free_from.simps) (simp add: ref_first_def)
next
  case (Cons n ys)
  then have "free_from h i (ref_first i ys) = Some ys" using Cons.IH [of "xs @ [n]"] by simp
  then show ?case using nxt_node [OF Cons.prems]
    by (subst free_from.simps) (auto simp: ref_first_def)
qed

subsection \<open>Copying\<close>

lemma linked_frame:
  assumes "linked h j zs"
    and "\<And>a. a \<in> set (spine j zs) \<Longrightarrow> nxt h' a = nxt h a \<and> prv h' a = prv h a"
    and "fresh h \<le> fresh h'"
  shows "linked h' j zs"
proof -
  have "list_at (h\<lparr>len := \<lambda>_. of_nat (length zs)\<rparr>) j zs"
    using assms(1) by (simp add: list_at_def linked_def)
  then have "list_at (h'\<lparr>len := \<lambda>_. of_nat (length zs)\<rparr>) j zs"
    by (rule list_at_frame) (simp_all add: assms(2,3))
  then show ?thesis by (simp add: list_at_def linked_def)
qed

lemma link_after_head:
  assumes "linked h i zs"
  obtains h' where "link_after (Head i) v h = Some h'" "linked h' i (fresh h # zs)"
    "val h' = (val h)(fresh h := v)" "fresh h' = Suc (fresh h)" "len h' = len h"
    "\<And>a. a \<noteq> Node (fresh h) \<Longrightarrow> a \<notin> set (spine i zs) \<Longrightarrow> nxt h' a = nxt h a \<and> prv h' a = prv h a"
proof -
  let ?n = "Node (fresh h)" and ?b = "ref_first i zs"
  let ?h' = "h\<lparr>nxt := (nxt h)(?n := ?b, Head i := ?n), prv := (prv h)(?n := Head i, ?b := ?n),
    val := (val h)(fresh h := v), fresh := Suc (fresh h)\<rparr>"
  have at0: "list_at (h\<lparr>len := \<lambda>_. of_nat (length zs)\<rparr>) i ([] @ zs)"
    using assms by (simp add: list_at_def linked_def)
  have hd: "nxt h (Head i) = ?b" using list_at_links(1) [OF at0] by (simp add: ref_last_def)
  have sp: "spine i zs = [] @ Head i # ?b # tl (map Node zs @ [Tail i])"
    by (simp add: spine_def ref_first_def split: list.split)
  have fr: "?n \<notin> set (spine i zs)" using assms by (auto simp: linked_def set_spine)
  have dist: "distinct (spine i zs)" using assms by (auto simp: linked_def intro: distinct_spine)
  have la: "link_after (Head i) v h = Some ?h'"
    using hd by (simp add: link_after_def Let_def)
  have "spine i (fresh h # zs) = [] @ Head i # ?n # ?b # tl (map Node zs @ [Tail i])"
    by (simp add: spine_def ref_first_def split: list.split)
  then have lk: "linked ?h' i (fresh h # zs)"
    using links_insert [of "nxt h" "prv h" "[]" "Head i" ?b "tl (map Node zs @ [Tail i])" ?n] dist fr assms sp
    by (auto simp: linked_def less_SucI)
  have "nxt ?h' a = nxt h a \<and> prv ?h' a = prv h a" if "a \<noteq> ?n" "a \<notin> set (spine i zs)" for a
    using that unfolding sp by auto
  then show thesis by (intro that [OF la lk]) simp_all
qed

text \<open>
  The cursor \<^verbatim>\<open>last\<close> stays at \<^verbatim>\<open>&head\<close>, so each copied node is linked in front of the
  previous ones: the copy holds the values in reverse order.
\<close>

lemma copy_from_at:
  assumes "i \<noteq> j" "linked h j (xs @ ys)" "linked h i zs" "set zs \<inter> set (xs @ ys) = {}"
  shows "\<exists>h' ws. copy_from j (Head i) (ref_first j ys) h = Some h' \<and> linked h' i ws \<and>
    contents h' ws = rev (contents h ys) @ contents h zs \<and> linked h' j (xs @ ys) \<and>
    contents h' (xs @ ys) = contents h (xs @ ys) \<and> len h' = len h"
  using assms
proof (induction ys arbitrary: xs zs h)
  case Nil
  then show ?case
    by (intro exI [of _ h] exI [of _ zs]) (subst copy_from.simps, simp add: ref_first_def contents_def)
next
  case (Cons n ys)
  obtain h1 where h1: "link_after (Head i) (val h n) h = Some h1" "linked h1 i (fresh h # zs)"
    "val h1 = (val h)(fresh h := val h n)" "fresh h1 = Suc (fresh h)" "len h1 = len h"
    and fr: "\<And>a. a \<noteq> Node (fresh h) \<Longrightarrow> a \<notin> set (spine i zs) \<Longrightarrow> nxt h1 a = nxt h a \<and> prv h1 a = prv h a"
    using link_after_head [OF Cons.prems(3)] by blast
  have lt: "\<forall>x\<in>set (xs @ n # ys) \<union> set zs. x < fresh h"
    using Cons.prems by (auto simp: linked_def)
  have sp: "a \<noteq> Node (fresh h) \<and> a \<notin> set (spine i zs)" if "a \<in> set (spine j (xs @ n # ys))" for a
    using that lt Cons.prems(1,4) by (auto simp: set_spine)
  have lj: "linked h1 j ((xs @ [n]) @ ys)"
    using linked_frame [OF Cons.prems(2), of h1] fr sp h1(4) by simp
  have "list_at (h1\<lparr>len := \<lambda>_. of_nat (length (xs @ n # ys))\<rparr>) j (xs @ n # ys)"
    using lj by (simp add: list_at_def linked_def)
  from nxt_node [OF this] have nx: "nxt h1 (Node n) = ref_first j ys" by simp
  have "set (fresh h # zs) \<inter> set ((xs @ [n]) @ ys) = {}" using Cons.prems(4) lt by auto
  from Cons.IH [OF Cons.prems(1) lj h1(2) this] obtain h' ws where
    ih: "copy_from j (Head i) (ref_first j ys) h1 = Some h'" "linked h' i ws"
      "contents h' ws = rev (contents h1 ys) @ contents h1 (fresh h # zs)"
      "linked h' j (xs @ n # ys)" "contents h' (xs @ n # ys) = contents h1 (xs @ n # ys)" "len h' = len h1"
    by auto
  have c: "contents h1 ks = contents h ks" if "set ks \<subseteq> set (xs @ n # ys) \<union> set zs" for ks
    using that lt h1(3) by (auto simp: contents_def)
  have cp: "copy_from j (Head i) (ref_first j (n # ys)) h = Some h'"
    using ih(1) h1(1) nx by (subst copy_from.simps) (simp add: ref_first_def)
  have "contents h1 zs = contents h zs" by (rule c) auto
  then have "contents h1 (fresh h # zs) = val h n # contents h zs"
    using h1(3) by (simp add: contents_def)
  moreover have "contents h1 ys = contents h ys" by (rule c) auto
  ultimately have "contents h' ws = rev (contents h (n # ys)) @ contents h zs"
    using ih(3) by (simp add: contents_def)
  then show ?case using cp ih h1(5) c [of "xs @ n # ys"] by (intro exI [of _ h'] exI [of _ ws]) auto
qed

lemma list_copy_reverses:
  assumes "i \<noteq> j" "list_at h j xs"
  shows "\<exists>h' ws. list_copy i j h = Some h' \<and> list_at h' i ws \<and> contents h' ws = rev (contents h xs) \<and>
    list_at h' j xs \<and> contents h' xs = contents h xs"
proof -
  let ?h2 = "(list_init i h)\<lparr>len := (len (list_init i h))(i := len (list_init i h) j)\<rparr>"
  have j: "linked ?h2 j ([] @ xs)"
    using assms by (auto simp: list_at_def intro!: linked_frame [of h] simp: list_init_def set_spine)
  have i: "linked ?h2 i []" by (simp add: linked_def list_init_def spine_def)
  have "list_at (?h2\<lparr>len := \<lambda>_. of_nat (length xs)\<rparr>) j ([] @ xs)"
    using j by (simp add: list_at_def linked_def)
  from list_at_links(1) [OF this] have hd: "nxt ?h2 (Head j) = ref_first j xs"
    by (simp add: ref_last_def)
  obtain h' ws where r: "copy_from j (Head i) (ref_first j xs) ?h2 = Some h'" "linked h' i ws"
    "contents h' ws = rev (contents ?h2 xs)" "linked h' j xs" "contents h' xs = contents ?h2 xs" "len h' = len ?h2"
    using copy_from_at [OF assms(1) j i] by (auto simp: contents_def)
  have c: "contents ?h2 xs = contents h xs" by (simp add: contents_def list_init_def)
  have "length ws = length xs" using arg_cong [OF r(3), of length] by (simp add: contents_def)
  then show ?thesis
    using r c hd assms by (intro exI [of _ h'] exI [of _ ws])
      (auto simp: list_copy_def Let_def list_at_def list_init_def)
qed

subsection \<open>Sorting\<close>

text \<open>
  The specification: stable insertion, each element before the first one it is smaller than.
\<close>

fun insort_by :: "('a \<Rightarrow> 'a \<Rightarrow> bool) \<Rightarrow> 'a \<Rightarrow> 'a list \<Rightarrow> 'a list" where
  "insort_by cmp x [] = [x]"
| "insort_by cmp x (y # ys) = (if cmp x y then x # y # ys else y # insort_by cmp x ys)"

definition sort_by :: "('a \<Rightarrow> 'a \<Rightarrow> bool) \<Rightarrow> 'a list \<Rightarrow> 'a list" where
  "sort_by cmp xs = fold (insort_by cmp) xs []"

lemma mset_insort_by [simp]: "mset (insort_by cmp x ys) = add_mset x (mset ys)"
  by (induction cmp x ys rule: insort_by.induct) auto

lemma sorted_insort_by: "sorted ys \<Longrightarrow> sorted (insort_by (<) (x::'a::linorder) ys)"
proof (induction ys)
  case (Cons y ys)
  have "set (insort_by (<) x ys) = insert x (set ys)"
    by (metis mset_insort_by set_mset_add_mset_insert set_mset_mset)
  with Cons show ?case by auto
qed simp

lemma sort_by_sorts:
  "mset (sort_by cmp xs) = mset xs" "sorted (sort_by (<) (ys::'a::linorder list))"
proof -
  have "mset (fold (insort_by cmp) xs zs) = mset xs + mset zs" for zs
    by (induction xs arbitrary: zs) auto
  then show "mset (sort_by cmp xs) = mset xs" by (simp add: sort_by_def)
  have "sorted zs \<Longrightarrow> sorted (fold (insort_by (<)) ys zs)" for zs
    by (induction ys arbitrary: zs) (auto simp: sorted_insort_by)
  then show "sorted (sort_by (<) ys)" by (simp add: sort_by_def)
qed

lemma linked_nxt_node: "linked h i (xs @ n # ys) \<Longrightarrow> nxt h (Node n) = ref_first i ys"
  using nxt_node [of "h\<lparr>len := \<lambda>_. of_nat (length (xs @ n # ys))\<rparr>" i xs n ys]
  by (simp add: list_at_def linked_def)

lemma linked_ends:
  assumes "linked h i (xs @ ys)"
  shows "nxt h (ref_last i xs) = ref_first i ys" "prv h (ref_first i ys) = ref_last i xs"
  using list_at_links [of "h\<lparr>len := \<lambda>_. of_nat (length (xs @ ys))\<rparr>" i xs ys] assms
  by (simp_all add: list_at_def linked_def)

lemma insert_pos_at:
  assumes "linked h i (xs @ ys)"
  shows "insert_pos cmp h i (Node c) (ref_first i ys) =
    Some (ref_first i (dropWhile (\<lambda>w. \<not> cmp (val h c) (val h w)) ys))"
  using assms
proof (induction ys arbitrary: xs)
  case Nil
  then show ?case by (subst insert_pos.simps) (simp add: ref_first_def)
next
  case (Cons n ys)
  then have "insert_pos cmp h i (Node c) (ref_first i ys) =
      Some (ref_first i (dropWhile (\<lambda>w. \<not> cmp (val h c) (val h w)) ys))"
    using Cons.IH [of "xs @ [n]"] by simp
  then show ?case using linked_nxt_node [OF Cons.prems]
    by (subst insert_pos.simps) (auto simp: ref_first_def)
qed

lemma insort_by_split:
  "insort_by cmp (f c) (map f ys) = map f (takeWhile (\<lambda>w. \<not> cmp (f c) (f w)) ys @ c #
     dropWhile (\<lambda>w. \<not> cmp (f c) (f w)) ys)"
  by (induction ys) auto

lemma relink_before_at:
  assumes "linked h i (xs @ ys)" "c \<notin> set (xs @ ys)" "c < fresh h"
  shows "linked (relink_before (Node c) (ref_first i ys) h) i (xs @ c # ys)"
    and "a \<noteq> Node c \<Longrightarrow> a \<notin> set (spine i (xs @ ys)) \<Longrightarrow>
      nxt (relink_before (Node c) (ref_first i ys) h) a = nxt h a"
    and "val (relink_before (Node c) (ref_first i ys) h) = val h"
    and "fresh (relink_before (Node c) (ref_first i ys) h) = fresh h"
    and "len (relink_before (Node c) (ref_first i ys) h) = len h"
proof -
  let ?a = "ref_last i xs" and ?b = "ref_first i ys"
  note pq = linked_ends [OF assms(1)]
  obtain as bs where sp: "spine i (xs @ ys) = as @ ?a # ?b # bs"
    "spine i (xs @ c # ys) = as @ ?a # Node c # ?b # bs"
    by (rule spine_split) blast
  have fr: "Node c \<notin> set (spine i (xs @ ys))" using assms(2) by (auto simp: set_spine)
  have dist: "distinct (spine i (xs @ ys))" using assms by (auto simp: linked_def intro: distinct_spine)
  have eq: "relink_before (Node c) ?b h =
      h\<lparr>nxt := (nxt h)(Node c := ?b, ?a := Node c), prv := (prv h)(Node c := ?a, ?b := Node c)\<rparr>"
    using pq fr sp by (auto simp: relink_before_def Let_def)
  show "linked (relink_before (Node c) ?b h) i (xs @ c # ys)"
    using links_insert [of "nxt h" "prv h" as ?a ?b bs "Node c"] dist fr assms
    by (auto simp: linked_def sp eq)
  show "a \<noteq> Node c \<Longrightarrow> a \<notin> set (spine i (xs @ ys)) \<Longrightarrow> nxt (relink_before (Node c) ?b h) a = nxt h a"
    by (auto simp: eq sp)
qed (auto simp: relink_before_def Let_def)

fun chain :: "(ref \<Rightarrow> ref) \<Rightarrow> ref \<Rightarrow> nat list \<Rightarrow> bool" where
  "chain n r [] \<longleftrightarrow> r = Null"
| "chain n r (y # ys) \<longleftrightarrow> r = Node y \<and> chain n (n (Node y)) ys"

lemma chain_cong: "(\<And>y. y \<in> set ys \<Longrightarrow> n (Node y) = n' (Node y)) \<Longrightarrow> chain n r ys \<longleftrightarrow> chain n' r ys"
  by (induction ys arbitrary: r) auto

lemma sort_from_at:
  assumes "linked h i xs" "chain (nxt h) r ys" "distinct ys" "set xs \<inter> set ys = {}" "\<forall>y\<in>set ys. y < fresh h"
  shows "\<exists>h' ws. sort_from cmp i r h = Some h' \<and> linked h' i ws \<and> mset ws = mset xs + mset ys \<and>
    contents h' ws = fold (insort_by cmp) (contents h ys) (contents h xs) \<and> val h' = val h \<and> len h' = len h"
  using assms
proof (induction ys arbitrary: xs h r)
  case Nil
  then show ?case
    by (intro exI [of _ h] exI [of _ xs]) (subst sort_from.simps, simp add: contents_def)
next
  case (Cons c ys)
  let ?p = "\<lambda>w. \<not> cmp (val h c) (val h w)"
  let ?t = "takeWhile ?p xs" and ?d = "dropWhile ?p xs"
  let ?h = "relink_before (Node c) (ref_first i ?d) h"
  have l: "linked h i (?t @ ?d)" "c \<notin> set (?t @ ?d)" "c < fresh h" using Cons.prems by auto
  note rb = relink_before_at [OF l]
  have r: "r = Node c" and ch: "chain (nxt h) (nxt h (Node c)) ys" using Cons.prems(2) by auto
  have hd: "nxt h (Head i) = ref_first i xs"
    using linked_ends(1) [of h i "[]" xs] Cons.prems(1) by (simp add: ref_last_def)
  have pos: "insert_pos cmp h i (Node c) (ref_first i xs) = Some (ref_first i ?d)"
    using insert_pos_at [of h i "[]" xs cmp c] Cons.prems(1) by simp
  have "chain (nxt ?h) (nxt h (Node c)) ys \<longleftrightarrow> chain (nxt h) (nxt h (Node c)) ys"
    using Cons.prems(3,4) by (intro chain_cong rb(2)) (auto simp: set_spine)
  then have "\<exists>h' ws. sort_from cmp i (nxt h (Node c)) ?h = Some h' \<and> linked h' i ws \<and>
      mset ws = mset (?t @ c # ?d) + mset ys \<and>
      contents h' ws = fold (insort_by cmp) (contents ?h ys) (contents ?h (?t @ c # ?d)) \<and>
      val h' = val ?h \<and> len h' = len ?h"
    using Cons.prems ch by (intro Cons.IH rb(1)) (auto simp: rb(4) dest: set_takeWhileD set_dropWhileD)
  moreover have "contents ?h (?t @ c # ?d) = insort_by cmp (val h c) (contents h xs)"
    unfolding contents_def rb(3) by (rule insort_by_split [symmetric])
  moreover have "mset (?t @ c # ?d) = add_mset c (mset xs)"
    by (metis mset.simps(2) mset_append takeWhile_dropWhile_id union_mset_add_mset_right)
  ultimately show ?case
    using pos hd r rb(3,5) by (subst sort_from.simps) (auto simp: contents_def)
qed

lemma chain_of_linked:
  assumes "linked h i (as @ ys)" "ys \<noteq> []"
  shows "chain ((nxt h)(Node (last ys) := Null)) (ref_first i ys) ys"
  using assms
proof (induction ys arbitrary: as)
  case (Cons y ys)
  show ?case
  proof (cases "ys = []")
    case False
    have "y \<noteq> last ys" using Cons.prems False by (auto simp: linked_def)
    then show ?thesis
      using Cons.IH [of "as @ [y]"] Cons.prems False linked_nxt_node [OF Cons.prems(1)]
      by (auto simp: ref_first_def)
  qed (simp add: ref_first_def)
qed simp

lemma list_sort_at:
  assumes "list_at h i xs" "xs \<noteq> []"
  shows "\<exists>h' ws. list_sort cmp i h = Some h' \<and> list_at h' i ws \<and> mset ws = mset xs \<and>
    contents h' ws = sort_by cmp (contents h xs) \<and> val h' = val h"
proof -
  have lk: "linked h i ([] @ xs)" "linked h i (xs @ [])" and len: "len h i = of_nat (length xs)"
    using assms by (auto simp: list_at_def)
  let ?h1 = "h\<lparr>nxt := (nxt h)(Node (last xs) := Null)\<rparr>"
  let ?h2 = "?h1\<lparr>nxt := (nxt ?h1)(Head i := Tail i), prv := (prv h)(Tail i := Head i)\<rparr>"
  have hd: "nxt h (Head i) = ref_first i xs" "prv h (Tail i) = Node (last xs)"
    using linked_ends(1) [OF lk(1)] linked_ends(2) [OF lk(2)] assms(2)
    by (simp_all add: ref_last_def ref_first_def)
  have "chain (nxt ?h2) (ref_first i xs) xs \<longleftrightarrow> chain (nxt ?h1) (ref_first i xs) xs"
    by (rule chain_cong) auto
  then have ch: "chain (nxt ?h2) (ref_first i xs) xs"
    using chain_of_linked [OF lk(1) assms(2)] by simp
  have e: "linked ?h2 i []" and d: "distinct xs" "\<forall>y\<in>set xs. y < fresh ?h2"
    using lk(1) by (auto simp: linked_def spine_def)
  obtain h' ws where r: "sort_from cmp i (ref_first i xs) ?h2 = Some h'" "linked h' i ws"
    "mset ws = mset [] + mset xs" "contents h' ws = fold (insort_by cmp) (contents ?h2 xs) (contents ?h2 [])"
    "val h' = val ?h2" "len h' = len ?h2"
    using sort_from_at [OF e ch d(1) _ d(2), of cmp] by auto
  have "length ws = length xs" using r(3) mset_eq_length [of ws xs] by simp
  then show ?thesis
    using r hd len by (intro exI [of _ h'] exI [of _ ws])
      (auto simp: list_sort_def Let_def list_at_def sort_by_def contents_def)
qed

subsection \<open>Moving\<close>

lemma links_ends:
  assumes "ms \<noteq> []"
  shows "links n p (a # ms @ [b]) \<longleftrightarrow>
    n a = hd ms \<and> p (hd ms) = a \<and> links n p ms \<and> n (last ms) = b \<and> p b = last ms"
proof -
  obtain m ms' where m: "ms = m # ms'" using assms by (cases ms) auto
  obtain ks k where k: "ms = ks @ [k]" using assms by (cases ms rule: rev_cases) auto
  have "links n p (ms @ [b]) \<longleftrightarrow> links n p ms \<and> n (last ms) = b \<and> p b = last ms"
    using links_append [of n p ks k "[b]"] k by simp
  then show ?thesis using m by simp
qed

text \<open>Moving a list that holds at least one node transfers the sequence.\<close>

lemma list_move_at:
  assumes "i \<noteq> j" "list_at h j xs" "xs \<noteq> []"
  shows "\<exists>h'. list_move i j h = Some h' \<and> list_at h' i xs \<and> list_at h' j [] \<and> val h' = val h"
proof -
  let ?ms = "map Node xs"
  have lk: "links (nxt h) (prv h) (Head j # ?ms @ [Tail j])" and d: "distinct xs" "\<forall>x\<in>set xs. x < fresh h"
    and e: "prv h (Head j) = Null" "nxt h (Tail j) = Null" "len h j = of_nat (length xs)"
    using assms(2) by (auto simp: list_at_def linked_def spine_def)
  have "?ms \<noteq> []" using assms(3) by simp
  note en = links_ends [OF this]
  have hl: "nxt h (Head j) = Node (hd xs)" "prv h (Tail j) = Node (last xs)" "links (nxt h) (prv h) ?ms"
    using lk assms(3) unfolding en by (simp_all add: hd_map last_map)
  let ?n = "(nxt h)(Head i := Node (hd xs), Tail i := Null, Node (last xs) := Tail i, Head j := Tail j)"
  let ?p = "(prv h)(Head i := Null, Tail i := Node (last xs), Node (hd xs) := Head i, Tail j := Head j)"
  let ?h' = "h\<lparr>nxt := ?n, prv := ?p, len := (len h)(i := len h j, j := 0)\<rparr>"
  have "list_move i j h = Some ?h'"
    using hl assms(1) by (simp add: list_move_def Let_def fun_upd_twist)
  moreover have "links ?n ?p ?ms \<longleftrightarrow> links (nxt h) (prv h) ?ms"
  proof (rule links_cong)
    have l: "last xs \<notin> set (butlast xs)" using d(1) assms(3) by (cases xs rule: rev_cases) auto
    have f: "hd xs \<notin> set (tl xs)" using d(1) assms(3) by (cases xs) auto
    show "\<And>a. a \<in> set (butlast ?ms) \<Longrightarrow> ?n a = nxt h a" using l by (auto simp flip: map_butlast)
    show "\<And>a. a \<in> set (tl ?ms) \<Longrightarrow> ?p a = prv h a" using f by (auto simp flip: map_tl)
  qed
  with hl(3) have "links ?n ?p (Head i # ?ms @ [Tail i])"
    unfolding en using assms(1,3) by (simp add: hd_map last_map)
  then have "list_at ?h' i xs" using d e assms(1) by (auto simp: list_at_def linked_def spine_def)
  moreover have "list_at ?h' j []" using e assms(1) by (auto simp: list_at_def linked_def spine_def)
  ultimately show ?thesis by (intro exI [of _ ?h']) simp
qed

section \<open>The interface\<close>

text \<open>
  What the kernel's clients rely on: a container that holds a sequence, to which values are
  appended, from which the first is dropped, and that can be searched. \<open>holds\<close> relates a
  state to the sequence; an operation that dereferences null would be \<open>None\<close>.
\<close>

locale sequence =
  fixes holds :: "'s \<Rightarrow> 'v list \<Rightarrow> bool"
    and push_back :: "'v \<Rightarrow> 's \<Rightarrow> 's option"
    and pop_front :: "'s \<Rightarrow> 's option"
    and contains :: "'v \<Rightarrow> 's \<Rightarrow> bool option"
  assumes push_back: "holds s vs \<Longrightarrow> \<exists>s'. push_back v s = Some s' \<and> holds s' (vs @ [v])"
    and pop_front: "holds s vs \<Longrightarrow> \<exists>s'. pop_front s = Some s' \<and> holds s' (tl vs)"
    and contains: "holds s vs \<Longrightarrow> contains v s = Some (v \<in> set vs)"
begin

fun push_all :: "'v list \<Rightarrow> 's \<Rightarrow> 's option" where
  "push_all [] s = Some s"
| "push_all (v # vs) s = Option.bind (push_back v s) (push_all vs)"

lemma push_all: "holds s vs \<Longrightarrow> \<exists>s'. push_all ws s = Some s' \<and> holds s' (vs @ ws)"
proof (induction ws arbitrary: s vs)
  case (Cons w ws)
  obtain s1 where "push_back w s = Some s1" "holds s1 (vs @ [w])"
    using push_back [OF Cons.prems] by blast
  then show ?case using Cons.IH [of s1 "vs @ [w]"] by simp
qed simp

lemma pushed_found:
  assumes "holds s vs" "v \<in> set ws"
  shows "\<exists>s'. push_all ws s = Some s' \<and> contains v s' = Some True"
  using push_all [OF assms(1), of ws] contains assms(2) by fastforce

end

definition list_holds :: "nat \<Rightarrow> 'a lheap \<Rightarrow> 'a list \<Rightarrow> bool" where
  "list_holds i h vs \<longleftrightarrow> (\<exists>xs. list_at h i xs \<and> contents h xs = vs)"

lemma list_contains_at: "list_at h i xs \<Longrightarrow> list_contains i v h = Some (v \<in> set (contents h xs))"
  using contains_from_at [of h i "[]" xs v] list_begin_at [of h i xs]
  by (simp add: list_contains_def list_begin_def)

interpretation dl: sequence "list_holds i" "list_push_back i" "list_pop_front i" "list_contains i" for i
proof unfold_locales
  fix h :: "'a lheap" and vs v
  assume "list_holds i h vs"
  then obtain xs where xs: "list_at h i xs" "contents h xs = vs" by (auto simp: list_holds_def)
  show "\<exists>s'. list_push_back i v h = Some s' \<and> list_holds i s' (vs @ [v])"
    using list_push_back_at [OF xs(1), of v] xs(2) unfolding list_holds_def by metis
  show "\<exists>s'. list_pop_front i h = Some s' \<and> list_holds i s' (tl vs)"
    using list_pop_front_at [OF xs(1)] xs(2) unfolding list_holds_def by metis
  show "list_contains i v h = Some (v \<in> set vs)" using list_contains_at [OF xs(1)] xs(2) by simp
qed

lemma list_clear_at:
  assumes "list_at h i xs"
  shows "\<exists>h'. list_clear i h = Some (h', xs) \<and> list_at h' i []"
  using assms free_from_at [of h i "[]" xs] list_begin_at [OF assms]
  by (auto simp: list_clear_def list_begin_def list_at_def linked_def spine_def)

section \<open>Properties\<close>

definition sample_heap :: "nat lheap" where
  "sample_heap = \<lparr>nxt = (\<lambda>_. Null)(Head 0 := Node 0, Node 0 := Node 1, Node 1 := Node 2, Node 2 := Tail 0),
     prv = (\<lambda>_. Null)(Tail 0 := Node 2, Node 2 := Node 1, Node 1 := Node 0, Node 0 := Head 0),
     val = (\<lambda>_. 0)(0 := 7, 1 := 3, 2 := 5), fresh = 3, len = (\<lambda>_. 0)(0 := 3)\<rparr>"

lemma sample_heap_at: "list_at sample_heap 0 [0, 1, 2]" "contents sample_heap [0, 1, 2] = [7, 3, 5]"
  by (simp_all add: sample_heap_def list_at_def linked_def spine_def contents_def)

text \<open>\<^verbatim>\<open>List::insert\<close> and \<^verbatim>\<open>List::erase\<close>. On a well-formed list, inserting before a position
  splices the new value into the sequence there, with every \<^verbatim>\<open>next\<close> and \<^verbatim>\<open>prev\<close> pointer and the
  length consistent; erasing the returned iterator restores the sequence and yields the
  iterator to the element that follows.\<close>
theorem list_insert_erase:
  assumes "list_at h i (xs @ ys)"
  shows "\<exists>h' n. list_insert i (ref_first i ys) v h = Some (h', Node n) \<and>
    list_at h' i (xs @ n # ys) \<and> contents h' (xs @ n # ys) = contents h xs @ v # contents h ys \<and>
    (\<exists>h''. list_erase i (Node n) h' = Some (h'', ref_first i ys) \<and> list_at h'' i (xs @ ys) \<and>
       contents h'' (xs @ ys) = contents h (xs @ ys))"
proof -
  obtain h' where h': "list_insert i (ref_first i ys) v h = Some (h', Node (fresh h))"
    "list_at h' i (xs @ fresh h # ys)" "val h' = (val h)(fresh h := v)"
    by (rule list_insert_at [OF assms])
  obtain h'' where h'': "list_erase i (Node (fresh h)) h' = Some (h'', ref_first i ys)"
    "list_at h'' i (xs @ ys)" "val h'' = val h'"
    by (rule list_erase_at [OF h'(2)])
  have c: "contents h' (xs @ ys) = contents h (xs @ ys)" by (rule contents_fresh [OF assms h'(3)])
  then have "contents h' (xs @ fresh h # ys) = contents h xs @ v # contents h ys"
    by (simp add: contents_def h'(3))
  moreover have "contents h'' (xs @ ys) = contents h (xs @ ys)"
    using c h''(3) by (simp add: contents_def)
  ultimately show ?thesis using h'(1,2) h''(1,2) by blast
qed

theorem list_insert_erase_witness:
  "\<exists>h' n. list_insert 0 (Node 1) 9 sample_heap = Some (h', Node n) \<and> contents h' [0, n, 1, 2] = [7, 9, 3, 5]"
  using list_insert_erase [of sample_heap 0 "[0]" "[1, 2]" 9] sample_heap_at
  by (auto simp: ref_first_def contents_def sample_heap_def)



text \<open>The copy constructor of \<^verbatim>\<open>List\<close>. Copying terminates, leaves the original as it was and
  gives a well-formed list of the same length, but in reverse order: the cursor \<^verbatim>\<open>last\<close> is
  never advanced, so every element is linked in directly behind \<^verbatim>\<open>head\<close>.\<close>
theorem list_copy_is_reversed:
  assumes "i \<noteq> j" "list_at h j xs"
  shows "\<exists>h' ws. list_copy i j h = Some h' \<and> list_at h' i ws \<and> contents h' ws = rev (contents h xs) \<and>
    list_at h' j xs \<and> contents h' xs = contents h xs"
  by (rule list_copy_reverses [OF assms])

theorem list_copy_is_reversed_witness:
  "\<exists>h' ws. list_copy 1 0 sample_heap = Some h' \<and> list_at h' 1 ws \<and> contents h' ws = [5, 3, 7]"
  using list_copy_is_reversed [of 1 0, OF _ sample_heap_at(1)] sample_heap_at(2) by auto

text \<open>\<^verbatim>\<open>List::sort\<close> and \<^verbatim>\<open>List::List(List&&)\<close> on an empty list corrupt it: sorting links the tail
  sentinel to itself, so that the next \<^verbatim>\<open>push_back\<close> is not reachable from \<^verbatim>\<open>head\<close> although the
  length says one; moving from an empty list leaves \<^verbatim>\<open>head.next\<close> at the other list's sentinel.\<close>
theorem list_empty_corrupted:
  assumes "list_at h i []" "i \<noteq> j" "list_at h j []"
  shows "(\<exists>h1 h2. list_sort cmp i h = Some h1 \<and> prv h1 (Tail i) = Tail i \<and> list_push_back i v h1 = Some h2 \<and>
      list_size i h2 = 1 \<and> list_begin i h2 = list_end i h2) \<and>
    (\<exists>h3. list_move j i h = Some h3 \<and> list_begin j h3 = Tail i \<and> list_begin j h3 \<noteq> list_end j h3)"
proof -
  have n: "nxt h (Head i) = Tail i" "prv h (Tail i) = Head i" "nxt h (Tail i) = Null" "len h i = 0"
    using assms by (auto simp: list_at_def linked_def spine_def)
  show ?thesis
    using n assms(2)
    by (simp add: list_sort_def Let_def sort_from.simps insert_pos.simps relink_before_def list_push_back_def
        list_insert_def list_end_def list_size_def list_begin_def list_move_def)
qed

theorem list_empty_corrupted_witness:
  "\<exists>h1. list_sort (<) 0 (list_init 1 (list_init 0 sample_heap)) = Some h1 \<and> prv h1 (Tail 0) = Tail 0"
  using list_empty_corrupted [of "list_init 1 (list_init 0 sample_heap)" 0 1 "(<)" 4]
  by (simp add: list_at_def linked_def spine_def list_init_def) blast

end
