(* ===== verification/Physical.thy ===== *)
theory Physical
  imports Range_List
begin

unbundle bit_operations_syntax

text \<open>
  The physical memory manager (\<^verbatim>\<open>kernel/src/memory/physical.cpp\<close>): one status bit per 4 KiB
  page, kept in an array of 4 GiB status structures of \<open>0x20000\<close> bytes each; \<^verbatim>\<open>palloc\<close> searches
  for a run of free pages and marks it, \<^verbatim>\<open>pfree\<close> clears the bits again, \<^verbatim>\<open>init_pmm\<close> builds the
  state from the bootloader's memory map.

  The array is a function from flat byte indices to bytes together with its length in status
  structures. An access outside the array is undefined behaviour and is \<open>None\<close>. The spin lock
  \<^verbatim>\<open>pmm_lock\<close> is held for the whole of \<^verbatim>\<open>palloc\<close> and \<^verbatim>\<open>pfree\<close>, so each is one atomic step.
  The search loop of \<^verbatim>\<open>palloc\<close> has no bound of its own; \<open>None\<close> also stands for not returning.
\<close>

section \<open>State and operations\<close>

record pmm =
  gb_page_count :: u32
  used_bitmap :: "nat \<Rightarrow> u8"
  pmm_first_potential_page :: physaddr_t
  freeable_mem :: "physaddr_t Range list"
  allocated_ppages :: size_t

definition status_index :: "u64 \<Rightarrow> nat" where
  "status_index address =
     (let a = drop_bit 12 address
      in unat (drop_bit 20 a) * 0x20000 + unat (drop_bit 3 a AND 0x1FFFFFFF))"

definition status_bit :: "u64 \<Rightarrow> nat" where
  "status_bit address = unat (drop_bit 12 address AND 7)"

definition in_status_array :: "pmm \<Rightarrow> u64 \<Rightarrow> bool" where
  "in_status_array p address \<longleftrightarrow> status_index address < unat (gb_page_count p) * 0x20000"

definition set_page_status :: "u64 \<Rightarrow> u8 \<Rightarrow> pmm \<Rightarrow> pmm option" where
  "set_page_status address status p =
     (let i = status_index address; bit_offset = status_bit address
      in if \<not> in_status_array p address then None
         else
           let b1 = used_bitmap p i AND NOT (push_bit bit_offset 1);
               b2 = b1 OR push_bit bit_offset status
           in Some (p\<lparr>used_bitmap := (used_bitmap p)(i := b2)\<rparr>))"

definition is_page_used :: "u64 \<Rightarrow> pmm \<Rightarrow> bool option" where
  "is_page_used address p =
     (if \<not> in_status_array p address then None
      else Some (drop_bit (status_bit address) (used_bitmap p (status_index address)) AND 1 \<noteq> 0))"

text \<open>The inner loop of \<^verbatim>\<open>palloc\<close>: the first page of the candidate block that is in use.\<close>

function scan_block :: "pmm \<Rightarrow> physaddr_t \<Rightarrow> nat \<Rightarrow> nat \<Rightarrow> nat option option" where
  "scan_block p addr i n =
     (if i < n then
        (case is_page_used (addr + push_bit 12 (of_nat i)) p of
           None \<Rightarrow> None
         | Some True \<Rightarrow> Some (Some i)
         | Some False \<Rightarrow> scan_block p addr (Suc i) n)
      else Some None)"
  by pat_completeness auto
termination by (relation "measure (\<lambda>(p, addr, i, n). n - i)") auto

partial_function (option) find_block :: "pmm \<Rightarrow> nat \<Rightarrow> physaddr_t \<Rightarrow> physaddr_t option" where
  "find_block p n addr =
     (case scan_block p addr 0 n of
        None \<Rightarrow> None
      | Some None \<Rightarrow> Some addr
      | Some (Some i) \<Rightarrow> find_block p n (addr + push_bit 12 (of_nat (Suc i))))"

function mark_pages :: "physaddr_t \<Rightarrow> nat \<Rightarrow> nat \<Rightarrow> u8 \<Rightarrow> pmm \<Rightarrow> pmm option" where
  "mark_pages addr i n status p =
     (if i < n then
        Option.bind (set_page_status (addr + push_bit 12 (of_nat i)) status p) (mark_pages addr (Suc i) n status)
      else Some p)"
  by pat_completeness auto
termination by (relation "measure (\<lambda>(addr, i, n, status, p). n - i)") auto

definition palloc :: "size_t \<Rightarrow> pmm \<Rightarrow> (pmm \<times> physaddr_t) option" where
  "palloc page_count p =
     (case find_block p (unat page_count) (pmm_first_potential_page p) of
        None \<Rightarrow> None
      | Some addr \<Rightarrow>
          (case mark_pages addr 0 (unat page_count) 1 p of
             None \<Rightarrow> None
           | Some p1 \<Rightarrow>
               let p2 = (if addr = pmm_first_potential_page p1
                         then p1\<lparr>pmm_first_potential_page := pmm_first_potential_page p1 + push_bit 12 page_count\<rparr>
                         else p1)
               in Some (p2\<lparr>allocated_ppages := allocated_ppages p2 + page_count\<rparr>, addr)))"

definition pfree :: "physaddr_t \<Rightarrow> size_t \<Rightarrow> pmm \<Rightarrow> pmm option" where
  "pfree addr0 page_count p =
     (let addr = addr0 AND NOT 0xFFF
      in case mark_pages addr 0 (unat page_count) 0 p of
           None \<Rightarrow> None
         | Some p1 \<Rightarrow>
             let p2 = (if addr < pmm_first_potential_page p1 then p1\<lparr>pmm_first_potential_page := addr\<rparr> else p1)
             in Some (p2\<lparr>allocated_ppages := allocated_ppages p2 - page_count\<rparr>))"

definition allocated_ppage_count :: "pmm \<Rightarrow> size_t" where
  "allocated_ppage_count p = allocated_ppages p"

subsection \<open>Initialisation from the memory map\<close>

record memmap_entry =
  mm_base :: u64
  mm_length :: u64
  mm_type :: u32

definition STIVALE2_MEMMAP_TYPE_USABLE :: u32 where "STIVALE2_MEMMAP_TYPE_USABLE = 1"
definition STIVALE2_MEMMAP_TYPE_RESERVED :: u32 where "STIVALE2_MEMMAP_TYPE_RESERVED = 2"
definition STIVALE2_MEMMAP_TYPE_BOOTLOADER_RECLAIMABLE :: u32 where
  "STIVALE2_MEMMAP_TYPE_BOOTLOADER_RECLAIMABLE = 0x1000"

lemmas memmap_types = STIVALE2_MEMMAP_TYPE_USABLE_def STIVALE2_MEMMAP_TYPE_RESERVED_def
  STIVALE2_MEMMAP_TYPE_BOOTLOADER_RECLAIMABLE_def

fun max_address :: "memmap_entry list \<Rightarrow> physaddr_t \<Rightarrow> physaddr_t" where
  "max_address [] m = m"
| "max_address (e # es) m =
     max_address es (if m < mm_base e \<and> mm_type e \<noteq> STIVALE2_MEMMAP_TYPE_RESERVED then mm_base e else m)"

definition count_4gb :: "physaddr_t \<Rightarrow> u32" where
  "count_4gb m = ucast (drop_bit 32 m + (if m AND 0xFFFFFFFF = 0 then 0 else 1))"

text \<open>\<^verbatim>\<open>for(page = 0; page < length; page += 4096) set_page_status(base + page, status)\<close>\<close>

partial_function (option) mark_region :: "u64 \<Rightarrow> u64 \<Rightarrow> u8 \<Rightarrow> u64 \<Rightarrow> pmm \<Rightarrow> pmm option" where
  "mark_region base len status page p =
     (if page < len then
        Option.bind (set_page_status (base + page) status p) (mark_region base len status (page + 4096))
      else Some p)"

fun add_regions :: "memmap_entry list \<Rightarrow> pmm \<Rightarrow> pmm option" where
  "add_regions [] p = Some p"
| "add_regions (e # es) p =
     (if mm_type e = STIVALE2_MEMMAP_TYPE_USABLE then
        let p1 = (if pmm_first_potential_page p > mm_base e
                  then p\<lparr>pmm_first_potential_page := mm_base e\<rparr> else p)
        in Option.bind (mark_region (mm_base e) (mm_length e) 0 0 p1) (add_regions es)
      else if mm_type e = STIVALE2_MEMMAP_TYPE_BOOTLOADER_RECLAIMABLE then
        add_regions es (p\<lparr>freeable_mem := range_add (mm_base e) (mm_base e + mm_length e) (freeable_mem p)\<rparr>)
      else add_regions es p)"

definition init_pmm :: "memmap_entry list \<Rightarrow> pmm option" where
  "init_pmm memory_map =
     (let p0 = \<lparr>gb_page_count = count_4gb (max_address memory_map 0), used_bitmap = (\<lambda>_. 0xFF),
                pmm_first_potential_page = -1, freeable_mem = [], allocated_ppages = 0\<rparr>
      in Option.bind (add_regions memory_map p0) (\<lambda>p1.
         Option.bind (mark_region 0 (1024 * 1024) 1 0 p1) (\<lambda>p2.
         Some (p2\<lparr>freeable_mem := range_add 0 (1024 * 1024) (freeable_mem p2)\<rparr>))))"

text \<open>\<^verbatim>\<open>pmm_release_bootloader_resources\<close>: every reclaimable range goes back to the free pages.\<close>

fun release_ranges :: "physaddr_t Range list \<Rightarrow> pmm \<Rightarrow> pmm option" where
  "release_ranges [] p = Some p"
| "release_ranges (r # rs) p =
     (let n = drop_bit 12 (r_end r - r_start r)
      in Option.bind (pfree (r_start r) n (p\<lparr>allocated_ppages := allocated_ppages p + n\<rparr>)) (release_ranges rs))"

definition pmm_release_bootloader_resources :: "pmm \<Rightarrow> pmm option" where
  "pmm_release_bootloader_resources p =
     map_option (\<lambda>q. q\<lparr>freeable_mem := []\<rparr>) (release_ranges (freeable_mem p) p)"

section \<open>Page numbers\<close>

text \<open>The address of page \<open>n\<close>, and the status of a page by number.\<close>

definition page_addr :: "nat \<Rightarrow> physaddr_t" where
  "page_addr n = of_nat (n * 4096)"

definition page_used :: "pmm \<Rightarrow> nat \<Rightarrow> bool" where
  "page_used p n \<longleftrightarrow> bit (used_bitmap p (n div 8)) (n mod 8)"

lemma page_addr_add: "page_addr n + push_bit 12 (of_nat i) = page_addr (n + i)"
  by (simp add: page_addr_def push_bit_eq_mult algebra_simps)

lemma page_addr_aligned: "page_addr a AND NOT 0xFFF = page_addr a"
proof -
  have "page_addr a = push_bit 12 (of_nat a)" by (simp add: page_addr_def push_bit_eq_mult mult.commute)
  moreover have "(0xFFF :: u64) = mask 12" by (simp add: mask_eq_exp_minus_1)
  ultimately show ?thesis by (auto simp: bit_eq_iff bit_simps)
qed

lemma unat_page_addr: "n < 2 ^ 52 \<Longrightarrow> unat (page_addr n) = n * 4096"
  unfolding page_addr_def by (rule unat_of_nat_less) simp

lemma drop_page_addr: "n < 2 ^ 52 \<Longrightarrow> drop_bit 12 (page_addr n) = of_nat n"
  by (rule word_unat_eq_iff [THEN iffD2]) (simp add: unat_drop_div unat_page_addr unat_of_nat_less)

lemma status_page_nat:
  assumes "n < 2 ^ 52"
  shows "status_index (page_addr n) = n div 2 ^ 20 * 0x20000 + (n div 8) mod 2 ^ 29"
    and "status_bit (page_addr n) = n mod 8"
proof -
  have d: "drop_bit 12 (page_addr n) = of_nat n" using assms by (rule drop_page_addr)
  have u: "unat (of_nat n :: u64) = n" using assms by (simp add: unat_of_nat_less)
  show "status_index (page_addr n) = n div 2 ^ 20 * 0x20000 + (n div 8) mod 2 ^ 29"
    by (simp add: status_index_def d Let_def and_low_mask unat_drop_div unat_take_mod u)
  show "status_bit (page_addr n) = n mod 8"
    by (simp add: status_bit_def d and_low_mask unat_take_mod u)
qed

lemma in_status_array_1:
  assumes "n < 2 ^ 52" "gb_page_count p = 1"
  shows "in_status_array p (page_addr n) \<longleftrightarrow> n < 2 ^ 20"
proof -
  have "131072 \<le> n div 1048576 * 131072" if "1048576 \<le> n"
    using that div_le_mono [of 1048576 n 1048576] by simp
  moreover have "n div 1048576 * 131072 + n div 8 mod 536870912 < 131072" if "n < 1048576"
    using that by simp
  ultimately show ?thesis
    using assms by (force simp: in_status_array_def status_page_nat not_less)
qed

lemma status_page_low:
  assumes "n < 2 ^ 20"
  shows "status_index (page_addr n) = n div 8" "status_bit (page_addr n) = n mod 8"
  using assms by (simp_all add: status_page_nat)

lemma bit_word8_less [simp]: "n mod 8 < LENGTH(8)" by simp

lemma set_bit_byte:
  fixes b s :: u8
  assumes "k < 8"
  shows "bit ((b AND NOT (push_bit k 1)) OR push_bit k s) j \<longleftrightarrow>
    (if j = k then bit s 0 else bit b j \<or> (k < j \<and> j < 8 \<and> bit s (j - k)))"
  using assms by (auto simp: bit_simps dest: bit_imp_le_length)

lemma is_page_used_low:
  assumes "gb_page_count p = 1" "n < 2 ^ 52"
  shows "is_page_used (page_addr n) p = (if n < 2 ^ 20 then Some (page_used p n) else None)"
proof -
  have "drop_bit k b AND 1 \<noteq> 0 \<longleftrightarrow> bit b k" for k and b :: u8
    by (simp add: bit_iff_odd_drop_bit and_one_eq odd_iff_mod_2_eq_one)
  then show ?thesis
    using assms by (simp add: is_page_used_def in_status_array_1 status_page_low page_used_def)
qed

lemma set_page_status_low:
  assumes "gb_page_count p = 1" "n < 2 ^ 52" "s = 0 \<or> s = 1"
  shows "n \<ge> 2 ^ 20 \<Longrightarrow> set_page_status (page_addr n) s p = None"
    and "n < 2 ^ 20 \<Longrightarrow> \<exists>bm. set_page_status (page_addr n) s p = Some (p\<lparr>used_bitmap := bm\<rparr>) \<and>
      (\<forall>m. page_used (p\<lparr>used_bitmap := bm\<rparr>) m \<longleftrightarrow> (if m = n then s = 1 else page_used p m))"
proof -
  show "n \<ge> 2 ^ 20 \<Longrightarrow> set_page_status (page_addr n) s p = None"
    using assms by (simp add: set_page_status_def in_status_array_1)
  assume n: "n < 2 ^ 20"
  let ?b = "(used_bitmap p (n div 8) AND NOT (push_bit (n mod 8) 1)) OR push_bit (n mod 8) s"
  let ?bm = "(used_bitmap p)(n div 8 := ?b)"
  have "set_page_status (page_addr n) s p = Some (p\<lparr>used_bitmap := ?bm\<rparr>)"
    using n assms by (simp add: set_page_status_def in_status_array_1 status_page_low Let_def)
  moreover have "page_used (p\<lparr>used_bitmap := ?bm\<rparr>) m \<longleftrightarrow> (if m = n then s = 1 else page_used p m)" for m
  proof -
    have "m = n \<longleftrightarrow> m div 8 = n div 8 \<and> m mod 8 = n mod 8" by (metis div_mult_mod_eq)
    moreover have "bit s (j - n mod 8) = False" if "n mod 8 < j" for j
      using assms(3) that by (auto simp: bit_1_iff)
    ultimately show ?thesis
      using assms(3) set_bit_byte [of "n mod 8" "used_bitmap p (n div 8)" s "m mod 8"]
      by (auto simp: page_used_def)
  qed
  ultimately show "\<exists>bm. set_page_status (page_addr n) s p = Some (p\<lparr>used_bitmap := bm\<rparr>) \<and>
      (\<forall>m. page_used (p\<lparr>used_bitmap := bm\<rparr>) m \<longleftrightarrow> (if m = n then s = 1 else page_used p m))"
    by blast
qed

section \<open>Searching and marking\<close>

declare scan_block.simps [simp del] mark_pages.simps [simp del]

lemma scan_block_low:
  assumes "gb_page_count p = 1" "a + i \<le> 2 ^ 20" "i \<le> n"
  shows "case scan_block p (page_addr a) i n of
      None \<Rightarrow> 2 ^ 20 < a + n
    | Some None \<Rightarrow> \<forall>k\<in>{i..<n}. a + k < 2 ^ 20 \<and> \<not> page_used p (a + k)
    | Some (Some j) \<Rightarrow> i \<le> j \<and> j < n \<and> a + j < 2 ^ 20 \<and> page_used p (a + j)"
  using assms
proof (induction "n - i" arbitrary: i)
  case 0
  then show ?case by (simp add: scan_block.simps)
next
  case (Suc d)
  then have "i < n" by simp
  have u: "is_page_used (page_addr a + push_bit 12 (of_nat i)) p =
      (if a + i < 2 ^ 20 then Some (page_used p (a + i)) else None)"
    using Suc \<open>i < n\<close> by (simp add: page_addr_add is_page_used_low)
  have split: "{i..<n} = insert i {Suc i..<n}" using \<open>i < n\<close> by auto
  show ?case
  proof (cases "a + i < 2 ^ 20 \<and> \<not> page_used p (a + i)")
    case True
    then have "scan_block p (page_addr a) i n = scan_block p (page_addr a) (Suc i) n"
      using u \<open>i < n\<close> by (simp add: scan_block.simps [of p _ i])
    moreover have "case scan_block p (page_addr a) (Suc i) n of
        None \<Rightarrow> 2 ^ 20 < a + n
      | Some None \<Rightarrow> \<forall>k\<in>{Suc i..<n}. a + k < 2 ^ 20 \<and> \<not> page_used p (a + k)
      | Some (Some j) \<Rightarrow> Suc i \<le> j \<and> j < n \<and> a + j < 2 ^ 20 \<and> page_used p (a + j)"
      using Suc \<open>i < n\<close> True by (intro Suc.hyps(1)) auto
    ultimately show ?thesis using True split by (auto split: option.splits)
  next
    case False
    then show ?thesis
      using u \<open>i < n\<close> by (auto simp: scan_block.simps [of p _ i] split: bool.splits)
  qed
qed

definition free_block :: "pmm \<Rightarrow> nat \<Rightarrow> nat \<Rightarrow> bool" where
  "free_block p n a \<longleftrightarrow> (\<forall>k<n. a + k < 2 ^ 20 \<and> \<not> page_used p (a + k))"

lemma find_block_None_step:
  assumes "scan_block p addr 0 n = None"
  shows "find_block p n addr = None"
  using assms by (subst find_block.simps) simp

lemma find_block_low:
  assumes "gb_page_count p = 1" "0 < n" "a \<le> 2 ^ 20" "free_block p n q" "a \<le> q"
  shows "\<exists>r. find_block p n (page_addr a) = Some (page_addr r) \<and> a \<le> r \<and> r \<le> q \<and> free_block p n r \<and>
    (\<forall>b. a \<le> b \<and> b < r \<longrightarrow> \<not> free_block p n b)"
  using assms(3-5)
proof (induction "2 ^ 20 - a" arbitrary: a rule: less_induct)
  case less
  have q: "q + (n - 1) < 2 ^ 20"
    using less.prems(2) assms(2) unfolding free_block_def by (metis diff_less zero_less_one)
  note sc = scan_block_low [OF assms(1), of a 0 n]
  show ?case
  proof (cases "scan_block p (page_addr a) 0 n")
    case None
    then have "2 ^ 20 < a + n" using sc less.prems(1) by simp
    then show ?thesis using q less.prems(3) by linarith
  next
    case (Some r)
    show ?thesis
    proof (cases r)
      case None
      then have "find_block p n (page_addr a) = Some (page_addr a)"
        using Some by (subst find_block.simps) simp
      moreover have "free_block p n a"
        using sc Some None less.prems(1) by (auto simp: free_block_def)
      ultimately show ?thesis using less.prems(3) by (intro exI [of _ a]) auto
    next
      case (Some j)
      then have j: "j < n" "a + j < 2 ^ 20" "page_used p (a + j)"
        using sc \<open>scan_block p (page_addr a) 0 n = Some r\<close> less.prems(1) by auto
      have nb: "\<not> free_block p n b" if "a \<le> b" "b \<le> a + j" for b
      proof -
        have "b + (a + j - b) = a + j" "a + j - b < n" using that j(1) by auto
        then show ?thesis using j(3) unfolding free_block_def by metis
      qed
      then have "a + Suc j \<le> q" using less.prems(2,3) by (metis Suc_leI add_Suc_right not_le)
      moreover have st: "find_block p n (page_addr a) = find_block p n (page_addr (a + Suc j))"
        using Some \<open>scan_block p (page_addr a) 0 n = Some r\<close>
        by (subst find_block.simps) (simp add: page_addr_add del: of_nat_Suc)
      moreover have "2 ^ 20 - (a + Suc j) < 2 ^ 20 - a" "a + Suc j \<le> 2 ^ 20" using j by auto
      ultimately obtain r where r: "find_block p n (page_addr (a + Suc j)) = Some (page_addr r)" "a + Suc j \<le> r"
        "r \<le> q" "free_block p n r" "\<forall>b. a + Suc j \<le> b \<and> b < r \<longrightarrow> \<not> free_block p n b"
        using less.hyps [of "a + Suc j"] less.prems(2) by blast
      have "\<not> free_block p n b" if "a \<le> b" "b < r" for b
        using that nb [of b] r(5) by (cases "b \<le> a + j") auto
      then show ?thesis using st r by (intro exI [of _ r]) auto
    qed
  qed
qed

lemma find_block_exhausted:
  assumes "gb_page_count p = 1" "a \<le> 2 ^ 20" "\<And>q. a \<le> q \<Longrightarrow> \<not> free_block p n q"
  shows "find_block p n (page_addr a) = None"
  using assms(2,3)
proof (induction "2 ^ 20 - a" arbitrary: a rule: less_induct)
  case less
  note sc = scan_block_low [OF assms(1), of a 0 n]
  show ?case
  proof (cases "scan_block p (page_addr a) 0 n")
    case None
    then show ?thesis by (rule find_block_None_step)
  next
    case (Some r)
    show ?thesis
    proof (cases r)
      case None
      then have "free_block p n a"
        using sc Some less.prems(1) by (auto simp: free_block_def)
      then show ?thesis using less.prems(2) by blast
    next
      case (Some j)
      then have j: "a + j < 2 ^ 20"
        using sc \<open>scan_block p (page_addr a) 0 n = Some r\<close> less.prems(1) by auto
      have "find_block p n (page_addr a) = find_block p n (page_addr (a + Suc j))"
        using Some \<open>scan_block p (page_addr a) 0 n = Some r\<close>
        by (subst find_block.simps) (simp add: page_addr_add del: of_nat_Suc)
      also have "\<dots> = None" using j less.prems(2) by (intro less.hyps) auto
      finally show ?thesis .
    qed
  qed
qed

lemma mark_pages_low:
  assumes "gb_page_count p = 1" "a + n \<le> 2 ^ 20" "s = 0 \<or> s = 1" "i \<le> n"
  shows "\<exists>bm. mark_pages (page_addr a) i n s p = Some (p\<lparr>used_bitmap := bm\<rparr>) \<and>
    (\<forall>m. page_used (p\<lparr>used_bitmap := bm\<rparr>) m \<longleftrightarrow> (if a + i \<le> m \<and> m < a + n then s = 1 else page_used p m))"
  using assms(1,4)
proof (induction "n - i" arbitrary: i p)
  case 0
  then show ?case by (intro exI [of _ "used_bitmap p"]) (auto simp: mark_pages.simps)
next
  case (Suc d)
  then have i: "i < n" by simp
  then have ai: "a + i < 2 ^ 20" "a + i < 2 ^ 52" using assms(2) by auto
  obtain bm where bm: "set_page_status (page_addr (a + i)) s p = Some (p\<lparr>used_bitmap := bm\<rparr>)"
    "\<And>m. page_used (p\<lparr>used_bitmap := bm\<rparr>) m \<longleftrightarrow> (if m = a + i then s = 1 else page_used p m)"
    using set_page_status_low(2) [OF Suc.prems(1) ai(2) assms(3) ai(1)] by blast
  have d: "d = n - Suc i" using Suc.hyps(2) by simp
  obtain bm' where bm': "mark_pages (page_addr a) (Suc i) n s (p\<lparr>used_bitmap := bm\<rparr>) = Some (p\<lparr>used_bitmap := bm'\<rparr>)"
    "\<And>m. page_used (p\<lparr>used_bitmap := bm'\<rparr>) m \<longleftrightarrow>
      (if a + Suc i \<le> m \<and> m < a + n then s = 1 else page_used (p\<lparr>used_bitmap := bm\<rparr>) m)"
    using Suc.hyps(1) [of "Suc i" "p\<lparr>used_bitmap := bm\<rparr>", OF _ _] d Suc.prems i by auto
  have "mark_pages (page_addr a) i n s p = Some (p\<lparr>used_bitmap := bm'\<rparr>)"
    using i bm(1) bm'(1) by (simp add: mark_pages.simps [of _ i] page_addr_add)
  moreover have "page_used (p\<lparr>used_bitmap := bm'\<rparr>) m \<longleftrightarrow> (if a + i \<le> m \<and> m < a + n then s = 1 else page_used p m)" for m
    using i bm(2) [of m] bm'(2) [of m] by auto
  ultimately show ?case by blast
qed

section \<open>The invariant\<close>

text \<open>
  The status array covers 4 GiB and no page below \<^verbatim>\<open>pmm_first_potential_page\<close> is free, so a
  search may start there.
\<close>

definition pmm_wf :: "pmm \<Rightarrow> bool" where
  "pmm_wf p \<longleftrightarrow> gb_page_count p = 1 \<and>
     (\<exists>f\<le>2 ^ 20. pmm_first_potential_page p = page_addr f \<and> (\<forall>m<f. page_used p m))"

lemma page_addr_eq_iff: "a < 2 ^ 52 \<Longrightarrow> b < 2 ^ 52 \<Longrightarrow> page_addr a = page_addr b \<longleftrightarrow> a = b"
  by (metis mult_right_cancel unat_page_addr zero_neq_numeral)

lemma page_addr_less_iff: "a < 2 ^ 52 \<Longrightarrow> b < 2 ^ 52 \<Longrightarrow> page_addr a < page_addr b \<longleftrightarrow> a < b"
  by (simp add: word_less_nat_alt unat_page_addr)

lemma palloc_low:
  assumes "pmm_wf p" "0 < page_count" "free_block p (unat page_count) q"
  shows "\<exists>p' r. palloc page_count p = Some (p', page_addr r) \<and> pmm_wf p' \<and> r \<le> q \<and>
    free_block p (unat page_count) r \<and> (\<forall>b<r. \<not> free_block p (unat page_count) b) \<and>
    (\<forall>m. page_used p' m \<longleftrightarrow> page_used p m \<or> r \<le> m \<and> m < r + unat page_count) \<and>
    allocated_ppages p' = allocated_ppages p + page_count \<and> freeable_mem p' = freeable_mem p"
proof -
  let ?n = "unat page_count"
  obtain f where f: "f \<le> 2 ^ 20" "pmm_first_potential_page p = page_addr f" "\<forall>m<f. page_used p m"
    and gb: "gb_page_count p = 1" using assms(1) by (auto simp: pmm_wf_def)
  have n: "0 < ?n" using assms(2) by (simp add: word_gt_0 unat_gt_0)
  have low: "f \<le> b" if "free_block p ?n b" for b
    using that f(3) n unfolding free_block_def by (metis add.right_neutral not_le)
  have end_: "b + ?n \<le> 2 ^ 20" if "free_block p ?n b" for b
  proof -
    have "b + (?n - 1) < 2 ^ 20" using that n unfolding free_block_def by (metis diff_less zero_less_one)
    then show ?thesis using n by simp
  qed
  obtain r where r: "find_block p ?n (page_addr f) = Some (page_addr r)" "f \<le> r" "r \<le> q" "free_block p ?n r"
    "\<forall>b. f \<le> b \<and> b < r \<longrightarrow> \<not> free_block p ?n b"
    using find_block_low [OF gb n f(1) assms(3) low [OF assms(3)]] by auto
  obtain bm where bm: "mark_pages (page_addr r) 0 ?n 1 p = Some (p\<lparr>used_bitmap := bm\<rparr>)"
    "\<And>m. page_used (p\<lparr>used_bitmap := bm\<rparr>) m \<longleftrightarrow> (if r \<le> m \<and> m < r + ?n then True else page_used p m)"
    using mark_pages_low [OF gb end_ [OF r(4)], of 1 0] by auto
  let ?f = "if r = f then f + ?n else f"
  let ?p' = "p\<lparr>used_bitmap := bm, pmm_first_potential_page := page_addr ?f,
    allocated_ppages := allocated_ppages p + page_count\<rparr>"
  have "page_addr r = page_addr f \<longleftrightarrow> r = f"
    using end_ [OF r(4)] f(1) by (intro page_addr_eq_iff) auto
  moreover have "page_addr f + push_bit 12 page_count = page_addr (f + ?n)"
    using page_addr_add [of f ?n] by simp
  ultimately have "palloc page_count p = Some (?p', page_addr r)"
    using r(1) f(2) bm(1) by (auto simp: palloc_def Let_def)
  moreover have pu: "page_used ?p' m \<longleftrightarrow> page_used p m \<or> r \<le> m \<and> m < r + ?n" for m
    using bm(2) [of m] by (auto simp: page_used_def)
  moreover have "pmm_wf ?p'"
    unfolding pmm_wf_def
    using gb f r(2) end_ [OF r(4)] pu by (intro conjI exI [of _ ?f]) auto
  moreover have "\<forall>b<r. \<not> free_block p ?n b" using r(5) low by blast
  ultimately show ?thesis using r by (intro exI [of _ ?p'] exI [of _ r]) simp
qed

lemma pfree_low:
  assumes "pmm_wf p" "a + unat page_count \<le> 2 ^ 20"
  shows "\<exists>p'. pfree (page_addr a) page_count p = Some p' \<and> pmm_wf p' \<and>
    (\<forall>m. page_used p' m \<longleftrightarrow> page_used p m \<and> \<not> (a \<le> m \<and> m < a + unat page_count)) \<and>
    allocated_ppages p' = allocated_ppages p - page_count \<and> freeable_mem p' = freeable_mem p"
proof -
  let ?n = "unat page_count"
  obtain f where f: "f \<le> 2 ^ 20" "pmm_first_potential_page p = page_addr f" "\<forall>m<f. page_used p m"
    and gb: "gb_page_count p = 1" using assms(1) by (auto simp: pmm_wf_def)
  have al: "page_addr a AND NOT 0xFFF = page_addr a" by (rule page_addr_aligned)
  obtain bm where bm: "mark_pages (page_addr a) 0 ?n 0 p = Some (p\<lparr>used_bitmap := bm\<rparr>)"
    "\<And>m. page_used (p\<lparr>used_bitmap := bm\<rparr>) m \<longleftrightarrow> (if a \<le> m \<and> m < a + ?n then False else page_used p m)"
    using mark_pages_low [OF gb assms(2), of 0 0] by auto
  let ?f = "if a < f then a else f"
  let ?p' = "p\<lparr>used_bitmap := bm, pmm_first_potential_page := page_addr ?f,
    allocated_ppages := allocated_ppages p - page_count\<rparr>"
  have "page_addr a < page_addr f \<longleftrightarrow> a < f"
    using assms(2) f(1) by (intro page_addr_less_iff) auto
  then have "pfree (page_addr a) page_count p = Some ?p'"
    using f(2) bm(1) al by (auto simp: pfree_def Let_def)
  moreover have pu: "page_used ?p' m \<longleftrightarrow> page_used p m \<and> \<not> (a \<le> m \<and> m < a + ?n)" for m
    using bm(2) [of m] by (auto simp: page_used_def)
  moreover have "pmm_wf ?p'"
    unfolding pmm_wf_def
    using gb f pu by (intro conjI exI [of _ ?f]) auto
  ultimately show ?thesis by (intro exI [of _ ?p']) simp
qed

lemma palloc_exhausted:
  assumes "pmm_wf p" "\<forall>q. \<not> free_block p (unat page_count) q"
  shows "palloc page_count p = None"
proof -
  obtain f where "f \<le> 2 ^ 20" "pmm_first_potential_page p = page_addr f" "gb_page_count p = 1"
    using assms(1) by (auto simp: pmm_wf_def)
  then show ?thesis using find_block_exhausted [of p f] assms(2) by (simp add: palloc_def)
qed

section \<open>The interface\<close>

text \<open>
  What the pager, the page objects and the drivers rely on: allocation returns a run of pages
  nobody holds, and nothing else changes hands.
\<close>

locale page_allocator =
  fixes alloc :: "size_t \<Rightarrow> 's \<Rightarrow> ('s \<times> physaddr_t) option"
    and free :: "physaddr_t \<Rightarrow> size_t \<Rightarrow> 's \<Rightarrow> 's option"
    and used :: "'s \<Rightarrow> nat \<Rightarrow> bool"
    and inv :: "'s \<Rightarrow> bool"
  assumes alloc: "inv s \<Longrightarrow> 0 < n \<Longrightarrow> alloc n s = Some (s', a) \<Longrightarrow>
      \<exists>r. a = page_addr r \<and> r + unat n \<le> 2 ^ 20 \<and> inv s' \<and> (\<forall>k<unat n. \<not> used s (r + k)) \<and>
        (\<forall>m. used s' m \<longleftrightarrow> used s m \<or> r \<le> m \<and> m < r + unat n)"
    and free: "inv s \<Longrightarrow> r + unat n \<le> 2 ^ 20 \<Longrightarrow>
      \<exists>s'. free (page_addr r) n s = Some s' \<and> inv s' \<and>
        (\<forall>m. used s' m \<longleftrightarrow> used s m \<and> \<not> (r \<le> m \<and> m < r + unat n))"
begin

lemma alloc_alloc_disjoint:
  assumes "inv s" "0 < n" "0 < k" "alloc n s = Some (s1, a)" "alloc k s1 = Some (s2, b)"
  shows "\<exists>r q. a = page_addr r \<and> b = page_addr q \<and> {r..<r + unat n} \<inter> {q..<q + unat k} = {}"
proof -
  obtain r where r: "a = page_addr r" "inv s1" "\<forall>m. used s1 m \<longleftrightarrow> used s m \<or> r \<le> m \<and> m < r + unat n"
    using alloc [OF assms(1,2,4)] by blast
  obtain q where q: "b = page_addr q" "\<forall>i<unat k. \<not> used s1 (q + i)"
    using alloc [OF r(2) assms(3,5)] by blast
  have "\<not> used s1 m" if "m \<in> {q..<q + unat k}" for m
    using q(2) that by (metis atLeastLessThan_iff le_add_diff_inverse less_diff_conv2 add.commute)
  then have "{r..<r + unat n} \<inter> {q..<q + unat k} = {}" using r(3) by fastforce
  then show ?thesis using r(1) q(1) by blast
qed

lemma alloc_free:
  assumes "inv s" "0 < n" "alloc n s = Some (s1, a)"
  shows "\<exists>s2. free a n s1 = Some s2 \<and> inv s2 \<and> (\<forall>m. used s2 m \<longleftrightarrow> used s m)"
proof -
  obtain r where r: "a = page_addr r" "r + unat n \<le> 2 ^ 20" "inv s1" "\<forall>k<unat n. \<not> used s (r + k)"
    "\<forall>m. used s1 m \<longleftrightarrow> used s m \<or> r \<le> m \<and> m < r + unat n"
    using alloc [OF assms] by blast
  have "\<not> used s m" if "r \<le> m" "m < r + unat n" for m
    using r(4) that by (metis le_add_diff_inverse less_diff_conv2 add.commute)
  then show ?thesis using free [OF r(3,2)] r(1,5) by metis
qed

end

interpretation pa: page_allocator palloc pfree page_used pmm_wf
proof unfold_locales
  fix s s' n a
  assume a: "pmm_wf s" "0 < n" "palloc n s = Some (s', a)"
  then obtain q where q: "free_block s (unat n) q" using palloc_exhausted [of s n] by fastforce
  obtain p' r where r: "palloc n s = Some (p', page_addr r)" "pmm_wf p'" "free_block s (unat n) r"
    "\<forall>m. page_used p' m \<longleftrightarrow> page_used s m \<or> r \<le> m \<and> m < r + unat n"
    using palloc_low [OF a(1,2) q] by blast
  have "0 < unat n" using a(2) by (simp add: word_gt_0 unat_gt_0)
  then have "r + (unat n - 1) < 2 ^ 20" using r(3) unfolding free_block_def by (metis diff_less zero_less_one)
  then show "\<exists>r. a = page_addr r \<and> r + unat n \<le> 2 ^ 20 \<and> pmm_wf s' \<and> (\<forall>k<unat n. \<not> page_used s (r + k)) \<and>
        (\<forall>m. page_used s' m \<longleftrightarrow> page_used s m \<or> r \<le> m \<and> m < r + unat n)"
    using r a(3) \<open>0 < unat n\<close> by (intro exI [of _ r]) (auto simp: free_block_def)
next
  fix s :: pmm and r and n :: size_t
  assume "pmm_wf s" "r + unat n \<le> 2 ^ 20"
  then show "\<exists>s'. pfree (page_addr r) n s = Some s' \<and> pmm_wf s' \<and>
        (\<forall>m. page_used s' m \<longleftrightarrow> page_used s m \<and> \<not> (r \<le> m \<and> m < r + unat n))"
    using pfree_low by blast
qed

section \<open>Initialisation\<close>

lemma mark_region_pages:
  assumes "b + n < 2 ^ 52" "i \<le> n"
  shows "mark_region (page_addr b) (page_addr n) s (page_addr i) p = mark_pages (page_addr b) i n s p"
  using assms(2)
proof (induction "n - i" arbitrary: i p)
  case 0
  then show ?case by (simp add: mark_region.simps mark_pages.simps)
next
  case (Suc d)
  then have i: "i < n" by simp
  then have "page_addr i < page_addr n" using assms(1) page_addr_less_iff [of i n] by simp
  moreover have "page_addr i + 4096 = page_addr (Suc i)" by (simp add: page_addr_def)
  moreover have "page_addr b + page_addr i = page_addr (b + i)"
    by (simp add: page_addr_def)
  moreover have "mark_region (page_addr b) (page_addr n) s (page_addr (Suc i)) = mark_pages (page_addr b) (Suc i) n s"
    using Suc i by (intro ext Suc.hyps(1)) auto
  ultimately show ?case
    using i by (simp add: mark_region.simps [of _ _ _ "page_addr i"] mark_pages.simps [of _ i] page_addr_add)
qed

text \<open>Page \<open>m\<close> belongs to the memory map entry \<open>e\<close>, an entry the bootloader calls usable.\<close>

definition usable_page :: "memmap_entry \<Rightarrow> nat \<Rightarrow> bool" where
  "usable_page e m \<longleftrightarrow> mm_type e = STIVALE2_MEMMAP_TYPE_USABLE \<and>
     unat (mm_base e) \<le> m * 4096 \<and> m * 4096 < unat (mm_base e) + unat (mm_length e)"

text \<open>
  What the boot protocol guarantees: usable entries are page aligned; here they also end below
  4 GiB. Reclaimable entries do not wrap around.
\<close>

definition region_ok :: "memmap_entry \<Rightarrow> bool" where
  "region_ok e \<longleftrightarrow>
     (mm_type e = STIVALE2_MEMMAP_TYPE_USABLE \<longrightarrow>
        unat (mm_base e) mod 4096 = 0 \<and> unat (mm_length e) mod 4096 = 0 \<and>
        unat (mm_base e) + unat (mm_length e) \<le> 2 ^ 32) \<and>
     (mm_type e = STIVALE2_MEMMAP_TYPE_BOOTLOADER_RECLAIMABLE \<longrightarrow> mm_base e \<le> mm_base e + mm_length e)"

lemma word_page_addr:
  assumes "unat w mod 4096 = 0"
  shows "w = page_addr (unat w div 4096)"
proof -
  have "unat w div 4096 * 4096 = unat w" using assms by (simp add: mod_0_imp_dvd)
  then show ?thesis by (simp add: page_addr_def)
qed

definition lower_base :: "memmap_entry \<Rightarrow> physaddr_t \<Rightarrow> physaddr_t" where
  "lower_base e f = (if mm_type e = STIVALE2_MEMMAP_TYPE_USABLE \<and> mm_base e < f then mm_base e else f)"

text \<open>What the loop over the memory map entries \<open>es\<close> has done between states \<open>p\<close> and \<open>q\<close>.\<close>

definition regions_added :: "memmap_entry list \<Rightarrow> pmm \<Rightarrow> pmm \<Rightarrow> bool" where
  "regions_added es p q \<longleftrightarrow> gb_page_count q = 1 \<and> ranges_wf (freeable_mem q) \<and>
    allocated_ppages q = allocated_ppages p \<and>
    (\<forall>m. page_used q m \<longleftrightarrow> page_used p m \<and> \<not> (\<exists>e\<in>set es. usable_page e m)) \<and>
    (\<forall>v. is_bound (freeable_mem q) v \<longleftrightarrow> is_bound (freeable_mem p) v \<or>
       (\<exists>e\<in>set es. mm_type e = STIVALE2_MEMMAP_TYPE_BOOTLOADER_RECLAIMABLE \<and>
          mm_base e \<le> v \<and> v < mm_base e + mm_length e)) \<and>
    pmm_first_potential_page q = fold lower_base es (pmm_first_potential_page p)"

lemma regions_added_Cons:
  "regions_added [e] p p1 \<Longrightarrow> regions_added es p1 q \<Longrightarrow> regions_added (e # es) p q"
  unfolding regions_added_def by (intro conjI allI) auto

lemma add_region_usable:
  assumes "region_ok e" "mm_type e = STIVALE2_MEMMAP_TYPE_USABLE" "gb_page_count p = 1" "ranges_wf (freeable_mem p)"
  shows "\<exists>q. add_regions (e # es) p = add_regions es q \<and> regions_added [e] p q"
proof -
  define b where "b = unat (mm_base e) div 4096"
  define n where "n = unat (mm_length e) div 4096"
  have ok: "unat (mm_base e) = b * 4096" "unat (mm_length e) = n * 4096" "b + n \<le> 2 ^ 20"
    using assms(1,2) by (auto simp: region_ok_def b_def n_def)
  have eq: "mm_base e = page_addr b" "mm_length e = page_addr n"
    using assms(1,2) word_page_addr unfolding b_def n_def by (auto simp: region_ok_def)
  have u: "usable_page e m \<longleftrightarrow> b \<le> m \<and> m < b + n" for m
    unfolding usable_page_def ok using assms(2) by auto
  let ?p1 = "p\<lparr>pmm_first_potential_page := lower_base e (pmm_first_potential_page p)\<rparr>"
  have "gb_page_count ?p1 = 1" using assms(3) by simp
  from mark_pages_low [OF this ok(3), of 0 0] obtain bm where
    bm: "mark_pages (page_addr b) 0 n 0 ?p1 = Some (?p1\<lparr>used_bitmap := bm\<rparr>)"
      "\<And>m. page_used (?p1\<lparr>used_bitmap := bm\<rparr>) m \<longleftrightarrow> (if b \<le> m \<and> m < b + n then False else page_used ?p1 m)"
    by auto
  have "mark_region (mm_base e) (mm_length e) 0 0 ?p1 = Some (?p1\<lparr>used_bitmap := bm\<rparr>)"
    using mark_region_pages [of b n 0 0 ?p1] ok(3) bm(1) unfolding eq by (simp add: page_addr_def)
  moreover have "?p1 = (if pmm_first_potential_page p > mm_base e then p\<lparr>pmm_first_potential_page := mm_base e\<rparr> else p)"
    using assms(2) by (simp add: lower_base_def)
  ultimately have "add_regions (e # es) p = add_regions es (?p1\<lparr>used_bitmap := bm\<rparr>)"
    using assms(2) by simp
  moreover have "page_used ?p1 m = page_used p m" for m by (simp add: page_used_def)
  then have "regions_added [e] p (?p1\<lparr>used_bitmap := bm\<rparr>)"
    using assms u bm(2) unfolding regions_added_def by (simp add: memmap_types)
  ultimately show ?thesis by blast
qed

lemma add_region_other:
  assumes "region_ok e" "mm_type e \<noteq> STIVALE2_MEMMAP_TYPE_USABLE" "gb_page_count p = 1" "ranges_wf (freeable_mem p)"
  shows "\<exists>q. add_regions (e # es) p = add_regions es q \<and> regions_added [e] p q"
proof (cases "mm_type e = STIVALE2_MEMMAP_TYPE_BOOTLOADER_RECLAIMABLE")
  case True
  let ?q = "p\<lparr>freeable_mem := range_add (mm_base e) (mm_base e + mm_length e) (freeable_mem p)\<rparr>"
  have le: "mm_base e \<le> mm_base e + mm_length e" using assms(1) True by (simp add: region_ok_def)
  have "regions_added [e] p ?q"
    using assms True rl.bound_add [OF assms(4) le] rl.inv_add [OF assms(4) le]
    by (auto simp: regions_added_def usable_page_def lower_base_def page_used_def)
  then show ?thesis using assms(2) True by (intro exI [of _ ?q]) simp
next
  case False
  then show ?thesis
    using assms by (intro exI [of _ p]) (auto simp: regions_added_def usable_page_def lower_base_def)
qed

lemma add_regions_ok:
  assumes "\<forall>e\<in>set es. region_ok e" "gb_page_count p = 1" "ranges_wf (freeable_mem p)"
  shows "\<exists>q. add_regions es p = Some q \<and> regions_added es p q"
  using assms
proof (induction es arbitrary: p)
  case Nil
  then show ?case by (auto simp: regions_added_def)
next
  case (Cons e es)
  obtain p1 where p1: "add_regions (e # es) p = add_regions es p1" "regions_added [e] p p1"
    using add_region_usable [of e p es] add_region_other [of e p es] Cons.prems
    by (metis list.set_intros(1))
  then have "gb_page_count p1 = 1" "ranges_wf (freeable_mem p1)" by (auto simp: regions_added_def)
  then obtain q where "add_regions es p1 = Some q" "regions_added es p1 q"
    using Cons.IH Cons.prems(1) by auto
  then show ?case using p1 regions_added_Cons by metis
qed

lemma fold_lower_base:
  "fold lower_base es f \<le> f"
  "e \<in> set es \<Longrightarrow> mm_type e = STIVALE2_MEMMAP_TYPE_USABLE \<Longrightarrow> fold lower_base es f \<le> mm_base e"
  "fold lower_base es f = f \<or> (\<exists>e\<in>set es. mm_type e = STIVALE2_MEMMAP_TYPE_USABLE \<and> fold lower_base es f = mm_base e)"
proof (induction es arbitrary: f)
  case (Cons d es)
  { case 1 then show ?case using Cons(1) [of "lower_base d f"] by (auto simp: lower_base_def split: if_splits)
  next
    case 2 then show ?case
      using Cons(1) [of "lower_base d f"] Cons(2) [of "lower_base d f"] by (auto simp: lower_base_def split: if_splits)
  next
    case 3 then show ?case using Cons(3) [of "lower_base d f"] by (auto simp: lower_base_def split: if_splits) }
qed simp_all

lemma init_pmm_ok:
  assumes "\<forall>e\<in>set mm. region_ok e" "count_4gb (max_address mm 0) = 1"
    "e0 \<in> set mm" "mm_type e0 = STIVALE2_MEMMAP_TYPE_USABLE" "unat (mm_base e0) < 2 ^ 32"
  shows "\<exists>p. init_pmm mm = Some p \<and> pmm_wf p \<and> allocated_ppages p = 0 \<and> ranges_wf (freeable_mem p) \<and>
    (\<forall>m. page_used p m \<longleftrightarrow> \<not> (256 \<le> m \<and> (\<exists>e\<in>set mm. usable_page e m))) \<and>
    (\<forall>v. is_bound (freeable_mem p) v \<longleftrightarrow> v < 0x100000 \<or>
       (\<exists>e\<in>set mm. mm_type e = STIVALE2_MEMMAP_TYPE_BOOTLOADER_RECLAIMABLE \<and>
          mm_base e \<le> v \<and> v < mm_base e + mm_length e))"
proof -
  let ?p0 = "\<lparr>gb_page_count = count_4gb (max_address mm 0), used_bitmap = (\<lambda>_. 0xFF),
                pmm_first_potential_page = -1, freeable_mem = [], allocated_ppages = 0\<rparr>"
  have "gb_page_count ?p0 = 1" "ranges_wf (freeable_mem ?p0)" using assms(2) by (auto simp: ranges_wf_def)
  then obtain p1 where p1: "add_regions mm ?p0 = Some p1" "regions_added mm ?p0 p1"
    using add_regions_ok [OF assms(1)] by blast
  have used0: "page_used ?p0 m" for m
  proof -
    have "(mask 8 :: u8) = 0xFF" by (simp add: mask_eq_exp_minus_1)
    moreover have "bit (mask 8 :: u8) (m mod 8)" by (simp add: bit_mask_iff)
    ultimately show ?thesis unfolding page_used_def by simp
  qed
  have gb1: "gb_page_count p1 = 1" using p1(2) by (simp add: regions_added_def)
  obtain bm where bm: "mark_pages (page_addr 0) 0 256 1 p1 = Some (p1\<lparr>used_bitmap := bm\<rparr>)"
    "\<And>m. page_used (p1\<lparr>used_bitmap := bm\<rparr>) m \<longleftrightarrow> (if 0 \<le> m \<and> m < 256 then True else page_used p1 m)"
    using mark_pages_low [OF gb1, of 0 256 1 0] by auto
  have mr: "mark_region 0 (1024 * 1024) 1 0 p1 = Some (p1\<lparr>used_bitmap := bm\<rparr>)"
    using mark_region_pages [of 0 256 0 1 p1] bm(1) by (simp add: page_addr_def)
  let ?p = "p1\<lparr>used_bitmap := bm, freeable_mem := range_add 0 (1024 * 1024) (freeable_mem p1)\<rparr>"
  have i: "init_pmm mm = Some ?p" using p1(1) mr by (simp add: init_pmm_def)
  have pu: "page_used ?p m \<longleftrightarrow> \<not> (256 \<le> m \<and> (\<exists>e\<in>set mm. usable_page e m))" for m
    using bm(2) [of m] p1(2) used0 by (auto simp: page_used_def regions_added_def)
  have r1: "ranges_wf (freeable_mem p1)" using p1(2) by (simp add: regions_added_def)
  have fb: "is_bound (freeable_mem ?p) v \<longleftrightarrow> v < 0x100000 \<or>
      (\<exists>e\<in>set mm. mm_type e = STIVALE2_MEMMAP_TYPE_BOOTLOADER_RECLAIMABLE \<and>
         mm_base e \<le> v \<and> v < mm_base e + mm_length e)" for v
    using rl.bound_add [OF r1, of 0 "1024 * 1024" v] p1(2) by (auto simp: regions_added_def)
  let ?f = "fold lower_base mm (- 1)"
  have f: "pmm_first_potential_page ?p = ?f" using p1(2) by (simp add: regions_added_def)
  have le0: "?f \<le> mm_base e0" using fold_lower_base(2) [OF assms(3,4)] .
  then have "unat ?f < 2 ^ 32" using assms(5) by (simp add: word_le_nat_alt)
  then have "?f \<noteq> - 1" by (auto simp: unsigned_minus_1_eq_mask mask_eq_exp_minus_1)
  then obtain e1 where e1: "e1 \<in> set mm" "mm_type e1 = STIVALE2_MEMMAP_TYPE_USABLE" "?f = mm_base e1"
    using fold_lower_base(3) [of mm "- 1"] by blast
  then have al: "unat ?f mod 4096 = 0" using assms(1) by (simp add: region_ok_def)
  have "pmm_wf ?p"
    unfolding pmm_wf_def
  proof (intro conjI exI [of _ "unat ?f div 4096"])
    show "pmm_first_potential_page ?p = page_addr (unat ?f div 4096)" using word_page_addr [OF al] f by simp
    show "unat ?f div 4096 \<le> 2 ^ 20" using \<open>unat ?f < 2 ^ 32\<close> by simp
    show "\<forall>m<unat ?f div 4096. page_used ?p m"
    proof (intro allI impI)
      fix m assume m: "m < unat ?f div 4096"
      have "\<not> usable_page e m" if "e \<in> set mm" for e
        using m fold_lower_base(2) [OF that, of "- 1"] unfolding usable_page_def word_le_nat_alt by auto
      then show "page_used ?p m" using pu by blast
    qed
  qed (use gb1 in simp)
  then show ?thesis
    using i pu fb rl.inv_add [OF r1, of 0 "1024 * 1024"] p1(2)
    by (intro exI [of _ ?p]) (auto simp: regions_added_def)
qed

section \<open>Beyond 4 GiB\<close>

lemma status_index_above:
  assumes "2 ^ 20 \<le> n" "n < 2 ^ 32" "gb = n div 2 ^ 20 + 1"
  shows "gb * 0x20000 \<le> status_index (page_addr n)"
proof -
  have "(n div 8) mod 2 ^ 29 = n div 8" using assms(2) by simp
  moreover have "n div 2 ^ 20 * 2 ^ 17 \<le> n div 8" by simp
  moreover have "1 \<le> n div 2 ^ 20" using assms(1) div_le_mono [of "2 ^ 20" n "2 ^ 20"] by simp
  ultimately show ?thesis using assms by (simp add: status_page_nat)
qed

section \<open>Properties\<close>


definition sample_pmm :: pmm where
  "sample_pmm = \<lparr>gb_page_count = 1, used_bitmap = (\<lambda>_. 0)(0 := 0xFF, 1 := 0x02),
     pmm_first_potential_page = page_addr 8, freeable_mem = [], allocated_ppages = 9\<rparr>"

lemma sample_pmm_used: "page_used sample_pmm m \<longleftrightarrow> m < 8 \<or> m = 9"
proof -
  have "bit (0xFF :: u8) k" if "k < 8" for k
  proof -
    have "(mask 8 :: u8) = 0xFF" by (simp add: mask_eq_exp_minus_1)
    then show ?thesis using that bit_mask_iff [of 8 k, where ?'a = u8] by simp
  qed
  then have ff: "bit (0xFF :: u8) (m mod 8)" by simp
  have two: "bit (2 :: u8) k \<longleftrightarrow> k = 1" for k
    using bit_exp_iff [of 1 k, where ?'a = u8] by auto
  consider "m < 8" | "m div 8 = 1" | "m div 8 \<noteq> 0 \<and> m div 8 \<noteq> 1" by fastforce
  then show ?thesis
  proof cases
    case 1
    then show ?thesis using ff by (simp add: page_used_def sample_pmm_def)
  next
    case 2
    moreover from this have "m mod 8 = 1 \<longleftrightarrow> m = 9" "\<not> m < 8" by presburger+
    ultimately show ?thesis using two [of "m mod 8"] by (simp add: page_used_def sample_pmm_def)
  next
    case 3
    then have "\<not> m < 8" "m \<noteq> 9" by auto
    with 3 show ?thesis by (simp add: page_used_def sample_pmm_def)
  qed
qed

lemma sample_pmm_wf: "pmm_wf sample_pmm"
proof -
  have "\<forall>m<8. page_used sample_pmm m" by (simp add: sample_pmm_used)
  then show ?thesis unfolding pmm_wf_def by (intro conjI exI [of _ 8]) (auto simp: sample_pmm_def)
qed


text \<open>When no run of \<open>page_count\<close> free pages exists, \<^verbatim>\<open>palloc\<close> has no result: its search loop
  has no end test and runs past the end of the status array.\<close>
theorem palloc_out_of_memory:
  assumes "pmm_wf p" "\<forall>q. \<not> free_block p (unat page_count) q"
  shows "palloc page_count p = None"
  by (rule palloc_exhausted [OF assms])

theorem palloc_out_of_memory_witness:
  "palloc 0x200000 sample_pmm = None"
proof -
  have "\<not> free_block sample_pmm 0x200000 q" for q
    unfolding free_block_def by (auto intro!: exI [of _ "0x1FFFFF"])
  then show ?thesis using palloc_out_of_memory [OF sample_pmm_wf, where page_count = "0x200000"] by simp
qed

text \<open>C33: \<^verbatim>\<open>palloc\<close> and \<^verbatim>\<open>pfree\<close>. Two blocks allocated one after the other share no page, and freeing
  the second leaves the page status as it was before it was allocated.\<close>
theorem palloc_disjoint_pfree_restores:
  assumes "pmm_wf p" "0 < n" "0 < k" "palloc n p = Some (p1, a)" "palloc k p1 = Some (p2, b)"
  shows "(\<exists>r q. a = page_addr r \<and> b = page_addr q \<and> {r..<r + unat n} \<inter> {q..<q + unat k} = {}) \<and>
    (\<exists>p3. pfree b k p2 = Some p3 \<and> pmm_wf p3 \<and> (\<forall>m. page_used p3 m \<longleftrightarrow> page_used p1 m))"
proof -
  have "pmm_wf p1" using pa.alloc [OF assms(1,2,4)] by blast
  then show ?thesis
    using pa.alloc_alloc_disjoint [OF assms] pa.alloc_free [OF _ assms(3,5)] by blast
qed

theorem palloc_disjoint_pfree_restores_witness:
  "\<exists>p1 a p2 b p3. palloc 1 sample_pmm = Some (p1, a) \<and> palloc 1 p1 = Some (p2, b) \<and> pfree b 1 p2 = Some p3 \<and>
     (\<forall>m. page_used p3 m \<longleftrightarrow> page_used p1 m)"
proof -
  have "free_block sample_pmm 1 20" by (simp add: free_block_def sample_pmm_used)
  then obtain p1 r where p1: "palloc 1 sample_pmm = Some (p1, page_addr r)" "pmm_wf p1" "r \<le> 20"
    "\<forall>m. page_used p1 m \<longleftrightarrow> page_used sample_pmm m \<or> r \<le> m \<and> m < r + 1"
    using palloc_low [OF sample_pmm_wf, of 1 20] by auto
  then have "free_block p1 1 21" by (auto simp: free_block_def sample_pmm_used)
  then obtain p2 q where p2: "palloc 1 p1 = Some (p2, page_addr q)" using palloc_low [OF p1(2), of 1 21] by auto
  show ?thesis
    using palloc_disjoint_pfree_restores [OF sample_pmm_wf _ _ p1(1) p2] p1(1) p2 by auto
qed

text \<open>C34: \<^verbatim>\<open>init_pmm\<close>. From a page-aligned memory map below 4 GiB with some usable memory it builds a
  well-formed state in which exactly the usable pages above the first MiB are free, and the
  reclaimable set is the first MiB together with the bootloader-reclaimable entries.\<close>
theorem init_pmm_correct:
  assumes "\<forall>e\<in>set mm. region_ok e" "count_4gb (max_address mm 0) = 1"
    "e0 \<in> set mm" "mm_type e0 = STIVALE2_MEMMAP_TYPE_USABLE" "unat (mm_base e0) < 2 ^ 32"
  shows "\<exists>p. init_pmm mm = Some p \<and> pmm_wf p \<and> allocated_ppages p = 0 \<and> ranges_wf (freeable_mem p) \<and>
    (\<forall>m. page_used p m \<longleftrightarrow> \<not> (256 \<le> m \<and> (\<exists>e\<in>set mm. usable_page e m))) \<and>
    (\<forall>v. is_bound (freeable_mem p) v \<longleftrightarrow> v < 0x100000 \<or>
       (\<exists>e\<in>set mm. mm_type e = STIVALE2_MEMMAP_TYPE_BOOTLOADER_RECLAIMABLE \<and>
          mm_base e \<le> v \<and> v < mm_base e + mm_length e))"
  by (rule init_pmm_ok [OF assms])

theorem init_pmm_correct_witness:
  "\<exists>p. init_pmm [\<lparr>mm_base = 0x100000, mm_length = 0x8000000, mm_type = 1\<rparr>,
       \<lparr>mm_base = 0x9000000, mm_length = 0x1000, mm_type = 0x1000\<rparr>] = Some p \<and> \<not> page_used p 300 \<and> page_used p 3"
  using init_pmm_correct [of "[\<lparr>mm_base = 0x100000, mm_length = 0x8000000, mm_type = 1\<rparr>,
       \<lparr>mm_base = 0x9000000, mm_length = 0x1000, mm_type = 0x1000\<rparr>]"
      "\<lparr>mm_base = 0x100000, mm_length = 0x8000000, mm_type = 1\<rparr>"]
  by (auto simp: region_ok_def memmap_types count_4gb_def usable_page_def)

text \<open>With more than 4 GiB of memory the status bit of a page in the last 4 GiB block is looked up
  outside the status array, although the array has one structure per block: the byte index
  inside a structure is masked with \<open>0x1FFFFFFF\<close> instead of \<open>0x1FFFF\<close>, so the block number
  counts twice.\<close>
theorem status_above_4gib_out_of_bounds:
  assumes "2 ^ 20 \<le> n" "n < 2 ^ 32" "unat (gb_page_count p) = n div 2 ^ 20 + 1"
  shows "set_page_status (page_addr n) s p = None \<and> is_page_used (page_addr n) p = None"
  using status_index_above [OF assms(1,2) refl] assms(3)
  by (simp add: set_page_status_def is_page_used_def in_status_array_def not_less)

theorem status_above_4gib_out_of_bounds_witness:
  "is_page_used 0x100000000 (sample_pmm\<lparr>gb_page_count := 2\<rparr>) = None"
  using status_above_4gib_out_of_bounds [of "2 ^ 20" "sample_pmm\<lparr>gb_page_count := 2\<rparr>"]
  by (simp add: page_addr_def)

end
