(* ===== verification/Unordered_Map.thy ===== *)
theory Unordered_Map
  imports Prelude
begin

unbundle bit_operations_syntax

text \<open>
  \<^verbatim>\<open>std::UnorderedMap<K, V>\<close> (\<^verbatim>\<open>kernel/std/include/unordered_map.hpp\<close>) and the hash functions of
  \<^verbatim>\<open>kernel/std/include/functional.hpp\<close>: a hash table with chained buckets that the kernel uses
  for its file system registry, event parameters and module tables.

  The bucket vector is a list; a chain of entries linked by \<^verbatim>\<open>next\<close> is the list of its
  key/value pairs, and a pointer into a chain is the suffix that starts at the entry (null is
  the empty suffix). The hash function \<open>hash\<close> is a parameter, as \<^verbatim>\<open>Hasher\<close> is; keys are compared
  with \<open>=\<close> as \<^verbatim>\<open>std::equal_to\<close> does. An index outside the bucket vector is \<open>None\<close>.
\<close>

section \<open>State and operations\<close>

type_synonym ('k, 'v) chain = "('k \<times> 'v) list"
type_synonym ('k, 'v) buckets = "('k, 'v) chain list"

record ('k, 'v) umap =
  f_bucket :: "('k, 'v) buckets"
  f_capacity :: size_t
  f_size :: size_t

definition initial_bucket_size :: size_t where
  "initial_bucket_size = 64"

definition um_new :: "size_t \<Rightarrow> ('k, 'v) umap" where
  "um_new initial_capacity =
     \<lparr>f_bucket = replicate (unat initial_capacity) [], f_capacity = initial_capacity, f_size = 0\<rparr>"

definition um_empty :: "('k, 'v) umap" where
  "um_empty = um_new initial_bucket_size"

definition bucket_pos :: "('k \<Rightarrow> size_t) \<Rightarrow> 'k \<Rightarrow> size_t \<Rightarrow> nat" where
  "bucket_pos hash key cap = unat (hash key mod cap)"

definition get_bucket :: "('k, 'v) umap \<Rightarrow> nat \<Rightarrow> ('k, 'v) chain option" where
  "get_bucket m i = (if i < length (f_bucket m) then Some (f_bucket m ! i) else None)"

text \<open>The loop that follows \<^verbatim>\<open>next\<close> until a key matches: the suffix at the match, or null.\<close>

fun chain_find :: "'k \<Rightarrow> ('k, 'v) chain \<Rightarrow> ('k, 'v) chain" where
  "chain_find key [] = []"
| "chain_find key (e # es) = (if key = fst e then e # es else chain_find key es)"

subsection \<open>Iterators\<close>

record ('k, 'v) um_iterator =
  it_index :: nat
  it_entry :: "('k, 'v) chain"

definition um_end :: "('k, 'v) umap \<Rightarrow> ('k, 'v) um_iterator" where
  "um_end m = \<lparr>it_index = unat (f_capacity m), it_entry = []\<rparr>"

function um_begin_from :: "('k, 'v) umap \<Rightarrow> nat \<Rightarrow> ('k, 'v) um_iterator option" where
  "um_begin_from m i =
     (if i < unat (f_capacity m) then
        (case get_bucket m i of
           None \<Rightarrow> None
         | Some b \<Rightarrow> if b \<noteq> [] then Some \<lparr>it_index = i, it_entry = b\<rparr> else um_begin_from m (Suc i))
      else Some (um_end m))"
  by pat_completeness auto
termination by (relation "measure (\<lambda>(m, i). unat (f_capacity m) - i)") auto

definition um_begin :: "('k, 'v) umap \<Rightarrow> ('k, 'v) um_iterator option" where
  "um_begin m = um_begin_from m 0"

text \<open>\<^verbatim>\<open>while(index < map.f_capacity && new_entry == 0) new_entry = map.f_bucket[index++];\<close>\<close>

function next_bucket :: "('k, 'v) umap \<Rightarrow> nat \<Rightarrow> ('k, 'v) chain \<Rightarrow> (nat \<times> ('k, 'v) chain) option" where
  "next_bucket m index new_entry =
     (if index < unat (f_capacity m) \<and> new_entry = [] then
        (case get_bucket m index of None \<Rightarrow> None | Some b \<Rightarrow> next_bucket m (Suc index) b)
      else Some (index, new_entry))"
  by pat_completeness auto
termination by (relation "measure (\<lambda>(m, i, e). unat (f_capacity m) - i)") auto

definition um_next :: "('k, 'v) umap \<Rightarrow> ('k, 'v) um_iterator \<Rightarrow> ('k, 'v) um_iterator option" where
  "um_next m it =
     (case it_entry it of
        [] \<Rightarrow> None
      | [e] \<Rightarrow>
          (case next_bucket m (Suc (it_index it)) [] of
             None \<Rightarrow> None
           | Some (index, new_entry) \<Rightarrow>
               Some \<lparr>it_index = (if new_entry \<noteq> [] then index - 1 else index), it_entry = new_entry\<rparr>)
      | e # f # es \<Rightarrow> Some \<lparr>it_index = it_index it, it_entry = f # es\<rparr>)"

definition um_find :: "('k \<Rightarrow> size_t) \<Rightarrow> 'k \<Rightarrow> ('k, 'v) umap \<Rightarrow> ('k, 'v) um_iterator option" where
  "um_find hash key m =
     (let pos = bucket_pos hash key (f_capacity m)
      in case get_bucket m pos of
           None \<Rightarrow> None
         | Some b \<Rightarrow>
             (case chain_find key b of
                [] \<Rightarrow> Some (um_end m)
              | e # es \<Rightarrow> Some \<lparr>it_index = pos, it_entry = e # es\<rparr>))"

subsection \<open>Lookup, insertion, removal\<close>

definition um_at :: "('k \<Rightarrow> size_t) \<Rightarrow> 'k \<Rightarrow> ('k, 'v) umap \<Rightarrow> 'v option option" where
  "um_at hash key m =
     (case get_bucket m (bucket_pos hash key (f_capacity m)) of
        None \<Rightarrow> None
      | Some b \<Rightarrow> (case chain_find key b of [] \<Rightarrow> Some None | e # es \<Rightarrow> Some (Some (snd e))))"

definition new_capacity :: "size_t \<Rightarrow> size_t" where
  "new_capacity sz = (if sz AND 0x3F \<noteq> 0 then (sz OR 0x3F) + 1 else sz)"

definition rehash_entry ::
    "('k \<Rightarrow> size_t) \<Rightarrow> size_t \<Rightarrow> 'k \<times> 'v \<Rightarrow> ('k, 'v) buckets \<Rightarrow> ('k, 'v) buckets" where
  "rehash_entry hash newCap e newBucket =
     (let pos = bucket_pos hash (fst e) newCap in newBucket[pos := newBucket ! pos @ [e]])"

fun rehash_chain ::
    "('k \<Rightarrow> size_t) \<Rightarrow> size_t \<Rightarrow> ('k, 'v) chain \<Rightarrow> ('k, 'v) buckets \<Rightarrow> ('k, 'v) buckets" where
  "rehash_chain hash newCap [] nb = nb"
| "rehash_chain hash newCap (e # es) nb = rehash_chain hash newCap es (rehash_entry hash newCap e nb)"

fun rehash_buckets ::
    "('k \<Rightarrow> size_t) \<Rightarrow> size_t \<Rightarrow> ('k, 'v) buckets \<Rightarrow> ('k, 'v) buckets \<Rightarrow> ('k, 'v) buckets" where
  "rehash_buckets hash newCap [] nb = nb"
| "rehash_buckets hash newCap (b # bs) nb = rehash_buckets hash newCap bs (rehash_chain hash newCap b nb)"

definition um_rehash :: "('k \<Rightarrow> size_t) \<Rightarrow> ('k, 'v) umap \<Rightarrow> ('k, 'v) umap" where
  "um_rehash hash m =
     (let newCap = new_capacity (f_size m)
      in m\<lparr>f_bucket := rehash_buckets hash newCap (f_bucket m) (replicate (unat newCap) []),
           f_capacity := newCap\<rparr>)"

definition um_insert :: "('k \<Rightarrow> size_t) \<Rightarrow> 'k \<Rightarrow> 'v \<Rightarrow> ('k, 'v) umap \<Rightarrow> (('k, 'v) umap \<times> bool) option" where
  "um_insert hash key v m =
     (let pos = bucket_pos hash key (f_capacity m)
      in case get_bucket m pos of
           None \<Rightarrow> None
         | Some b \<Rightarrow>
             if chain_find key b \<noteq> [] then Some (m, False)
             else
               let m1 = m\<lparr>f_bucket := (f_bucket m)[pos := b @ [(key, v)]], f_size := f_size m + 1\<rparr>;
                   m2 = (if f_size m1 \<ge> f_capacity m1 * 2 then um_rehash hash m1 else m1)
               in Some (m2, True))"

text \<open>\<^verbatim>\<open>operator[]\<close>: appends an entry with a default value when the key is missing.\<close>

definition um_index :: "('k \<Rightarrow> size_t) \<Rightarrow> 'v \<Rightarrow> 'k \<Rightarrow> ('k, 'v) umap \<Rightarrow> (('k, 'v) umap \<times> 'v) option" where
  "um_index hash dflt key m =
     (let pos = bucket_pos hash key (f_capacity m)
      in case get_bucket m pos of
           None \<Rightarrow> None
         | Some b \<Rightarrow>
             (case chain_find key b of
                e # es \<Rightarrow> Some (m, snd e)
              | [] \<Rightarrow> Some (m\<lparr>f_bucket := (f_bucket m)[pos := b @ [(key, dflt)]]\<rparr>, dflt)))"

fun chain_erase :: "'k \<Rightarrow> ('k, 'v) chain \<Rightarrow> ('k, 'v) chain option" where
  "chain_erase key [] = None"
| "chain_erase key (e # es) = (if key = fst e then Some es else map_option (Cons e) (chain_erase key es))"

definition um_erase :: "('k \<Rightarrow> size_t) \<Rightarrow> 'k \<Rightarrow> ('k, 'v) umap \<Rightarrow> ('k, 'v) umap option" where
  "um_erase hash key m =
     (let pos = bucket_pos hash key (f_capacity m)
      in case get_bucket m pos of
           None \<Rightarrow> None
         | Some b \<Rightarrow>
             (case chain_erase key b of
                None \<Rightarrow> Some m
              | Some b' \<Rightarrow> Some (m\<lparr>f_bucket := (f_bucket m)[pos := b'], f_size := f_size m - 1\<rparr>)))"

definition um_clear :: "('k, 'v) umap \<Rightarrow> ('k, 'v) umap" where
  "um_clear m = \<lparr>f_bucket = replicate (unat initial_bucket_size) [], f_capacity = initial_bucket_size, f_size = 0\<rparr>"

text \<open>
  The copy constructor: its loop skips bucket \<open>i\<close> when the bucket of the map under construction
  is null, which it always is.
\<close>

fun copy_buckets :: "('k, 'v) buckets \<Rightarrow> ('k, 'v) buckets \<Rightarrow> ('k, 'v) buckets" where
  "copy_buckets (own # os) (other # rs) = (if own = [] then own else other) # copy_buckets os rs"
| "copy_buckets os rs = os"

definition um_copy :: "('k, 'v) umap \<Rightarrow> ('k, 'v) umap" where
  "um_copy other =
     \<lparr>f_bucket = copy_buckets (replicate (unat (f_capacity other)) []) (f_bucket other),
      f_capacity = f_capacity other, f_size = f_size other\<rparr>"

definition um_move :: "('k, 'v) umap \<Rightarrow> ('k, 'v) umap" where
  "um_move other = \<lparr>f_bucket = f_bucket other, f_capacity = f_capacity other, f_size = f_size other\<rparr>"

subsection \<open>The hash functions\<close>

function hash_str_from :: "u8 list \<Rightarrow> nat \<Rightarrow> size_t \<Rightarrow> size_t \<Rightarrow> size_t" where
  "hash_str_from key i pp h =
     (if i < length key then
        hash_str_from key (Suc i) ((pp * 31) mod 1000000009)
          ((h + word_of_int (sint (key ! i) - 97 + 1) * pp) mod 1000000009)
      else (h mod 1000000009 + 1000000009) mod 1000000009)"
  by pat_completeness auto
termination by (relation "measure (\<lambda>(key, i, pp, h). length key - i)") auto

definition hash_str :: "u8 list \<Rightarrow> size_t" where
  "hash_str key = hash_str_from key 0 1 0"

definition hash_u32 :: "u32 \<Rightarrow> size_t" where
  "hash_u32 key =
     (let x0 = ucast ((drop_bit 16 key XOR key) * 0x45d9f3b) :: size_t;
          x1 = (drop_bit 16 x0 XOR x0) * 0x45d9f3b
      in drop_bit 16 x1 XOR x1)"

definition hash_u64 :: "u64 \<Rightarrow> size_t" where
  "hash_u64 key =
     (let x0 = (drop_bit 32 key XOR key) * 0x45d9f3b;
          x1 = (drop_bit 16 x0 XOR x0) * 0x45d9f3b
      in drop_bit 16 x1 XOR x1)"

definition hash_ulong :: "u64 \<Rightarrow> size_t" where
  "hash_ulong key =
     (let x0 = (drop_bit 32 key XOR key) * 0x45d9f3b;
          x1 = (drop_bit 16 x0 XOR x0) * 0x35d9f3b
      in drop_bit 16 x1 XOR x1)"

section \<open>Invariant and abstraction\<close>

definition um_wf :: "('k \<Rightarrow> size_t) \<Rightarrow> ('k, 'v) umap \<Rightarrow> bool" where
  "um_wf hash m \<longleftrightarrow> 0 < f_capacity m \<and> length (f_bucket m) = unat (f_capacity m) \<and>
     (\<forall>i<length (f_bucket m). distinct (map fst (f_bucket m ! i)) \<and>
        (\<forall>e\<in>set (f_bucket m ! i). bucket_pos hash (fst e) (f_capacity m) = i))"

text \<open>The finite map the table stands for, and the number of its entries.\<close>

definition um_map :: "('k \<Rightarrow> size_t) \<Rightarrow> ('k, 'v) umap \<Rightarrow> 'k \<Rightarrow> 'v option" where
  "um_map hash m k = map_of (f_bucket m ! bucket_pos hash k (f_capacity m)) k"

definition um_count :: "('k, 'v) umap \<Rightarrow> nat" where
  "um_count m = length (concat (f_bucket m))"

lemma bucket_pos_less: "0 < cap \<Longrightarrow> bucket_pos hash k cap < unat cap"
  by (simp add: bucket_pos_def unat_mod word_gt_0 unat_gt_0)

lemma get_bucket_wf:
  "um_wf hash m \<Longrightarrow> get_bucket m (bucket_pos hash k (f_capacity m)) = Some (f_bucket m ! bucket_pos hash k (f_capacity m))"
  using bucket_pos_less by (auto simp: um_wf_def get_bucket_def)

lemma chain_find_map_of: "chain_find k b = [] \<longleftrightarrow> map_of b k = None"
  "chain_find k b = e # es \<Longrightarrow> e = (k, the (map_of b k)) \<and> map_of b k \<noteq> None"
  by (induction b) (auto split: if_splits)

lemma um_at_map: "um_wf hash m \<Longrightarrow> um_at hash k m = Some (um_map hash m k)"
  using chain_find_map_of [of k "f_bucket m ! bucket_pos hash k (f_capacity m)"]
  by (auto simp: um_at_def get_bucket_wf um_map_def split: list.splits)

lemma um_new_wf: "0 < c \<Longrightarrow> um_wf hash (um_new c)"
  by (simp add: um_wf_def um_new_def)

lemma um_empty_wf: "um_wf hash um_empty" "um_map hash um_empty k = None"
proof -
  show wf: "um_wf hash um_empty" by (simp add: um_empty_def um_new_wf initial_bucket_size_def)
  show "um_map hash um_empty k = None"
    using bucket_pos_less [of initial_bucket_size hash k]
    by (simp add: um_map_def um_empty_def um_new_def initial_bucket_size_def)
qed

section \<open>Rehashing\<close>

definition rehash_all ::
    "('k \<Rightarrow> size_t) \<Rightarrow> size_t \<Rightarrow> ('k, 'v) chain \<Rightarrow> ('k, 'v) buckets \<Rightarrow> ('k, 'v) buckets" where
  "rehash_all hash c es nb = fold (rehash_entry hash c) es nb"

lemma rehash_chain_fold: "rehash_chain hash c es nb = rehash_all hash c es nb"
  by (induction es arbitrary: nb) (simp_all add: rehash_all_def)

lemma rehash_buckets_fold: "rehash_buckets hash c bs nb = rehash_all hash c (concat bs) nb"
  by (induction bs arbitrary: nb) (simp_all add: rehash_chain_fold rehash_all_def)

lemma rehash_all_nth:
  assumes "0 < c" "length nb = unat c" "i < unat c"
  shows "length (rehash_all hash c es nb) = unat c"
    and "rehash_all hash c es nb ! i = nb ! i @ filter (\<lambda>e. bucket_pos hash (fst e) c = i) es"
  using assms
proof (induction es arbitrary: nb)
  case (Cons e es)
  { case 1
    then have "length (rehash_entry hash c e nb) = unat c" by (simp add: rehash_entry_def Let_def)
    then show ?case using 1 Cons(1) by (simp add: rehash_all_def)
  next
    case 2
    then have "length (rehash_entry hash c e nb) = unat c"
      "rehash_entry hash c e nb ! i = nb ! i @ (if bucket_pos hash (fst e) c = i then [e] else [])"
      by (auto simp: rehash_entry_def Let_def)
    then show ?case using 2 Cons(2) by (simp add: rehash_all_def) }
qed (simp_all add: rehash_all_def)

lemma map_of_filter_key: "(\<And>e. fst e = k \<Longrightarrow> P e) \<Longrightarrow> map_of (filter P es) k = map_of es k"
  by (induction es) auto

lemma map_of_concat_bucket:
  assumes "i < length bs" "\<And>j e. j < length bs \<Longrightarrow> e \<in> set (bs ! j) \<Longrightarrow> fst e = k \<Longrightarrow> j = i"
  shows "map_of (concat bs) k = map_of (bs ! i) k"
  using assms
proof (induction bs arbitrary: i)
  case (Cons b bs)
  show ?case
  proof (cases i)
    case 0
    have "k \<notin> fst ` set (concat bs)"
    proof
      assume "k \<in> fst ` set (concat bs)"
      then obtain e c where e: "e \<in> set c" "c \<in> set bs" "fst e = k" by auto
      then obtain j where "j < length bs" "e \<in> set (bs ! j)" by (metis in_set_conv_nth)
      then show False using Cons.prems(2) [of "Suc j" e] 0 e(3) by simp
    qed
    then have "map_of (concat bs) k = None" by (simp add: map_of_eq_None_iff)
    then show ?thesis using 0 by (simp add: map_add_def split: option.split)
  next
    case (Suc i')
    have "k \<notin> fst ` set b" using Cons.prems(2) [of 0] Suc by fastforce
    then have "map_of b k = None" by (simp add: map_of_eq_None_iff)
    moreover have "map_of (concat bs) k = map_of (bs ! i') k"
      using Cons.prems Suc by (intro Cons.IH) fastforce+
    ultimately show ?thesis using Suc by (simp add: map_add_def split: option.split)
  qed
qed simp

lemma um_map_concat: "um_wf hash m \<Longrightarrow> um_map hash m k = map_of (concat (f_bucket m)) k"
  unfolding um_map_def
  by (rule map_of_concat_bucket [symmetric]) (auto simp: um_wf_def bucket_pos_less)

lemma distinct_keys_concat:
  assumes "\<And>i. i < length bs \<Longrightarrow> distinct (map fst (bs ! i))"
    "\<And>i j d e. i < length bs \<Longrightarrow> j < length bs \<Longrightarrow> d \<in> set (bs ! i) \<Longrightarrow> e \<in> set (bs ! j) \<Longrightarrow> fst d = fst e \<Longrightarrow> i = j"
  shows "distinct (map fst (concat bs))"
  using assms
proof (induction bs)
  case (Cons b bs)
  have "distinct (map fst (concat bs))"
  proof (rule Cons.IH)
    show "distinct (map fst (bs ! i))" if "i < length bs" for i using Cons.prems(1) [of "Suc i"] that by simp
    show "i = j" if "i < length bs" "j < length bs" "d \<in> set (bs ! i)" "e \<in> set (bs ! j)" "fst d = fst e" for i j d e
      using Cons.prems(2) [of "Suc i" "Suc j" d e] that by simp
  qed
  moreover have "fst d \<noteq> fst e" if d: "d \<in> set b" and e: "e \<in> set (concat bs)" for d e
  proof
    assume "fst d = fst e"
    moreover obtain j where "j < length bs" "e \<in> set (bs ! j)"
      using e by (metis UN_E in_set_conv_nth set_concat)
    ultimately show False using Cons.prems(2) [of 0 "Suc j" d e] d by simp
  qed
  moreover have "distinct (map fst b)" using Cons.prems(1) [of 0] by simp
  ultimately show ?case by fastforce
qed simp

lemma um_wf_pos:
  "um_wf hash m \<Longrightarrow> i < length (f_bucket m) \<Longrightarrow> e \<in> set (f_bucket m ! i) \<Longrightarrow> bucket_pos hash (fst e) (f_capacity m) = i"
  by (simp add: um_wf_def)

lemma um_distinct:
  assumes "um_wf hash m"
  shows "distinct (map fst (concat (f_bucket m)))"
proof (rule distinct_keys_concat)
  show "distinct (map fst (f_bucket m ! i))" if "i < length (f_bucket m)" for i
    using assms that by (simp add: um_wf_def)
  show "i = j" if "i < length (f_bucket m)" "j < length (f_bucket m)" "d \<in> set (f_bucket m ! i)"
    "e \<in> set (f_bucket m ! j)" "fst d = fst e" for i j d e
    using um_wf_pos [OF assms that(1,3)] um_wf_pos [OF assms that(2,4)] that(5) by simp
qed

lemma um_rehash_wf:
  assumes "um_wf hash m" "0 < new_capacity (f_size m)"
  shows "um_wf hash (um_rehash hash m)" "um_map hash (um_rehash hash m) = um_map hash m"
    "f_size (um_rehash hash m) = f_size m" "f_capacity (um_rehash hash m) = new_capacity (f_size m)"
proof -
  let ?c = "new_capacity (f_size m)" and ?es = "concat (f_bucket m)"
  let ?nb = "rehash_all hash ?c ?es (replicate (unat ?c) [])"
  have eq: "um_rehash hash m = m\<lparr>f_bucket := ?nb, f_capacity := ?c\<rparr>"
    by (simp add: um_rehash_def Let_def rehash_buckets_fold)
  have 0: "0 < unat ?c" using assms(2) by (simp add: word_gt_0 unat_gt_0)
  have len: "length ?nb = unat ?c" using rehash_all_nth(1) [OF assms(2) _ 0, of "replicate (unat ?c) []"] by simp
  have nth: "?nb ! i = filter (\<lambda>e. bucket_pos hash (fst e) ?c = i) ?es" if "i < unat ?c" for i
    using rehash_all_nth(2) [OF assms(2) _ that, of "replicate (unat ?c) []"] that by simp
  have "distinct (map fst (filter P ?es))" for P
    using um_distinct [OF assms(1)] by (rule distinct_map_filter)
  then show wf: "um_wf hash (um_rehash hash m)"
    using assms(2) len nth by (simp add: um_wf_def eq)
  show "um_map hash (um_rehash hash m) = um_map hash m"
  proof
    fix k
    have "um_map hash (um_rehash hash m) k = map_of (filter (\<lambda>e. bucket_pos hash (fst e) ?c = bucket_pos hash k ?c) ?es) k"
      using nth [OF bucket_pos_less [OF assms(2), of hash k]] by (simp add: um_map_def eq)
    also have "\<dots> = map_of ?es k" by (rule map_of_filter_key) simp
    finally show "um_map hash (um_rehash hash m) k = um_map hash m k" using um_map_concat [OF assms(1)] by simp
  qed
qed (simp_all add: um_rehash_def Let_def)

text \<open>The new capacity: the size rounded up to a multiple of 64.\<close>

lemma div_64_shift: "s < 64 \<Longrightarrow> (s + t * 64) div 64 = (t :: nat)"
  by simp

lemma round_up_64:
  fixes n :: nat
  shows "n mod 64 = 0 \<Longrightarrow> (n + 63) div 64 * 64 = n"
    and "n mod 64 \<noteq> 0 \<Longrightarrow> (n + 63) div 64 * 64 = n div 64 * 64 + 64"
proof -
  have n: "n = n div 64 * 64 + n mod 64" by simp
  show "(n + 63) div 64 * 64 = n" if "n mod 64 = 0"
  proof -
    have "n + 63 = 63 + n div 64 * 64" using n that by simp
    then have "(n + 63) div 64 = n div 64" by (simp only: div_64_shift)
    then show ?thesis using n that by simp
  qed
  show "(n + 63) div 64 * 64 = n div 64 * 64 + 64" if "n mod 64 \<noteq> 0"
  proof -
    have "n + 63 = (n mod 64 - 1) + (n div 64 + 1) * 64" using n that by simp
    moreover have "n mod 64 - 1 < 64" by (rule less_imp_diff_less) simp
    ultimately have "(n + 63) div 64 = n div 64 + 1" by (simp only: div_64_shift)
    then show ?thesis by simp
  qed
qed

lemma new_capacity_nat:
  assumes "unat sz < 2 ^ 64 - 64"
  shows "unat (new_capacity sz) = (unat sz + 63) div 64 * 64"
proof -
  have z: "sz AND 0x3F = 0 \<longleftrightarrow> unat sz mod 64 = 0"
    by (simp add: and_low_mask unat_take_mod flip: unat_eq_0)
  have m: "mask 6 = (0x3F :: size_t)" by (simp add: mask_eq_exp_minus_1)
  have "sz OR mask 6 = push_bit 6 (drop_bit 6 sz) OR mask 6" by (auto simp: bit_eq_iff bit_simps)
  also have "\<dots> = push_bit 6 (drop_bit 6 sz) + mask 6"
    by (rule disjunctive_add [symmetric]) (auto simp: bit_simps)
  finally have "(sz OR 0x3F) + 1 = push_bit 6 (drop_bit 6 sz) + 64" by (simp add: m)
  moreover have "of_nat (unat (drop_bit 6 sz)) = drop_bit 6 sz" by simp
  then have "drop_bit 6 sz = of_nat (unat sz div 64)" by (simp only: unat_drop_div) simp
  then have "push_bit 6 (drop_bit 6 sz) = of_nat (unat sz div 64 * 64)"
    by (simp add: push_bit_eq_mult)
  ultimately have "(sz OR 0x3F) + 1 = of_nat (unat sz div 64 * 64 + 64)" by simp
  moreover have "unat (of_nat (unat sz div 64 * 64 + 64) :: size_t) = unat sz div 64 * 64 + 64"
  proof (rule unat_of_nat_less)
    have "unat sz div 64 * 64 \<le> unat sz" by (rule div_times_less_eq_dividend)
    then show "unat sz div 64 * 64 + 64 < 2 ^ LENGTH(64)" using assms by simp
  qed
  ultimately have up: "unat ((sz OR 0x3F) + 1) = unat sz div 64 * 64 + 64" by (simp only:)
  show ?thesis
  proof (cases "unat sz mod 64 = 0")
    case True
    then have "unat (new_capacity sz) = unat sz" by (simp add: new_capacity_def z)
    then show ?thesis using round_up_64(1) [OF True] by (simp only:)
  next
    case False
    then have "unat (new_capacity sz) = unat sz div 64 * 64 + 64" by (simp add: new_capacity_def z up)
    then show ?thesis using round_up_64(2) [OF False] by (simp only:)
  qed
qed

section \<open>Insertion, removal, iteration\<close>

lemma map_of_snoc: "map_of (b @ [(k, v)]) = (map_of b)(k \<mapsto> the (map_of b k) , k \<mapsto> (case map_of b k of None \<Rightarrow> v | Some w \<Rightarrow> w))"
  by (auto simp: fun_eq_iff map_add_def split: option.split)

lemma chain_erase_map_of:
  assumes "distinct (map fst b)"
  shows "chain_erase k b = None \<longleftrightarrow> map_of b k = None"
    and "chain_erase k b = Some b' \<Longrightarrow> map_of b' = (map_of b)(k := None) \<and> distinct (map fst b')
      \<and> set b' \<subseteq> set b \<and> Suc (length b') = length b"
  using assms
proof (induction b arbitrary: b')
  case (Cons e es)
  { case 1 then show ?case using Cons by auto
  next
    case 2
    then consider "k = fst e" "b' = es" | c where "k \<noteq> fst e" "chain_erase k es = Some c" "b' = e # c"
      by (auto split: if_splits)
    then show ?case
    proof cases
      case 1
      then have "map_of es k = None" using 2(2) by (auto simp: map_of_eq_None_iff)
      then show ?thesis using 1 2(2) by (auto simp: fun_eq_iff)
    next
      case c: 2
      have "map_of c = (map_of es)(k := None) \<and> distinct (map fst c) \<and> set c \<subseteq> set es \<and> Suc (length c) = length es"
        using 2(2) by (intro Cons(2) c(2)) simp
      then show ?thesis using c 2(2) by (auto simp: fun_upd_twist)
    qed }
qed simp_all

text \<open>Replacing one bucket: what is needed of the new chain, and the resulting map and count.\<close>

lemma um_wf_update:
  assumes "um_wf hash m" "distinct (map fst b')" "\<And>e. e \<in> set b' \<Longrightarrow> bucket_pos hash (fst e) (f_capacity m) = i"
  shows "um_wf hash (m\<lparr>f_bucket := (f_bucket m)[i := b']\<rparr>)"
proof -
  have "distinct (map fst ((f_bucket m)[i := b'] ! j)) \<and>
      (\<forall>e\<in>set ((f_bucket m)[i := b'] ! j). bucket_pos hash (fst e) (f_capacity m) = j)" if "j < length (f_bucket m)" for j
  proof (cases "j = i")
    case True then show ?thesis using assms that by simp
  next
    case False then show ?thesis using assms(1) that by (simp add: um_wf_def)
  qed
  then show ?thesis using assms(1) by (simp add: um_wf_def)
qed

lemma um_map_update:
  assumes "um_wf hash m" and i: "i = bucket_pos hash k (f_capacity m)"
    and "\<And>k'. k' \<noteq> k \<Longrightarrow> map_of b' k' = map_of (f_bucket m ! i) k'"
  shows "um_map hash (m\<lparr>f_bucket := (f_bucket m)[i := b']\<rparr>) = (um_map hash m)(k := map_of b' k)"
proof -
  have "i < length (f_bucket m)" using assms bucket_pos_less by (auto simp: um_wf_def)
  then show ?thesis using assms(3) i by (auto simp: um_map_def fun_eq_iff nth_list_update)
qed

lemma length_concat_update:
  "i < length bs \<Longrightarrow> length (concat (bs[i := b])) + length (bs ! i) = length (concat bs) + length b"
  by (induction bs arbitrary: i) (auto split: nat.split)

lemma um_count_update:
  "i < length (f_bucket m) \<Longrightarrow>
     um_count (m\<lparr>f_bucket := (f_bucket m)[i := b]\<rparr>) + length (f_bucket m ! i) = um_count m + length b"
  by (simp add: um_count_def length_concat_update)

lemma um_size_irrelevant [simp]:
  "um_wf hash (m\<lparr>f_size := n\<rparr>) = um_wf hash m" "um_map hash (m\<lparr>f_size := n\<rparr>) = um_map hash m"
  "um_count (m\<lparr>f_size := n\<rparr>) = um_count m"
  by (simp_all add: um_wf_def um_map_def um_count_def fun_eq_iff)

lemma um_count_card:
  assumes "um_wf hash m"
  shows "um_count m = card (dom (um_map hash m))"
proof -
  have "um_map hash m = map_of (concat (f_bucket m))" using um_map_concat [OF assms] by blast
  then have "dom (um_map hash m) = fst ` set (concat (f_bucket m))" by (simp only: dom_map_of_conv_image_fst)
  then show ?thesis
    using distinct_card [OF um_distinct [OF assms]] by (simp add: um_count_def)
qed

lemma new_capacity_pos: "sz \<noteq> 0 \<Longrightarrow> unat sz < 2 ^ 64 - 64 \<Longrightarrow> 0 < new_capacity sz"
proof -
  assume "sz \<noteq> 0" "unat sz < 2 ^ 64 - 64"
  moreover have "1 \<le> unat sz" using \<open>sz \<noteq> 0\<close> by (simp add: Suc_le_eq unat_gt_0)
  moreover have "0 < (unat sz + 63) div 64 * 64" using \<open>1 \<le> unat sz\<close> by simp
  ultimately have "0 < unat (new_capacity sz)" by (simp only: new_capacity_nat)
  then show ?thesis by (simp add: word_gt_0 unat_gt_0 [symmetric])
qed

text \<open>The table invariant with the size field: \<^verbatim>\<open>f_size\<close> counts the entries.\<close>

definition um_inv :: "('k \<Rightarrow> size_t) \<Rightarrow> ('k, 'v) umap \<Rightarrow> bool" where
  "um_inv hash m \<longleftrightarrow> um_wf hash m \<and> f_size m = of_nat (um_count m)"

definition um_limit :: nat where
  "um_limit = 2 ^ 64 - 65"

lemma um_insert_present:
  "um_wf hash m \<Longrightarrow> um_map hash m k \<noteq> None \<Longrightarrow> um_insert hash k v m = Some (m, False)"
  by (simp add: um_insert_def Let_def get_bucket_wf um_map_def chain_find_map_of(1))

lemma um_rehash_count:
  assumes "um_wf hash m" "0 < new_capacity (f_size m)"
  shows "um_count (um_rehash hash m) = um_count m"
  using um_rehash_wf [OF assms] um_count_card assms(1) by metis

lemma um_insert_absent:
  assumes inv: "um_inv hash m" and k: "um_map hash m k = None" and lim: "um_count m < um_limit"
  obtains m' where "um_insert hash k v m = Some (m', True)" "um_inv hash m'"
    "um_map hash m' = (um_map hash m)(k \<mapsto> v)"
proof -
  let ?i = "bucket_pos hash k (f_capacity m)"
  let ?b = "f_bucket m ! ?i"
  define m0 where "m0 = m\<lparr>f_bucket := (f_bucket m)[?i := ?b @ [(k, v)]]\<rparr>"
  define m1 where "m1 = m0\<lparr>f_size := f_size m + 1\<rparr>"
  have wf: "um_wf hash m" and sz: "f_size m = of_nat (um_count m)" using inv by (auto simp: um_inv_def)
  have i: "?i < length (f_bucket m)" using wf bucket_pos_less by (auto simp: um_wf_def)
  have kb: "map_of ?b k = None" using k by (simp add: um_map_def)
  have b: "distinct (map fst (?b @ [(k, v)]))" "\<And>e. e \<in> set (?b @ [(k, v)]) \<Longrightarrow> bucket_pos hash (fst e) (f_capacity m) = ?i"
    using wf i kb by (auto simp: um_wf_def map_of_eq_None_iff)
  have 0: "um_wf hash m0" unfolding m0_def by (rule um_wf_update [OF wf b])
  have map: "um_map hash m0 = (um_map hash m)(k \<mapsto> v)"
    unfolding m0_def by (subst um_map_update [OF wf refl]) (use kb in \<open>auto simp: map_add_def split: option.splits\<close>)
  have "um_count m0 = Suc (um_count m)" using um_count_update [OF i, of "?b @ [(k, v)]"] by (simp add: m0_def)
  then have 1: "um_inv hash m1" using 0 by (simp add: um_inv_def m1_def sz)
  have "f_size m1 = of_nat (Suc (um_count m))" by (simp add: m1_def sz)
  then have "unat (f_size m1) = Suc (um_count m)"
    using lim unat_of_nat_less [of "Suc (um_count m)", where 'a = 64] by (simp only: um_limit_def) simp
  then have "f_size m1 \<noteq> 0" "unat (f_size m1) < 2 ^ 64 - 64" using lim by (auto simp: um_limit_def)
  then have cap: "0 < new_capacity (f_size m1)" by (rule new_capacity_pos)
  let ?r = "um_rehash hash m1"
  have 2: "um_inv hash ?r" "um_map hash ?r = um_map hash m1"
    using um_rehash_wf [OF _ cap, of hash] um_rehash_count [OF _ cap, of hash] 1 by (auto simp: um_inv_def)
  let ?m = "if f_size m1 \<ge> f_capacity m1 * 2 then ?r else m1"
  show thesis
  proof (rule that)
    show "um_insert hash k v m = Some (?m, True)"
      using wf kb by (simp add: um_insert_def Let_def get_bucket_wf chain_find_map_of(1) m1_def m0_def)
    show "um_inv hash ?m" using 1 2(1) by simp
    show "um_map hash ?m = (um_map hash m)(k \<mapsto> v)" using 2(2) map by (simp add: m1_def)
  qed
qed

lemma um_erase_map:
  assumes inv: "um_inv hash m"
  obtains m' where "um_erase hash k m = Some m'" "um_inv hash m'" "um_map hash m' = (um_map hash m)(k := None)"
proof -
  let ?i = "bucket_pos hash k (f_capacity m)"
  let ?b = "f_bucket m ! ?i"
  have wf: "um_wf hash m" and sz: "f_size m = of_nat (um_count m)" using inv by (auto simp: um_inv_def)
  have i: "?i < length (f_bucket m)" using wf bucket_pos_less by (auto simp: um_wf_def)
  have d: "distinct (map fst ?b)" using wf i by (simp add: um_wf_def)
  show thesis
  proof (cases "chain_erase k ?b")
    case None
    then have "um_map hash m k = None" using chain_erase_map_of(1) [OF d] by (simp add: um_map_def)
    then have "um_map hash m = (um_map hash m)(k := None)" by auto
    then show thesis using that inv None wf by (simp add: um_erase_def get_bucket_wf)
  next
    case (Some b')
    have b': "map_of b' = (map_of ?b)(k := None)" "distinct (map fst b')" "set b' \<subseteq> set ?b" "Suc (length b') = length ?b"
      using chain_erase_map_of(2) [OF d Some] by auto
    let ?m = "m\<lparr>f_bucket := (f_bucket m)[?i := b']\<rparr>"
    have "um_wf hash ?m" using b'(2,3) um_wf_pos [OF wf i] by (intro um_wf_update wf) auto
    moreover have "Suc (um_count ?m) = um_count m" using um_count_update [OF i, of b'] b'(4) by simp
    then have "f_size m = of_nat (Suc (um_count ?m))" by (simp add: sz)
    then have "f_size m - 1 = of_nat (um_count ?m)" by simp
    ultimately have "um_inv hash (?m\<lparr>f_size := f_size m - 1\<rparr>)" by (simp add: um_inv_def)
    moreover have "um_map hash ?m = (um_map hash m)(k := None)"
      using um_map_update [OF wf refl, of k b'] b'(1) by simp
    ultimately show thesis using that Some wf by (simp add: um_erase_def get_bucket_wf)
  qed
qed

section \<open>The table as a map store\<close>

text \<open>
  What the users of the table rely on: insertion that keeps an existing entry, deletion, and a
  bound on the number of entries below which insertion succeeds.
\<close>

locale map_store =
  fixes inv :: "'s \<Rightarrow> bool" and lk :: "'s \<Rightarrow> 'k \<Rightarrow> 'v option"
    and ins :: "'k \<Rightarrow> 'v \<Rightarrow> 's \<Rightarrow> ('s \<times> bool) option" and del :: "'k \<Rightarrow> 's \<Rightarrow> 's option"
    and empty :: 's and limit :: nat
  assumes empty_inv: "inv empty" and empty_lk: "lk empty = Map.empty"
    and fin: "inv s \<Longrightarrow> finite (dom (lk s))"
    and ins_present: "inv s \<Longrightarrow> lk s k \<noteq> None \<Longrightarrow> ins k v s = Some (s, False)"
    and ins_absent: "inv s \<Longrightarrow> lk s k = None \<Longrightarrow> card (dom (lk s)) < limit \<Longrightarrow>
      \<exists>s'. ins k v s = Some (s', True) \<and> inv s' \<and> lk s' = (lk s)(k \<mapsto> v)"
    and del_spec: "inv s \<Longrightarrow> \<exists>s'. del k s = Some s' \<and> inv s' \<and> lk s' = (lk s)(k := None)"
begin

lemma ins_spec:
  assumes "inv s" "card (dom (lk s)) < limit"
  shows "\<exists>s'. ins k v s = Some (s', lk s k = None) \<and> inv s' \<and> lk s' = [k \<mapsto> v] ++ lk s"
proof (cases "lk s k")
  case None
  have "[k \<mapsto> v] ++ lk s = (lk s)(k \<mapsto> v)" using None by (auto simp: fun_eq_iff map_add_def split: option.split)
  then show ?thesis using ins_absent [OF assms(1) None assms(2)] None by simp
next
  case (Some w)
  then have "[k \<mapsto> v] ++ lk s = lk s" by (auto simp: fun_eq_iff map_add_def split: option.split)
  then show ?thesis using ins_present [OF assms(1)] Some assms(1) by simp
qed

lemma ins_list:
  assumes "inv s" "card (dom (lk s)) + length kvs \<le> limit"
  shows "\<exists>s'. fold (\<lambda>(k, v) r. Option.bind r (\<lambda>s. map_option fst (ins k v s))) kvs (Some s) = Some s'
     \<and> inv s' \<and> lk s' = map_of kvs ++ lk s"
  using assms
proof (induction kvs arbitrary: s)
  case (Cons kv kvs)
  obtain k v where kv: "kv = (k, v)" by fastforce
  obtain s1 where s1: "ins k v s = Some (s1, lk s k = None)" "inv s1" "lk s1 = [k \<mapsto> v] ++ lk s"
    using ins_spec [OF Cons.prems(1)] Cons.prems(2) by fastforce
  have "dom (lk s1) \<subseteq> insert k (dom (lk s))" by (auto simp: s1(3))
  then have "card (dom (lk s1)) \<le> Suc (card (dom (lk s)))"
    using card_mono [of "insert k (dom (lk s))" "dom (lk s1)"] fin [OF Cons.prems(1)]
    by (auto simp: card_insert_if split: if_splits)
  then obtain s' where "fold (\<lambda>(k, v) r. Option.bind r (\<lambda>s. map_option fst (ins k v s))) kvs (Some s1) = Some s'"
    "inv s'" "lk s' = map_of kvs ++ lk s1"
    using Cons.IH [OF s1(2)] Cons.prems(2) by auto
  moreover have "map_of kvs ++ lk s1 = map_of (kv # kvs) ++ lk s"
    by (auto simp: s1(3) kv fun_eq_iff map_add_def split: option.split)
  ultimately have "inv s' \<and> lk s' = map_of (kv # kvs) ++ lk s" by simp
  moreover have "fold (\<lambda>(k, v) r. Option.bind r (\<lambda>s. map_option fst (ins k v s))) (kv # kvs) (Some s) = Some s'"
    using \<open>fold _ kvs (Some s1) = Some s'\<close> by (simp add: kv s1(1))
  ultimately show ?case by blast
qed simp

end

interpretation um: map_store "um_inv hash" "um_map hash" "um_insert hash" "um_erase hash" um_empty um_limit
proof
  fix m :: "('a, 'b) umap" and k :: 'a and v :: 'b
  show "um_inv hash um_empty"
    by (simp add: um_inv_def um_empty_wf) (simp add: um_empty_def um_new_def um_count_def)
  show "um_map hash um_empty = Map.empty" by (rule ext) (rule um_empty_wf(2))
  show "um_inv hash m \<Longrightarrow> finite (dom (um_map hash m))"
    using um_map_concat [of hash m] finite_dom_map_of [of "concat (f_bucket m)"] by (simp add: um_inv_def dom_def)
  show "um_inv hash m \<Longrightarrow> um_map hash m k \<noteq> None \<Longrightarrow> um_insert hash k v m = Some (m, False)"
    by (simp add: um_inv_def um_insert_present)
  show "\<exists>s'. um_insert hash k v m = Some (s', True) \<and> um_inv hash s' \<and> um_map hash s' = (um_map hash m)(k \<mapsto> v)"
    if "um_inv hash m" "um_map hash m k = None" "card (dom (um_map hash m)) < um_limit"
    using um_insert_absent [OF that(1,2), of v] that um_count_card [of hash m] by (auto simp: um_inv_def)
  show "um_inv hash m \<Longrightarrow> \<exists>s'. um_erase hash k m = Some s' \<and> um_inv hash s' \<and> um_map hash s' = (um_map hash m)(k := None)"
    using um_erase_map [of hash m k] by blast
qed

section \<open>Iteration\<close>

text \<open>
  The entries an iterator has still to visit. An iterator of the code either stands on an entry
  of a bucket or is \<^verbatim>\<open>end()\<close>.
\<close>

definition um_rest :: "('k, 'v) umap \<Rightarrow> ('k, 'v) um_iterator \<Rightarrow> ('k, 'v) chain" where
  "um_rest m it = it_entry it @ concat (drop (Suc (it_index it)) (f_bucket m))"

definition it_wf :: "('k, 'v) umap \<Rightarrow> ('k, 'v) um_iterator \<Rightarrow> bool" where
  "it_wf m it \<longleftrightarrow> it = um_end m \<or> it_index it < unat (f_capacity m) \<and> it_entry it \<noteq> []"

lemma um_rest_end: "length (f_bucket m) = unat (f_capacity m) \<Longrightarrow> um_rest m (um_end m) = []"
  by (simp add: um_rest_def um_end_def)

lemma it_wf_end: "it_wf m it \<Longrightarrow> length (f_bucket m) = unat (f_capacity m) \<Longrightarrow> um_rest m it = [] \<longleftrightarrow> it = um_end m"
  by (auto simp: it_wf_def um_rest_end) (simp add: um_rest_def)

lemma um_begin_from_rest:
  assumes "length (f_bucket m) = unat (f_capacity m)"
  shows "\<exists>it. um_begin_from m i = Some it \<and> it_wf m it \<and> um_rest m it = concat (drop i (f_bucket m))"
  using assms
proof (induction m i rule: um_begin_from.induct)
  case (1 m i)
  show ?case
  proof (cases "i < unat (f_capacity m)")
    case True
    then have b: "get_bucket m i = Some (f_bucket m ! i)" "drop i (f_bucket m) = f_bucket m ! i # drop (Suc i) (f_bucket m)"
      using 1(2) by (simp_all add: get_bucket_def Cons_nth_drop_Suc)
    show ?thesis
    proof (cases "f_bucket m ! i = []")
      case e: True
      have "um_begin_from m i = um_begin_from m (Suc i)"
        by (subst um_begin_from.simps) (simp add: True b e)
      then show ?thesis using 1(1) [OF True b(1)] e 1(2) b(2) by simp
    next
      case False
      have "um_begin_from m i = Some \<lparr>it_index = i, it_entry = f_bucket m ! i\<rparr>"
        by (subst um_begin_from.simps) (simp add: True b False)
      then show ?thesis using True False b(2) by (simp add: it_wf_def um_rest_def)
    qed
  next
    case False
    then have "um_begin_from m i = Some (um_end m)" by (subst um_begin_from.simps) simp
    then show ?thesis using 1(2) False by (simp add: it_wf_def um_rest_end)
  qed
qed

lemma next_bucket_rest:
  assumes "length (f_bucket m) = unat (f_capacity m)" "i \<le> unat (f_capacity m)" "es \<noteq> [] \<Longrightarrow> 0 < i"
  shows "\<exists>j e. next_bucket m i es = Some (j, e) \<and> (e = [] \<longrightarrow> j = unat (f_capacity m)) \<and> (e \<noteq> [] \<longrightarrow> 0 < j)
     \<and> j \<le> unat (f_capacity m) \<and> e @ concat (drop j (f_bucket m)) = es @ concat (drop i (f_bucket m))"
  using assms
proof (induction m i es rule: next_bucket.induct)
  case (1 m i es)
  show ?case
  proof (cases "i < unat (f_capacity m) \<and> es = []")
    case True
    then have b: "get_bucket m i = Some (f_bucket m ! i)" "drop i (f_bucket m) = f_bucket m ! i # drop (Suc i) (f_bucket m)"
      using 1(2) by (simp_all add: get_bucket_def Cons_nth_drop_Suc)
    have "next_bucket m i es = next_bucket m (Suc i) (f_bucket m ! i)"
      by (subst next_bucket.simps) (simp add: True b)
    then show ?thesis using 1(1) [OF True b(1)] 1(2) b(2) True by simp
  next
    case False
    then have "next_bucket m i es = Some (i, es)" by (subst next_bucket.simps) auto
    then show ?thesis using False 1(2-) by auto
  qed
qed

lemma um_next_rest:
  assumes "length (f_bucket m) = unat (f_capacity m)" "it_wf m it" "it \<noteq> um_end m"
  shows "\<exists>it'. um_next m it = Some it' \<and> it_wf m it' \<and> um_rest m it' = tl (um_rest m it)"
proof -
  have it: "it_index it < unat (f_capacity m)" "it_entry it \<noteq> []" using assms(2,3) by (auto simp: it_wf_def)
  then consider e where "it_entry it = [e]" | e f es where "it_entry it = e # f # es"
    by (metis neq_Nil_conv)
  then show ?thesis
  proof cases
    case (1 e)
    obtain j b where j: "next_bucket m (Suc (it_index it)) [] = Some (j, b)" "b = [] \<longrightarrow> j = unat (f_capacity m)"
      "b \<noteq> [] \<longrightarrow> 0 < j" "j \<le> unat (f_capacity m)"
      "b @ concat (drop j (f_bucket m)) = concat (drop (Suc (it_index it)) (f_bucket m))"
      using next_bucket_rest [OF assms(1), of "Suc (it_index it)" "[]"] it(1) by auto
    then show ?thesis using 1 it(1)
      by (cases "b = []") (auto simp: um_next_def it_wf_def um_end_def um_rest_def assms(1))
  qed (use it in \<open>auto simp: um_next_def it_wf_def um_rest_def\<close>)
qed

text \<open>A range-based \<^verbatim>\<open>for\<close> loop over the map, collecting the visited entries.\<close>

fun um_for :: "nat \<Rightarrow> ('k, 'v) umap \<Rightarrow> ('k, 'v) um_iterator \<Rightarrow> ('k, 'v) chain option" where
  "um_for 0 m it = None"
| "um_for (Suc n) m it =
     (if it = um_end m then Some []
      else case it_entry it of
             [] \<Rightarrow> None
           | e # es \<Rightarrow> Option.bind (um_next m it) (\<lambda>it'. map_option (Cons e) (um_for n m it')))"

lemma um_for_rest:
  assumes "length (f_bucket m) = unat (f_capacity m)" "it_wf m it" "length (um_rest m it) < n"
  shows "um_for n m it = Some (um_rest m it)"
  using assms(2,3)
proof (induction n arbitrary: it)
  case (Suc n)
  show ?case
  proof (cases "it = um_end m")
    case True then show ?thesis using um_rest_end [OF assms(1)] by simp
  next
    case False
    then obtain e es where e: "it_entry it = e # es" using Suc.prems(1) by (auto simp: it_wf_def neq_Nil_conv)
    obtain it' where it': "um_next m it = Some it'" "it_wf m it'" "um_rest m it' = tl (um_rest m it)"
      using um_next_rest [OF assms(1) Suc.prems(1) False] by blast
    have r: "um_rest m it = e # um_rest m it'" using e it'(3) by (simp add: um_rest_def)
    have "um_for n m it' = Some (um_rest m it')" using Suc.prems(2) r by (intro Suc.IH it'(2)) simp
    then show ?thesis using False e it'(1) by (simp add: r)
  qed
qed simp

section \<open>Correctness of the table\<close>

fun um_insert_all :: "('k \<Rightarrow> size_t) \<Rightarrow> ('k, 'v) chain \<Rightarrow> ('k, 'v) umap \<Rightarrow> ('k, 'v) umap option" where
  "um_insert_all hash [] m = Some m"
| "um_insert_all hash (kv # kvs) m =
     Option.bind (um_insert hash (fst kv) (snd kv) m) (\<lambda>(m', ins). um_insert_all hash kvs m')"

lemma um_insert_all_None: "fold (\<lambda>kv r. Option.bind r (\<lambda>s. map_option fst (f (fst kv) (snd kv) s))) kvs None = None"
  by (induction kvs) auto

lemma um_insert_all_fold:
  "um_insert_all hash kvs m =
     fold (\<lambda>(k, v) r. Option.bind r (\<lambda>s. map_option fst (um_insert hash k v s))) kvs (Some m)"
proof (induction kvs arbitrary: m)
  case (Cons kv kvs)
  then show ?case
    by (cases "um_insert hash (fst kv) (snd kv) m") (auto simp: split_beta um_insert_all_None)
qed simp

text \<open>C4: Inserting any list of pairs into a table whose size field is right, up to
  \<open>2 ^ 64 - 65\<close> entries and through every rehash on the way, gives a well-formed table whose size field is
  right and whose lookup returns the value that was there before the insertions, and otherwise the first
  value inserted under the key.\<close>

theorem um_insert_all_correct:
  assumes "um_inv hash m" "um_count m + length kvs \<le> um_limit"
  shows "\<exists>m'. um_insert_all hash kvs m = Some m' \<and> um_inv hash m'
     \<and> (\<forall>k. um_at hash k m' =
          Some (case um_map hash m k of Some v \<Rightarrow> Some v | None \<Rightarrow> map_of kvs k))"
proof -
  have wf: "um_wf hash m" using assms(1) by (simp add: um_inv_def)
  obtain m' where m': "um_insert_all hash kvs m = Some m'" "um_inv hash m'" "um_map hash m' = map_of kvs ++ um_map hash m"
    using um.ins_list [OF assms(1), of kvs] assms(2) um_count_card [OF wf] by (auto simp: um_insert_all_fold)
  then have "um_at hash k m' = Some ((map_of kvs ++ um_map hash m) k)" for k
    using um_at_map [of hash m' k] by (simp add: um_inv_def)
  then show ?thesis using m' by (auto simp: map_add_def)
qed

theorem um_insert_all_correct_witness:
  "\<exists>m'. um_insert_all hash_u64 [(7, True), (71, False), (7, False)] (um_new 2) = Some m' \<and> um_inv hash_u64 m'
     \<and> um_at hash_u64 7 m' = Some (Some True) \<and> um_at hash_u64 71 m' = Some (Some False)
     \<and> um_at hash_u64 8 m' = Some None"
proof -
  let ?m = "um_new 2 :: (u64, bool) umap"
  have c: "um_count ?m = 0" "f_size ?m = 0" by (simp_all add: um_new_def um_count_def)
  then have "um_inv hash_u64 ?m" by (simp add: um_inv_def um_new_wf)
  moreover have "um_map hash_u64 ?m k = None" for k
    using bucket_pos_less [of 2 hash_u64 k] by (simp add: um_map_def um_new_def)
  ultimately show ?thesis
    using um_insert_all_correct [of hash_u64 ?m "[(7, True), (71, False), (7, False)]"] c(1)
    by (auto simp: um_limit_def)
qed

text \<open>C30: \<^verbatim>\<open>erase\<close> of a key, present or not, gives a well-formed table whose size field is right,
  in which the key is absent and every other key keeps its value.\<close>

theorem um_erase_correct:
  assumes "um_inv hash m"
  shows "\<exists>m'. um_erase hash k m = Some m' \<and> um_inv hash m' \<and> um_at hash k m' = Some None
     \<and> (\<forall>k'. k' \<noteq> k \<longrightarrow> um_at hash k' m' = um_at hash k' m)
     \<and> um_count m' = (if um_map hash m k = None then um_count m else um_count m - 1)"
proof -
  obtain m' where m': "um_erase hash k m = Some m'" "um_inv hash m'" "um_map hash m' = (um_map hash m)(k := None)"
    using um.del_spec [OF assms] by blast
  moreover have "um_at hash k' m' = Some (((um_map hash m)(k := None)) k')" "um_at hash k' m = Some (um_map hash m k')" for k'
    using um_at_map [of hash m' k'] um_at_map [of hash m k'] m' assms by (simp_all add: um_inv_def)
  moreover have "um_count m' = card (dom (um_map hash m) - {k})" "um_count m = card (dom (um_map hash m))"
    using um_count_card [of hash m] um_count_card [of hash m'] m' assms by (simp_all add: um_inv_def)
  ultimately show ?thesis
    by (auto simp: card_Diff_singleton_if domIff)
qed

theorem um_erase_correct_witness:
  "\<exists>m'. um_erase hash_u64 7 \<lparr>f_bucket = [[(7, True), (9, False)]], f_capacity = 1, f_size = 2\<rparr> = Some m'
     \<and> um_at hash_u64 7 m' = Some None \<and> um_at hash_u64 9 m' = Some (Some False)"
proof -
  let ?m = "\<lparr>f_bucket = [[(7, True), (9, False)]], f_capacity = 1, f_size = 2\<rparr>"
  have "um_inv hash_u64 ?m"
    by (simp add: um_inv_def um_wf_def um_count_def bucket_pos_def)
  from um_erase_correct [OF this, of 7]
  obtain m' where "um_erase hash_u64 7 ?m = Some m'" "um_at hash_u64 7 m' = Some None"
    "um_at hash_u64 9 m' = um_at hash_u64 9 ?m" by auto
  moreover have "um_at hash_u64 9 ?m = Some (Some False)" by (simp add: um_at_def get_bucket_def bucket_pos_def)
  ultimately show ?thesis by auto
qed

text \<open>C37: Iterating over a table from \<^verbatim>\<open>begin()\<close> with \<^verbatim>\<open>operator++\<close> reaches \<^verbatim>\<open>end()\<close> after visiting
  every entry exactly once: the visited keys are distinct and the visited pairs are exactly
  what lookup returns.\<close>

theorem um_iteration_complete:
  assumes "um_wf hash m" "um_count m < n"
  shows "\<exists>it es. um_begin m = Some it \<and> um_for n m it = Some es \<and> length es = um_count m
     \<and> distinct (map fst es) \<and> (\<forall>k. um_at hash k m = Some (map_of es k))"
proof -
  have len: "length (f_bucket m) = unat (f_capacity m)" using assms(1) by (simp add: um_wf_def)
  obtain it where it: "um_begin m = Some it" "it_wf m it" "um_rest m it = concat (f_bucket m)"
    using um_begin_from_rest [OF len, of 0] by (auto simp: um_begin_def)
  then have "um_for n m it = Some (concat (f_bucket m))"
    using um_for_rest [OF len it(2)] assms(2) by (simp add: um_count_def)
  then show ?thesis
    using it(1) um_distinct [OF assms(1)] um_at_map [OF assms(1)] um_map_concat [OF assms(1)]
    by (auto simp: um_count_def)
qed

theorem um_iteration_complete_witness:
  "\<exists>it es. um_begin \<lparr>f_bucket = [[], [(1, True), (3, False)]], f_capacity = 2, f_size = 2\<rparr> = Some it
     \<and> um_for 3 \<lparr>f_bucket = [[], [(1, True), (3, False)]], f_capacity = 2, f_size = 2\<rparr> it = Some es
     \<and> distinct (map fst es) \<and> map_of es (3 :: u64) = Some False"
proof -
  let ?m = "\<lparr>f_bucket = [[], [(1, True), (3, False)]], f_capacity = 2, f_size = 2\<rparr>"
  have "um_wf id ?m"
    by (simp add: um_wf_def bucket_pos_def less_Suc_eq)
  moreover have "um_count ?m < 3" by (simp add: um_count_def)
  ultimately obtain it es where "um_begin ?m = Some it" "um_for 3 ?m it = Some es" "distinct (map fst es)"
    and at: "\<And>k. um_at id k ?m = Some (map_of es k)"
    using um_iteration_complete [of id ?m 3] by blast
  moreover have "um_at id 3 ?m = Some (Some False)" by (simp add: um_at_def get_bucket_def bucket_pos_def)
  ultimately show ?thesis using at [of 3] by auto
qed

lemma copy_buckets_null: "copy_buckets (replicate n []) bs = replicate n []"
  by (induction n arbitrary: bs) (auto, case_tac bs, auto)

text \<open>The copy constructor copies no entry: every lookup in the copy misses, whatever the
  source holds, while the copy reports the size of the source.\<close>

theorem um_copy_loses_entries:
  assumes "um_wf hash m"
  shows "um_at hash k (um_copy m) = Some None \<and> um_count (um_copy m) = 0 \<and> f_size (um_copy m) = f_size m"
proof -
  have "0 < f_capacity m" using assms by (simp add: um_wf_def)
  then have "um_at hash k (um_copy m) = Some None"
    using bucket_pos_less [of "f_capacity m" hash k]
    by (simp add: um_at_def um_copy_def copy_buckets_null get_bucket_def)
  then show ?thesis by (simp add: um_count_def um_copy_def copy_buckets_null)
qed

theorem um_copy_loses_entries_witness:
  "um_at hash_u64 7 \<lparr>f_bucket = [[(7, True)]], f_capacity = 1, f_size = 1\<rparr> = Some (Some True)
   \<and> um_at hash_u64 7 (um_copy \<lparr>f_bucket = [[(7, True)]], f_capacity = 1, f_size = 1\<rparr>) = Some None"
  using um_copy_loses_entries [of hash_u64 "\<lparr>f_bucket = [[(7, True)]], f_capacity = 1, f_size = 1\<rparr>" 7]
  by (simp add: um_wf_def bucket_pos_def um_at_def get_bucket_def)

text \<open>\<^verbatim>\<open>operator[]\<close> on a missing key adds the default entry without counting it.\<close>

lemma um_index_absent:
  assumes wf: "um_wf hash m" and k: "um_map hash m k = None"
  obtains m' where "um_index hash d k m = Some (m', d)" "um_wf hash m'"
    "um_map hash m' = (um_map hash m)(k \<mapsto> d)" "f_size m' = f_size m" "um_count m' = Suc (um_count m)"
proof -
  let ?i = "bucket_pos hash k (f_capacity m)"
  let ?b = "f_bucket m ! ?i"
  define m0 where "m0 = m\<lparr>f_bucket := (f_bucket m)[?i := ?b @ [(k, d)]]\<rparr>"
  have i: "?i < length (f_bucket m)" using wf bucket_pos_less by (auto simp: um_wf_def)
  have kb: "map_of ?b k = None" using k by (simp add: um_map_def)
  have b: "distinct (map fst (?b @ [(k, d)]))" "\<And>e. e \<in> set (?b @ [(k, d)]) \<Longrightarrow> bucket_pos hash (fst e) (f_capacity m) = ?i"
    using wf i kb by (auto simp: um_wf_def map_of_eq_None_iff)
  show thesis
  proof (rule that)
    show "um_index hash d k m = Some (m0, d)"
      using kb wf by (simp add: um_index_def Let_def get_bucket_wf m0_def chain_find_map_of(1) [THEN iffD2])
    show "um_wf hash m0" unfolding m0_def by (rule um_wf_update [OF wf b])
    show "um_map hash m0 = (um_map hash m)(k \<mapsto> d)"
      unfolding m0_def by (subst um_map_update [OF wf refl]) (use kb in \<open>auto simp: map_add_def split: option.splits\<close>)
    show "um_count m0 = Suc (um_count m)" using um_count_update [OF i, of "?b @ [(k, d)]"] by (simp add: m0_def)
  qed (simp add: m0_def)
qed

lemma um_index_present:
  "um_wf hash m \<Longrightarrow> um_map hash m k = Some v \<Longrightarrow> um_index hash d k m = Some (m, v)"
  using chain_find_map_of [of k "f_bucket m ! bucket_pos hash k (f_capacity m)"]
  by (auto simp: um_index_def get_bucket_wf um_map_def Let_def split: list.splits)

lemma hash_str_from_bound: "hash_str_from key i pp h < 1000000009"
  by (induction key i pp h rule: hash_str_from.induct)
    (subst hash_str_from.simps, simp add: word_less_nat_alt unat_mod)

end
