(* ===== verification/Ring.thy ===== *)
theory Ring
  imports Prelude
begin

text \<open>
  Ring buffers: the sequence of elements between a read head and a write head of an array of
  \<open>c\<close> cells, and the interface \<open>byte_queue\<close> that the pipe, the terminal input buffer and the serial
  port FIFO provide. The heads of the code are \<^verbatim>\<open>size_t\<close> values that advance by
  \<^verbatim>\<open>(head + 1) % c\<close>.
\<close>

section \<open>Contents of a ring\<close>

definition ring_contents :: "nat \<Rightarrow> (nat \<Rightarrow> 'a) \<Rightarrow> nat \<Rightarrow> nat \<Rightarrow> 'a list" where
  "ring_contents c buf r w = map (\<lambda>i. buf ((r + i) mod c)) [0..<(w + c - r) mod c]"

definition advance :: "nat \<Rightarrow> size_t \<Rightarrow> size_t" where
  "advance c h = (h + 1) mod of_nat c"

lemma unat_advance:
  assumes "unat h < c" "c < 2 ^ 63"
  shows "unat (advance c h) = (unat h + 1) mod c"
proof -
  have "unat h + 1 < 2 ^ 64" "c < 2 ^ 64" using assms by simp_all
  then have "unat (h + 1) = unat h + 1" by (simp add: unat_word_ariths(1))
  moreover have "unat (of_nat c :: size_t) = c" using \<open>c < 2 ^ 64\<close> by (intro unat_of_nat_less) simp
  ultimately show ?thesis by (simp add: advance_def unat_mod)
qed

lemma ring_length: "length (ring_contents c buf r w) = (w + c - r) mod c"
  by (simp add: ring_contents_def)

lemma ring_dist:
  fixes r :: nat
  assumes "r < c" "w < c"
  shows "(w + c - r) mod c = (if r \<le> w then w - r else w + c - r)"
proof (cases "r \<le> w")
  case True
  then have "w + c - r = (w - r) + c" by simp
  then have "(w + c - r) mod c = (w - r) mod c" by (simp only: mod_add_self2)
  then show ?thesis using True assms by simp
qed (use assms in simp)

lemma ring_empty_iff: "r < c \<Longrightarrow> w < c \<Longrightarrow> ring_contents c buf r w = [] \<longleftrightarrow> r = w"
  by (auto simp: length_0_conv [symmetric] ring_length ring_dist simp del: length_0_conv split: if_splits)

lemma ring_full_iff: "r < c \<Longrightarrow> w < c \<Longrightarrow> length (ring_contents c buf r w) = c - 1 \<longleftrightarrow> (w + 1) mod c = r"
  by (auto simp: ring_length ring_dist mod_Suc split: if_splits)

lemma ring_length_less: "r < c \<Longrightarrow> length (ring_contents c buf r w) < c"
  by (simp add: ring_length)

lemma ring_nth:
  "i < (w + c - r) mod c \<Longrightarrow> ring_contents c buf r w ! i = buf ((r + i) mod c)"
  by (simp add: ring_contents_def)

lemma ring_push:
  assumes "r < c" "w < c" "(w + 1) mod c \<noteq> r"
  shows "ring_contents c (buf(w := b)) r ((w + 1) mod c) = ring_contents c buf r w @ [b]"
proof -
  let ?n = "(w + c - r) mod c"
  have n: "((w + 1) mod c + c - r) mod c = Suc ?n"
    using assms by (simp add: ring_dist mod_Suc) (auto split: if_splits)
  have w: "(r + ?n) mod c = w" using assms by (auto simp: ring_dist)
  have "(r + i) mod c \<noteq> w" if "i < ?n" for i
  proof
    assume "(r + i) mod c = w"
    moreover have "i < c" using that by (rule less_trans) (use assms in simp)
    ultimately show False using that assms by (auto simp: ring_dist mod_if split: if_splits)
  qed
  then have "map (\<lambda>i. (buf(w := b)) ((r + i) mod c)) [0..<?n] = map (\<lambda>i. buf ((r + i) mod c)) [0..<?n]"
    by (intro map_cong) auto
  then show ?thesis unfolding ring_contents_def n by (simp add: w)
qed

lemma ring_pop:
  assumes "r < c" "w < c" "r \<noteq> w"
  shows "ring_contents c buf r w = buf r # ring_contents c buf ((r + 1) mod c) w"
proof -
  obtain m where n: "(w + c - r) mod c = Suc m"
    using assms not0_implies_Suc by (fastforce simp: ring_dist)
  then have m: "(w + c - (r + 1) mod c) mod c = m"
    using assms by (auto simp: ring_dist mod_Suc split: if_splits)
  have "[0..<Suc m] = 0 # map Suc [0..<m]" by (simp add: upt_conv_Cons map_Suc_upt)
  moreover have "(r + Suc i) mod c = ((r + 1) mod c + i) mod c" for i by (simp add: mod_simps)
  ultimately show ?thesis unfolding ring_contents_def n m using assms(1) by (simp add: comp_def)
qed

section \<open>The queue interface\<close>

text \<open>
  A bounded byte queue: below its limit \<open>put\<close> appends, and \<open>get\<close> takes from the front.
\<close>

locale byte_queue =
  fixes inv :: "'s \<Rightarrow> bool" and contents :: "'s \<Rightarrow> 'b list"
    and put :: "'b \<Rightarrow> 's \<Rightarrow> 's" and get :: "'s \<Rightarrow> 'b \<times> 's" and limit :: nat
  assumes put_law: "inv s \<Longrightarrow> length (contents s) < limit \<Longrightarrow>
      inv (put b s) \<and> contents (put b s) = contents s @ [b]"
    and get_law: "inv s \<Longrightarrow> contents s = b # bs \<Longrightarrow>
      fst (get s) = b \<and> inv (snd (get s)) \<and> contents (snd (get s)) = bs"
begin

fun gets :: "nat \<Rightarrow> 's \<Rightarrow> 'b list \<times> 's" where
  "gets 0 s = ([], s)"
| "gets (Suc n) s = (case get s of (b, s') \<Rightarrow> case gets n s' of (bs, s'') \<Rightarrow> (b # bs, s''))"

lemma puts_contents:
  assumes "inv s" "length (contents s) + length bs \<le> limit"
  shows "inv (fold put bs s)" "contents (fold put bs s) = contents s @ bs"
  using assms
proof (induction bs arbitrary: s)
  case (Cons b bs)
  { case 1 then show ?case using Cons(1) [of "put b s"] put_law [of s b] by simp
  next
    case 2 then show ?case using Cons(2) [of "put b s"] put_law [of s b] by simp }
qed simp_all

lemma gets_contents:
  assumes "inv s" "n \<le> length (contents s)"
  shows "fst (gets n s) = take n (contents s) \<and> inv (snd (gets n s))
     \<and> contents (snd (gets n s)) = drop n (contents s)"
  using assms
proof (induction n arbitrary: s)
  case (Suc n)
  then obtain b bs where bs: "contents s = b # bs" by (cases "contents s") auto
  then show ?case using Suc.IH [of "snd (get s)"] get_law [OF Suc.prems(1) bs] Suc.prems(2)
    by (simp add: split_beta)
qed simp

text \<open>What is put in comes out unchanged and in order.\<close>

lemma puts_gets:
  assumes "inv s" "contents s = []" "length bs \<le> limit"
  shows "fst (gets (length bs) (fold put bs s)) = bs" "contents (snd (gets (length bs) (fold put bs s))) = []"
  using puts_contents [OF assms(1), of bs] gets_contents [of "fold put bs s" "length bs"] assms(2,3) by simp_all

end

end
