(* ===== verification/Pipe_Stream.thy ===== *)
theory Pipe_Stream
  imports Ring
begin

text \<open>
  \<^verbatim>\<open>PipeStream\<close> (\<^verbatim>\<open>kernel/src/streams/pipestream.cpp\<close>): two stream objects over one shared
  \<^verbatim>\<open>StreamData\<close> with a ring of 4096 bytes. \<^verbatim>\<open>read\<close> and \<^verbatim>\<open>write\<close> take no lock and spin on the other
  side, so they are modelled as the sequences of their loop iterations: \<open>read_step\<close> and \<open>write_step\<close> are one
  iteration, and \<open>pipe_step\<close> interleaves the reader, the writer and the destructors of the two
  ends in any order. A spinning iteration leaves the state as it is.
\<close>

section \<open>State and operations\<close>

record stream_data =
  f_writeClosed :: bool
  f_readClosed :: bool
  f_buffer :: "nat \<Rightarrow> u8"
  f_writeHead :: size_t
  f_readHead :: size_t

definition buffer_size :: nat where
  "buffer_size = 4096"

definition StreamData_init :: "(nat \<Rightarrow> u8) \<Rightarrow> stream_data" where
  "StreamData_init garbage =
     \<lparr>f_writeClosed = False, f_readClosed = False, f_buffer = garbage, f_writeHead = 0, f_readHead = 0\<rparr>"

text \<open>The destructor of one end.\<close>

definition PipeStream_close :: "bool \<Rightarrow> stream_data \<Rightarrow> stream_data" where
  "PipeStream_close isWrite d = (if isWrite then d\<lparr>f_writeClosed := True\<rparr> else d\<lparr>f_readClosed := True\<rparr>)"

text \<open>A call in progress: the requested length and the bytes moved so far.\<close>

datatype io_call = Running nat "u8 list" | Returned "nat value_or_error" "u8 list"

definition read_begin :: "bool \<Rightarrow> nat \<Rightarrow> stream_data \<Rightarrow> io_call" where
  "read_begin isWrite len d =
     (if isWrite then Returned (Inl ENOTSUP) []
      else if f_writeClosed d then Returned (Inr 0) []
      else Running len [])"

definition take_byte :: "stream_data \<Rightarrow> u8 \<times> stream_data" where
  "take_byte d = (f_buffer d (unat (f_readHead d)), d\<lparr>f_readHead := advance buffer_size (f_readHead d)\<rparr>)"

definition read_step :: "nat \<Rightarrow> u8 list \<Rightarrow> stream_data \<Rightarrow> stream_data \<times> io_call" where
  "read_step len got d =
     (if length got < len then
        if f_readHead d = f_writeHead d then
          if f_writeClosed d then (d, Returned (Inr (length got)) got) else (d, Running len got)
        else (case take_byte d of (b, d') \<Rightarrow> (d', Running len (got @ [b])))
      else (d, Returned (Inr (length got)) got))"

definition write_begin :: "bool \<Rightarrow> nat \<Rightarrow> stream_data \<Rightarrow> io_call" where
  "write_begin isWrite len d =
     (if \<not> isWrite then Returned (Inl ENOTSUP) []
      else if f_readClosed d then Returned (Inl EPIPE) []
      else Running len [])"

definition put_byte :: "u8 \<Rightarrow> stream_data \<Rightarrow> stream_data" where
  "put_byte b d = d\<lparr>f_buffer := (f_buffer d)(unat (f_writeHead d) := b),
                    f_writeHead := advance buffer_size (f_writeHead d)\<rparr>"

definition pipe_full :: "stream_data \<Rightarrow> bool" where
  "pipe_full d \<longleftrightarrow> advance buffer_size (f_writeHead d) = f_readHead d"

text \<open>One iteration of the write loop on the bytes \<open>src\<close>; the bytes already sent are the prefix \<open>sent\<close>.\<close>

definition write_step :: "u8 list \<Rightarrow> nat \<Rightarrow> u8 list \<Rightarrow> stream_data \<Rightarrow> stream_data \<times> io_call" where
  "write_step src len sent d =
     (if length sent < len then
        if pipe_full d then (d, Running len sent)
        else let b = src ! length sent in (put_byte b d, Running len (sent @ [b]))
      else (d, Returned (Inr (length sent)) sent))"

definition PipeStream_seek :: "nat value_or_error" where
  "PipeStream_seek = Inl ESPIPE"

subsection \<open>Two threads on one pipe\<close>

text \<open>
  The reading thread and the writing thread, each idle or inside a call, with the bytes that
  finished calls delivered and accepted. The writer's source buffer is fixed per call.
\<close>

record pipe_sys =
  pipe :: stream_data
  reader :: "io_call option"
  writer :: "(u8 list \<times> io_call) option"
  delivered :: "u8 list"
  accepted :: "u8 list"

inductive pipe_step :: "pipe_sys \<Rightarrow> pipe_sys \<Rightarrow> bool" where
  read_call: "reader s = None \<Longrightarrow>
    pipe_step s (s\<lparr>reader := Some (read_begin False len (pipe s))\<rparr>)"
| read_iter: "reader s = Some (Running len got) \<Longrightarrow> read_step len got (pipe s) = (d, c) \<Longrightarrow>
    pipe_step s (s\<lparr>pipe := d, reader := Some c\<rparr>)"
| read_ret: "reader s = Some (Returned v got) \<Longrightarrow>
    pipe_step s (s\<lparr>reader := None, delivered := delivered s @ got\<rparr>)"
| write_call: "writer s = None \<Longrightarrow>
    pipe_step s (s\<lparr>writer := Some (src, write_begin True (length src) (pipe s))\<rparr>)"
| write_iter: "writer s = Some (src, Running len sent) \<Longrightarrow> write_step src len sent (pipe s) = (d, c) \<Longrightarrow>
    pipe_step s (s\<lparr>pipe := d, writer := Some (src, c)\<rparr>)"
| write_ret: "writer s = Some (src, Returned v sent) \<Longrightarrow>
    pipe_step s (s\<lparr>writer := None, accepted := accepted s @ sent\<rparr>)"
| close: "pipe_step s (s\<lparr>pipe := PipeStream_close isWrite (pipe s)\<rparr>)"

definition pipe_start :: "(nat \<Rightarrow> u8) \<Rightarrow> pipe_sys" where
  "pipe_start g = \<lparr>pipe = StreamData_init g, reader = None, writer = None, delivered = [], accepted = []\<rparr>"

inductive_cases pipe_stepE: "pipe_step s t"

section \<open>Invariant and abstraction\<close>

definition pipe_wf :: "stream_data \<Rightarrow> bool" where
  "pipe_wf d \<longleftrightarrow> unat (f_readHead d) < buffer_size \<and> unat (f_writeHead d) < buffer_size"

definition pipe_contents :: "stream_data \<Rightarrow> u8 list" where
  "pipe_contents d = ring_contents buffer_size (f_buffer d) (unat (f_readHead d)) (unat (f_writeHead d))"

lemma unat_advance_buffer:
  "unat h < buffer_size \<Longrightarrow> unat (advance buffer_size h) = (unat h + 1) mod buffer_size"
  by (rule unat_advance) (simp_all add: buffer_size_def)

lemma pipe_empty_iff: "pipe_wf d \<Longrightarrow> pipe_contents d = [] \<longleftrightarrow> f_readHead d = f_writeHead d"
  by (simp add: pipe_wf_def pipe_contents_def ring_empty_iff word_unat_eq_iff)

lemma pipe_full_iff: "pipe_wf d \<Longrightarrow> pipe_full d \<longleftrightarrow> length (pipe_contents d) = buffer_size - 1"
  using ring_full_iff [of "unat (f_readHead d)" buffer_size "unat (f_writeHead d)" "f_buffer d"]
  by (simp add: pipe_wf_def pipe_contents_def pipe_full_def word_unat_eq_iff unat_advance_buffer)

lemma put_byte_spec:
  assumes "pipe_wf d" "\<not> pipe_full d"
  shows "pipe_wf (put_byte b d)" "pipe_contents (put_byte b d) = pipe_contents d @ [b]"
  using assms ring_push [of "unat (f_readHead d)" buffer_size "unat (f_writeHead d)" "f_buffer d" b]
  by (simp_all add: pipe_wf_def put_byte_def unat_advance_buffer pipe_contents_def pipe_full_def word_unat_eq_iff)

lemma take_byte_spec:
  assumes "pipe_wf d" "pipe_contents d = b # bs"
  shows "fst (take_byte d) = b" "pipe_wf (snd (take_byte d))" "pipe_contents (snd (take_byte d)) = bs"
proof -
  have "unat (f_readHead d) \<noteq> unat (f_writeHead d)"
    using assms pipe_empty_iff [OF assms(1)] by (auto simp: word_unat_eq_iff)
  then have "b # bs = f_buffer d (unat (f_readHead d)) #
      ring_contents buffer_size (f_buffer d) ((unat (f_readHead d) + 1) mod buffer_size) (unat (f_writeHead d))"
    using assms ring_pop [of "unat (f_readHead d)" buffer_size "unat (f_writeHead d)" "f_buffer d"]
    by (simp add: pipe_wf_def pipe_contents_def)
  then show "fst (take_byte d) = b" "pipe_wf (snd (take_byte d))" "pipe_contents (snd (take_byte d)) = bs"
    using assms(1) by (simp_all add: take_byte_def pipe_wf_def pipe_contents_def unat_advance_buffer)
qed

interpretation pq: byte_queue pipe_wf pipe_contents put_byte take_byte "buffer_size - 1"
proof
  show "pipe_wf (put_byte b s) \<and> pipe_contents (put_byte b s) = pipe_contents s @ [b]"
    if "pipe_wf s" "length (pipe_contents s) < buffer_size - 1" for s b
    using that put_byte_spec [OF that(1)] pipe_full_iff [OF that(1)] by simp
  show "fst (take_byte s) = b \<and> pipe_wf (snd (take_byte s)) \<and> pipe_contents (snd (take_byte s)) = bs"
    if "pipe_wf s" "pipe_contents s = b # bs" for s b bs
    using take_byte_spec [OF that] by simp
qed

text \<open>Bytes the reader has taken and the writer has put, finished calls and the one in progress.\<close>

fun moved :: "io_call \<Rightarrow> u8 list" where
  "moved (Running len bs) = bs"
| "moved (Returned v bs) = bs"

fun call_ok :: "io_call \<Rightarrow> bool" where
  "call_ok (Running len bs) \<longleftrightarrow> length bs \<le> len"
| "call_ok (Returned (Inr n) bs) \<longleftrightarrow> n = length bs"
| "call_ok (Returned (Inl e) bs) \<longleftrightarrow> bs = []"

definition consumed :: "pipe_sys \<Rightarrow> u8 list" where
  "consumed s = delivered s @ (case reader s of None \<Rightarrow> [] | Some c \<Rightarrow> moved c)"

definition produced :: "pipe_sys \<Rightarrow> u8 list" where
  "produced s = accepted s @ (case writer s of None \<Rightarrow> [] | Some (src, c) \<Rightarrow> moved c)"

definition pipe_inv :: "pipe_sys \<Rightarrow> bool" where
  "pipe_inv s \<longleftrightarrow> pipe_wf (pipe s) \<and> produced s = consumed s @ pipe_contents (pipe s)
     \<and> (\<forall>c. reader s = Some c \<longrightarrow> call_ok c)
     \<and> (\<forall>src c. writer s = Some (src, c) \<longrightarrow> call_ok c \<and> moved c = take (length (moved c)) src
          \<and> (\<forall>len sent. c = Running len sent \<longrightarrow> len = length src))"

lemma pipe_start_inv: "pipe_inv (pipe_start g)"
  by (simp add: pipe_inv_def pipe_start_def StreamData_init_def pipe_wf_def pipe_contents_def
      consumed_def produced_def ring_contents_def buffer_size_def)

lemma pipe_close_simps [simp]:
  "pipe_wf (PipeStream_close b d) = pipe_wf d" "pipe_contents (PipeStream_close b d) = pipe_contents d"
  by (simp_all add: pipe_wf_def pipe_contents_def PipeStream_close_def)

lemma read_step_spec:
  assumes "pipe_wf d" "length got \<le> len" "read_step len got d = (d', c)"
  shows "pipe_wf d' \<and> moved c @ pipe_contents d' = got @ pipe_contents d \<and> call_ok c"
proof (cases "length got < len \<and> f_readHead d \<noteq> f_writeHead d")
  case True
  then obtain b bs where b: "pipe_contents d = b # bs" using pipe_empty_iff [OF assms(1)] by (cases "pipe_contents d") auto
  show ?thesis using take_byte_spec [OF assms(1) b] assms True b by (auto simp: read_step_def split_beta)
qed (use assms in \<open>auto simp: read_step_def split: if_splits\<close>)

lemma write_step_spec:
  assumes "pipe_wf d" "length sent \<le> len" "len = length src" "sent = take (length sent) src"
    "write_step src len sent d = (d', c)"
  shows "pipe_wf d' \<and> (\<exists>x. moved c = sent @ x \<and> pipe_contents d' = pipe_contents d @ x) \<and> call_ok c
     \<and> moved c = take (length (moved c)) src \<and> (\<forall>l m. c = Running l m \<longrightarrow> l = len)"
proof (cases "length sent < len \<and> \<not> pipe_full d")
  case True
  have "take (Suc (length sent)) src = sent @ [src ! length sent]"
    using True assms(3,4) take_Suc_conv_app_nth [of "length sent" src] by simp
  then show ?thesis using put_byte_spec [OF assms(1)] assms(1,2,5) True by (auto simp: write_step_def Let_def)
qed (use assms in \<open>auto simp: write_step_def split: if_splits\<close>)

lemma pipe_step_inv: "pipe_step s t \<Longrightarrow> pipe_inv s \<Longrightarrow> pipe_inv t"
proof (induction rule: pipe_step.induct)
  case (read_iter s len got d c)
  then have "pipe_wf d \<and> moved c @ pipe_contents d = got @ pipe_contents (pipe s) \<and> call_ok c"
    using read_step_spec [of "pipe s" got len d c] by (simp add: pipe_inv_def)
  then show ?case using read_iter by (simp add: pipe_inv_def consumed_def produced_def)
next
  case (write_iter s src len sent d c)
  then have "pipe_wf d \<and> (\<exists>x. moved c = sent @ x \<and> pipe_contents d = pipe_contents (pipe s) @ x) \<and> call_ok c
     \<and> moved c = take (length (moved c)) src \<and> (\<forall>l m. c = Running l m \<longrightarrow> l = len)"
    using write_step_spec [of "pipe s" sent len src d c] by (simp add: pipe_inv_def)
  then obtain x where x: "pipe_wf d" "moved c = sent @ x" "pipe_contents d = pipe_contents (pipe s) @ x" "call_ok c"
     "moved c = take (length (moved c)) src" "\<forall>l m. c = Running l m \<longrightarrow> l = len" by blast
  let ?t = "s\<lparr>pipe := d, writer := Some (src, c)\<rparr>"
  have "produced s @ x = consumed s @ pipe_contents d" using write_iter.prems x(3) by (simp add: pipe_inv_def)
  then have "produced ?t = consumed ?t @ pipe_contents d"
    using write_iter.hyps(1) by (simp add: x(2) consumed_def produced_def)
  moreover have "\<forall>c'. reader s = Some c' \<longrightarrow> call_ok c'" "len = length src"
    using write_iter by (auto simp: pipe_inv_def)
  ultimately show ?case using x(1,4,5,6) by (auto simp: pipe_inv_def)
qed (auto simp: pipe_inv_def consumed_def produced_def read_begin_def write_begin_def)

lemma pipe_reach_inv: "pipe_step\<^sup>*\<^sup>* (pipe_start g) s \<Longrightarrow> pipe_inv s"
  by (induction rule: rtranclp_induct) (auto intro: pipe_start_inv pipe_step_inv)

section \<open>Correctness\<close>


lemma pipe_write_one:
  "pipe_step\<^sup>*\<^sup>* (pipe_start g) (pipe_start g\<lparr>writer := Some ([7], Running 1 [])\<rparr>)"
  using pipe_step.write_call [of "pipe_start g" "[7]"]
  by (intro r_into_rtranclp) (simp add: pipe_start_def write_begin_def StreamData_init_def)

lemma pipe_write_one_done:
  "pipe_step\<^sup>*\<^sup>* (pipe_start g) (pipe_start g\<lparr>writer := Some ([7], Running 1 [7]), pipe := put_byte 7 (StreamData_init g)\<rparr>)"
  by (rule rtranclp.rtrancl_into_rtrancl [OF pipe_write_one])
    (use pipe_step.write_iter [of "pipe_start g\<lparr>writer := Some ([7], Running 1 [])\<rparr>" "[7]" 1 "[]"] in
      \<open>simp add: pipe_start_def write_step_def StreamData_init_def pipe_full_def advance_def buffer_size_def\<close>)


text \<open>C39: A reader and a writer that are both inside their loops with bytes left to move never block
  each other: in every reachable state one of the two next iterations moves a byte.\<close>

theorem pipe_no_deadlock:
  assumes "pipe_step\<^sup>*\<^sup>* (pipe_start g) s" "reader s = Some (Running n got)" "length got < n"
    "writer s = Some (src, Running m sent)" "length sent < m"
  shows "(\<exists>d b. read_step n got (pipe s) = (d, Running n (got @ [b])))
    \<or> (\<exists>d b. write_step src m sent (pipe s) = (d, Running m (sent @ [b])))"
proof (cases "f_readHead (pipe s) = f_writeHead (pipe s)")
  case True
  have wf: "pipe_wf (pipe s)" using pipe_reach_inv [OF assms(1)] by (simp add: pipe_inv_def)
  then have "pipe_contents (pipe s) = []" using True pipe_empty_iff by blast
  then have "\<not> pipe_full (pipe s)" using pipe_full_iff [OF wf] by (simp add: buffer_size_def)
  then show ?thesis using assms(5) by (simp add: write_step_def Let_def)
qed (use assms(3) in \<open>simp add: read_step_def split_beta\<close>)

theorem pipe_no_deadlock_witness:
  "\<exists>s d b. pipe_step\<^sup>*\<^sup>* (pipe_start (\<lambda>_. 0)) s \<and> reader s = Some (Running 2 [])
     \<and> write_step [7] 1 [] (pipe s) = (d, Running 1 [b])"
proof -
  let ?s = "pipe_start (\<lambda>_. 0)\<lparr>writer := Some ([7], Running 1 []), reader := Some (Running 2 [])\<rparr>"
  have s: "pipe_step\<^sup>*\<^sup>* (pipe_start (\<lambda>_. 0)) ?s"
    by (rule rtranclp.rtrancl_into_rtrancl [OF pipe_write_one])
      (use pipe_step.read_call [of "pipe_start (\<lambda>_. 0)\<lparr>writer := Some ([7], Running 1 [])\<rparr>" 2] in
        \<open>simp add: pipe_start_def read_begin_def StreamData_init_def\<close>)
  have "\<nexists>d b. read_step 2 [] (pipe ?s) = (d, Running 2 ([] @ [b]))"
    by (simp add: read_step_def pipe_start_def StreamData_init_def)
  then obtain d b where "write_step [7] 1 [] (pipe ?s) = (d, Running 1 ([] @ [b]))"
    using pipe_no_deadlock [OF s, of 2 "[]" "[7]" 1 "[]"] by auto
  then show ?thesis using s by (intro exI [of _ ?s] exI [of _ d] exI [of _ b]) simp
qed

text \<open>Once the write end is closed every new \<^verbatim>\<open>read\<close> returns 0, also when bytes that were
  written before are still in the ring: those bytes can never be read.\<close>

theorem pipe_close_discards_buffered:
  assumes "length bs < buffer_size"
  shows "pipe_contents (PipeStream_close True (fold put_byte bs (StreamData_init g))) = bs
    \<and> read_begin False n (PipeStream_close True (fold put_byte bs (StreamData_init g))) = Returned (Inr 0) []"
proof -
  have "pipe_wf (StreamData_init g)" "pipe_contents (StreamData_init g) = []"
    using pipe_start_inv [of g] by (simp_all add: pipe_inv_def pipe_start_def produced_def)
  then show ?thesis
    using pq.puts_contents [of "StreamData_init g" bs] assms by (simp add: read_begin_def PipeStream_close_def pipe_contents_def)
qed

theorem pipe_close_discards_buffered_witness:
  "pipe_contents (PipeStream_close True (fold put_byte [1, 2, 3] (StreamData_init (\<lambda>_. 0)))) = [1, 2, 3]"
  using pipe_close_discards_buffered [of "[1, 2, 3]" "\<lambda>_. 0" 3] by (simp add: buffer_size_def)

end
