(* ===== verification/Termios.thy ===== *)
theory Termios
  imports Ring
begin

unbundle bit_operations_syntax

text \<open>
  \<^verbatim>\<open>TermiosHelper\<close> (\<^verbatim>\<open>kernel/src/streams/termios.cpp\<close>): the line discipline of the serial terminal.
  A received character is echoed, filtered, translated, interpreted in canonical mode and put
  into a ring of 4096 bytes with three heads; \<^verbatim>\<open>stream_read\<close> takes the bytes up to the line head. The calls of
  the write callback, which belongs to the driver, are kept as the list \<open>f_output\<close> of
  its arguments. Heads are 64 bit words, an index outside the input buffer is \<open>None\<close>, and so is the endless
  wait of \<^verbatim>\<open>stream_read\<close> for a line in a state nobody else changes.
\<close>

section \<open>State\<close>

record termios =
  c_iflag :: u32
  c_oflag :: u32
  c_cflag :: u32
  c_lflag :: u32
  c_cc :: "nat \<Rightarrow> u32"
  ibaud :: u32
  obaud :: u32

abbreviation (input) "VEOF \<equiv> 0 :: nat"
abbreviation (input) "VEOL \<equiv> 1 :: nat"
abbreviation (input) "VERASE \<equiv> 2 :: nat"
abbreviation (input) "VINTR \<equiv> 3 :: nat"
abbreviation (input) "VKILL \<equiv> 4 :: nat"
abbreviation (input) "VQUIT \<equiv> 6 :: nat"
abbreviation (input) "VSTART \<equiv> 7 :: nat"
abbreviation (input) "VSTOP \<equiv> 8 :: nat"
abbreviation (input) "VSUSP \<equiv> 9 :: nat"

abbreviation (input) "IGNBRK \<equiv> 1 :: u32"
abbreviation (input) "BRKINT \<equiv> 2 :: u32"
abbreviation (input) "IGNPAR \<equiv> 4 :: u32"
abbreviation (input) "PARMRK \<equiv> 8 :: u32"
abbreviation (input) "ISTRIP \<equiv> 32 :: u32"
abbreviation (input) "INLCR \<equiv> 64 :: u32"
abbreviation (input) "IGNCR \<equiv> 128 :: u32"
abbreviation (input) "ICRNL \<equiv> 256 :: u32"
abbreviation (input) "IXON \<equiv> 512 :: u32"
abbreviation (input) "OPOST \<equiv> 1 :: u32"
abbreviation (input) "ONLCR \<equiv> 2 :: u32"
abbreviation (input) "OCRNL \<equiv> 4 :: u32"
abbreviation (input) "ONLRET \<equiv> 16 :: u32"
abbreviation (input) "PARENB \<equiv> 16 :: u32"
abbreviation (input) "ISIG \<equiv> 1 :: u32"
abbreviation (input) "ICANON \<equiv> 2 :: u32"

abbreviation (input) "BS \<equiv> 0x08 :: u8"
abbreviation (input) "LF \<equiv> 0x0A :: u8"
abbreviation (input) "CR \<equiv> 0x0D :: u8"
abbreviation (input) "DEL \<equiv> 0x7F :: u8"

definition flag :: "'a::len word \<Rightarrow> 'a word \<Rightarrow> bool" where
  "flag w m \<longleftrightarrow> w AND m \<noteq> 0"

record termios_helper =
  f_termios :: termios
  f_write_head :: size_t
  f_line_head :: size_t
  f_read_head :: size_t
  f_input_buffer :: "nat \<Rightarrow> u8"
  f_output :: "u8 list"

definition input_size :: nat where
  "input_size = 4096"

definition default_cc :: "nat \<Rightarrow> u32" where
  "default_cc = (\<lambda>_. 0)(VEOF := 0x04, VERASE := 0x7F, VINTR := 0x03, VKILL := 0x15, VQUIT := 0x1C,
     VSTART := 0x11, VSTOP := 0x13, VSUSP := 0x1A)"

definition TermiosHelper_init :: "(nat \<Rightarrow> u8) \<Rightarrow> termios_helper" where
  "TermiosHelper_init garbage =
     \<lparr>f_termios = \<lparr>c_iflag = 0, c_oflag = 0, c_cflag = 0, c_lflag = 0, c_cc = default_cc, ibaud = 0, obaud = 0\<rparr>,
      f_write_head = 0, f_line_head = 0, f_read_head = 0, f_input_buffer = garbage, f_output = []\<rparr>"

section \<open>Operations\<close>

definition match_cc :: "termios \<Rightarrow> nat \<Rightarrow> u8 \<Rightarrow> bool" where
  "match_cc t cc c \<longleftrightarrow> c_cc t cc \<noteq> 0 \<and> c_cc t cc = ucast c"

definition write_input :: "u8 \<Rightarrow> termios_helper \<Rightarrow> termios_helper option" where
  "write_input c h =
     (if f_write_head h + 1 = f_read_head h then Some h
      else if unat (f_write_head h) < input_size then
        Some (h\<lparr>f_input_buffer := (f_input_buffer h)(unat (f_write_head h) := c),
                f_write_head := advance input_size (f_write_head h)\<rparr>)
      else None)"

definition read_input :: "termios_helper \<Rightarrow> (u8 \<times> termios_helper) option" where
  "read_input h =
     (if f_read_head h = f_line_head h then None
      else if unat (f_read_head h) < input_size then
        Some (f_input_buffer h (unat (f_read_head h)), h\<lparr>f_read_head := advance input_size (f_read_head h)\<rparr>)
      else None)"

definition f_write_cb :: "u8 \<Rightarrow> termios_helper \<Rightarrow> termios_helper" where
  "f_write_cb c h = h\<lparr>f_output := f_output h @ [c]\<rparr>"

definition write_output :: "u8 \<Rightarrow> termios_helper \<Rightarrow> termios_helper" where
  "write_output c h =
     (let o_flag = c_oflag (f_termios h)
      in if flag o_flag OPOST then
           let h1 = (if c = LF \<and> flag o_flag ONLCR then f_write_cb CR h else h)
           in if c = CR then
                if flag o_flag ONLRET then h1
                else if flag o_flag OCRNL then f_write_cb LF h1
                else f_write_cb c h1
              else f_write_cb c h1
         else f_write_cb c h)"

definition handle_conditions :: "termios \<Rightarrow> u16 \<Rightarrow> bool" where
  "handle_conditions t data =
     (if flag data 0x200 \<and> flag (c_iflag t) IGNBRK then False
      else if flag data 0x100 \<and> flag (c_iflag t) IGNPAR then False
      else if flag (c_iflag t) IGNCR \<and> (ucast data :: u8) = CR then False
      else True)"

definition translate_character_input :: "termios \<Rightarrow> u16 \<Rightarrow> u8 list" where
  "translate_character_input t c =
     (let i_flag = c_iflag t;
          parity = flag i_flag PARENB;
          mark = flag i_flag PARMRK
      in if parity \<and> mark \<and> flag c 0x100 then [DEL, 0, ucast c]
         else if parity \<and> mark \<and> c = 0x7F then [DEL, DEL]
         else if parity \<and> \<not> mark \<and> flag c 0x100 then [0]
         else if \<not> flag i_flag BRKINT \<and> mark \<and> flag c 0x200 then [DEL, 0, 0]
         else if c = ucast LF \<and> flag i_flag INLCR then [CR]
         else if c = ucast CR \<and> flag i_flag ICRNL then [LF]
         else [ucast c AND (if flag i_flag ISTRIP then 0x7F else 0xFF)])"

definition handle_canon :: "u8 \<Rightarrow> termios_helper \<Rightarrow> (termios_helper \<times> bool) option" where
  "handle_canon character h =
     (let t = f_termios h
      in if match_cc t VEOF character then
           (case write_input CR h of
              None \<Rightarrow> None
            | Some h' \<Rightarrow> Some (h'\<lparr>f_line_head := f_write_head h'\<rparr>, False))
         else if match_cc t VEOL character then Some (h\<lparr>f_line_head := f_write_head h\<rparr>, False)
         else if match_cc t VERASE character then Some (h, True)
         else if match_cc t VKILL character then Some (h, True)
         else if character = CR then Some (h\<lparr>f_line_head := f_write_head h\<rparr>, False)
         else if character = BS then
           if f_line_head h > f_write_head h then
             let h' = write_output BS h in Some (h'\<lparr>f_write_head := f_write_head h' - 1\<rparr>, False)
           else Some (h, False)
         else Some (h, True))"

text \<open>The bodies of the branches of \<^verbatim>\<open>handle_signal\<close> and \<^verbatim>\<open>handle_flow\<close> are empty.\<close>

definition handle_signal :: "u8 \<Rightarrow> termios_helper \<Rightarrow> termios_helper \<times> bool" where
  "handle_signal character h = (h, True)"

definition handle_flow :: "u8 \<Rightarrow> termios_helper \<Rightarrow> termios_helper \<times> bool" where
  "handle_flow character h = (h, True)"

fun write_input_all :: "u8 list \<Rightarrow> termios_helper \<Rightarrow> termios_helper option" where
  "write_input_all [] h = Some h"
| "write_input_all (c # cs) h = Option.bind (write_input c h) (write_input_all cs)"

definition character_received :: "u16 \<Rightarrow> termios_helper \<Rightarrow> termios_helper option" where
  "character_received data h0 =
     (let h = write_output (ucast data) h0
      in if \<not> handle_conditions (f_termios h) data then Some h
         else
           let output = translate_character_input (f_termios h) data;
               character = output ! (length output - 1);
               canon = (if flag (c_lflag (f_termios h)) ICANON then handle_canon character h else Some (h, True))
           in case canon of
                None \<Rightarrow> None
              | Some (h1, False) \<Rightarrow> Some h1
              | Some (h1, True) \<Rightarrow>
                  let (h2, k2) = (if flag (c_lflag (f_termios h1)) ISIG then handle_signal character h1 else (h1, True))
                  in if \<not> k2 then Some h2
                     else
                       let (h3, k3) = (if flag (c_iflag (f_termios h2)) IXON then handle_flow character h2 else (h2, True))
                       in if \<not> k3 then Some h3 else write_input_all output h3)"

fun read_loop :: "nat \<Rightarrow> u8 list \<Rightarrow> termios_helper \<Rightarrow> (termios_helper \<times> u8 list) option" where
  "read_loop 0 got h = Some (h, got)"
| "read_loop (Suc n) got h =
     (if f_line_head h = f_read_head h then Some (h, got)
      else Option.bind (read_input h) (\<lambda>(c, h'). read_loop n (got @ [c]) h'))"

definition stream_read :: "nat \<Rightarrow> termios_helper \<Rightarrow> (termios_helper \<times> u8 list) option" where
  "stream_read len h =
     (if flag (c_lflag (f_termios h)) ICANON \<and> f_line_head h = f_read_head h then None
      else read_loop len [] h)"

definition stream_write :: "u8 list \<Rightarrow> termios_helper \<Rightarrow> termios_helper \<times> nat" where
  "stream_write bs h = (fold write_output bs h, length bs)"

section \<open>Invariant and abstraction\<close>

text \<open>All heads inside the buffer; the pending input, and the part of it that completed lines make
  available to \<^verbatim>\<open>stream_read\<close>.\<close>

definition term_wf :: "termios_helper \<Rightarrow> bool" where
  "term_wf h \<longleftrightarrow> unat (f_read_head h) < input_size \<and> unat (f_line_head h) < input_size
     \<and> unat (f_write_head h) < input_size"

definition pending :: "termios_helper \<Rightarrow> u8 list" where
  "pending h = ring_contents input_size (f_input_buffer h) (unat (f_read_head h)) (unat (f_write_head h))"

definition available :: "termios_helper \<Rightarrow> u8 list" where
  "available h = ring_contents input_size (f_input_buffer h) (unat (f_read_head h)) (unat (f_line_head h))"

lemma unat_advance_input:
  "unat h < input_size \<Longrightarrow> unat (advance input_size h) = (unat h + 1) mod input_size"
  by (rule unat_advance) (simp_all add: input_size_def)

lemma write_input_spec:
  assumes "term_wf h" "length (pending h) < input_size - 1"
  shows "\<exists>h'. write_input c h = Some h' \<and> term_wf h' \<and> pending h' = pending h @ [c]
     \<and> f_termios h' = f_termios h \<and> f_line_head h' = f_line_head h \<and> f_read_head h' = f_read_head h"
proof -
  let ?r = "unat (f_read_head h)" and ?w = "unat (f_write_head h)"
  have rw: "?r < input_size" "?w < input_size" using assms(1) by (auto simp: term_wf_def)
  have nf: "(?w + 1) mod input_size \<noteq> ?r"
    using assms(2) ring_full_iff [OF rw, of "f_input_buffer h"] by (simp add: pending_def)
  have "f_write_head h + 1 \<noteq> f_read_head h"
  proof
    assume "f_write_head h + 1 = f_read_head h"
    moreover have "unat (f_write_head h + 1) = ?w + 1"
      using rw(2) by (simp add: unat_word_ariths(1) input_size_def)
    ultimately have "?w + 1 = ?r" by simp
    then show False using rw nf by simp
  qed
  then show ?thesis
    using rw ring_push [OF rw nf, of "f_input_buffer h" c] assms(1)
    by (simp add: write_input_def term_wf_def pending_def unat_advance_input)
qed

lemma write_output_fields [simp]:
  "f_termios (write_output c h) = f_termios h" "f_write_head (write_output c h) = f_write_head h"
  "f_line_head (write_output c h) = f_line_head h" "f_read_head (write_output c h) = f_read_head h"
  "f_input_buffer (write_output c h) = f_input_buffer h"
  by (simp_all add: write_output_def f_write_cb_def Let_def)

lemma write_output_abs [simp]:
  "term_wf (write_output c h) = term_wf h" "pending (write_output c h) = pending h"
  "available (write_output c h) = available h"
  by (simp_all add: term_wf_def pending_def available_def)

definition term_put :: "u8 \<Rightarrow> termios_helper \<Rightarrow> termios_helper" where
  "term_put c h = (case write_input c h of None \<Rightarrow> h | Some h' \<Rightarrow> h')"

definition term_get :: "termios_helper \<Rightarrow> u8 \<times> termios_helper" where
  "term_get h = (f_input_buffer h (unat (f_read_head h)), h\<lparr>f_read_head := advance input_size (f_read_head h)\<rparr>)"

lemma read_input_spec:
  assumes "term_wf h" "available h = c # cs"
  shows "\<exists>h'. read_input h = Some (c, h') \<and> term_wf h' \<and> available h' = cs
     \<and> f_termios h' = f_termios h \<and> f_line_head h' = f_line_head h"
proof -
  let ?r = "unat (f_read_head h)" and ?l = "unat (f_line_head h)"
  have rl: "?r < input_size" "?l < input_size" using assms(1) by (auto simp: term_wf_def)
  then have ne: "?r \<noteq> ?l" using assms(2) ring_empty_iff [OF rl, of "f_input_buffer h"] by (auto simp: available_def)
  then have "f_read_head h \<noteq> f_line_head h" by auto
  then show ?thesis
    using rl assms ring_pop [OF rl ne, of "f_input_buffer h"]
    by (simp add: read_input_def term_wf_def available_def unat_advance_input)
qed

interpretation tq: byte_queue "\<lambda>h. term_wf h \<and> f_line_head h = f_write_head h" available
    "\<lambda>c h. let h' = term_put c h in h'\<lparr>f_line_head := f_write_head h'\<rparr>"
    "\<lambda>h. case read_input h of None \<Rightarrow> (0, h) | Some r \<Rightarrow> r" "input_size - 1"
proof
  show "(term_wf (let h' = term_put b s in h'\<lparr>f_line_head := f_write_head h'\<rparr>) \<and>
      f_line_head (let h' = term_put b s in h'\<lparr>f_line_head := f_write_head h'\<rparr>) =
      f_write_head (let h' = term_put b s in h'\<lparr>f_line_head := f_write_head h'\<rparr>)) \<and>
      available (let h' = term_put b s in h'\<lparr>f_line_head := f_write_head h'\<rparr>) = available s @ [b]"
    if "term_wf s \<and> f_line_head s = f_write_head s" "length (available s) < input_size - 1" for s b
  proof -
    have "available s = pending s" using that(1) by (simp add: available_def pending_def)
    moreover have "\<exists>h'. write_input b s = Some h' \<and> term_wf h' \<and> pending h' = pending s @ [b]"
      using write_input_spec [of s b] that calculation by auto
    then obtain h' where "write_input b s = Some h'" "term_wf h'" "pending h' = pending s @ [b]"
      by blast
    then show ?thesis using \<open>available s = pending s\<close>
      by (simp add: term_put_def term_wf_def available_def pending_def)
  qed
  show "fst (case read_input s of None \<Rightarrow> (0, s) | Some r \<Rightarrow> r) = b \<and>
      (term_wf (snd (case read_input s of None \<Rightarrow> (0, s) | Some r \<Rightarrow> r)) \<and>
       f_line_head (snd (case read_input s of None \<Rightarrow> (0, s) | Some r \<Rightarrow> r)) =
       f_write_head (snd (case read_input s of None \<Rightarrow> (0, s) | Some r \<Rightarrow> r))) \<and>
      available (snd (case read_input s of None \<Rightarrow> (0, s) | Some r \<Rightarrow> r)) = bs"
    if s: "term_wf s \<and> f_line_head s = f_write_head s" "available s = b # bs" for s b bs
  proof -
    obtain h' where "read_input s = Some (b, h')" "term_wf h'" "available h' = bs" "f_line_head h' = f_line_head s"
      using read_input_spec [of s b bs] s by auto
    moreover have "f_write_head h' = f_write_head s"
      using calculation(1) by (auto simp: read_input_def split: if_splits)
    ultimately show ?thesis using s(1) by simp
  qed
qed

lemma read_loop_spec:
  assumes "term_wf h"
  shows "\<exists>h'. read_loop n got h = Some (h', got @ take n (available h)) \<and> term_wf h'
     \<and> available h' = drop n (available h) \<and> f_termios h' = f_termios h"
  using assms
proof (induction n arbitrary: h got)
  case (Suc n)
  show ?case
  proof (cases "available h")
    case Nil
    then have "f_line_head h = f_read_head h"
      using Suc.prems ring_empty_iff [of "unat (f_read_head h)" input_size "unat (f_line_head h)" "f_input_buffer h"]
      by (simp add: available_def term_wf_def word_unat_eq_iff)
    then show ?thesis using Nil Suc.prems by simp
  next
    case (Cons c cs)
    have ne: "f_line_head h \<noteq> f_read_head h"
      using Cons Suc.prems ring_empty_iff [of "unat (f_read_head h)" input_size "unat (f_line_head h)" "f_input_buffer h"]
      by (auto simp: available_def term_wf_def)
    obtain h' where h': "read_input h = Some (c, h')" "term_wf h'" "available h' = cs" "f_termios h' = f_termios h"
      using read_input_spec [OF Suc.prems Cons] by blast
    then show ?thesis using Suc.IH [OF h'(2), of "got @ [c]"] Cons ne by auto
  qed
qed simp

section \<open>Canonical input\<close>

text \<open>Characters that go into the line unchanged by the line discipline, and the character that ends it.\<close>

definition ordinary :: "termios \<Rightarrow> u16 \<Rightarrow> bool" where
  "ordinary t d \<longleftrightarrow> handle_conditions t d \<and>
     (case translate_character_input t d of
        [u] \<Rightarrow> u \<noteq> CR \<and> u \<noteq> BS \<and> \<not> match_cc t VEOF u \<and> \<not> match_cc t VEOL u
      | _ \<Rightarrow> False)"

definition line_end :: "termios \<Rightarrow> u16 \<Rightarrow> bool" where
  "line_end t d \<longleftrightarrow> handle_conditions t d \<and> translate_character_input t d = [CR] \<and> \<not> match_cc t VEOF CR
     \<and> \<not> match_cc t VERASE CR \<and> \<not> match_cc t VKILL CR"

definition input_byte :: "termios \<Rightarrow> u16 \<Rightarrow> u8" where
  "input_byte t d = hd (translate_character_input t d)"

fun receive_all :: "u16 list \<Rightarrow> termios_helper \<Rightarrow> termios_helper option" where
  "receive_all [] h = Some h"
| "receive_all (d # ds) h = Option.bind (character_received d h) (receive_all ds)"

lemma write_input_all_single [simp]: "Option.bind r (write_input_all []) = r"
  by (cases r) auto

lemma receive_ordinary:
  assumes "ordinary (f_termios h) d" "flag (c_lflag (f_termios h)) ICANON"
  shows "character_received d h = write_input (input_byte (f_termios h) d) (write_output (ucast d) h)"
proof -
  obtain u where u: "translate_character_input (f_termios h) d = [u]"
    using assms(1) by (auto simp: ordinary_def split: list.splits)
  then have "handle_canon u (write_output (ucast d) h) = Some (write_output (ucast d) h, True)"
    using assms(1) by (auto simp: handle_canon_def ordinary_def Let_def)
  then show ?thesis using assms u
    by (auto simp: character_received_def ordinary_def Let_def input_byte_def handle_signal_def handle_flow_def)
qed

lemma receive_line_end:
  assumes "line_end (f_termios h) d" "flag (c_lflag (f_termios h)) ICANON"
  shows "character_received d h =
    Some (let h' = write_output (ucast d) h in h'\<lparr>f_line_head := f_write_head h'\<rparr>)"
  using assms by (auto simp: character_received_def line_end_def handle_canon_def Let_def)

lemma receive_all_ordinary:
  assumes "term_wf h" "flag (c_lflag (f_termios h)) ICANON" "\<And>d. d \<in> set ds \<Longrightarrow> ordinary (f_termios h) d"
    "length (pending h) + length ds < input_size"
  shows "\<exists>h'. receive_all ds h = Some h' \<and> term_wf h' \<and> f_termios h' = f_termios h
     \<and> f_line_head h' = f_line_head h \<and> f_read_head h' = f_read_head h
     \<and> pending h' = pending h @ map (input_byte (f_termios h)) ds"
  using assms
proof (induction ds arbitrary: h)
  case (Cons d ds)
  let ?h = "write_output (ucast d) h"
  have "length (pending ?h) < input_size - 1" using Cons.prems(4) by simp
  then obtain h1 where h1: "write_input (input_byte (f_termios h) d) ?h = Some h1" "term_wf h1"
    "pending h1 = pending h @ [input_byte (f_termios h) d]" "f_termios h1 = f_termios h"
    "f_line_head h1 = f_line_head h" "f_read_head h1 = f_read_head h"
    using write_input_spec [of ?h "input_byte (f_termios h) d"] Cons.prems(1) by auto
  have "character_received d h = Some h1"
    using receive_ordinary [of h d] Cons.prems(2,3) h1(1) by simp
  moreover have "\<exists>h'. receive_all ds h1 = Some h' \<and> term_wf h' \<and> f_termios h' = f_termios h1
     \<and> f_line_head h' = f_line_head h1 \<and> f_read_head h' = f_read_head h1
     \<and> pending h' = pending h1 @ map (input_byte (f_termios h1)) ds"
    using Cons.prems h1 by (intro Cons.IH) auto
  ultimately show ?case using h1 by auto
qed simp

lemma receive_all_append: "receive_all (ds @ es) h = Option.bind (receive_all ds h) (receive_all es)"
  by (induction ds arbitrary: h) (auto split: bind_splits)

text \<open>C38: In canonical mode a line of up to 4095 ordinary characters, typed into an empty terminal
  and ended by a carriage return, is what the next \<^verbatim>\<open>stream_read\<close> returns: the translated
  characters, all of them, in order; nothing is left over.\<close>

theorem termios_canonical_line:
  assumes "term_wf h" "flag (c_lflag (f_termios h)) ICANON"
    "f_line_head h = f_read_head h" "f_write_head h = f_read_head h"
    "\<forall>d \<in> set ds. ordinary (f_termios h) d" "line_end (f_termios h) e"
    "ds \<noteq> []" "length ds < input_size" "length ds \<le> n"
  shows "\<exists>h1 h2. receive_all (ds @ [e]) h = Some h1
     \<and> stream_read n h1 = Some (h2, map (input_byte (f_termios h)) ds) \<and> available h2 = []"
proof -
  have "pending h = []" using assms(1,4) by (simp add: pending_def term_wf_def ring_empty_iff)
  then obtain h' where h': "receive_all ds h = Some h'" "term_wf h'" "f_termios h' = f_termios h"
    "pending h' = map (input_byte (f_termios h)) ds" "f_read_head h' = f_read_head h"
    using receive_all_ordinary [OF assms(1,2), of ds] assms(5,8) by auto
  let ?h = "write_output (ucast e) h'"
  let ?h1 = "?h\<lparr>f_line_head := f_write_head ?h\<rparr>"
  have 1: "receive_all (ds @ [e]) h = Some ?h1"
    using receive_line_end [of h' e] assms(2,6) h' by (simp add: receive_all_append Let_def)
  have wf: "term_wf ?h1" using h'(2) by (simp add: term_wf_def)
  have av: "available ?h1 = map (input_byte (f_termios h)) ds"
    using h'(4) by (simp add: available_def pending_def)
  then have "f_line_head ?h1 \<noteq> f_read_head ?h1"
    using wf assms(7) ring_empty_iff [of "unat (f_read_head ?h1)" input_size "unat (f_line_head ?h1)" "f_input_buffer ?h1"]
    by (auto simp: available_def term_wf_def)
  then have "stream_read n ?h1 = read_loop n [] ?h1" by (simp add: stream_read_def)
  then show ?thesis using 1 read_loop_spec [OF wf, of n "[]"] av assms(9) by auto
qed

theorem termios_canonical_line_witness:
  "let h = TermiosHelper_init (\<lambda>_. 0); h0 = h\<lparr>f_termios := (f_termios h)\<lparr>c_lflag := 2\<rparr>\<rparr>
   in \<exists>h1 h2. receive_all [0x68, 0x69, 0x0D] h0 = Some h1 \<and> stream_read 80 h1 = Some (h2, [0x68, 0x69])"
proof -
  let ?h = "TermiosHelper_init (\<lambda>_. 0)"
  let ?h0 = "?h\<lparr>f_termios := (f_termios ?h)\<lparr>c_lflag := 2\<rparr>\<rparr>"
  have "term_wf ?h0" "flag (c_lflag (f_termios ?h0)) 2" "f_line_head ?h0 = f_read_head ?h0" "f_write_head ?h0 = f_read_head ?h0"
    by (simp_all add: TermiosHelper_init_def term_wf_def input_size_def flag_def)
  moreover have "\<forall>d \<in> set [0x68, 0x69]. ordinary (f_termios ?h0) d" "line_end (f_termios ?h0) 0x0D"
    by (simp_all add: ordinary_def line_end_def handle_conditions_def translate_character_input_def TermiosHelper_init_def flag_def
        match_cc_def default_cc_def Let_def)
  moreover have "input_byte (f_termios ?h0) 0x68 = 0x68" "input_byte (f_termios ?h0) 0x69 = 0x69"
    by (simp_all add: input_byte_def translate_character_input_def TermiosHelper_init_def flag_def Let_def)
  ultimately show ?thesis
    using termios_canonical_line [of ?h0 "[0x68, 0x69]" "0x0D" 80] by (auto simp: Let_def input_size_def)
qed

text \<open>Outside canonical mode no operation moves the line head.\<close>

lemma write_input_heads:
  "term_wf h \<Longrightarrow> \<exists>h'. write_input c h = Some h' \<and> term_wf h' \<and> f_line_head h' = f_line_head h
     \<and> f_read_head h' = f_read_head h \<and> f_termios h' = f_termios h"
  by (auto simp: write_input_def term_wf_def unat_advance_input)

lemma write_input_all_heads:
  "term_wf h \<Longrightarrow> \<exists>h'. write_input_all cs h = Some h' \<and> term_wf h' \<and> f_line_head h' = f_line_head h
     \<and> f_read_head h' = f_read_head h \<and> f_termios h' = f_termios h"
proof (induction cs arbitrary: h)
  case (Cons c cs)
  obtain h1 where "write_input c h = Some h1" "term_wf h1" "f_line_head h1 = f_line_head h"
    "f_read_head h1 = f_read_head h" "f_termios h1 = f_termios h"
    using write_input_heads [OF Cons.prems] by blast
  then show ?case using Cons.IH [of h1] by auto
qed auto

lemma receive_all_raw:
  assumes "term_wf h" "\<not> flag (c_lflag (f_termios h)) ICANON"
  shows "\<exists>h'. receive_all ds h = Some h' \<and> term_wf h' \<and> f_line_head h' = f_line_head h
     \<and> f_read_head h' = f_read_head h \<and> f_termios h' = f_termios h"
  using assms
proof (induction ds arbitrary: h)
  case (Cons d ds)
  have "\<exists>h1. character_received d h = Some h1 \<and> term_wf h1 \<and> f_line_head h1 = f_line_head h
     \<and> f_read_head h1 = f_read_head h \<and> f_termios h1 = f_termios h"
    using write_input_all_heads [of "write_output (ucast d) h"] Cons.prems
    by (simp add: character_received_def Let_def handle_signal_def handle_flow_def)
  then show ?case using Cons.IH Cons.prems(2) by fastforce
qed auto

text \<open>Without \<^verbatim>\<open>ICANON\<close>, the initial mode, no received character ever becomes readable: after any
  input \<^verbatim>\<open>stream_read\<close> returns 0 bytes, because only canonical mode moves the line head.\<close>

theorem termios_raw_read_returns_nothing:
  assumes "term_wf h" "\<not> flag (c_lflag (f_termios h)) ICANON" "f_line_head h = f_read_head h"
  shows "\<exists>h'. receive_all ds h = Some h' \<and> stream_read n h' = Some (h', [])"
proof -
  obtain h' where "receive_all ds h = Some h'" "f_line_head h' = f_read_head h'" "f_termios h' = f_termios h"
    using receive_all_raw [OF assms(1,2), of ds] assms(3) by auto
  then show ?thesis using assms(2) by (cases n) (simp_all add: stream_read_def)
qed

theorem termios_raw_read_returns_nothing_witness:
  "\<exists>h'. receive_all [0x68, 0x69, 0x0D] (TermiosHelper_init (\<lambda>_. 0)) = Some h' \<and> stream_read 80 h' = Some (h', [])"
  by (rule termios_raw_read_returns_nothing)
    (simp_all add: TermiosHelper_init_def term_wf_def input_size_def flag_def)

text \<open>In canonical mode backspace does not edit the line: with the line head at or below the
  write head it leaves the input as it is, and with a wrapped write head at 0 it moves
  the write head to \<open>2 ^ 64 - 1\<close>, so that storing the next character accesses the buffer out of bounds.\<close>

theorem termios_backspace:
  assumes "flag (c_lflag (f_termios h)) ICANON" "handle_conditions (f_termios h) b"
    "translate_character_input (f_termios h) b = [BS]"
    "\<forall>cc \<in> {VEOF, VEOL, VERASE, VKILL}. \<not> match_cc (f_termios h) cc BS"
  shows "\<exists>h'. character_received b h = Some h' \<and> f_line_head h' = f_line_head h
    \<and> (f_line_head h \<le> f_write_head h \<longrightarrow> pending h' = pending h)
    \<and> (f_write_head h = 0 \<and> 0 < f_line_head h \<and> 0 < f_read_head h \<longrightarrow>
         f_write_head h' = -1 \<and> write_input c h' = None)"
proof -
  have "handle_canon BS (write_output (ucast b) h) =
      (if f_line_head h > f_write_head h then
         let h' = write_output BS (write_output (ucast b) h) in Some (h'\<lparr>f_write_head := f_write_head h' - 1\<rparr>, False)
       else Some (write_output (ucast b) h, False))"
    using assms(4) by (simp add: handle_canon_def)
  then show ?thesis using assms(1-3)
    by (auto simp: character_received_def Let_def pending_def write_input_def word_gt_0
        unsigned_minus_1_eq_mask mask_eq_exp_minus_1 input_size_def)
qed

theorem termios_backspace_witness:
  "let h = TermiosHelper_init (\<lambda>_. 0);
       h0 = h\<lparr>f_termios := (f_termios h)\<lparr>c_lflag := 2\<rparr>, f_line_head := 5, f_read_head := 5\<rparr>
   in \<exists>h'. character_received 8 h0 = Some h' \<and> f_write_head h' = -1 \<and> write_input 0x41 h' = None"
proof -
  let ?h = "TermiosHelper_init (\<lambda>_. 0)"
  let ?h0 = "?h\<lparr>f_termios := (f_termios ?h)\<lparr>c_lflag := 2\<rparr>, f_line_head := 5, f_read_head := 5\<rparr>"
  have "c_iflag (f_termios ?h0) = 0" "c_cc (f_termios ?h0) = default_cc" "flag (c_lflag (f_termios ?h0)) 2"
    by (simp_all add: TermiosHelper_init_def flag_def)
  moreover from this have "handle_conditions (f_termios ?h0) 8" "translate_character_input (f_termios ?h0) 8 = [8]"
    "\<forall>cc \<in> {0, 1, 2, 4}. \<not> match_cc (f_termios ?h0) cc 8"
    by (simp_all add: handle_conditions_def translate_character_input_def flag_def match_cc_def default_cc_def)
  moreover have "f_write_head ?h0 = 0" "0 < f_line_head ?h0" "0 < f_read_head ?h0"
    by (simp_all add: TermiosHelper_init_def)
  ultimately show ?thesis using termios_backspace [of ?h0 8 "0x41"] unfolding Let_def by blast
qed

end
