(* ===== verification/Vnode.thy ===== *)
theory Vnode
  imports Unordered_Map
begin

text \<open>
  \<^verbatim>\<open>VNode\<close> (\<^verbatim>\<open>kernel/src/fs/vnode.cpp\<close>, \<^verbatim>\<open>kernel/include/fs/vnode.hpp\<close>): the nodes of the file system
  tree. Nodes live in a store indexed by identifiers, a \<^verbatim>\<open>VNodePtr\<close> is an identifier and the null pointer
  is \<open>None\<close>. The children of a node are a table of \<^verbatim>\<open>std::UnorderedMap\<close> keyed by name, so
  every lookup goes through \<open>um_at\<close>, \<open>um_insert\<close> and \<open>um_erase\<close> of \<^verbatim>\<open>Unordered_Map\<close>. Names and paths are C strings,
  lists of bytes without the terminating zero. The result \<open>None\<close> of an operation is a failed assertion or an access
  through a null or dangling pointer; an error code is \<open>Some (Inl e)\<close>.
\<close>

section \<open>Nodes and the store\<close>

type_synonym cstring = "u8 list"
type_synonym vid = nat
type_synonym fsid = nat

datatype vtype = DIRECTORY | FILE | BLOCK_DEVICE | LINK | MOUNT | CHARACTER_DEVICE

datatype vnode_data = NoData | LinkData cstring | DevData u16 u16 | SysData nat | InitRdData nat | ModuleData nat

record vnode =
  f_permissions :: u16
  f_user_id :: u16
  f_group_id :: u16
  f_create_time :: u64
  f_access_time :: u64
  f_modify_time :: u64
  vn_size :: u64
  f_parent :: "vid option"
  f_children :: "(cstring, vid) umap"
  fs_data :: vnode_data
  f_name :: cstring
  f_filesystem :: fsid
  f_type :: vtype

datatype fs_kind = VNodeFs | InitRdFs | ModuleFs

record vfs_state =
  nodes :: "vid \<Rightarrow> vnode option"
  next_vid :: vid
  fs_kind_of :: "fsid \<Rightarrow> fs_kind"
  fs_root :: "fsid \<Rightarrow> vid option"
  f_rootNode :: "vid option"

text \<open>An open file: its node and the offset kept in the stream data of sysfs and of the initial ram disk.\<close>

record file_stream =
  stream_node :: vid
  offset :: size_t

section \<open>Operations\<close>

definition VNode_new :: "u16 \<Rightarrow> u64 \<Rightarrow> cstring \<Rightarrow> vtype \<Rightarrow> fsid \<Rightarrow> vnode" where
  "VNode_new permissions sz name vt fs =
     \<lparr>f_permissions = permissions, f_user_id = 0, f_group_id = 0, f_create_time = 0, f_access_time = 0,
      f_modify_time = 0, vn_size = sz, f_parent = None, f_children = um_empty, fs_data = NoData,
      f_name = name, f_filesystem = fs, f_type = vt\<rparr>"

text \<open>\<^verbatim>\<open>std::make_shared<VNode>(...)\<close>: a fresh node.\<close>

definition make_node :: "vnode \<Rightarrow> vfs_state \<Rightarrow> vfs_state \<times> vid" where
  "make_node v st = (st\<lparr>nodes := (nodes st)(next_vid st \<mapsto> v), next_vid := Suc (next_vid st)\<rparr>, next_vid st)"

definition update_node :: "vid \<Rightarrow> (vnode \<Rightarrow> vnode) \<Rightarrow> vfs_state \<Rightarrow> vfs_state option" where
  "update_node i f st =
     (case nodes st i of None \<Rightarrow> None | Some v \<Rightarrow> Some (st\<lparr>nodes := (nodes st)(i \<mapsto> f v)\<rparr>))"

definition get_child :: "vid \<Rightarrow> cstring \<Rightarrow> vfs_state \<Rightarrow> vid option option" where
  "get_child i name st =
     (case nodes st i of None \<Rightarrow> None | Some v \<Rightarrow> um_at hash_str name (f_children v))"

definition set_children :: "vid \<Rightarrow> (cstring, vid) umap \<Rightarrow> vfs_state \<Rightarrow> vfs_state option" where
  "set_children i m st = update_node i (\<lambda>v. v\<lparr>f_children := m\<rparr>) st"

definition add_child :: "vid \<Rightarrow> vid \<Rightarrow> vfs_state \<Rightarrow> vfs_state option" where
  "add_child i child st =
     (case (nodes st i, nodes st child) of
        (Some v, Some c) \<Rightarrow>
          (case um_insert hash_str (f_name c) child (f_children v) of
             None \<Rightarrow> None
           | Some (m, ins) \<Rightarrow> set_children i m st)
      | _ \<Rightarrow> None)"

definition set_parent :: "vid \<Rightarrow> vid option \<Rightarrow> vfs_state \<Rightarrow> vfs_state option" where
  "set_parent i p st = update_node i (\<lambda>v. v\<lparr>f_parent := p\<rparr>) st"

text \<open>\<^verbatim>\<open>VNode::mount\<close>: take the place of \<open>location\<close> below its parent. The parent pointer is used
  without a check.\<close>

definition VNode_mount :: "vid \<Rightarrow> vid \<Rightarrow> vfs_state \<Rightarrow> vfs_state option" where
  "VNode_mount this location st =
     (case nodes st location of
        None \<Rightarrow> None
      | Some loc \<Rightarrow>
          (case set_parent this (f_parent loc) st of
             None \<Rightarrow> None
           | Some st1 \<Rightarrow>
               (case f_parent loc of
                  None \<Rightarrow> None
                | Some p \<Rightarrow>
                    (case nodes st1 p of
                       None \<Rightarrow> None
                     | Some pv \<Rightarrow>
                         (case um_erase hash_str (f_name loc) (f_children pv) of
                            None \<Rightarrow> None
                          | Some m \<Rightarrow>
                              Option.bind (set_children p m st1)
                                (update_node this (\<lambda>v. v\<lparr>f_name := f_name loc\<rparr>)))))))"

subsection \<open>Paths\<close>

text \<open>\<^verbatim>\<open>strchr(path_ptr, '/')\<close>: the part before the first separator, and what follows it when there
  is one.\<close>

fun split_path :: "cstring \<Rightarrow> cstring \<times> cstring option" where
  "split_path [] = ([], None)"
| "split_path (c # cs) =
     (if c = 0x2F then ([], Some cs)
      else case split_path cs of (part, rest) \<Rightarrow> (c # part, rest))"

lemma split_path_length: "split_path p = (part, Some rest) \<Longrightarrow> length rest < length p"
  by (induction p arbitrary: part) (auto split: if_splits prod.splits)

lemma split_path_no_sep [simp]: "0x2F \<notin> set p \<Longrightarrow> split_path p = (p, None)"
  by (induction p) auto

lemma split_path_sep [simp]: "0x2F \<notin> set p \<Longrightarrow> split_path (p @ 0x2F # rest) = (p, Some rest)"
  by (induction p) auto

lemma split_path_cases:
  obtains "0x2F \<notin> set p" "split_path p = (p, None)"
  | part rest where "p = part @ 0x2F # rest" "0x2F \<notin> set part" "split_path p = (part, Some rest)"
  using that by (cases "0x2F \<in> set p") (auto dest: split_list_first)

section \<open>Well-formed stores\<close>

text \<open>Every identifier handed out is below \<open>next_vid\<close>, every child table satisfies the invariant of
  the hash table, and the children and parents exist.\<close>

definition children :: "vnode \<Rightarrow> cstring \<Rightarrow> vid option" where
  "children v = um_map hash_str (f_children v)"

definition store_wf :: "vfs_state \<Rightarrow> bool" where
  "store_wf st \<longleftrightarrow>
     (\<forall>i v. nodes st i = Some v \<longrightarrow> i < next_vid st \<and> um_inv hash_str (f_children v)
        \<and> (\<forall>n c. children v n = Some c \<longrightarrow> nodes st c \<noteq> None)
        \<and> (\<forall>p. f_parent v = Some p \<longrightarrow> nodes st p \<noteq> None))"

lemma store_wfD:
  assumes "store_wf st" "nodes st i = Some v"
  shows "i < next_vid st" "um_inv hash_str (f_children v)" "um_wf hash_str (f_children v)"
    "children v n = Some c \<Longrightarrow> nodes st c \<noteq> None" "f_parent v = Some p \<Longrightarrow> nodes st p \<noteq> None"
  using assms by (auto simp: store_wf_def um_inv_def)

lemma get_child_spec:
  "store_wf st \<Longrightarrow> nodes st i = Some v \<Longrightarrow> get_child i name st = Some (children v name)"
  by (simp add: get_child_def children_def um_at_map store_wfD)

lemma fresh_node: "store_wf st \<Longrightarrow> nodes st (next_vid st) = None"
  by (metis less_irrefl not_Some_eq store_wfD(1))

lemma children_empty [simp]: "children (v\<lparr>f_children := um_empty\<rparr>) n = None"
  by (simp add: children_def um_empty_wf)

lemma um_count_empty [simp]: "um_count um_empty = 0"
  by (simp add: um_empty_def um_new_def um_count_def)

lemma um_inv_empty: "um_inv hash um_empty"
  by (rule um.empty_inv)

lemma VNode_new_fields [simp]:
  "f_children (VNode_new p s n t fs) = um_empty" "f_parent (VNode_new p s n t fs) = None"
  "f_name (VNode_new p s n t fs) = n" "f_type (VNode_new p s n t fs) = t"
  "f_filesystem (VNode_new p s n t fs) = fs" "vn_size (VNode_new p s n t fs) = s"
  by (simp_all add: VNode_new_def)

text \<open>
  Creating a node below an existing one, the pattern of \<^verbatim>\<open>mkdir\<close>, \<^verbatim>\<open>symlink\<close>, \<^verbatim>\<open>add_dev\<close> and
  \<^verbatim>\<open>add_node\<close>: a new node \<open>c\<close>, \<^verbatim>\<open>root->add_child(node)\<close>, \<^verbatim>\<open>node->f_parent = root\<close>.
\<close>

definition attach_new :: "vid \<Rightarrow> vnode \<Rightarrow> vfs_state \<Rightarrow> (vfs_state \<times> vid) option" where
  "attach_new root c st =
     (case make_node c st of
        (st1, i) \<Rightarrow>
          Option.bind (add_child root i st1)
            (\<lambda>st2. map_option (\<lambda>st3. (st3, i)) (set_parent i (Some root) st2)))"

lemma attach_new_spec:
  assumes wf: "store_wf st" and r: "nodes st root = Some v" and c: "f_children c = um_empty"
    and absent: "children v (f_name c) = None" and room: "um_count (f_children v) < um_limit"
  obtains st' v' where "attach_new root c st = Some (st', next_vid st)"
    "nodes st' = (nodes st)(root \<mapsto> v', next_vid st \<mapsto> c\<lparr>f_parent := Some root\<rparr>)"
    "next_vid st' = Suc (next_vid st)" "fs_kind_of st' = fs_kind_of st" "fs_root st' = fs_root st"
    "f_rootNode st' = f_rootNode st" "store_wf st'"
    "\<exists>m. v' = v\<lparr>f_children := m\<rparr>" "children v' = (children v)(f_name c \<mapsto> next_vid st)"
proof -
  let ?n = "next_vid st"
  have ne: "root \<noteq> ?n" using fresh_node [OF wf] r by auto
  obtain m where m: "um_insert hash_str (f_name c) ?n (f_children v) = Some (m, True)" "um_inv hash_str m"
    "um_map hash_str m = (um_map hash_str (f_children v))(f_name c \<mapsto> ?n)"
    by (rule um_insert_absent [OF store_wfD(2) [OF wf r] absent [unfolded children_def] room])
  define v' where "v' = v\<lparr>f_children := m\<rparr>"
  define st' where "st' = st\<lparr>nodes := (nodes st)(root \<mapsto> v', ?n \<mapsto> c\<lparr>f_parent := Some root\<rparr>), next_vid := Suc ?n\<rparr>"
  have ch: "children v' = (children v)(f_name c \<mapsto> ?n)" by (simp add: v'_def children_def m(3))
  have new: "nodes st' = (nodes st)(root \<mapsto> v', ?n \<mapsto> c\<lparr>f_parent := Some root\<rparr>)" by (simp add: st'_def)
  have "add_child root ?n (fst (make_node c st)) = Some (st\<lparr>nodes := (nodes st)(?n \<mapsto> c, root \<mapsto> v'), next_vid := Suc ?n\<rparr>)"
    using ne r m(1) by (simp add: make_node_def add_child_def set_children_def update_node_def v'_def)
  then have at: "attach_new root c st = Some (st', ?n)"
    using ne fun_upd_twist [OF ne, of "nodes st" "Some v'" "Some c"]
    by (simp add: attach_new_def make_node_def update_node_def set_parent_def st'_def)
  have "store_wf st'"
    unfolding store_wf_def
  proof (intro allI impI)
    fix i w assume w: "nodes st' i = Some w"
    consider "i = ?n" "w = c\<lparr>f_parent := Some root\<rparr>" | "i = root" "w = v'" | "i \<noteq> ?n" "i \<noteq> root" "nodes st i = Some w"
      using w by (cases "i = ?n"; cases "i = root") (simp_all add: new)
    then show "i < next_vid st' \<and> um_inv hash_str (f_children w) \<and> (\<forall>n c. children w n = Some c \<longrightarrow> nodes st' c \<noteq> None)
        \<and> (\<forall>p. f_parent w = Some p \<longrightarrow> nodes st' p \<noteq> None)"
    proof cases
      case 1
      have "children w n = None" for n by (simp add: 1 children_def c um_empty_wf)
      moreover have "um_inv hash_str (f_children w)" by (simp add: 1 c um_inv_empty)
      moreover have "nodes st' root \<noteq> None" using ne by (simp add: new)
      ultimately show ?thesis using 1 by (simp add: st'_def)
    next
      case 2
      have "children v' n = Some d \<Longrightarrow> nodes st' d \<noteq> None" for n d
        using store_wfD(4) [OF wf r] by (auto simp: ch st'_def split: if_splits)
      moreover have "f_parent v' = Some p \<Longrightarrow> nodes st' p \<noteq> None" for p
        using store_wfD(5) [OF wf r] by (auto simp: v'_def st'_def)
      ultimately show ?thesis using 2 store_wfD(1) [OF wf r] m(2) by (simp add: st'_def v'_def)
    next
      case 3
      then show ?thesis using store_wfD [OF wf 3(3)] by (auto simp: st'_def)
    qed
  qed
  then show thesis
    by (intro that [OF at new _ _ _ _ _ _ ch]) (auto simp: st'_def v'_def)
qed

end
