(* ===== verification/Vnodefs.thy ===== *)
theory Vnodefs
  imports Vnode
begin

text \<open>
  \<^verbatim>\<open>VNodeFilesystem\<close> (\<^verbatim>\<open>kernel/src/fs/vnodefs.cpp\<close>): the file systems that consist of nodes in memory
  only (devfs, sysfs). \<^verbatim>\<open>this\<close> is the file system number \<open>fs\<close>. Link resolution, which calls back
  into the VFS, is in \<^verbatim>\<open>Vfs\<close>.
\<close>

section \<open>Operations\<close>

definition VNodeFilesystem_init :: "fsid \<Rightarrow> vfs_state \<Rightarrow> vfs_state" where
  "VNodeFilesystem_init fs st =
     (case make_node (VNode_new 0x1FF 0 [] DIRECTORY fs) st of
        (st1, i) \<Rightarrow> st1\<lparr>fs_root := (fs_root st1)(fs \<mapsto> i), fs_kind_of := (fs_kind_of st1)(fs := VNodeFs)\<rparr>)"

text \<open>\<^verbatim>\<open>if(!root) root = f_root;\<close> and the assertion that the node belongs to this file system.\<close>

definition own_root :: "fsid \<Rightarrow> vid option \<Rightarrow> vfs_state \<Rightarrow> (vid \<times> vnode) option" where
  "own_root fs root st =
     (case (case root of None \<Rightarrow> fs_root st fs | Some r \<Rightarrow> Some r) of
        None \<Rightarrow> None
      | Some r \<Rightarrow>
          (case nodes st r of
             None \<Rightarrow> None
           | Some v \<Rightarrow> if f_filesystem v = fs then Some (r, v) else None))"

definition vnfs_get_file :: "fsid \<Rightarrow> vid option \<Rightarrow> cstring \<Rightarrow> vfs_state \<Rightarrow> vid value_or_error option" where
  "vnfs_get_file fs root filename st =
     (case own_root fs root st of
        None \<Rightarrow> None
      | Some (r, v) \<Rightarrow>
          if filename = [] then Some (Inr r)
          else
            (case um_at hash_str filename (f_children v) of
               None \<Rightarrow> None
             | Some None \<Rightarrow> Some (Inl ENOENT)
             | Some (Some file) \<Rightarrow> Some (Inr file)))"

text \<open>The loop over \<^verbatim>\<open>f_children\<close>, in the iteration order of the table.\<close>

definition child_list :: "(cstring, vid) umap \<Rightarrow> vid list option" where
  "child_list m = Option.bind (um_begin m) (\<lambda>it. map_option (map snd) (um_for (Suc (um_count m)) m it))"

definition vnfs_get_files :: "fsid \<Rightarrow> vid option \<Rightarrow> vfs_state \<Rightarrow> vid list value_or_error option" where
  "vnfs_get_files fs root st =
     (case own_root fs root st of
        None \<Rightarrow> None
      | Some (r, v) \<Rightarrow> map_option Inr (child_list (f_children v)))"

definition vnfs_symlink ::
    "fsid \<Rightarrow> vid option \<Rightarrow> cstring \<Rightarrow> cstring \<Rightarrow> vfs_state \<Rightarrow> (vfs_state \<times> vid value_or_error) option" where
  "vnfs_symlink fs root filename dest st =
     (case own_root fs root st of
        None \<Rightarrow> None
      | Some (r, v) \<Rightarrow>
          map_option (\<lambda>(st', i). (st', Inr i))
            (attach_new r ((VNode_new 0x1FF 0 filename LINK fs)\<lparr>fs_data := LinkData dest\<rparr>) st))"

definition vnfs_mkdir ::
    "fsid \<Rightarrow> vid option \<Rightarrow> cstring \<Rightarrow> vfs_state \<Rightarrow> (vfs_state \<times> vid value_or_error) option" where
  "vnfs_mkdir fs root filename st =
     (case vnfs_get_file fs root filename st of
        None \<Rightarrow> None
      | Some (Inr _) \<Rightarrow> Some (st, Inl EEXIST)
      | Some (Inl _) \<Rightarrow>
          (case own_root fs root st of
             None \<Rightarrow> None
           | Some (r, v) \<Rightarrow>
               map_option (\<lambda>(st', i). (st', Inr i)) (attach_new r (VNode_new 0x1FF 0 filename DIRECTORY fs) st)))"

text \<open>The loop of \<^verbatim>\<open>resolve_path\<close>; an empty part is skipped by \<^verbatim>\<open>++path_ptr\<close>.\<close>

function vnfs_resolve_loop ::
    "fsid \<Rightarrow> cstring \<Rightarrow> vid \<Rightarrow> bool \<Rightarrow> vfs_state \<Rightarrow> (vfs_state \<times> (vid \<times> cstring) value_or_error) option" where
  "vnfs_resolve_loop fs path root makeDirs st =
     (case split_path path of
        (_, None) \<Rightarrow> Some (st, Inr (root, path))
      | (part, Some rest) \<Rightarrow>
          (case nodes st root of
             None \<Rightarrow> None
           | Some v \<Rightarrow>
               if f_type v \<noteq> DIRECTORY then Some (st, Inl ENOTDIR)
               else if part = [] then vnfs_resolve_loop fs rest root makeDirs st
               else
                 (case vnfs_get_file fs (Some root) part st of
                    None \<Rightarrow> None
                  | Some (Inr next) \<Rightarrow> vnfs_resolve_loop fs rest next makeDirs st
                  | Some (Inl e) \<Rightarrow>
                      if e = ENOENT \<and> makeDirs then
                        (case vnfs_mkdir fs (Some root) part st of
                           None \<Rightarrow> None
                         | Some (st1, Inl e1) \<Rightarrow> Some (st1, Inl e1)
                         | Some (st1, Inr next) \<Rightarrow> vnfs_resolve_loop fs rest next makeDirs st1)
                      else Some (st, Inl e))))"
  by pat_completeness auto
termination
  by (relation "measure (\<lambda>(fs, path, root, makeDirs, st). length path)") (auto dest!: split_path_length [OF sym])

declare vnfs_resolve_loop.simps [simp del]

definition vnfs_resolve_path ::
    "fsid \<Rightarrow> cstring \<Rightarrow> vid option \<Rightarrow> bool \<Rightarrow> vfs_state \<Rightarrow> (vfs_state \<times> (vid \<times> cstring) value_or_error) option" where
  "vnfs_resolve_path fs path root makeDirs st =
     (case own_root fs root st of None \<Rightarrow> None | Some (r, v) \<Rightarrow> vnfs_resolve_loop fs path r makeDirs st)"

definition add_directory ::
    "fsid \<Rightarrow> vid option \<Rightarrow> cstring \<Rightarrow> vfs_state \<Rightarrow> (vfs_state \<times> vid value_or_error) option" where
  "add_directory fs root path st =
     (case vnfs_resolve_path fs path root True st of
        None \<Rightarrow> None
      | Some (st1, Inl e) \<Rightarrow> Some (st1, Inl e)
      | Some (st1, Inr (r, filename)) \<Rightarrow> vnfs_mkdir fs (Some r) filename st1)"

section \<open>Lemmas\<close>

lemma own_root_some [simp]:
  "nodes st r = Some v \<Longrightarrow> own_root fs (Some r) st = (if f_filesystem v = fs then Some (r, v) else None)"
  by (simp add: own_root_def)

lemma vnfs_get_file_spec:
  assumes "store_wf st" "nodes st r = Some v" "f_filesystem v = fs" "name \<noteq> []"
  shows "vnfs_get_file fs (Some r) name st =
    Some (case children v name of None \<Rightarrow> Inl ENOENT | Some c \<Rightarrow> Inr c)"
  using assms um_at_map [OF store_wfD(3) [OF assms(1,2)], of name]
  by (auto simp: vnfs_get_file_def children_def split: option.split)

lemma vnfs_get_files_spec:
  assumes "store_wf st" "nodes st r = Some v" "f_filesystem v = fs"
  shows "\<exists>cs. vnfs_get_files fs (Some r) st = Some (Inr cs) \<and> set cs = ran (children v)"
proof -
  have wf: "um_wf hash_str (f_children v)" by (rule store_wfD(3) [OF assms(1,2)])
  have len: "length (f_bucket (f_children v)) = unat (f_capacity (f_children v))" using wf by (simp add: um_wf_def)
  obtain it where it: "um_begin (f_children v) = Some it" "it_wf (f_children v) it"
    "um_rest (f_children v) it = concat (f_bucket (f_children v))"
    using um_begin_from_rest [OF len, of 0] by (auto simp: um_begin_def)
  then have "um_for (Suc (um_count (f_children v))) (f_children v) it = Some (concat (f_bucket (f_children v)))"
    using um_for_rest [OF len it(2)] it(3) by (metis lessI um_count_def)
  moreover have "children v = map_of (concat (f_bucket (f_children v)))"
    unfolding children_def by (rule ext) (rule um_map_concat [OF wf])
  ultimately show ?thesis using it(1) ran_distinct [OF um_distinct [OF wf]] assms
    by (simp add: vnfs_get_files_def child_list_def)
qed

text \<open>A successful \<^verbatim>\<open>mkdir\<close>: the name becomes a child of the directory, every other node is untouched.\<close>

lemma vnfs_mkdir_spec:
  assumes "store_wf st" "nodes st r = Some v" "f_filesystem v = fs" "name \<noteq> []"
    "children v name = None" "um_count (f_children v) < um_limit"
  obtains st' v' where "vnfs_mkdir fs (Some r) name st = Some (st', Inr (next_vid st))" "store_wf st'"
    "nodes st' = (nodes st)(r \<mapsto> v', next_vid st \<mapsto> (VNode_new 0x1FF 0 name DIRECTORY fs)\<lparr>f_parent := Some r\<rparr>)"
    "\<exists>m. v' = v\<lparr>f_children := m\<rparr>" "children v' = (children v)(name \<mapsto> next_vid st)"
    "fs_kind_of st' = fs_kind_of st" "f_rootNode st' = f_rootNode st" "fs_root st' = fs_root st"
proof -
  let ?c = "VNode_new 0x1FF 0 name DIRECTORY fs"
  obtain st' v' where at: "attach_new r ?c st = Some (st', next_vid st)"
    "nodes st' = (nodes st)(r \<mapsto> v', next_vid st \<mapsto> ?c\<lparr>f_parent := Some r\<rparr>)"
    "next_vid st' = Suc (next_vid st)" "fs_kind_of st' = fs_kind_of st" "fs_root st' = fs_root st"
    "f_rootNode st' = f_rootNode st" "store_wf st'"
    "\<exists>m. v' = v\<lparr>f_children := m\<rparr>" "children v' = (children v)(f_name ?c \<mapsto> next_vid st)"
    by (rule attach_new_spec [OF assms(1,2), of ?c]) (use assms in simp_all)
  have "vnfs_mkdir fs (Some r) name st = Some (st', Inr (next_vid st))"
    using assms at(1) by (simp add: vnfs_mkdir_def vnfs_get_file_spec)
  then show thesis using at by (intro that [of st' v']) simp_all
qed

lemma vnfs_mkdir_exists:
  assumes "store_wf st" "nodes st r = Some v" "f_filesystem v = fs" "name = [] \<or> children v name \<noteq> None"
  shows "vnfs_mkdir fs (Some r) name st = Some (st, Inl EEXIST)"
  using assms vnfs_get_file_spec [OF assms(1-3), of name]
  by (cases "name = []") (auto simp: vnfs_mkdir_def vnfs_get_file_def)

end
