(* ===== verification/Devicefs.thy ===== *)
theory Devicefs
  imports Vnodefs
begin

text \<open>
  \<^verbatim>\<open>DeviceFilesystem\<close> (\<^verbatim>\<open>kernel/src/fs/devicefs.cpp\<close>): device nodes with a major and a minor number, and the
  forwarding of file operations to the function table that the module with the major number
  exports. The table of a driver is the parameter of the model: a driver function takes the minor
  number and the arguments of the call and may be missing.
\<close>

section \<open>Function tables\<close>

record 'w device_function_table =
  dft_open :: "(u16 \<Rightarrow> nat \<Rightarrow> 'w \<Rightarrow> 'w \<times> unit value_or_error) option"
  dft_close :: "(u16 \<Rightarrow> 'w \<Rightarrow> 'w \<times> unit value_or_error) option"
  dft_read :: "(u16 \<Rightarrow> nat \<Rightarrow> 'w \<Rightarrow> 'w \<times> u8 list value_or_error) option"
  dft_write :: "(u16 \<Rightarrow> u8 list \<Rightarrow> 'w \<Rightarrow> 'w \<times> nat value_or_error) option"
  dft_seek :: "(u16 \<Rightarrow> size_t \<Rightarrow> nat \<Rightarrow> 'w \<Rightarrow> 'w \<times> size_t value_or_error) option"
  dft_block_read :: "(u16 \<Rightarrow> u64 \<Rightarrow> u32 \<Rightarrow> 'w \<Rightarrow> 'w \<times> u8 list value_or_error) option"
  dft_block_write :: "(u16 \<Rightarrow> u64 \<Rightarrow> u8 list \<Rightarrow> 'w \<Rightarrow> 'w \<times> nat value_or_error) option"
  dft_ioctl :: "(u16 \<Rightarrow> u64 \<Rightarrow> 'w \<Rightarrow> 'w \<times> nat value_or_error) option"

text \<open>The module manager: the module of a major number, if loaded, and its symbol
  \<^verbatim>\<open>device_function_table\<close>, if it has one.\<close>

type_synonym 'w module_table = "u16 \<Rightarrow> 'w device_function_table option option"

definition get_function_table :: "'w module_table \<Rightarrow> vnode \<Rightarrow> (u16 \<times> 'w device_function_table option) option" where
  "get_function_table mods node =
     (case fs_data node of
        DevData major minor \<Rightarrow>
          Some (case mods major of None \<Rightarrow> (0, None) | Some table \<Rightarrow> (minor, table))
      | _ \<Rightarrow> None)"

text \<open>\<^verbatim>\<open>RUN_FUNC\<close>: the key of the pair is tested, and the table is used without a test.\<close>

definition run_func ::
    "'w module_table \<Rightarrow> vnode \<Rightarrow> ('w device_function_table \<Rightarrow> 'f option) \<Rightarrow> (u16 \<Rightarrow> 'f \<Rightarrow> 'w \<times> 'r value_or_error) \<Rightarrow>
     'w \<Rightarrow> ('w \<times> 'r value_or_error) option" where
  "run_func mods node sel call w =
     (case get_function_table mods node of
        None \<Rightarrow> None
      | Some (key, table) \<Rightarrow>
          if key = 0 then Some (w, Inl ENODEV)
          else
            (case table of
               None \<Rightarrow> None
             | Some t \<Rightarrow>
                 (case sel t of None \<Rightarrow> Some (w, Inl ENOTSUP) | Some f \<Rightarrow> Some (call key f))))"

definition devfs_open :: "'w module_table \<Rightarrow> vnode \<Rightarrow> nat \<Rightarrow> 'w \<Rightarrow> ('w \<times> unit value_or_error) option" where
  "devfs_open mods node mode w = run_func mods node dft_open (\<lambda>k f. f k mode w) w"

definition devfs_close :: "'w module_table \<Rightarrow> vnode \<Rightarrow> 'w \<Rightarrow> ('w \<times> unit value_or_error) option" where
  "devfs_close mods node w = run_func mods node dft_close (\<lambda>k f. f k w) w"

definition devfs_read :: "'w module_table \<Rightarrow> vnode \<Rightarrow> nat \<Rightarrow> 'w \<Rightarrow> ('w \<times> u8 list value_or_error) option" where
  "devfs_read mods node len w = run_func mods node dft_read (\<lambda>k f. f k len w) w"

definition devfs_write :: "'w module_table \<Rightarrow> vnode \<Rightarrow> u8 list \<Rightarrow> 'w \<Rightarrow> ('w \<times> nat value_or_error) option" where
  "devfs_write mods node bs w = run_func mods node dft_write (\<lambda>k f. f k bs w) w"

definition devfs_seek :: "'w module_table \<Rightarrow> vnode \<Rightarrow> size_t \<Rightarrow> nat \<Rightarrow> 'w \<Rightarrow> ('w \<times> size_t value_or_error) option" where
  "devfs_seek mods node position mode w = run_func mods node dft_seek (\<lambda>k f. f k position mode w) w"

definition devfs_block_read :: "'w module_table \<Rightarrow> vnode \<Rightarrow> u64 \<Rightarrow> u32 \<Rightarrow> 'w \<Rightarrow> ('w \<times> u8 list value_or_error) option" where
  "devfs_block_read mods node lba sector_count w = run_func mods node dft_block_read (\<lambda>k f. f k lba sector_count w) w"

definition devfs_block_write :: "'w module_table \<Rightarrow> vnode \<Rightarrow> u64 \<Rightarrow> u8 list \<Rightarrow> 'w \<Rightarrow> ('w \<times> nat value_or_error) option" where
  "devfs_block_write mods node lba bs w = run_func mods node dft_block_write (\<lambda>k f. f k lba bs w) w"

definition devfs_ioctl :: "'w module_table \<Rightarrow> vnode \<Rightarrow> u64 \<Rightarrow> 'w \<Rightarrow> ('w \<times> nat value_or_error) option" where
  "devfs_ioctl mods node request w = run_func mods node dft_ioctl (\<lambda>k f. f k request w) w"

definition add_dev ::
    "fsid \<Rightarrow> cstring \<Rightarrow> u16 \<Rightarrow> u16 \<Rightarrow> vtype \<Rightarrow> vfs_state \<Rightarrow> (vfs_state \<times> vid value_or_error) option" where
  "add_dev fs path major minor deviceType st =
     (if major = 0 then None
      else
        (case vnfs_resolve_path fs path None True st of
           None \<Rightarrow> None
         | Some (st1, Inl e) \<Rightarrow> Some (st1, Inl e)
         | Some (st1, Inr (root, filename)) \<Rightarrow>
             (case get_child root filename st1 of
                None \<Rightarrow> None
              | Some (Some _) \<Rightarrow> Some (st1, Inl EEXIST)
              | Some None \<Rightarrow>
                  map_option (\<lambda>(st2, i). (st2, Inr i))
                    (attach_new root ((VNode_new 0 0 filename deviceType fs)\<lparr>fs_data := DevData major minor\<rparr>) st1))))"

section \<open>Properties\<close>

text \<open>A device node reaches the driver function of its major number with its minor number, when the minor number is not 0.\<close>

lemma run_func_driver:
  "fs_data node = DevData major minor \<Longrightarrow> mods major = Some (Some t) \<Longrightarrow> minor \<noteq> 0 \<Longrightarrow>
     run_func mods node sel call w = Some (case sel t of None \<Rightarrow> (w, Inl ENOTSUP) | Some f \<Rightarrow> call minor f)"
  by (simp add: run_func_def get_function_table_def split: option.split)

text \<open>The first device of every driver, minor number 0, is rejected before the driver is asked.\<close>

lemma run_func_minor_0:
  "fs_data node = DevData major 0 \<Longrightarrow> run_func mods node sel call w = Some (w, Inl ENODEV)"
  by (simp add: run_func_def get_function_table_def split: option.split)

lemma add_dev_spec:
  assumes "store_wf st" "fs_root st fs = Some r" "nodes st r = Some v" "f_filesystem v = fs"
    "children v name = None" "um_count (f_children v) < um_limit" "0x2F \<notin> set name" "major \<noteq> 0"
  obtains st' where "add_dev fs name major minor dt st = Some (st', Inr (next_vid st))"
    "nodes st' (next_vid st) =
       Some ((VNode_new 0 0 name dt fs)\<lparr>fs_data := DevData major minor, f_parent := Some r\<rparr>)"
    "get_child r name st' = Some (Some (next_vid st))"
proof -
  let ?c = "(VNode_new 0 0 name dt fs)\<lparr>fs_data := DevData major minor\<rparr>"
  obtain st' v' where at: "attach_new r ?c st = Some (st', next_vid st)"
    "nodes st' = (nodes st)(r \<mapsto> v', next_vid st \<mapsto> ?c\<lparr>f_parent := Some r\<rparr>)"
    "next_vid st' = Suc (next_vid st)" "fs_kind_of st' = fs_kind_of st" "fs_root st' = fs_root st"
    "f_rootNode st' = f_rootNode st" "store_wf st'"
    "\<exists>m. v' = v\<lparr>f_children := m\<rparr>" "children v' = (children v)(f_name ?c \<mapsto> next_vid st)"
    by (rule attach_new_spec [OF assms(1,3), of ?c]) (use assms in simp_all)
  have "r \<noteq> next_vid st" using fresh_node [OF assms(1)] assms(3) by auto
  then have r': "nodes st' r = Some v'" by (simp add: at(2))
  have "get_child r name st = Some None" using get_child_spec [OF assms(1,3)] assms(5) by simp
  then have "add_dev fs name major minor dt st = Some (st', Inr (next_vid st))"
    using assms(2-4,7,8) at(1) by (simp add: add_dev_def vnfs_resolve_path_def own_root_def vnfs_resolve_loop.simps)
  moreover have "get_child r name st' = Some (Some (next_vid st))" using get_child_spec [OF at(7) r'] at(9) by simp
  ultimately show thesis using that at(2) by simp
qed

text \<open>Adding a device file creates a node that carries the two numbers, and a read of it reaches
  the driver's read function with the minor number, except for minor number 0, for
  which every operation fails with \<^verbatim>\<open>ENODEV\<close> whatever the driver is.\<close>

theorem add_dev_then_read:
  assumes "store_wf st" "fs_root st fs = Some r" "nodes st r = Some v" "f_filesystem v = fs"
    "children v name = None" "um_count (f_children v) < um_limit" "0x2F \<notin> set name" "major \<noteq> 0"
    "mods major = Some (Some t)" "dft_read t = Some f"
  shows "\<exists>st' node. add_dev fs name major minor CHARACTER_DEVICE st = Some (st', Inr (next_vid st))
    \<and> nodes st' (next_vid st) = Some node \<and> get_child r name st' = Some (Some (next_vid st))
    \<and> devfs_read mods node len w = Some (if minor = 0 then (w, Inl ENODEV) else f minor len w)"
proof -
  let ?c = "(VNode_new 0 0 name CHARACTER_DEVICE fs)\<lparr>fs_data := DevData major minor, f_parent := Some r\<rparr>"
  obtain st' where st': "add_dev fs name major minor CHARACTER_DEVICE st = Some (st', Inr (next_vid st))"
    "nodes st' (next_vid st) = Some ?c" "get_child r name st' = Some (Some (next_vid st))"
    by (rule add_dev_spec [OF assms(1-8)])
  moreover have "devfs_read mods ?c len w = Some (if minor = 0 then (w, Inl ENODEV) else f minor len w)"
    using assms(9,10)
    by (cases "minor = 0") (simp_all add: devfs_read_def run_func_minor_0 [of _ major] run_func_driver [of _ major minor mods t])
  ultimately show ?thesis by simp
qed

text \<open>A driver whose reads return its minor number, for witnesses.\<close>

definition echo_driver :: "unit device_function_table" where
  "echo_driver = \<lparr>dft_open = None, dft_close = None, dft_read = Some (\<lambda>minor len w. (w, Inr [ucast minor])),
     dft_write = None, dft_seek = None, dft_block_read = None, dft_block_write = None, dft_ioctl = None\<rparr>"

theorem add_dev_then_read_witness:
  "\<exists>st' node. add_dev 1 [0x74] 5 3 CHARACTER_DEVICE \<lparr>nodes = [0 \<mapsto> VNode_new 0x1FF 0 [] DIRECTORY 1], next_vid = 1,
       fs_kind_of = \<lambda>_. VNodeFs, fs_root = [1 \<mapsto> 0], f_rootNode = None\<rparr> = Some (st', Inr 1)
    \<and> nodes st' 1 = Some node \<and> devfs_read (\<lambda>_. Some (Some echo_driver)) node 8 () = Some ((), Inr [3])"
proof -
  let ?st = "\<lparr>nodes = [0 \<mapsto> VNode_new 0x1FF 0 [] DIRECTORY 1], next_vid = 1, fs_kind_of = \<lambda>_. VNodeFs, fs_root = [1 \<mapsto> 0], f_rootNode = None\<rparr>"
  have "store_wf ?st" by (simp add: store_wf_def um_inv_empty children_def um_empty_wf)
  then show ?thesis
    using add_dev_then_read [of ?st 1 0 "VNode_new 0x1FF 0 [] DIRECTORY 1" "[0x74]" 5 "\<lambda>_. Some (Some echo_driver)" echo_driver
        "\<lambda>minor len w. (w, Inr [ucast minor])" 3 8 "()"]
    by (auto simp: children_def um_empty_wf um_limit_def echo_driver_def)
qed

end
