(* ===== verification/Pc_Serial.thy ===== *)
theory Pc_Serial
  imports Termios Devicefs
begin

unbundle bit_operations_syntax

text \<open>
  The serial port driver (\<^verbatim>\<open>kernel/modules/pc_serial\<close>): its output FIFO, port detection, the interrupt
  handler and the device functions behind \<^verbatim>\<open>/dev/ttyS*\<close>. The port hardware is a parameter \<open>hw\<close>: the value that reading an I/O
  port yields, given the history of all port accesses. The two source files
  each declare a variable \<^verbatim>\<open>static u32_t working_ports\<close>, hence two variables: \<open>main_working_ports\<close> of
  \<^verbatim>\<open>main.cpp\<close> and \<open>devfs_working_ports\<close> of \<^verbatim>\<open>devfs.cpp\<close>.
\<close>

section \<open>The FIFO\<close>

record fifo =
  fifo_capacity :: size_t
  f_storage :: "nat \<Rightarrow> u8"
  fifo_read_head :: size_t
  fifo_write_head :: size_t

definition FIFO_init :: "size_t \<Rightarrow> (nat \<Rightarrow> u8) \<Rightarrow> fifo" where
  "FIFO_init capacity garbage =
     \<lparr>fifo_capacity = capacity, f_storage = garbage, fifo_read_head = 0, fifo_write_head = 0\<rparr>"

text \<open>\<open>None\<close>: a blocking call that waits for the other side.\<close>

definition fifo_write :: "u8 \<Rightarrow> bool \<Rightarrow> fifo \<Rightarrow> (fifo \<times> bool) option" where
  "fifo_write value block q =
     (if fifo_write_head q + 1 = fifo_read_head q then (if block then None else Some (q, False))
      else Some (q\<lparr>f_storage := (f_storage q)(unat (fifo_write_head q) := value),
                   fifo_write_head := (fifo_write_head q + 1) mod fifo_capacity q\<rparr>, True))"

definition fifo_read :: "bool \<Rightarrow> fifo \<Rightarrow> (fifo \<times> u8 option) option" where
  "fifo_read block q =
     (if fifo_read_head q = fifo_write_head q then (if block then None else Some (q, None))
      else Some (q\<lparr>fifo_read_head := (fifo_read_head q + 1) mod fifo_capacity q\<rparr>,
                 Some (f_storage q (unat (fifo_read_head q)))))"

section \<open>Ports and the driver state\<close>

datatype io_event = Out u16 u8 | In u16 u8

type_synonym hardware = "io_event list \<Rightarrow> u16 \<Rightarrow> u8"

definition outb :: "u16 \<Rightarrow> u8 \<Rightarrow> io_event list \<Rightarrow> io_event list" where
  "outb p v t = t @ [Out p v]"

definition inb :: "hardware \<Rightarrow> u16 \<Rightarrow> io_event list \<Rightarrow> u8 \<times> io_event list" where
  "inb hw p t = (hw t p, t @ [In p (hw t p)])"

abbreviation (input) "DATA_REGISTER \<equiv> 0 :: u16"
abbreviation (input) "INT_CTRL_REGISTER \<equiv> 1 :: u16"
abbreviation (input) "INT_STATUS_REGISTER \<equiv> 2 :: u16"
abbreviation (input) "LINE_CTRL_REGISTER \<equiv> 3 :: u16"
abbreviation (input) "MODEM_CTRL_REGISTER \<equiv> 4 :: u16"
abbreviation (input) "LINE_STATUS_REGISTER \<equiv> 5 :: u16"
abbreviation (input) "SCRATCH_REGISTER \<equiv> 7 :: u16"

record port =
  ioPort :: u16
  openCount :: u32
  outputBuffer :: fifo
  termiosHelper :: termios_helper

record serial =
  main_working_ports :: u32
  devfs_working_ports :: u32
  device_ports :: "nat \<Rightarrow> port option"
  io :: "io_event list"

definition Port_new :: "u16 \<Rightarrow> size_t \<Rightarrow> (nat \<Rightarrow> u8) \<Rightarrow> port" where
  "Port_new p bufferCapacity garbage =
     \<lparr>ioPort = p, openCount = 0, outputBuffer = FIFO_init bufferCapacity garbage, termiosHelper = TermiosHelper_init garbage\<rparr>"

section \<open>Detection and initialisation\<close>

definition configure_serial :: "hardware \<Rightarrow> u16 \<Rightarrow> io_event list \<Rightarrow> io_event list \<times> bool" where
  "configure_serial hw port t0 =
     (case inb hw (port + SCRATCH_REGISTER) (outb (port + SCRATCH_REGISTER) 0xA5 t0) of
        (scratch, t1) \<Rightarrow>
          if scratch \<noteq> 0xA5 then (t1, False)
          else
            (case inb hw (port + DATA_REGISTER)
                    (outb (port + DATA_REGISTER) 0x55 (outb (port + MODEM_CTRL_REGISTER) 0x10
                      (outb (port + INT_CTRL_REGISTER) 0 t1))) of
               (loop1, t2) \<Rightarrow>
                 if loop1 \<noteq> 0x55 then (outb (port + MODEM_CTRL_REGISTER) 0 t2, False)
                 else
                   (case inb hw (port + DATA_REGISTER) (outb (port + DATA_REGISTER) 0xAA t2) of
                      (loop2, t3) \<Rightarrow>
                        if loop2 \<noteq> 0xAA then (outb (port + MODEM_CTRL_REGISTER) 0 t3, False)
                        else
                          (case inb hw (port + LINE_CTRL_REGISTER) (outb (port + MODEM_CTRL_REGISTER) 0 t3) of
                             (lcr, t4) \<Rightarrow>
                               (outb (port + INT_CTRL_REGISTER) 0x03
                                 (outb (port + MODEM_CTRL_REGISTER) 0x0B
                                   (outb (port + LINE_CTRL_REGISTER) 0x03
                                     (outb (port + 1) 0x00
                                       (outb (port + 0) 0x0C
                                         (outb (port + LINE_CTRL_REGISTER) (lcr OR 0x80) t4))))), True)))))"

definition serial_ports :: "u16 list" where
  "serial_ports = [0x3F8, 0x2F8]"

text \<open>One round of the loop of \<^verbatim>\<open>init\<close>; the result of \<^verbatim>\<open>add_dev\<close> is not looked at.\<close>

definition init_port :: "hardware \<Rightarrow> fsid \<Rightarrow> u16 \<Rightarrow> (nat \<Rightarrow> u8) \<Rightarrow> nat \<Rightarrow> serial \<times> vfs_state \<Rightarrow> (serial \<times> vfs_state) option" where
  "init_port hw devfs major garbage i = (\<lambda>(s, st).
     (case configure_serial hw (serial_ports ! i) (io s) of
        (t, False) \<Rightarrow> Some (s\<lparr>io := t\<rparr>, st)
      | (t, True) \<Rightarrow>
          (case add_dev devfs [0x74, 0x74, 0x79, 0x53, 0x30 + of_nat i] major (of_nat i) CHARACTER_DEVICE st of
             None \<Rightarrow> None
           | Some (st', _) \<Rightarrow>
               Some (s\<lparr>io := t,
                       device_ports := (device_ports s)(i \<mapsto> Port_new (serial_ports ! i) 256 garbage),
                       main_working_ports := main_working_ports s OR push_bit i 1\<rparr>, st'))))"

definition serial_init :: "hardware \<Rightarrow> fsid \<Rightarrow> u16 \<Rightarrow> (nat \<Rightarrow> u8) \<Rightarrow> serial \<times> vfs_state \<Rightarrow> (serial \<times> vfs_state) option" where
  "serial_init hw devfs major garbage s0 =
     Option.bind (init_port hw devfs major garbage 0 s0) (init_port hw devfs major garbage 1)"

section \<open>Interrupts\<close>

definition status_byte :: "u8 \<Rightarrow> u8" where
  "status_byte lineStatus =
     (if flag lineStatus 0x0C then 0x01 else 0x00) OR (if flag lineStatus 0x10 then 0x02 else 0x00)"

text \<open>The receive loop reads while the line status reports data; whether it ends is up to the
  hardware.\<close>

partial_function (option) receive_loop :: "hardware \<Rightarrow> u16 \<Rightarrow> termios_helper \<Rightarrow> io_event list \<Rightarrow>
    (termios_helper \<times> io_event list) option" where
  "receive_loop hw port h t =
     (case inb hw (port + LINE_STATUS_REGISTER) t of
        (lineStatus, t1) \<Rightarrow>
          if flag lineStatus 0x01 then
            (case inb hw (port + DATA_REGISTER) t1 of
               (dataByte, t2) \<Rightarrow>
                 Option.bind (character_received (ucast dataByte OR push_bit 8 (ucast (status_byte lineStatus))) h)
                   (\<lambda>h'. receive_loop hw port h' t2))
          else Some (h, t1))"

partial_function (option) transmit_loop :: "hardware \<Rightarrow> u16 \<Rightarrow> fifo \<Rightarrow> io_event list \<Rightarrow> (fifo \<times> io_event list) option" where
  "transmit_loop hw port q t =
     (case inb hw (port + LINE_STATUS_REGISTER) t of
        (lineStatus, t1) \<Rightarrow>
          if flag lineStatus 0x20 then
            (case fifo_read False q of
               None \<Rightarrow> None
             | Some (q', None) \<Rightarrow> Some (q', t1)
             | Some (q', Some dataByte) \<Rightarrow> transmit_loop hw port q' (outb (port + DATA_REGISTER) dataByte t1))
          else Some (q, t1))"

text \<open>The handler polls every working port; the status register is read at I/O address 2, without
  the base address of the port.\<close>

definition service_port :: "hardware \<Rightarrow> nat \<Rightarrow> serial \<Rightarrow> serial option" where
  "service_port hw portIdx s =
     (case inb hw INT_STATUS_REGISTER (io s) of
        (intStat, t) \<Rightarrow>
          let s1 = s\<lparr>io := t\<rparr>
          in if \<not> flag intStat 1 then Some s1
             else
               (case device_ports s1 portIdx of
                  None \<Rightarrow> None
                | Some p \<Rightarrow>
                    let intReason = drop_bit 1 intStat AND 0x7
                    in if intReason = 0x02 then
                         map_option (\<lambda>(h, t'). s1\<lparr>io := t', device_ports := (device_ports s1)(portIdx \<mapsto> p\<lparr>termiosHelper := h\<rparr>)\<rparr>)
                           (receive_loop hw (ioPort p) (termiosHelper p) t)
                       else if intReason = 0x01 then
                         map_option (\<lambda>(q, t'). s1\<lparr>io := t', device_ports := (device_ports s1)(portIdx \<mapsto> p\<lparr>outputBuffer := q\<rparr>)\<rparr>)
                           (transmit_loop hw (ioPort p) (outputBuffer p) t)
                       else Some s1))"

text \<open>The number of rounds is at most the width of the port mask.\<close>

fun serial_interrupt_loop :: "hardware \<Rightarrow> nat \<Rightarrow> u32 \<Rightarrow> nat \<Rightarrow> serial \<Rightarrow> serial option" where
  "serial_interrupt_loop hw 0 ports portIdx s = Some s"
| "serial_interrupt_loop hw (Suc n) ports portIdx s =
     (if ports = 0 then Some s
      else if ports AND 1 = 0 then serial_interrupt_loop hw n (drop_bit 1 ports) (Suc portIdx) s
      else Option.bind (service_port hw portIdx s) (serial_interrupt_loop hw n (drop_bit 1 ports) (Suc portIdx)))"

definition serial_interrupt :: "hardware \<Rightarrow> serial \<Rightarrow> serial option" where
  "serial_interrupt hw s = serial_interrupt_loop hw 32 (main_working_ports s) 0 s"

definition termios_write_callback :: "hardware \<Rightarrow> u8 \<Rightarrow> port \<Rightarrow> io_event list \<Rightarrow> (port \<times> io_event list \<times> bool) option" where
  "termios_write_callback hw c p t =
     (case inb hw (ioPort p + LINE_STATUS_REGISTER) t of
        (lineStatus, t1) \<Rightarrow>
          if flag lineStatus 0x20 then Some (p, outb (ioPort p + DATA_REGISTER) c t1, True)
          else map_option (\<lambda>(q, ok). (p\<lparr>outputBuffer := q\<rparr>, t1, ok)) (fifo_write c True (outputBuffer p)))"

section \<open>Device functions\<close>

text \<open>All device functions start with the same test of the port mask of \<^verbatim>\<open>devfs.cpp\<close>. \<open>None\<close> is an
  access through a null port.\<close>

definition dev_ready :: "u16 \<Rightarrow> serial \<Rightarrow> bool" where
  "dev_ready minor s \<longleftrightarrow> drop_bit (unat minor) (devfs_working_ports s) AND 1 \<noteq> 0"

definition with_port :: "u16 \<Rightarrow> (port \<Rightarrow> (port \<times> 'r value_or_error) option) \<Rightarrow> serial \<Rightarrow> (serial \<times> 'r value_or_error) option" where
  "with_port minor f s =
     (if \<not> dev_ready minor s then Some (s, Inl ENODEV)
      else
        (case device_ports s (unat minor) of
           None \<Rightarrow> None
         | Some p \<Rightarrow> map_option (\<lambda>(p', r). (s\<lparr>device_ports := (device_ports s)(unat minor \<mapsto> p')\<rparr>, r)) (f p)))"

definition dev_open :: "u16 \<Rightarrow> serial \<Rightarrow> (serial \<times> unit value_or_error) option" where
  "dev_open minor = with_port minor (\<lambda>p. Some (p\<lparr>openCount := openCount p + 1\<rparr>, Inr ()))"

definition dev_close :: "u16 \<Rightarrow> serial \<Rightarrow> (serial \<times> unit value_or_error) option" where
  "dev_close minor = with_port minor (\<lambda>p. Some (p\<lparr>openCount := openCount p - 1\<rparr>, Inr ()))"

definition dev_read :: "u16 \<Rightarrow> nat \<Rightarrow> serial \<Rightarrow> (serial \<times> u8 list value_or_error) option" where
  "dev_read minor len = with_port minor
     (\<lambda>p. map_option (\<lambda>(h, bs). (p\<lparr>termiosHelper := h\<rparr>, Inr bs)) (stream_read len (termiosHelper p)))"

definition dev_write :: "u16 \<Rightarrow> u8 list \<Rightarrow> serial \<Rightarrow> (serial \<times> nat value_or_error) option" where
  "dev_write minor bs = with_port minor
     (\<lambda>p. case stream_write bs (termiosHelper p) of (h, n) \<Rightarrow> Some (p\<lparr>termiosHelper := h\<rparr>, Inr n))"

text \<open>\<^verbatim>\<open>TCGETS\<close> copies the settings to the caller when \<^verbatim>\<open>arg\<close> is not null.\<close>

definition dev_ioctl :: "u16 \<Rightarrow> u64 \<Rightarrow> bool \<Rightarrow> serial \<Rightarrow> (serial \<times> termios option value_or_error) option" where
  "dev_ioctl minor request arg = with_port minor
     (\<lambda>p. Some (p, if request = 0x5601 then Inr (if arg then Some (f_termios (termiosHelper p)) else None) else Inl EINVAL))"

section \<open>Properties\<close>

definition fifo_wf :: "fifo \<Rightarrow> bool" where
  "fifo_wf q \<longleftrightarrow> unat (fifo_read_head q) < unat (fifo_capacity q) \<and> unat (fifo_write_head q) < unat (fifo_capacity q)
     \<and> unat (fifo_capacity q) < 2 ^ 63"

definition fifo_contents :: "fifo \<Rightarrow> u8 list" where
  "fifo_contents q = ring_contents (unat (fifo_capacity q)) (f_storage q) (unat (fifo_read_head q)) (unat (fifo_write_head q))"

definition fifo_put :: "u8 \<Rightarrow> fifo \<Rightarrow> fifo" where
  "fifo_put b q = (case fifo_write b False q of None \<Rightarrow> q | Some (q', _) \<Rightarrow> q')"

definition fifo_get :: "fifo \<Rightarrow> u8 \<times> fifo" where
  "fifo_get q = (case fifo_read False q of Some (q', Some b) \<Rightarrow> (b, q') | _ \<Rightarrow> (0, q))"

lemma advance_word: "(h + 1) mod c = advance (unat c) h"
  by (simp add: advance_def)

lemma fifo_put_not_full:
  assumes "fifo_wf q" "fifo_write_head q + 1 \<noteq> fifo_read_head q"
  shows "fifo_put b q = q\<lparr>f_storage := (f_storage q)(unat (fifo_write_head q) := b),
      fifo_write_head := advance (unat (fifo_capacity q)) (fifo_write_head q)\<rparr>" "fifo_wf (fifo_put b q)"
    "fifo_capacity (fifo_put b q) = fifo_capacity q"
proof -
  show 1: "fifo_put b q = q\<lparr>f_storage := (f_storage q)(unat (fifo_write_head q) := b),
      fifo_write_head := advance (unat (fifo_capacity q)) (fifo_write_head q)\<rparr>"
    using assms(2) by (simp add: fifo_put_def fifo_write_def advance_word)
  show "fifo_wf (fifo_put b q)" "fifo_capacity (fifo_put b q) = fifo_capacity q"
    using assms(1) unat_advance [of "fifo_write_head q" "unat (fifo_capacity q)"] by (simp_all add: 1 fifo_wf_def)
qed

lemma fifo_put_spec:
  assumes "fifo_wf q" "length (fifo_contents q) < unat (fifo_capacity q) - 1"
  shows "fifo_wf (fifo_put b q)" "fifo_contents (fifo_put b q) = fifo_contents q @ [b]"
    "fifo_capacity (fifo_put b q) = fifo_capacity q"
proof -
  let ?c = "unat (fifo_capacity q)" and ?r = "unat (fifo_read_head q)" and ?w = "unat (fifo_write_head q)"
  have rw: "?r < ?c" "?w < ?c" "?c < 2 ^ 63" using assms(1) by (auto simp: fifo_wf_def)
  have nf: "(?w + 1) mod ?c \<noteq> ?r" using assms(2) ring_full_iff [OF rw(1,2), of "f_storage q"] by (simp add: fifo_contents_def)
  have ne: "fifo_write_head q + 1 \<noteq> fifo_read_head q"
  proof
    assume "fifo_write_head q + 1 = fifo_read_head q"
    moreover have "unat (fifo_write_head q + 1) = ?w + 1" using rw by (simp add: unat_word_ariths(1))
    ultimately have "?w + 1 = ?r" by simp
    then show False using nf rw(1) by simp
  qed
  note put = fifo_put_not_full [OF assms(1) ne, of b]
  show "fifo_wf (fifo_put b q)" "fifo_capacity (fifo_put b q) = fifo_capacity q" using put(2,3) .
  show "fifo_contents (fifo_put b q) = fifo_contents q @ [b]"
    using ring_push [OF rw(1,2) nf, of "f_storage q" b] unat_advance [OF rw(2,3)] by (simp add: put(1) fifo_contents_def)
qed

lemma fifo_get_spec:
  assumes "fifo_wf q" "fifo_contents q = b # bs"
  shows "fst (fifo_get q) = b" "fifo_wf (snd (fifo_get q))" "fifo_contents (snd (fifo_get q)) = bs"
    "fifo_capacity (snd (fifo_get q)) = fifo_capacity q"
proof -
  let ?c = "unat (fifo_capacity q)" and ?r = "unat (fifo_read_head q)" and ?w = "unat (fifo_write_head q)"
  have rw: "?r < ?c" "?w < ?c" "?c < 2 ^ 63" using assms(1) by (auto simp: fifo_wf_def)
  have ne: "?r \<noteq> ?w" using assms(2) ring_empty_iff [OF rw(1,2), of "f_storage q"] by (auto simp: fifo_contents_def)
  then have "fifo_read_head q \<noteq> fifo_write_head q" by auto
  then have get: "fifo_get q = (f_storage q ?r, q\<lparr>fifo_read_head := advance ?c (fifo_read_head q)\<rparr>)"
    by (simp add: fifo_get_def fifo_read_def advance_word)
  have "b # bs = f_storage q ?r # ring_contents ?c (f_storage q) ((?r + 1) mod ?c) ?w"
    using ring_pop [OF rw(1,2) ne, of "f_storage q"] assms(2) by (simp add: fifo_contents_def)
  then show "fst (fifo_get q) = b" "fifo_wf (snd (fifo_get q))" "fifo_contents (snd (fifo_get q)) = bs"
    "fifo_capacity (snd (fifo_get q)) = fifo_capacity q"
    using unat_advance [OF rw(1,3)] assms(1) by (simp_all add: get fifo_contents_def fifo_wf_def)
qed

interpretation sq: byte_queue "\<lambda>q. fifo_wf q \<and> unat (fifo_capacity q) = 256" fifo_contents fifo_put fifo_get 255
proof
  show "(fifo_wf (fifo_put b q) \<and> unat (fifo_capacity (fifo_put b q)) = 256) \<and> fifo_contents (fifo_put b q) = fifo_contents q @ [b]"
    if "fifo_wf q \<and> unat (fifo_capacity q) = 256" "length (fifo_contents q) < 255" for q b
    using that fifo_put_spec [of q b] by simp
  show "fst (fifo_get q) = b \<and> (fifo_wf (snd (fifo_get q)) \<and> unat (fifo_capacity (snd (fifo_get q))) = 256)
      \<and> fifo_contents (snd (fifo_get q)) = bs"
    if "fifo_wf q \<and> unat (fifo_capacity q) = 256" "fifo_contents q = b # bs" for q b bs
    using that fifo_get_spec [of q b bs] by simp
qed

lemma fifo_puts_read_head: "fifo_read_head (fold fifo_put bs q) = fifo_read_head q"
  by (induction bs arbitrary: q) (simp_all add: fifo_put_def fifo_write_def)

lemma FIFO_init_wf: "fifo_wf (FIFO_init 256 g)" "fifo_contents (FIFO_init 256 g) = []" "unat (fifo_capacity (FIFO_init 256 g)) = 256"
  by (simp_all add: FIFO_init_def fifo_wf_def fifo_contents_def ring_contents_def)

text \<open>The output FIFO of 256 bytes keeps 255 bytes in order; the next write is accepted, because the
  test for a full buffer does not wrap around, and leaves the FIFO empty: all 256 bytes are lost.\<close>

theorem fifo_full_write_empties:
  assumes "length bs = 255"
  shows "fifo_contents (fold fifo_put bs (FIFO_init 256 g)) = bs
    \<and> (\<exists>q'. fifo_write b block (fold fifo_put bs (FIFO_init 256 g)) = Some (q', True) \<and> fifo_contents q' = [])"
proof -
  let ?q = "fold fifo_put bs (FIFO_init 256 g)"
  have q: "fifo_wf ?q" "unat (fifo_capacity ?q) = 256" "fifo_contents ?q = bs"
    using sq.puts_contents [of "FIFO_init 256 g" bs] FIFO_init_wf [of g] assms by simp_all
  have r: "fifo_read_head ?q = 0" by (simp add: fifo_puts_read_head) (simp add: FIFO_init_def)
  have c: "fifo_capacity ?q = 256" using q(2) by (simp add: word_unat_eq_iff)
  have "length bs = (unat (fifo_write_head ?q) + 256 - 0) mod 256"
    using q(3) r c by (metis (no_types, lifting) fifo_contents_def q(2) ring_length unat_0)
  then have "unat (fifo_write_head ?q) = 255" using q(1,2) assms by (simp add: fifo_wf_def)
  then have w: "fifo_write_head ?q = 255" by (simp add: word_unat_eq_iff)
  then have "fifo_write b block ?q = Some (?q\<lparr>f_storage := (f_storage ?q)(255 := b), fifo_write_head := 0\<rparr>, True)"
    using r c by (simp add: fifo_write_def)
  moreover have "fifo_contents (?q\<lparr>f_storage := (f_storage ?q)(255 := b), fifo_write_head := 0\<rparr>) = []"
    using r by (simp add: fifo_contents_def ring_contents_def c)
  ultimately show ?thesis using q(3) by blast
qed

theorem fifo_full_write_empties_witness:
  "\<exists>q'. fifo_write 7 True (fold fifo_put (replicate 255 0) (FIFO_init 256 (\<lambda>_. 0))) = Some (q', True) \<and> fifo_contents q' = []"
  using fifo_full_write_empties [of "replicate 255 0" "\<lambda>_. 0" 7 True] by simp

lemma init_port_devfs: "init_port hw fs major g i (s, st) = Some (s', st') \<Longrightarrow> devfs_working_ports s' = devfs_working_ports s"
  by (auto simp: init_port_def split: prod.splits bool.splits option.splits)

lemma serial_init_devfs:
  assumes "serial_init hw fs major g (s, st) = Some (s', st')"
  shows "devfs_working_ports s' = devfs_working_ports s"
proof -
  obtain s1 st1 where "init_port hw fs major g 0 (s, st) = Some (s1, st1)" "init_port hw fs major g 1 (s1, st1) = Some (s', st')"
    using assms by (auto simp: serial_init_def Option.bind_eq_Some_conv)
  then show ?thesis using init_port_devfs by metis
qed

lemma with_port_not_ready: "devfs_working_ports s = 0 \<Longrightarrow> with_port minor f s = Some (s, Inl ENODEV)"
  by (simp add: with_port_def dev_ready_def)

text \<open>After the driver's \<^verbatim>\<open>init\<close>, whatever ports the hardware has, every device function of every
  minor number fails with \<^verbatim>\<open>ENODEV\<close>: \<^verbatim>\<open>init\<close> marks the ports in the \<^verbatim>\<open>working_ports\<close> of \<^verbatim>\<open>main.cpp\<close>, and the device
  functions test the variable of the same name in \<^verbatim>\<open>devfs.cpp\<close>, which stays 0.\<close>

theorem serial_devices_unusable:
  assumes "serial_init hw fs major g (s, st) = Some (s', st')" "devfs_working_ports s = 0"
  shows "dev_open minor s' = Some (s', Inl ENODEV) \<and> dev_close minor s' = Some (s', Inl ENODEV)
    \<and> dev_read minor len s' = Some (s', Inl ENODEV) \<and> dev_write minor bs s' = Some (s', Inl ENODEV)
    \<and> dev_ioctl minor request arg s' = Some (s', Inl ENODEV)"
  using serial_init_devfs [OF assms(1)] assms(2)
  by (simp add: dev_open_def dev_close_def dev_read_def dev_write_def dev_ioctl_def with_port_not_ready)

text \<open>A machine with one port, at \<^verbatim>\<open>0x3F8\<close>, that reads back what was written last.\<close>

definition one_port :: hardware where
  "one_port t p = (if 0x3F8 \<le> p \<and> p < 0x400 then (case last t of Out q v \<Rightarrow> v | In q v \<Rightarrow> 0) else 0)"

definition serial_start :: serial where
  "serial_start = \<lparr>main_working_ports = 0, devfs_working_ports = 0, device_ports = \<lambda>_. None, io = []\<rparr>"

lemma configure_one_port: "snd (configure_serial one_port 0x3F8 t)" "\<not> snd (configure_serial one_port 0x2F8 t)"
  by (simp_all add: configure_serial_def inb_def outb_def one_port_def)

theorem serial_devices_unusable_witness:
  "\<exists>s' st'. serial_init one_port 1 4 (\<lambda>_. 0) (serial_start, \<lparr>nodes = [0 \<mapsto> VNode_new 0x1FF 0 [] DIRECTORY 1], next_vid = 1,
       fs_kind_of = \<lambda>_. VNodeFs, fs_root = [1 \<mapsto> 0], f_rootNode = None\<rparr>) = Some (s', st')
    \<and> main_working_ports s' = 1 \<and> dev_open 0 s' = Some (s', Inl ENODEV)"
proof -
  let ?st = "\<lparr>nodes = [0 \<mapsto> VNode_new 0x1FF 0 [] DIRECTORY 1], next_vid = 1, fs_kind_of = \<lambda>_. VNodeFs, fs_root = [1 \<mapsto> 0], f_rootNode = None\<rparr>"
  let ?name = "[0x74, 0x74, 0x79, 0x53, 0x30] :: cstring"
  have "store_wf ?st" by (simp add: store_wf_def um_inv_empty children_def um_empty_wf)
  then obtain st' where "add_dev 1 ?name 4 0 CHARACTER_DEVICE ?st = Some (st', Inr (next_vid ?st))"
    by (rule add_dev_spec [of ?st 1 0 "VNode_new 0x1FF 0 [] DIRECTORY 1" ?name 4])
      (simp_all add: children_def um_empty_wf um_limit_def)
  moreover obtain t where "configure_serial one_port 0x3F8 [] = (t, True)"
    using configure_one_port(1) [of "[]"] by (cases "configure_serial one_port 0x3F8 []") auto
  ultimately have "\<exists>s1. init_port one_port 1 4 (\<lambda>_. 0) 0 (serial_start, ?st) = Some (s1, st') \<and> main_working_ports s1 = 1"
    by (simp add: init_port_def serial_ports_def serial_start_def)
  then obtain s1 where s1: "init_port one_port 1 4 (\<lambda>_. 0) 0 (serial_start, ?st) = Some (s1, st')" "main_working_ports s1 = 1"
    by blast
  obtain t1 where "configure_serial one_port 0x2F8 (io s1) = (t1, False)"
    using configure_one_port(2) [of "io s1"] by (cases "configure_serial one_port 0x2F8 (io s1)") auto
  then have "\<exists>s'. init_port one_port 1 4 (\<lambda>_. 0) 1 (s1, st') = Some (s', st') \<and> main_working_ports s' = main_working_ports s1"
    by (simp add: init_port_def serial_ports_def)
  then obtain s' where s': "init_port one_port 1 4 (\<lambda>_. 0) 1 (s1, st') = Some (s', st')" "main_working_ports s' = main_working_ports s1"
    by blast
  have init: "serial_init one_port 1 4 (\<lambda>_. 0) (serial_start, ?st) = Some (s', st')"
    using s1(1) s'(1) by (simp add: serial_init_def)
  have "dev_open 0 s' = Some (s', Inl ENODEV)"
    using serial_devices_unusable [OF init, of 0] by (simp add: serial_start_def)
  then show ?thesis using init s1(2) s'(2) by auto
qed

end
