(* ===== verification/Initrdfs.thy ===== *)
theory Initrdfs
  imports Vnodefs "HOL-Library.Signed_Division"
begin

text \<open>
  \<^verbatim>\<open>InitRdFilesystem\<close> (\<^verbatim>\<open>kernel/src/fs/initrdfs.cpp\<close>): the tar archive the boot loader leaves in
  memory, turned into a tree of nodes. The archive is the memory \<open>mem\<close>, a byte for every
  address; a header is the address of its 512 byte block, and the fields of \<^verbatim>\<open>TarHeader\<close> are read at their
  offsets. A string without terminator and an archive without end are scans that do not return, \<open>None\<close>.
\<close>

section \<open>Tar headers\<close>

type_synonym memory = "u64 \<Rightarrow> u8"

partial_function (option) cstr_at :: "memory \<Rightarrow> u64 \<Rightarrow> cstring option" where
  "cstr_at mem a = (if mem a = 0 then Some [] else Option.bind (cstr_at mem (a + 1)) (\<lambda>cs. Some (mem a # cs)))"

text \<open>\<^verbatim>\<open>getSize\<close>: eleven octal digits, with the multiplier and the products in 32 bits.\<close>

fun get_size_loop :: "memory \<Rightarrow> u64 \<Rightarrow> nat \<Rightarrow> u32 \<Rightarrow> size_t \<Rightarrow> size_t" where
  "get_size_loop mem header i mul val =
     (let val' = val + ucast (word_of_int (sint (mem (header + 124 + of_nat i)) - 48) * mul :: u32)
      in case i of 0 \<Rightarrow> val' | Suc j \<Rightarrow> get_size_loop mem header j (mul * 8) val')"

definition getSize :: "memory \<Rightarrow> u64 \<Rightarrow> size_t" where
  "getSize mem header = get_size_loop mem header 10 1 0"

definition typeflag :: "memory \<Rightarrow> u64 \<Rightarrow> u8" where
  "typeflag mem header = mem (header + 156)"

definition get_vnode_type :: "u8 \<Rightarrow> vtype" where
  "get_vnode_type typeFlag =
     (if typeFlag = 0 \<or> typeFlag = 0x30 then FILE
      else if typeFlag = 0x32 then LINK
      else if typeFlag = 0x33 then CHARACTER_DEVICE
      else if typeFlag = 0x34 then BLOCK_DEVICE
      else if typeFlag = 0x35 then DIRECTORY
      else FILE)"

section \<open>Building the tree\<close>

definition initrd_get_node :: "vid \<Rightarrow> cstring \<Rightarrow> vfs_state \<Rightarrow> vid value_or_error option" where
  "initrd_get_node root file st =
     (case nodes st root of
        None \<Rightarrow> None
      | Some v \<Rightarrow>
          if f_type v \<noteq> DIRECTORY then Some (Inl ENOTDIR)
          else if file = [] \<or> file = [0x2E] then Some (Inr root)
          else if file = [0x2E, 0x2E] then Some (Inr (case f_parent v of Some p \<Rightarrow> p | None \<Rightarrow> root))
          else
            (case um_at hash_str file (f_children v) of
               None \<Rightarrow> None
             | Some None \<Rightarrow> Some (Inl ENOENT)
             | Some (Some next) \<Rightarrow> Some (Inr next)))"

text \<open>The loop of \<^verbatim>\<open>parse_header\<close> over the directory part of the name. A directory that is missing is
  created below \<open>root\<close>, and \<open>root\<close> stays where it is.\<close>

function parse_dirs :: "fsid \<Rightarrow> size_t \<Rightarrow> cstring \<Rightarrow> vid \<Rightarrow> vfs_state \<Rightarrow> (vfs_state \<times> vid \<times> cstring) option" where
  "parse_dirs fs sz path root st =
     (case split_path path of
        (_, None) \<Rightarrow> Some (st, root, path)
      | (part, Some rest) \<Rightarrow>
          if part = [] then parse_dirs fs sz rest root st
          else
            (case initrd_get_node root part st of
               None \<Rightarrow> None
             | Some (Inr next) \<Rightarrow> parse_dirs fs sz rest next st
             | Some (Inl _) \<Rightarrow>
                 (case attach_new root (VNode_new 0x1FF sz part DIRECTORY fs) st of
                    None \<Rightarrow> None
                  | Some (st1, _) \<Rightarrow> parse_dirs fs sz rest root st1)))"
  by pat_completeness auto
termination
  by (relation "measure (\<lambda>(fs, sz, path, root, st). length path)") (auto dest!: split_path_length [OF sym])

declare parse_dirs.simps [simp del]

definition parse_header :: "fsid \<Rightarrow> memory \<Rightarrow> u64 \<Rightarrow> vfs_state \<Rightarrow> vfs_state option" where
  "parse_header fs mem header st =
     (case (fs_root st fs, cstr_at mem header) of
        (Some root0, Some filename) \<Rightarrow>
          (case parse_dirs fs (getSize mem header) filename root0 st of
             None \<Rightarrow> None
           | Some (st1, root, path) \<Rightarrow>
               if path \<noteq> [] then
                 let vt = get_vnode_type (typeflag mem header);
                     node = VNode_new 0x1FF (getSize mem header) path vt fs;
                     node' = (if vt = FILE then node\<lparr>fs_data := InitRdData (unat header)\<rparr> else node)
                 in map_option fst (attach_new root node' st1)
               else Some st1)
      | _ \<Rightarrow> None)"

definition is_ustar :: "memory \<Rightarrow> u64 \<Rightarrow> bool" where
  "is_ustar mem header \<longleftrightarrow> map (\<lambda>i. mem (header + 257 + i)) [0, 1, 2, 3, 4] = [0x75, 0x73, 0x74, 0x61, 0x72]"

text \<open>The address of the next header: the size truncated to \<^verbatim>\<open>int\<close> and rounded up to 512 bytes.\<close>

definition next_header :: "memory \<Rightarrow> u64 \<Rightarrow> u64" where
  "next_header mem header =
     (let fileSize = sint (ucast (getSize mem header) :: u32)
      in header + 512 + word_of_int ((fileSize sdiv 512 + (if fileSize smod 512 = 0 then 0 else 1)) * 512))"

partial_function (option) parse_archive :: "fsid \<Rightarrow> memory \<Rightarrow> u64 \<Rightarrow> vfs_state \<Rightarrow> vfs_state option" where
  "parse_archive fs mem header st =
     (if is_ustar mem header then
        Option.bind (parse_header fs mem header st) (parse_archive fs mem (next_header mem header))
      else Some st)"

definition InitRdFilesystem_init :: "fsid \<Rightarrow> memory \<Rightarrow> u64 \<Rightarrow> vfs_state \<Rightarrow> vfs_state option" where
  "InitRdFilesystem_init fs mem initrd st =
     (case make_node (VNode_new 0x1FF 0 [] DIRECTORY fs) st of
        (st1, i) \<Rightarrow>
          parse_archive fs mem initrd
            (st1\<lparr>fs_root := (fs_root st1)(fs \<mapsto> i), fs_kind_of := (fs_kind_of st1)(fs := InitRdFs)\<rparr>))"

section \<open>File operations\<close>

definition initrd_get_file :: "fsid \<Rightarrow> vid option \<Rightarrow> cstring \<Rightarrow> vfs_state \<Rightarrow> vid value_or_error option" where
  "initrd_get_file fs root filename st =
     (case own_root fs root st of
        None \<Rightarrow> None
      | Some (r, v) \<Rightarrow> if filename = [] then Some (Inr r) else initrd_get_node r filename st)"

definition initrd_get_files :: "fsid \<Rightarrow> vid option \<Rightarrow> vfs_state \<Rightarrow> vid list value_or_error option" where
  "initrd_get_files fs root st =
     (case own_root fs root st of
        None \<Rightarrow> None
      | Some (r, v) \<Rightarrow> map_option Inr (child_list (f_children v)))"

definition initrd_open :: "vid \<Rightarrow> file_stream" where
  "initrd_open node = \<lparr>stream_node = node, offset = 0\<rparr>"

definition initrd_read ::
    "memory \<Rightarrow> size_t \<Rightarrow> vfs_state \<Rightarrow> file_stream \<Rightarrow> (file_stream \<times> u8 list) option" where
  "initrd_read mem len st s =
     (case nodes st (stream_node s) of
        None \<Rightarrow> None
      | Some v \<Rightarrow>
          let max_size = vn_size v
          in if offset s \<ge> max_size then Some (s, [])
             else
               let length_left = max_size - offset s;
                   len' = (if len > length_left then length_left else len)
               in case fs_data v of
                    InitRdData ptr \<Rightarrow>
                      Some (s\<lparr>offset := offset s + len'\<rparr>,
                            map (\<lambda>i. mem (of_nat ptr + 512 + offset s + of_nat i)) [0..<unat len'])
                  | _ \<Rightarrow> None)"

definition initrd_write :: "size_t value_or_error" where
  "initrd_write = Inl EROFS"

definition initrd_seek :: "size_t \<Rightarrow> nat \<Rightarrow> vfs_state \<Rightarrow> file_stream \<Rightarrow> (file_stream \<times> size_t) option" where
  "initrd_seek position mode st s =
     (case nodes st (stream_node s) of
        None \<Rightarrow> None
      | Some v \<Rightarrow>
          Some (if mode = 1 then s\<lparr>offset := offset s + position\<rparr>
                else if mode = 0 then s\<lparr>offset := position\<rparr>
                else if mode = 2 then s\<lparr>offset := vn_size v + position\<rparr>
                else s, offset s))"

section \<open>Reading a file\<close>

text \<open>The bytes of the file whose header is at \<open>ptr\<close>: its data follows the 512 byte header.\<close>

definition file_bytes :: "memory \<Rightarrow> nat \<Rightarrow> nat \<Rightarrow> nat \<Rightarrow> u8 list" where
  "file_bytes mem ptr from n = map (\<lambda>i. mem (of_nat ptr + 512 + of_nat from + of_nat i)) [0..<n]"

lemma file_bytes_append: "file_bytes mem ptr o1 (m + n) = file_bytes mem ptr o1 m @ file_bytes mem ptr (o1 + m) n"
proof (induction n)
  case (Suc n)
  have "(of_nat (o1 + m) + of_nat n :: u64) = of_nat o1 + of_nat (m + n)" by simp
  then have "mem (of_nat ptr + 512 + of_nat (o1 + m) + of_nat n) = mem (of_nat ptr + 512 + of_nat o1 + of_nat (m + n))"
    by (simp only: add.assoc)
  then show ?case using Suc by (simp add: file_bytes_def)
qed (simp add: file_bytes_def)

definition readable :: "size_t \<Rightarrow> vnode \<Rightarrow> file_stream \<Rightarrow> nat" where
  "readable len v s = min (unat len) (unat (vn_size v) - unat (offset s))"

lemma initrd_read_spec:
  assumes v: "nodes st (stream_node s) = Some v" "fs_data v = InitRdData ptr"
  shows "initrd_read mem len st s =
    Some (s\<lparr>offset := offset s + of_nat (readable len v s)\<rparr>, file_bytes mem ptr (unat (offset s)) (readable len v s))"
proof (cases "offset s \<ge> vn_size v")
  case True
  then have "readable len v s = 0" by (simp add: readable_def word_le_nat_alt)
  then show ?thesis using True v by (simp add: initrd_read_def file_bytes_def)
next
  case False
  let ?left = "vn_size v - offset s"
  have left: "unat ?left = unat (vn_size v) - unat (offset s)" using False by (simp add: unat_sub word_le_nat_alt)
  then have "unat (if len > ?left then ?left else len) = readable len v s"
    by (auto simp: readable_def word_less_nat_alt)
  moreover have "of_nat (unat (if len > ?left then ?left else len)) = (if len > ?left then ?left else len)" by simp
  ultimately have "(if len > ?left then ?left else len) = of_nat (readable len v s)" by (simp only:)
  note this \<open>unat (if len > ?left then ?left else len) = readable len v s\<close>
  then show ?thesis using False v by (simp add: initrd_read_def Let_def file_bytes_def split: if_splits)
qed

lemma min_add_split: "min (a + b) c = min a c + min b (c - min a c)" for a b c :: nat
  by (cases "a \<le> c") (auto simp: min_def)

text \<open>Reading a file of the archive in two pieces yields the same bytes, and leaves the same
  position, as reading it in one: a read returns the bytes that follow the header from the current offset, at most as
  many as are left in the file.\<close>

theorem initrd_read_pieces:
  assumes "nodes st (stream_node s) = Some v" "fs_data v = InitRdData ptr" "offset s \<le> vn_size v"
    "unat a + unat b < 2 ^ 64"
  shows "\<exists>s1 s2 xs ys. initrd_read mem a st s = Some (s1, xs) \<and> initrd_read mem b st s1 = Some (s2, ys)
    \<and> initrd_read mem (a + b) st s = Some (s2, xs @ ys)
    \<and> xs @ ys = file_bytes mem ptr (unat (offset s)) (min (unat a + unat b) (unat (vn_size v) - unat (offset s)))"
proof -
  have size: "unat (vn_size v) < 2 ^ LENGTH(64)" by (rule unsigned_less)
  let ?m = "readable a v s"
  let ?s1 = "s\<lparr>offset := offset s + of_nat ?m\<rparr>"
  have "unat (offset s) + ?m \<le> unat (vn_size v)" using assms(3) by (simp add: readable_def word_le_nat_alt)
  moreover have "unat (of_nat ?m :: size_t) = ?m"
    by (rule unat_of_nat_less) (simp add: readable_def min_less_iff_disj unsigned_less [of a, simplified])
  ultimately have o1: "unat (offset ?s1) = unat (offset s) + ?m"
    using size by (simp add: unat_word_ariths(1))
  have ab: "unat (a + b) = unat a + unat b" using assms(4) by (simp add: unat_word_ariths(1))
  have sum: "readable (a + b) v s = ?m + readable b v ?s1"
    using min_add_split [of "unat a" "unat b" "unat (vn_size v) - unat (offset s)"]
    unfolding readable_def [of "a + b"] readable_def [of b] o1 ab by (simp add: readable_def)
  have 1: "initrd_read mem b st ?s1 = Some (?s1\<lparr>offset := offset ?s1 + of_nat (readable b v ?s1)\<rparr>,
      file_bytes mem ptr (unat (offset s) + ?m) (readable b v ?s1))"
    using initrd_read_spec [of st ?s1 v ptr mem b] assms(1,2) o1 by simp
  show ?thesis
    using initrd_read_spec [OF assms(1,2), of mem a] 1 initrd_read_spec [OF assms(1,2), of mem "a + b"]
    by (simp add: sum file_bytes_append ab readable_def [of "a + b", symmetric, unfolded ab] add.assoc)
qed

text \<open>A file of three bytes whose header is at address 0.\<close>

definition sample_file :: vfs_state where
  "sample_file = \<lparr>nodes = [0 \<mapsto> (VNode_new 0x1FF 3 [0x66] FILE 1)\<lparr>fs_data := InitRdData 0\<rparr>], next_vid = 1,
     fs_kind_of = \<lambda>_. InitRdFs, fs_root = Map.empty, f_rootNode = None\<rparr>"

theorem initrd_read_pieces_witness:
  "\<exists>s1 s2 xs ys. initrd_read ucast 2 sample_file (initrd_open 0) = Some (s1, xs)
    \<and> initrd_read ucast 5 sample_file s1 = Some (s2, ys) \<and> xs @ ys = file_bytes ucast 0 0 3"
proof -
  have "nodes sample_file 0 = Some ((VNode_new 0x1FF 3 [0x66] FILE 1)\<lparr>fs_data := InitRdData 0\<rparr>)"
    by (simp add: sample_file_def)
  then show ?thesis
    using initrd_read_pieces [of sample_file "initrd_open 0" "(VNode_new 0x1FF 3 [0x66] FILE 1)\<lparr>fs_data := InitRdData 0\<rparr>" 0 2 5 ucast]
    by (auto simp: initrd_open_def)
qed

section \<open>Names with missing directories\<close>

text \<open>The archive name \<^verbatim>\<open>dir/file\<close>, when \<^verbatim>\<open>dir\<close> does not exist yet, creates the directory but does
  not descend into it: the file is placed next to the new directory, which stays empty.\<close>

theorem initrd_missing_directory_misplaces:
  assumes "store_wf st" "nodes st r = Some v" "f_type v = DIRECTORY" "children v part = None"
    "um_count (f_children v) < um_limit" "0x2F \<notin> set part" "0x2F \<notin> set name"
    "part \<noteq> []" "part \<noteq> [0x2E]" "part \<noteq> [0x2E, 0x2E]"
  shows "\<exists>st' v' d. parse_dirs fs sz (part @ 0x2F # name) r st = Some (st', r, name)
    \<and> nodes st' r = Some v' \<and> children v' part = Some (next_vid st)
    \<and> nodes st' (next_vid st) = Some d \<and> f_type d = DIRECTORY \<and> children d = Map.empty"
proof -
  let ?c = "VNode_new 0x1FF sz part DIRECTORY fs"
  obtain st' v' where at: "attach_new r ?c st = Some (st', next_vid st)"
    "nodes st' = (nodes st)(r \<mapsto> v', next_vid st \<mapsto> ?c\<lparr>f_parent := Some r\<rparr>)"
    "next_vid st' = Suc (next_vid st)" "fs_kind_of st' = fs_kind_of st" "fs_root st' = fs_root st"
    "f_rootNode st' = f_rootNode st" "store_wf st'"
    "\<exists>m. v' = v\<lparr>f_children := m\<rparr>" "children v' = (children v)(f_name ?c \<mapsto> next_vid st)"
    by (rule attach_new_spec [OF assms(1,2), of ?c]) (use assms in simp_all)
  have "um_at hash_str part (f_children v) = Some None"
    using um_at_map [OF store_wfD(3) [OF assms(1,2)], of part] assms(4) by (simp add: children_def)
  then have "initrd_get_node r part st = Some (Inl ENOENT)" using assms(2,3,8-10) by (simp add: initrd_get_node_def)
  moreover have "parse_dirs fs sz name r st' = Some (st', r, name)" using assms(7) by (simp add: parse_dirs.simps)
  ultimately have "parse_dirs fs sz (part @ 0x2F # name) r st = Some (st', r, name)"
    using at(1) assms(6,8) by (subst parse_dirs.simps) simp
  moreover have "r \<noteq> next_vid st" using fresh_node [OF assms(1)] assms(2) by auto
  ultimately show ?thesis using at(2,9) by (auto simp: children_def um_empty_wf)
qed

theorem initrd_missing_directory_misplaces_witness:
  "\<exists>st' v'. parse_dirs 1 0 [0x61, 0x2F, 0x62] 0 (\<lparr>nodes = [0 \<mapsto> VNode_new 0x1FF 0 [] DIRECTORY 1], next_vid = 1,
       fs_kind_of = \<lambda>_. InitRdFs, fs_root = [1 \<mapsto> 0], f_rootNode = None\<rparr>) = Some (st', 0, [0x62])
     \<and> nodes st' 0 = Some v' \<and> children v' [0x61] = Some 1"
proof -
  let ?st = "\<lparr>nodes = [0 \<mapsto> VNode_new 0x1FF 0 [] DIRECTORY 1], next_vid = 1, fs_kind_of = \<lambda>_. InitRdFs, fs_root = [1 \<mapsto> 0], f_rootNode = None\<rparr>"
  have "store_wf ?st" by (simp add: store_wf_def um_inv_empty children_def um_empty_wf)
  then show ?thesis
    using initrd_missing_directory_misplaces [of ?st 0 "VNode_new 0x1FF 0 [] DIRECTORY 1" "[0x61]" "[0x62]" 1 0]
    by (auto simp: children_def um_empty_wf um_limit_def)
qed

end
