(* ===== verification/Vfs.thy ===== *)
theory Vfs
  imports Initrdfs
begin

text \<open>
  \<^verbatim>\<open>VFS\<close> (\<^verbatim>\<open>kernel/src/fs/vfs.cpp\<close>) and the link resolution of \<^verbatim>\<open>VNodeFilesystem\<close>: path lookup across
  mounted file systems, mounting, and the registry of mount handlers. A virtual call
  \<^verbatim>\<open>root->filesystem()->...\<close> is dispatched on the kind of the file system; the operations of file system modules
  are the parameter \<open>ext\<close>. Lookup and link resolution call each other; the depth of nested links
  bounds the recursion, which is the measure of the termination proof.
\<close>

section \<open>Virtual dispatch\<close>

record filesystem_flags =
  resolve_link :: bool
  follow_links :: bool

record module_ops =
  ext_get_file :: "fsid \<Rightarrow> vid option \<Rightarrow> cstring \<Rightarrow> filesystem_flags \<Rightarrow> vfs_state \<Rightarrow>
     (vfs_state \<times> vid value_or_error) option"
  ext_get_files :: "fsid \<Rightarrow> vid \<Rightarrow> filesystem_flags \<Rightarrow> vfs_state \<Rightarrow> (vfs_state \<times> vid list value_or_error) option"
  ext_resolve_link :: "fsid \<Rightarrow> vid \<Rightarrow> nat \<Rightarrow> vfs_state \<Rightarrow> (vfs_state \<times> vid value_or_error) option"

definition fs_get_file :: "module_ops \<Rightarrow> fsid \<Rightarrow> vid option \<Rightarrow> cstring \<Rightarrow> filesystem_flags \<Rightarrow> vfs_state \<Rightarrow>
    (vfs_state \<times> vid value_or_error) option" where
  "fs_get_file ext fs root name flags st =
     (case fs_kind_of st fs of
        VNodeFs \<Rightarrow> map_option (Pair st) (vnfs_get_file fs root name st)
      | InitRdFs \<Rightarrow> map_option (Pair st) (initrd_get_file fs root name st)
      | ModuleFs \<Rightarrow> ext_get_file ext fs root name flags st)"

definition fs_get_files :: "module_ops \<Rightarrow> fsid \<Rightarrow> vid \<Rightarrow> filesystem_flags \<Rightarrow> vfs_state \<Rightarrow>
    (vfs_state \<times> vid list value_or_error) option" where
  "fs_get_files ext fs root flags st =
     (case fs_kind_of st fs of
        VNodeFs \<Rightarrow> map_option (Pair st) (vnfs_get_files fs (Some root) st)
      | InitRdFs \<Rightarrow> map_option (Pair st) (initrd_get_files fs (Some root) st)
      | ModuleFs \<Rightarrow> ext_get_files ext fs root flags st)"

section \<open>Path lookup\<close>

text \<open>One path component, after links are resolved: \<^verbatim>\<open>.\<close>, \<^verbatim>\<open>..\<close>, a child that is known, or a question
  to the file system.\<close>

definition lookup_part :: "module_ops \<Rightarrow> vid \<Rightarrow> vnode \<Rightarrow> cstring \<Rightarrow> filesystem_flags \<Rightarrow> vfs_state \<Rightarrow>
    (vfs_state \<times> vid value_or_error) option" where
  "lookup_part ext root v part flags st =
     (if part = [] \<or> part = [0x2E] then Some (st, Inr root)
      else if part = [0x2E, 0x2E] then Some (st, Inr (case f_parent v of Some p \<Rightarrow> p | None \<Rightarrow> root))
      else
        (case um_at hash_str part (f_children v) of
           None \<Rightarrow> None
         | Some (Some next) \<Rightarrow> Some (st, Inr next)
         | Some None \<Rightarrow> fs_get_file ext (f_filesystem v) (Some root) part flags st))"

text \<open>
  The loop of \<^verbatim>\<open>VFS::get_file\<close> on the rest of the path, what follows it, the call itself and
  \<^verbatim>\<open>resolve_link\<close> of the file system of the link.
\<close>

function vfs_walk :: "module_ops \<Rightarrow> vid \<Rightarrow> cstring \<Rightarrow> filesystem_flags \<Rightarrow> nat \<Rightarrow> vfs_state \<Rightarrow>
      (vfs_state \<times> vid value_or_error) option"
  and vfs_finish :: "module_ops \<Rightarrow> vid \<Rightarrow> filesystem_flags \<Rightarrow> nat \<Rightarrow> vfs_state \<Rightarrow>
      (vfs_state \<times> vid value_or_error) option"
  and vfs_get_file :: "module_ops \<Rightarrow> vid option \<Rightarrow> cstring \<Rightarrow> filesystem_flags \<Rightarrow> nat \<Rightarrow> vfs_state \<Rightarrow>
      (vfs_state \<times> vid value_or_error) option"
  and fs_resolve_link :: "module_ops \<Rightarrow> vid \<Rightarrow> nat \<Rightarrow> vfs_state \<Rightarrow> (vfs_state \<times> vid value_or_error) option" where
  "vfs_walk ext root path flags depth st =
     (case nodes st root of
        None \<Rightarrow> None
      | Some v \<Rightarrow>
          (case (if f_type v = LINK then
                   if follow_links flags then fs_resolve_link ext root depth st else Some (st, Inl ELOOP)
                 else Some (st, Inr root)) of
             None \<Rightarrow> None
           | Some (st1, Inl e) \<Rightarrow> Some (st1, Inl e)
           | Some (st1, Inr root1) \<Rightarrow>
               (case nodes st1 root1 of
                  None \<Rightarrow> None
                | Some v1 \<Rightarrow>
                    if f_type v1 \<noteq> DIRECTORY then Some (st1, Inl ENOTDIR)
                    else
                      (case split_path path of
                         (part, rest) \<Rightarrow>
                           (case lookup_part ext root1 v1 part flags st1 of
                              None \<Rightarrow> None
                            | Some (st2, Inl e) \<Rightarrow> Some (st2, Inl e)
                            | Some (st2, Inr root2) \<Rightarrow>
                                (case rest of
                                   Some path' \<Rightarrow> vfs_walk ext root2 path' flags depth st2
                                 | None \<Rightarrow> vfs_finish ext root2 flags depth st2))))))"
| "vfs_finish ext root flags depth st =
     (case nodes st root of
        None \<Rightarrow> None
      | Some v \<Rightarrow>
          if f_type v = LINK \<and> resolve_link flags then fs_resolve_link ext root depth st
          else Some (st, Inr root))"
| "vfs_get_file ext root path flags depth st =
     (case (case root of None \<Rightarrow> f_rootNode st | Some r \<Rightarrow> Some r) of
        None \<Rightarrow> None
      | Some r \<Rightarrow>
          if path = [] then vfs_finish ext r flags depth st else vfs_walk ext r path flags depth st)"
| "fs_resolve_link ext link depth st =
     (case nodes st link of
        None \<Rightarrow> None
      | Some v \<Rightarrow>
          (case fs_kind_of st (f_filesystem v) of
             VNodeFs \<Rightarrow>
               if f_type v \<noteq> LINK then Some (st, Inl ENOLINK)
               else if depth \<ge> 128 then Some (st, Inl ELOOP)
               else
                 (case fs_data v of
                    LinkData destination \<Rightarrow>
                      vfs_get_file ext (f_parent v) destination \<lparr>resolve_link = True, follow_links = True\<rparr> (depth + 1) st
                  | _ \<Rightarrow> None)
           | InitRdFs \<Rightarrow> Some (st, Inl ENOTSUP)
           | ModuleFs \<Rightarrow> ext_resolve_link ext (f_filesystem v) link depth st))"
  by pat_completeness auto
termination
  by (relation "measures
        [\<lambda>c. case c of Inl (Inl (ext, root, path, flags, depth, st)) \<Rightarrow> 129 - depth
           | Inl (Inr (ext, root, flags, depth, st)) \<Rightarrow> 129 - depth
           | Inr (Inl (ext, root, path, flags, depth, st)) \<Rightarrow> 129 - depth
           | Inr (Inr (ext, link, depth, st)) \<Rightarrow> 129 - depth,
         \<lambda>c. case c of Inl (Inl _) \<Rightarrow> 2 | Inl (Inr _) \<Rightarrow> 1 | Inr (Inl _) \<Rightarrow> 3 | Inr (Inr _) \<Rightarrow> 0,
         \<lambda>c. case c of Inl (Inl (ext, root, path, flags, depth, st)) \<Rightarrow> length path | _ \<Rightarrow> 0]")
    (auto dest!: split_path_length [OF sym])

declare vfs_walk.simps [simp del] vfs_finish.simps [simp del] vfs_get_file.simps [simp del]
  fs_resolve_link.simps [simp del]

definition vfs_get_files :: "module_ops \<Rightarrow> vid option \<Rightarrow> cstring \<Rightarrow> filesystem_flags \<Rightarrow> vfs_state \<Rightarrow>
    (vfs_state \<times> vid list value_or_error) option" where
  "vfs_get_files ext root path flags st =
     (case vfs_get_file ext root path flags 0 st of
        None \<Rightarrow> None
      | Some (st1, Inl e) \<Rightarrow> Some (st1, Inl e)
      | Some (st1, Inr dir) \<Rightarrow>
          (case nodes st1 dir of
             None \<Rightarrow> None
           | Some v \<Rightarrow> fs_get_files ext (f_filesystem v) dir flags st1))"

text \<open>\<^verbatim>\<open>strlchr\<close>: the position of the last separator.\<close>

definition strlchr :: "cstring \<Rightarrow> nat option" where
  "strlchr p = (if 0x2F \<in> set p then Some (length p - 1 - length (takeWhile (\<lambda>c. c \<noteq> 0x2F) (rev p))) else None)"

text \<open>\<^verbatim>\<open>resolve_path\<close> reads \<^verbatim>\<open>lastSeparator[1]\<close> before it tests \<^verbatim>\<open>lastSeparator\<close> for null.\<close>

definition vfs_resolve_path :: "module_ops \<Rightarrow> vid option \<Rightarrow> cstring \<Rightarrow> filesystem_flags \<Rightarrow> vfs_state \<Rightarrow>
    (vfs_state \<times> (vid option \<times> cstring) value_or_error) option" where
  "vfs_resolve_path ext root path flags st =
     (case strlchr path of
        None \<Rightarrow> None
      | Some i \<Rightarrow>
          if Suc i = length path then Some (st, Inl EINVAL)
          else
            (case vfs_get_file ext root (take i path) flags 0 st of
               None \<Rightarrow> None
             | Some (st1, Inl e) \<Rightarrow> Some (st1, Inl e)
             | Some (st1, Inr r) \<Rightarrow> Some (st1, Inr (Some r, drop (Suc i) path))))"

section \<open>Mounting\<close>

definition vfs_mount_fs :: "module_ops \<Rightarrow> fsid \<Rightarrow> cstring \<Rightarrow> vfs_state \<Rightarrow> (vfs_state \<times> unit value_or_error) option" where
  "vfs_mount_fs ext fs location st =
     (case fs_get_file ext fs None [] \<lparr>resolve_link = False, follow_links = False\<rparr> st of
        None \<Rightarrow> None
      | Some (st1, Inl e) \<Rightarrow> Some (st1, Inl e)
      | Some (st1, Inr fsRoot) \<Rightarrow>
          if location = [] \<or> location = [0x2F] then Some (st1\<lparr>f_rootNode := Some fsRoot\<rparr>, Inr ())
          else
            (case vfs_get_file ext None location \<lparr>resolve_link = True, follow_links = True\<rparr> 0 st1 of
               None \<Rightarrow> None
             | Some (st2, Inl e) \<Rightarrow> Some (st2, Inl e)
             | Some (st2, Inr locationNode) \<Rightarrow>
                 (case VNode_mount fsRoot locationNode st2 of
                    None \<Rightarrow> None
                  | Some st3 \<Rightarrow>
                      (case nodes st3 fsRoot of
                         None \<Rightarrow> None
                       | Some v \<Rightarrow>
                           (case f_parent v of
                              None \<Rightarrow> None
                            | Some p \<Rightarrow> map_option (\<lambda>st4. (st4, Inr ())) (add_child p fsRoot st3))))))"

text \<open>
  The registry of mount handlers and \<^verbatim>\<open>mount\<close> by type name. A handler yields the mounted file system;
  \<open>find_module\<close> is the module manager's lookup with the driver's \<^verbatim>\<open>mount\<close>, for types nobody registered.
\<close>

type_synonym mount_handler = "vid option \<Rightarrow> vfs_state \<Rightarrow> (vfs_state \<times> fsid value_or_error) option"

definition register_filesystem ::
    "cstring \<Rightarrow> mount_handler \<Rightarrow> (cstring, mount_handler) umap \<Rightarrow> (cstring, mount_handler) umap option" where
  "register_filesystem fsType handler fss =
     (case um_at hash_str fsType fss of
        None \<Rightarrow> None
      | Some (Some _) \<Rightarrow> Some fss
      | Some None \<Rightarrow> map_option fst (um_insert hash_str fsType handler fss))"

definition unregister_filesystem :: "cstring \<Rightarrow> (cstring, mount_handler) umap \<Rightarrow> (cstring, mount_handler) umap option" where
  "unregister_filesystem fsType fss = um_erase hash_str fsType fss"

definition vfs_mount :: "module_ops \<Rightarrow> (cstring, mount_handler) umap \<Rightarrow> (cstring \<Rightarrow> mount_handler option) \<Rightarrow>
    vid option \<Rightarrow> cstring \<Rightarrow> cstring \<Rightarrow> vfs_state \<Rightarrow> (vfs_state \<times> unit value_or_error) option" where
  "vfs_mount ext fss find_module fsFile fsType location st =
     (case um_at hash_str fsType fss of
        None \<Rightarrow> None
      | Some h \<Rightarrow>
          (case (case h of Some handler \<Rightarrow> Some handler
                 | None \<Rightarrow> find_module ([0x46, 0x53, 0x2D] @ fsType)) of
             None \<Rightarrow> Some (st, Inl ENOTSUP)
           | Some handler \<Rightarrow>
               (case handler fsFile st of
                  None \<Rightarrow> None
                | Some (st1, Inl e) \<Rightarrow> Some (st1, Inl e)
                | Some (st1, Inr fs) \<Rightarrow> vfs_mount_fs ext fs location st1)))"

section \<open>Abstract specification of lookup\<close>

text \<open>The components of a path, and lookup in a tree of directories by components.\<close>

function path_parts :: "cstring \<Rightarrow> cstring list" where
  "path_parts p = (case split_path p of (part, None) \<Rightarrow> [part] | (part, Some rest) \<Rightarrow> part # path_parts rest)"
  by pat_completeness auto
termination by (relation "measure length") (auto dest!: split_path_length [OF sym])

declare path_parts.simps [simp del]

lemma path_parts_no_sep [simp]: "0x2F \<notin> set p \<Longrightarrow> path_parts p = [p]"
  by (subst path_parts.simps) simp

lemma path_parts_sep [simp]: "0x2F \<notin> set p \<Longrightarrow> path_parts (p @ 0x2F # rest) = p # path_parts rest"
  by (subst path_parts.simps) simp

lemma path_parts_slash [simp]: "path_parts (0x2F # rest) = [] # path_parts rest"
  using path_parts_sep [of "[]" rest] by simp

definition step_part :: "vid \<Rightarrow> vnode \<Rightarrow> cstring \<Rightarrow> vid value_or_error" where
  "step_part r v part =
     (if part = [] \<or> part = [0x2E] then Inr r
      else if part = [0x2E, 0x2E] then Inr (case f_parent v of Some p \<Rightarrow> p | None \<Rightarrow> r)
      else case children v part of Some c \<Rightarrow> Inr c | None \<Rightarrow> Inl ENOENT)"

fun resolve_parts :: "vfs_state \<Rightarrow> vid \<Rightarrow> cstring list \<Rightarrow> vid value_or_error" where
  "resolve_parts st r [] = Inr r"
| "resolve_parts st r (part # parts) =
     (case nodes st r of
        None \<Rightarrow> Inl ENOENT
      | Some v \<Rightarrow>
          if f_type v \<noteq> DIRECTORY then Inl ENOTDIR
          else case step_part r v part of Inl e \<Rightarrow> Inl e | Inr r' \<Rightarrow> resolve_parts st r' parts)"

text \<open>A store that is one tree of in-memory nodes without links.\<close>

definition plain_store :: "vfs_state \<Rightarrow> bool" where
  "plain_store st \<longleftrightarrow> store_wf st \<and>
     (\<forall>i v. nodes st i = Some v \<longrightarrow> f_type v \<noteq> LINK \<and> fs_kind_of st (f_filesystem v) = VNodeFs)"

lemma plain_storeD:
  assumes "plain_store st" "nodes st i = Some v"
  shows "store_wf st" "f_type v \<noteq> LINK" "fs_kind_of st (f_filesystem v) = VNodeFs"
  using assms by (auto simp: plain_store_def)

lemma step_part_exists:
  assumes "store_wf st" "nodes st r = Some v" "step_part r v part = Inr r'"
  shows "nodes st r' \<noteq> None"
  using assms store_wfD(4,5) [OF assms(1,2)] by (auto simp: step_part_def split: if_splits option.splits)

lemma lookup_part_plain:
  assumes "plain_store st" "nodes st r = Some v"
  shows "lookup_part ext r v part flags st = Some (st, step_part r v part)"
proof -
  have wf: "store_wf st" by (rule plain_storeD(1) [OF assms])
  have "um_at hash_str part (f_children v) = Some (children v part)"
    using um_at_map [OF store_wfD(3) [OF wf assms(2)]] by (simp add: children_def)
  moreover have "fs_get_file ext (f_filesystem v) (Some r) part flags st = Some (st, Inl ENOENT)"
    if "part \<noteq> []" "children v part = None"
    using vnfs_get_file_spec [OF wf assms(2) refl that(1)] that(2) plain_storeD(3) [OF assms]
    by (simp add: fs_get_file_def)
  ultimately show ?thesis by (auto simp: lookup_part_def step_part_def split: option.split)
qed

lemma vfs_finish_plain:
  "plain_store st \<Longrightarrow> nodes st r \<noteq> None \<Longrightarrow> vfs_finish ext r flags d st = Some (st, Inr r)"
  by (subst vfs_finish.simps) (auto dest: plain_storeD(2))

lemma vfs_walk_plain:
  assumes "plain_store st" "nodes st r \<noteq> None"
  shows "vfs_walk ext r path flags d st = Some (st, resolve_parts st r (path_parts path))"
  using assms(2)
proof (induction "length path" arbitrary: path r rule: less_induct)
  case less
  obtain v where v: "nodes st r = Some v" using less.prems by auto
  have nl: "f_type v \<noteq> LINK" using plain_storeD(2) [OF assms(1) v] .
  have ex: "step_part r v part = Inr r' \<Longrightarrow> nodes st r' \<noteq> None" for part r'
    using step_part_exists [OF plain_storeD(1) [OF assms(1) v] v] by blast
  show ?case
  proof (cases rule: split_path_cases [of path])
    case 1
    then show ?thesis
      using v nl ex vfs_finish_plain [OF assms(1)]
      by (subst vfs_walk.simps) (auto simp: lookup_part_plain [OF assms(1) v] split: sum.split)
  next
    case (2 part rest)
    then have IH: "vfs_walk ext r' rest flags d st = Some (st, resolve_parts st r' (path_parts rest))"
      if "nodes st r' \<noteq> None" for r' using less.hyps [of rest r'] that by simp
    show ?thesis
      using 2 v nl ex IH
      by (subst vfs_walk.simps) (auto simp: lookup_part_plain [OF assms(1) v] split: sum.split)
  qed
qed

lemma vfs_get_file_plain:
  assumes "plain_store st" "nodes st r \<noteq> None"
  shows "vfs_get_file ext (Some r) path flags d st =
    Some (st, resolve_parts st r (if path = [] then [] else path_parts path))"
  using vfs_walk_plain [OF assms] vfs_finish_plain [OF assms] by (simp add: vfs_get_file.simps)

text \<open>C1: On a tree of in-memory nodes without links \<^verbatim>\<open>VFS::get_file\<close> is component-wise lookup: it splits
  the path at slashes, skips empty parts and \<^verbatim>\<open>.\<close>, goes to the parent (or stays at the root) on \<^verbatim>\<open>..\<close>,
  fails with \<^verbatim>\<open>ENOTDIR\<close> below a file and with \<^verbatim>\<open>ENOENT\<close> on a missing name, and changes nothing.\<close>

theorem vfs_get_file_refines:
  assumes "plain_store st" "nodes st r \<noteq> None"
  shows "vfs_get_file ext (Some r) path flags d st =
    Some (st, resolve_parts st r (if path = [] then [] else path_parts path))"
  by (rule vfs_get_file_plain [OF assms])

text \<open>A device file system right after its construction.\<close>

definition empty_devfs :: vfs_state where
  "empty_devfs = VNodeFilesystem_init 1 \<lparr>nodes = Map.empty, next_vid = 0, fs_kind_of = \<lambda>_. ModuleFs,
     fs_root = Map.empty, f_rootNode = None\<rparr>"

text \<open>A kernel without file system modules: the defaults of \<^verbatim>\<open>Filesystem\<close>.\<close>

definition no_modules :: module_ops where
  "no_modules = \<lparr>ext_get_file = \<lambda>fs root name flags st. Some (st, Inl ENOTSUP),
     ext_get_files = \<lambda>fs root flags st. Some (st, Inl ENOTSUP), ext_resolve_link = \<lambda>fs link depth st. Some (st, Inl ENOTSUP)\<rparr>"

definition no_links :: filesystem_flags where
  "no_links = \<lparr>resolve_link = False, follow_links = False\<rparr>"

lemma empty_devfs_node: "nodes empty_devfs i = (if i = 0 then Some (VNode_new 0x1FF 0 [] DIRECTORY 1) else None)"
  by (simp add: empty_devfs_def VNodeFilesystem_init_def make_node_def)

lemma empty_devfs_plain: "plain_store empty_devfs"
proof -
  have "next_vid empty_devfs = 1" "fs_kind_of empty_devfs 1 = VNodeFs"
    by (simp_all add: empty_devfs_def VNodeFilesystem_init_def make_node_def)
  then show ?thesis
    by (auto simp: plain_store_def store_wf_def empty_devfs_node um_inv_empty children_def um_empty_wf split: if_splits)
qed

theorem vfs_get_file_refines_witness:
  "vfs_get_file no_modules (Some 0) [0x2F, 0x2E, 0x2E, 0x2F, 0x78] no_links 0 empty_devfs = Some (empty_devfs, Inl ENOENT)"
proof -
  have "path_parts [0x2F, 0x2E, 0x2E, 0x2F, 0x78] = [[], [0x2E, 0x2E], [0x78]]"
    using path_parts_sep [of "[0x2E, 0x2E]" "[0x78]"] by simp
  then show ?thesis
    using vfs_get_file_refines [OF empty_devfs_plain, of 0 no_modules "[0x2F, 0x2E, 0x2E, 0x2F, 0x78]" no_links 0]
    by (simp add: empty_devfs_node step_part_def children_def um_empty_wf)
qed

section \<open>Creating directories and finding them\<close>

text \<open>A later store: every node is still there, with its kind and parent, and has at least its children.\<close>

definition extends :: "vfs_state \<Rightarrow> vfs_state \<Rightarrow> bool" where
  "extends st st' \<longleftrightarrow> (\<forall>i v. nodes st i = Some v \<longrightarrow>
     (\<exists>v'. nodes st' i = Some v' \<and> f_type v' = f_type v \<and> f_filesystem v' = f_filesystem v
        \<and> f_parent v' = f_parent v \<and> children v \<subseteq>\<^sub>m children v'))"

lemma extends_refl [simp]: "extends st st" by (simp add: extends_def)

lemma extends_trans:
  assumes "extends a b" "extends b c"
  shows "extends a c"
  unfolding extends_def
proof (intro allI impI)
  fix i v assume "nodes a i = Some v"
  then obtain v' where v': "nodes b i = Some v'" "f_type v' = f_type v" "f_filesystem v' = f_filesystem v"
    "f_parent v' = f_parent v" "children v \<subseteq>\<^sub>m children v'" using assms(1) by (auto simp: extends_def)
  then obtain w where w: "nodes c i = Some w" "f_type w = f_type v'" "f_filesystem w = f_filesystem v'"
    "f_parent w = f_parent v'" "children v' \<subseteq>\<^sub>m children w" using assms(2) unfolding extends_def by blast
  then show "\<exists>v'. nodes c i = Some v' \<and> f_type v' = f_type v \<and> f_filesystem v' = f_filesystem v
      \<and> f_parent v' = f_parent v \<and> children v \<subseteq>\<^sub>m children v'"
    using v' map_le_trans [OF v'(5) w(5)] by auto
qed

lemma extends_exists: "extends st st' \<Longrightarrow> nodes st i \<noteq> None \<Longrightarrow> nodes st' i \<noteq> None"
  by (auto simp: extends_def)

lemma extends_child:
  assumes "extends st st'" "nodes st i = Some v" "children v n = Some c"
  shows "\<exists>v'. nodes st' i = Some v' \<and> f_type v' = f_type v \<and> children v' n = Some c"
proof -
  obtain v' where "nodes st' i = Some v'" "f_type v' = f_type v" "children v \<subseteq>\<^sub>m children v'"
    using assms(1,2) unfolding extends_def by blast
  then show ?thesis using assms(3) by (auto simp: map_le_def dom_def)
qed

text \<open>Trees of one file system, with room for \<open>n\<close> more entries in every table.\<close>

definition fs_tree :: "fsid \<Rightarrow> nat \<Rightarrow> vfs_state \<Rightarrow> bool" where
  "fs_tree fs n st \<longleftrightarrow> plain_store st \<and>
     (\<forall>i v. nodes st i = Some v \<longrightarrow> f_filesystem v = fs \<and> um_count (f_children v) + n \<le> um_limit)"

lemma children_count:
  "um_inv hash_str (f_children v) \<Longrightarrow> um_count (f_children v) = card (dom (children v))"
  unfolding children_def by (rule um_count_card) (simp add: um_inv_def)

lemma mkdir_fs_tree:
  assumes t: "fs_tree fs (Suc n) st" and r: "nodes st r = Some v" and name: "name \<noteq> []" "children v name = None"
  obtains st' where "vnfs_mkdir fs (Some r) name st = Some (st', Inr (next_vid st))" "fs_tree fs n st'"
    "extends st st'" "\<exists>v'. nodes st' r = Some v' \<and> f_type v' = f_type v \<and> children v' name = Some (next_vid st)"
    "\<exists>d. nodes st' (next_vid st) = Some d \<and> f_type d = DIRECTORY \<and> f_parent d = Some r"
proof -
  let ?n = "next_vid st"
  let ?d = "(VNode_new 0x1FF 0 name DIRECTORY fs)\<lparr>f_parent := Some r\<rparr>"
  have p: "plain_store st" and v: "f_filesystem v = fs" "um_count (f_children v) + Suc n \<le> um_limit"
    using t r by (auto simp: fs_tree_def)
  have wf: "store_wf st" by (rule plain_storeD(1) [OF p r])
  have nr: "r \<noteq> ?n" using fresh_node [OF wf] r by auto
  have room: "um_count (f_children v) < um_limit" using v(2) by simp
  obtain st' v' where mk: "vnfs_mkdir fs (Some r) name st = Some (st', Inr ?n)" "store_wf st'"
    "nodes st' = (nodes st)(r \<mapsto> v', ?n \<mapsto> ?d)" "\<exists>m. v' = v\<lparr>f_children := m\<rparr>"
    "children v' = (children v)(name \<mapsto> ?n)" "fs_kind_of st' = fs_kind_of st"
    "f_rootNode st' = f_rootNode st" "fs_root st' = fs_root st"
    by (rule vnfs_mkdir_spec [OF wf r v(1) name room])
  have v': "f_type v' = f_type v" "f_filesystem v' = f_filesystem v" "f_parent v' = f_parent v"
    using mk(4) by auto
  have "nodes st' r = Some v'" "nodes st' ?n = Some ?d" using nr by (simp_all add: mk(3))
  have "um_count (f_children v') = Suc (um_count (f_children v))"
  proof -
    have "finite (dom (children v))" unfolding children_def by (rule um.fin [OF store_wfD(2) [OF wf r]])
    then show ?thesis
      using children_count [OF store_wfD(2) [OF wf r]] children_count [OF store_wfD(2) [OF mk(2) \<open>nodes st' r = Some v'\<close>]] name(2)
      by (simp add: mk(5) domIff)
  qed
  then have cnt: "um_count (f_children v') + n \<le> um_limit" using v(2) by simp
  have d: "f_type ?d = DIRECTORY" "f_filesystem ?d = fs" "um_count (f_children ?d) + n \<le> um_limit"
    using v(2) by (simp_all add: um_empty_def um_new_def um_count_def)
  have new: "i = ?n \<and> w = ?d \<or> i = r \<and> w = v' \<or> nodes st i = Some w" if "nodes st' i = Some w" for i w
    using that by (simp add: mk(3) split: if_splits)
  have "fs_tree fs n st'"
    unfolding fs_tree_def plain_store_def
  proof (intro conjI allI impI)
    fix i w assume "nodes st' i = Some w"
    then consider "w = ?d" | "w = v'" | "nodes st i = Some w" using new by blast
    then show "f_type w \<noteq> LINK" "fs_kind_of st' (f_filesystem w) = VNodeFs" "f_filesystem w = fs"
      "um_count (f_children w) + n \<le> um_limit"
      using d cnt v v' plain_storeD(2,3) [OF p r] plain_storeD(2,3) [OF p] t mk(6)
      by (cases; simp add: fs_tree_def; fastforce)+
  qed (rule mk(2))
  moreover have "extends st st'"
    unfolding extends_def
  proof (intro allI impI)
    fix i w assume w: "nodes st i = Some w"
    then have "i \<noteq> ?n" using fresh_node [OF wf] by auto
    then show "\<exists>w'. nodes st' i = Some w' \<and> f_type w' = f_type w \<and> f_filesystem w' = f_filesystem w
       \<and> f_parent w' = f_parent w \<and> children w \<subseteq>\<^sub>m children w'"
      using w v' r name(2) by (cases "i = r") (auto simp: mk(3,5) map_le_def)
  qed
  ultimately show thesis
    using that mk(1,5) v' \<open>nodes st' r = Some v'\<close> \<open>nodes st' ?n = Some ?d\<close> d(1) by auto
qed

text \<open>Names that the VFS does not interpret.\<close>

definition plain_part :: "cstring \<Rightarrow> bool" where
  "plain_part p \<longleftrightarrow> p \<noteq> [0x2E] \<and> p \<noteq> [0x2E, 0x2E]"

lemma resolve_step_child:
  assumes "nodes st r = Some v" "f_type v = DIRECTORY" "part \<noteq> []" "plain_part part" "children v part = Some c"
  shows "resolve_parts st r (part # parts) = resolve_parts st c parts"
  using assms by (simp add: step_part_def plain_part_def)

lemma fs_tree_mono: "fs_tree fs n st \<Longrightarrow> m \<le> n \<Longrightarrow> fs_tree fs m st"
  by (auto simp: fs_tree_def) (meson add_left_mono le_trans)

text \<open>\<^verbatim>\<open>resolve_path\<close> returns the directory and the last part of the path: in every later store,
  lookup of the whole path is lookup of that part in that directory.\<close>

lemma vnfs_resolve_loop_spec:
  assumes "fs_tree fs (n + length path) st" "nodes st r \<noteq> None" "\<forall>p \<in> set (path_parts path). plain_part p"
    "vnfs_resolve_loop fs path r True st = Some (st', Inr (d, fname))"
  shows "fs_tree fs n st' \<and> extends st st' \<and> nodes st' d \<noteq> None \<and> 0x2F \<notin> set fname \<and> plain_part fname
    \<and> (\<forall>st''. extends st' st'' \<longrightarrow> resolve_parts st'' r (path_parts path) = resolve_parts st'' d [fname])"
  using assms
proof (induction "length path" arbitrary: path r st rule: less_induct)
  case less
  show ?case
  proof (cases rule: split_path_cases [of path])
    case 1
    then have "st' = st" "d = r" "fname = path" using less.prems(4) by (auto simp: vnfs_resolve_loop.simps)
    then show ?thesis using 1 less.prems fs_tree_mono [OF less.prems(1), of n] by auto
  next
    case (2 part rest)
    obtain v where v: "nodes st r = Some v" using less.prems(2) by auto
    have dir: "f_type v = DIRECTORY"
      using less.prems(4) 2 v by (auto simp: vnfs_resolve_loop.simps split: if_splits)
    have pp: "plain_part part" "\<forall>p \<in> set (path_parts rest). plain_part p" using less.prems(3) 2 by auto
    have len: "length rest < length path" using 2 by simp
    have goal: ?thesis if "vnfs_resolve_loop fs rest c True st1 = Some (st', Inr (d, fname))"
      "fs_tree fs (n + length rest) st1" "nodes st1 c \<noteq> None" "extends st st1"
      "\<And>st''. extends st1 st'' \<Longrightarrow> resolve_parts st'' r (path_parts path) = resolve_parts st'' c (path_parts rest)" for c st1
      using less.hyps [OF len that(2,3) pp(2) that(1)] extends_trans that(4,5) by metis
    show ?thesis
    proof (cases "part = []")
      case True
      have "resolve_parts st'' r (path_parts path) = resolve_parts st'' r (path_parts rest)" if "extends st st''" for st''
      proof -
        obtain v'' where "nodes st'' r = Some v''" "f_type v'' = DIRECTORY"
          using \<open>extends st st''\<close> v dir unfolding extends_def by metis
        then show ?thesis using 2(1) True by (simp add: step_part_def)
      qed
      moreover have "vnfs_resolve_loop fs rest r True st = Some (st', Inr (d, fname))"
        using less.prems(4) 2 v dir True by (simp add: vnfs_resolve_loop.simps)
      ultimately show ?thesis using less.prems(2) fs_tree_mono [OF less.prems(1)] len by (intro goal [of r st]) auto
    next
      case False
      have wf: "store_wf st" and fs: "f_filesystem v = fs" using less.prems(1) v by (auto simp: fs_tree_def plain_store_def)
      note get = vnfs_get_file_spec [OF wf v fs False]
      have via: "resolve_parts st'' r (path_parts path) = resolve_parts st'' c (path_parts rest)"
        if w: "nodes st1 r = Some w" "f_type w = DIRECTORY" "children w part = Some c" "extends st1 st''" for st1 st'' w c
      proof -
        obtain w' where "nodes st'' r = Some w'" "f_type w' = f_type w" "children w' part = Some c"
          using extends_child [OF w(4,1,3)] by blast
        then show ?thesis using resolve_step_child [of st'' r w' part c] w(2) pp(1) False 2 by simp
      qed
      show ?thesis
      proof (cases "children v part")
        case (Some c)
        then have "vnfs_resolve_loop fs rest c True st = Some (st', Inr (d, fname))"
          using less.prems(4) 2 v dir False get by (simp add: vnfs_resolve_loop.simps [of fs "part @ 0x2F # rest"])
        moreover have "nodes st c \<noteq> None" using store_wfD(4) [OF wf v Some] .
        ultimately show ?thesis using via [OF v dir Some] fs_tree_mono [OF less.prems(1)] len by (intro goal [of c st]) auto
      next
        case None
        have t: "fs_tree fs (Suc (n + length rest)) st" using fs_tree_mono [OF less.prems(1)] len by simp
        obtain st1 where st1: "vnfs_mkdir fs (Some r) part st = Some (st1, Inr (next_vid st))" "fs_tree fs (n + length rest) st1"
          "extends st st1" "\<exists>v'. nodes st1 r = Some v' \<and> f_type v' = f_type v \<and> children v' part = Some (next_vid st)"
          "\<exists>d. nodes st1 (next_vid st) = Some d \<and> f_type d = DIRECTORY \<and> f_parent d = Some r"
          by (rule mkdir_fs_tree [OF t v False None])
        have "vnfs_resolve_loop fs rest (next_vid st) True st1 = Some (st', Inr (d, fname))"
          using less.prems(4) 2 v dir False get None st1(1) by (simp add: vnfs_resolve_loop.simps [of fs "part @ 0x2F # rest"])
        then show ?thesis using st1 via dir by (intro goal [of "next_vid st" st1]) auto
      qed
    qed
  qed
qed

text \<open>A directory that \<^verbatim>\<open>add_directory\<close> reports as created is the node that \<^verbatim>\<open>VFS::get_file\<close> finds
  under the same path, with all missing intermediate directories created on the way and no existing
  entry lost, when its parent is a directory. The parent's type is not checked: below a
  regular file the directory is created as well, and lookup fails with \<^verbatim>\<open>ENOTDIR\<close>.\<close>

theorem add_directory_lookup:
  assumes "fs_tree fs (Suc (length path)) st" "nodes st r \<noteq> None" "\<forall>p \<in> set (path_parts path). plain_part p"
    "path \<noteq> []" "add_directory fs (Some r) path st = Some (st', Inr dir)"
  shows "\<exists>d p w. nodes st' dir = Some d \<and> f_type d = DIRECTORY \<and> f_parent d = Some p \<and> nodes st' p = Some w
    \<and> vfs_get_file ext (Some r) path flags 0 st' =
        Some (st', if f_type w = DIRECTORY then Inr dir else Inl ENOTDIR)
    \<and> extends st st'"
proof -
  obtain v where v: "nodes st r = Some v" "f_filesystem v = fs" using assms(1,2) by (auto simp: fs_tree_def)
  then obtain st1 d fname where loop: "vnfs_resolve_loop fs path r True st = Some (st1, Inr (d, fname))"
    and mk: "vnfs_mkdir fs (Some d) fname st1 = Some (st', Inr dir)"
    using assms(5) by (auto simp: add_directory_def vnfs_resolve_path_def split: option.splits sum.splits)
  have 1: "fs_tree fs 1 st1" "extends st st1" "nodes st1 d \<noteq> None" "0x2F \<notin> set fname" "plain_part fname"
    "\<And>st''. extends st1 st'' \<Longrightarrow> resolve_parts st'' r (path_parts path) = resolve_parts st'' d [fname]"
    using vnfs_resolve_loop_spec [of fs 1 path st r st1 d fname] assms(1-3) loop by auto
  obtain w where w: "nodes st1 d = Some w" "f_filesystem w = fs" using 1(1,3) by (auto simp: fs_tree_def)
  have wf: "store_wf st1" using 1(1) by (simp add: fs_tree_def plain_store_def)
  have new: "fname \<noteq> []" "children w fname = None" using vnfs_mkdir_exists [OF wf w, of fname] mk by fastforce+
  obtain st2 where 2: "vnfs_mkdir fs (Some d) fname st1 = Some (st2, Inr (next_vid st1))" "fs_tree fs 0 st2"
    "extends st1 st2" "\<exists>v'. nodes st2 d = Some v' \<and> f_type v' = f_type w \<and> children v' fname = Some (next_vid st1)"
    "\<exists>c. nodes st2 (next_vid st1) = Some c \<and> f_type c = DIRECTORY \<and> f_parent c = Some d"
    by (rule mkdir_fs_tree [OF 1(1) [unfolded One_nat_def] w(1) new])
  then have eq: "st' = st2" "dir = next_vid st1" using mk by auto
  have ext: "extends st st'" using extends_trans [OF 1(2) 2(3)] eq by simp
  have "vfs_get_file ext (Some r) path flags 0 st' = Some (st', resolve_parts st' r (path_parts path))"
    using vfs_get_file_plain [of st' r ext path flags 0] 2(2) assms(4) extends_exists [OF ext assms(2)]
    by (simp add: eq fs_tree_def)
  moreover obtain v' c where v': "nodes st' d = Some v'" "f_type v' = f_type w" "children v' fname = Some dir"
    and c: "nodes st' dir = Some c" "f_type c = DIRECTORY" "f_parent c = Some d"
    using 2(4,5) eq by auto
  moreover have "resolve_parts st' r (path_parts path) = (if f_type v' = DIRECTORY then Inr dir else Inl ENOTDIR)"
    using 1(6) [OF 2(3)] 1(5) new(1) v' by (simp add: eq step_part_def plain_part_def)
  ultimately show ?thesis using ext by auto
qed

theorem add_directory_lookup_witness:
  "\<exists>st' dir. add_directory 1 (Some 0) [0x61] empty_devfs = Some (st', Inr dir)
     \<and> vfs_get_file no_modules (Some 0) [0x61] no_links 0 st' = Some (st', Inr dir)"
proof -
  have t: "fs_tree 1 (Suc (Suc 0)) empty_devfs"
    by (auto simp: fs_tree_def empty_devfs_plain empty_devfs_node um_empty_def um_new_def um_count_def um_limit_def
        split: if_splits)
  let ?v = "VNode_new 0x1FF 0 [] DIRECTORY 1"
  have v: "nodes empty_devfs 0 = Some ?v" by (simp add: empty_devfs_node)
  have n: "[0x61] \<noteq> ([] :: cstring)" "children ?v [0x61] = None" by (simp_all add: children_def um_empty_wf)
  obtain st' where st': "vnfs_mkdir 1 (Some 0) [0x61] empty_devfs = Some (st', Inr (next_vid empty_devfs))"
    "fs_tree 1 (Suc 0) st'" "extends empty_devfs st'"
    "\<exists>v'. nodes st' 0 = Some v' \<and> f_type v' = f_type ?v \<and> children v' [0x61] = Some (next_vid empty_devfs)"
    "\<exists>d. nodes st' (next_vid empty_devfs) = Some d \<and> f_type d = DIRECTORY \<and> f_parent d = Some 0"
    by (rule mkdir_fs_tree [OF t v n])
  have add: "add_directory 1 (Some 0) [0x61] empty_devfs = Some (st', Inr (next_vid empty_devfs))"
    using st'(1) v by (simp add: add_directory_def vnfs_resolve_path_def vnfs_resolve_loop.simps)
  have "\<forall>p \<in> set (path_parts [0x61]). plain_part p" by (simp add: plain_part_def)
  then have "\<exists>d p w. nodes st' (next_vid empty_devfs) = Some d \<and> f_type d = DIRECTORY \<and> f_parent d = Some p \<and> nodes st' p = Some w
    \<and> vfs_get_file no_modules (Some 0) [0x61] no_links 0 st' =
        Some (st', if f_type w = DIRECTORY then Inr (next_vid empty_devfs) else Inl ENOTDIR)
    \<and> extends empty_devfs st'"
    using add_directory_lookup [of 1 "[0x61]" empty_devfs 0 st' "next_vid empty_devfs" no_modules no_links] t v add by simp
  then show ?thesis using add st'(4,5) by auto
qed

section \<open>Links\<close>

text \<open>Resolving a symbolic link that names itself ends with \<^verbatim>\<open>ELOOP\<close>: the depth counter that
  \<^verbatim>\<open>resolve_link\<close> passes on stops the recursion after 128 links.\<close>

theorem self_link_eloop:
  assumes "nodes st l = Some v" "f_type v = LINK" "fs_kind_of st (f_filesystem v) = VNodeFs"
    "fs_data v = LinkData name" "f_parent v = Some p" "nodes st p = Some pv" "f_type pv = DIRECTORY"
    "um_at hash_str name (f_children pv) = Some (Some l)" "name \<noteq> []" "0x2F \<notin> set name" "plain_part name"
    "resolve_link flags"
  shows "vfs_get_file ext (Some p) name flags d st = Some (st, Inl ELOOP)"
  using assms(12)
proof (induction "128 - d" arbitrary: d flags)
  case (0 d)
  have "fs_resolve_link ext l d st = Some (st, Inl ELOOP)"
    using 0 assms by (simp add: fs_resolve_link.simps)
  then show ?case using assms 0
    by (simp add: vfs_get_file.simps vfs_walk.simps lookup_part_def plain_part_def vfs_finish.simps)
next
  case (Suc k d)
  have "vfs_get_file ext (Some p) name \<lparr>resolve_link = True, follow_links = True\<rparr> (d + 1) st = Some (st, Inl ELOOP)"
    using Suc.hyps(2) by (intro Suc.hyps(1)) simp_all
  then have "fs_resolve_link ext l d st = Some (st, Inl ELOOP)"
    using Suc.hyps(2) assms by (simp add: fs_resolve_link.simps)
  then show ?case using assms Suc.prems
    by (simp add: vfs_get_file.simps vfs_walk.simps lookup_part_def plain_part_def vfs_finish.simps)
qed

text \<open>A directory with one link in it that names itself.\<close>

definition loop_store :: vfs_state where
  "loop_store =
     (let dir = (VNode_new 0x1FF 0 [] DIRECTORY 1)\<lparr>f_children := \<lparr>f_bucket = [[([0x6C], 1)]], f_capacity = 1, f_size = 1\<rparr>\<rparr>;
          link = (VNode_new 0x1FF 0 [0x6C] LINK 1)\<lparr>fs_data := LinkData [0x6C], f_parent := Some 0\<rparr>
      in \<lparr>nodes = [0 \<mapsto> dir, 1 \<mapsto> link], next_vid = 2, fs_kind_of = \<lambda>_. VNodeFs, fs_root = [1 \<mapsto> 0], f_rootNode = Some 0\<rparr>)"

theorem self_link_eloop_witness:
  "vfs_get_file no_modules (Some 0) [0x6C] \<lparr>resolve_link = True, follow_links = True\<rparr> 0 loop_store = Some (loop_store, Inl ELOOP)"
  using self_link_eloop [of loop_store 1 "(VNode_new 0x1FF 0 [0x6C] LINK 1)\<lparr>fs_data := LinkData [0x6C], f_parent := Some 0\<rparr>"
      "[0x6C]" 0 "(VNode_new 0x1FF 0 [] DIRECTORY 1)\<lparr>f_children := \<lparr>f_bucket = [[([0x6C], 1)]], f_capacity = 1, f_size = 1\<rparr>\<rparr>"]
  by (simp add: loop_store_def Let_def um_at_def get_bucket_def bucket_pos_def plain_part_def)

section \<open>Mounting\<close>

text \<open>Mounting a file system on a directory \<open>L\<close> below \<open>P\<close> makes its root node the child of \<open>P\<close> under the name
  of \<open>L\<close>, with \<open>P\<close> as its parent, keeps every other child of \<open>P\<close> and the contents of
  the mounted root, and changes no other node.\<close>

theorem mount_replaces_directory:
  assumes "store_wf st" "location \<noteq> []" "location \<noteq> [0x2F]"
    "fs_get_file ext fs None [] \<lparr>resolve_link = False, follow_links = False\<rparr> st = Some (st, Inr R)"
    "vfs_get_file ext None location \<lparr>resolve_link = True, follow_links = True\<rparr> 0 st = Some (st, Inr L)"
    "nodes st L = Some lv" "f_parent lv = Some P" "nodes st P = Some pv" "nodes st R = Some rv" "R \<noteq> P"
    "um_count (f_children pv) < um_limit"
  shows "\<exists>st' pv' rv'. vfs_mount_fs ext fs location st = Some (st', Inr ())
    \<and> nodes st' P = Some pv' \<and> children pv' = (children pv)(f_name lv \<mapsto> R)
    \<and> nodes st' R = Some rv' \<and> f_parent rv' = Some P \<and> f_name rv' = f_name lv \<and> children rv' = children rv
    \<and> (\<forall>i. i \<noteq> P \<and> i \<noteq> R \<longrightarrow> nodes st' i = nodes st i)"
proof -
  have inv: "um_inv hash_str (f_children pv)" by (rule store_wfD(2) [OF assms(1,8)])
  obtain m where m: "um_erase hash_str (f_name lv) (f_children pv) = Some m" "um_inv hash_str m"
    "um_map hash_str m = (children pv)(f_name lv := None)"
    using um.del_spec [OF inv] unfolding children_def by blast
  have fin: "finite (dom (children pv))" unfolding children_def by (rule um.fin [OF inv])
  have "card (dom (um_map hash_str m)) \<le> card (dom (children pv))"
    using fin by (simp add: m(3) card_mono)
  then have "card (dom (um_map hash_str m)) < um_limit" using children_count [OF inv] assms(11) by simp
  then obtain m' where m': "um_insert hash_str (f_name lv) R m = Some (m', True)"
    "um_map hash_str m' = (um_map hash_str m)(f_name lv \<mapsto> R)"
    using um.ins_absent [OF m(2), of "f_name lv" R] m(3) by auto
  define pv' where "pv' = pv\<lparr>f_children := m'\<rparr>"
  define rv' where "rv' = rv\<lparr>f_parent := Some P, f_name := f_name lv\<rparr>"
  define st' where "st' = st\<lparr>nodes := (nodes st)(R \<mapsto> rv', P \<mapsto> pv')\<rparr>"
  have "VNode_mount R L st = Some (st\<lparr>nodes := (nodes st)(R \<mapsto> rv', P \<mapsto> pv\<lparr>f_children := m\<rparr>)\<rparr>)"
    using assms(6-10) m(1) by (simp add: VNode_mount_def set_parent_def update_node_def set_children_def rv'_def fun_upd_twist)
  then have "vfs_mount_fs ext fs location st = Some (st', Inr ())"
    using assms(2-5,10) m'(1)
    by (simp add: vfs_mount_fs_def rv'_def st'_def pv'_def add_child_def set_children_def update_node_def fun_upd_twist)
  moreover have "children pv' = (children pv)(f_name lv \<mapsto> R)"
    by (simp add: pv'_def children_def m'(2) m(3) [unfolded children_def])
  ultimately show ?thesis
    using assms(10) by (intro exI [of _ st'] exI [of _ pv'] exI [of _ rv']) (simp add: st'_def rv'_def children_def)
qed

text \<open>A root directory with a directory \<^verbatim>\<open>m\<close>, and a second file system.\<close>

definition mount_store :: vfs_state where
  "mount_store =
     (let dir = (VNode_new 0x1FF 0 [] DIRECTORY 1)\<lparr>f_children := \<lparr>f_bucket = [[([0x6D], 1)]], f_capacity = 1, f_size = 1\<rparr>\<rparr>;
          sub = (VNode_new 0x1FF 0 [0x6D] DIRECTORY 1)\<lparr>f_parent := Some 0\<rparr>
      in \<lparr>nodes = [0 \<mapsto> dir, 1 \<mapsto> sub, 2 \<mapsto> VNode_new 0x1FF 0 [] DIRECTORY 2], next_vid = 3,
          fs_kind_of = \<lambda>_. VNodeFs, fs_root = [1 \<mapsto> 0, 2 \<mapsto> 2], f_rootNode = Some 0\<rparr>)"

lemma mount_store_nodes:
  "nodes mount_store 0 = Some ((VNode_new 0x1FF 0 [] DIRECTORY 1)\<lparr>f_children := \<lparr>f_bucket = [[([0x6D], 1)]], f_capacity = 1, f_size = 1\<rparr>\<rparr>)"
  "nodes mount_store 1 = Some ((VNode_new 0x1FF 0 [0x6D] DIRECTORY 1)\<lparr>f_parent := Some 0\<rparr>)"
  "nodes mount_store 2 = Some (VNode_new 0x1FF 0 [] DIRECTORY 2)" "next_vid mount_store = 3"
  "fs_kind_of mount_store i = VNodeFs" "fs_root mount_store 2 = Some 2" "f_rootNode mount_store = Some 0"
  "nodes mount_store j \<noteq> None \<Longrightarrow> j \<in> {0, 1, 2}"
  by (auto simp: mount_store_def Let_def split: if_splits)

lemma one_entry_table: "um_inv hash \<lparr>f_bucket = [[(k, x)]], f_capacity = 1, f_size = 1\<rparr>"
  "um_map hash \<lparr>f_bucket = [[(k, x)]], f_capacity = 1, f_size = 1\<rparr> = [k \<mapsto> x]"
  by (auto simp: um_inv_def um_wf_def um_count_def bucket_pos_def um_map_def)

lemma mount_store_wf: "store_wf mount_store"
proof -
  have n: "nodes mount_store 0 \<noteq> None" "nodes mount_store 1 \<noteq> None" by (simp_all add: mount_store_nodes del: One_nat_def)
  have "i < 3 \<and> um_inv hash_str (f_children v) \<and> (\<forall>n c. children v n = Some c \<longrightarrow> nodes mount_store c \<noteq> None)
      \<and> (\<forall>p. f_parent v = Some p \<longrightarrow> nodes mount_store p \<noteq> None)" if v: "nodes mount_store i = Some v" for i v
  proof -
    consider "i = 0" | "i = 1" | "i = 2" using mount_store_nodes(8) [of i] v by auto
    then show ?thesis
      using v n by cases (auto simp: mount_store_nodes(1-3) children_def um_inv_empty um_empty_wf one_entry_table
          simp del: One_nat_def split: if_splits)
  qed
  then show ?thesis unfolding store_wf_def mount_store_nodes(4) by blast
qed

theorem mount_replaces_directory_witness:
  "\<exists>st' rv'. vfs_mount_fs no_modules 2 [0x6D] mount_store = Some (st', Inr ()) \<and> nodes st' 2 = Some rv' \<and> f_parent rv' = Some 0"
proof -
  let ?f = "\<lparr>resolve_link = False, follow_links = False\<rparr>" and ?g = "\<lparr>resolve_link = True, follow_links = True\<rparr>"
  let ?dir = "(VNode_new 0x1FF 0 [] DIRECTORY 1)\<lparr>f_children := \<lparr>f_bucket = [[([0x6D], 1)]], f_capacity = 1, f_size = 1\<rparr>\<rparr>"
  let ?sub = "(VNode_new 0x1FF 0 [0x6D] DIRECTORY 1)\<lparr>f_parent := Some 0\<rparr>"
  have "fs_get_file no_modules 2 None [] ?f mount_store = Some (mount_store, Inr 2)"
    by (simp add: fs_get_file_def mount_store_nodes vnfs_get_file_def own_root_def)
  moreover have "um_at hash_str [0x6D] (f_children ?dir) = Some (Some 1)"
    by (simp add: um_at_def get_bucket_def bucket_pos_def)
  then have "vfs_get_file no_modules None [0x6D] ?g 0 mount_store = Some (mount_store, Inr 1)"
    by (simp add: vfs_get_file.simps vfs_walk.simps mount_store_nodes lookup_part_def vfs_finish.simps
        mount_store_nodes(2) [unfolded One_nat_def])
  ultimately have "\<exists>st' pv' rv'. vfs_mount_fs no_modules 2 [0x6D] mount_store = Some (st', Inr ())
    \<and> nodes st' 0 = Some pv' \<and> children pv' = (children ?dir)(f_name ?sub \<mapsto> 2)
    \<and> nodes st' 2 = Some rv' \<and> f_parent rv' = Some 0 \<and> f_name rv' = f_name ?sub
    \<and> children rv' = children (VNode_new 0x1FF 0 [] DIRECTORY 2)
    \<and> (\<forall>i. i \<noteq> 0 \<and> i \<noteq> 2 \<longrightarrow> nodes st' i = nodes mount_store i)"
    by (intro mount_replaces_directory [where L = 1 and P = 0 and R = 2])
      (simp_all add: mount_store_wf mount_store_nodes um_count_def um_limit_def mount_store_nodes(2) [unfolded One_nat_def])
  then show ?thesis by blast
qed

end
