(* ===== verification/Systemfs.thy ===== *)
theory Systemfs
  imports Vnodefs
begin

text \<open>
  \<^verbatim>\<open>SystemFilesystem\<close> (\<^verbatim>\<open>kernel/src/fs/systemfs.cpp\<close>): nodes whose contents come from a callback, from
  data elsewhere in the kernel, or from 16 bytes stored in the node. The data of a node is
  \<open>sysfs_data\<close>: the callbacks are functions of the model, and \<open>static_data\<close> is the memory from the pointer on,
  which extends beyond the object it points to. \<open>None\<close> is an access outside \<^verbatim>\<open>small_data\<close>, a missing node or a
  failed assertion.
\<close>

section \<open>Operations\<close>

record 'w sysfs_data =
  static_data :: "(nat \<Rightarrow> u8) option"
  read_callback :: "(file_stream \<Rightarrow> size_t \<Rightarrow> 'w \<Rightarrow> 'w \<times> file_stream \<times> u8 list value_or_error) option"
  write_callback :: "(file_stream \<Rightarrow> u8 list \<Rightarrow> 'w \<Rightarrow> 'w \<times> file_stream \<times> nat value_or_error) option"
  small_data :: "nat \<Rightarrow> u8"

definition sysfs_open :: "vid \<Rightarrow> file_stream" where
  "sysfs_open node = \<lparr>stream_node = node, offset = 0\<rparr>"

definition sysfs_read ::
    "vnode \<Rightarrow> 'w sysfs_data \<Rightarrow> size_t \<Rightarrow> file_stream \<Rightarrow> 'w \<Rightarrow> 'w \<times> file_stream \<times> u8 list value_or_error" where
  "sysfs_read node d len0 s w =
     (let lengthLeft = vn_size node - offset s;
          len = (if len0 > lengthLeft then lengthLeft else len0)
      in case read_callback d of
           Some cb \<Rightarrow> cb s len w
         | None \<Rightarrow>
             (case static_data d of
                Some mem \<Rightarrow>
                  (w, s\<lparr>offset := offset s + len\<rparr>,
                   Inr (map (\<lambda>i. mem (unat (offset s) + i)) [0..<unat len]))
              | None \<Rightarrow>
                  if offset s > 16 then (w, s, Inr [])
                  else
                    let len' = (if len > 16 - offset s then 16 - offset s else len)
                    in (w, s\<lparr>offset := offset s + len'\<rparr>,
                        Inr (map (\<lambda>i. small_data d (unat (offset s) + i)) [0..<unat len']))))"

definition sysfs_write ::
    "'w sysfs_data \<Rightarrow> u8 list \<Rightarrow> file_stream \<Rightarrow> 'w \<Rightarrow> ('w \<times> file_stream \<times> nat value_or_error) option" where
  "sysfs_write d bs s w = (case write_callback d of None \<Rightarrow> None | Some cb \<Rightarrow> Some (cb s bs w))"

definition sysfs_seek :: "vnode \<Rightarrow> size_t \<Rightarrow> nat \<Rightarrow> file_stream \<Rightarrow> file_stream \<times> size_t" where
  "sysfs_seek node position mode s =
     (if mode = 1 then s\<lparr>offset := offset s + position\<rparr>
      else if mode = 0 then s\<lparr>offset := position\<rparr>
      else if mode = 2 then s\<lparr>offset := vn_size node + position\<rparr>
      else s, offset s)"

definition sysfs_add_node ::
    "fsid \<Rightarrow> vid option \<Rightarrow> cstring \<Rightarrow> nat \<Rightarrow> vfs_state \<Rightarrow> (vfs_state \<times> vid value_or_error) option" where
  "sysfs_add_node fs root path data st =
     (case vnfs_resolve_path fs path root True st of
        None \<Rightarrow> None
      | Some (st1, Inl e) \<Rightarrow> Some (st1, Inl e)
      | Some (st1, Inr (r, filename)) \<Rightarrow>
          (case get_child r filename st1 of
             None \<Rightarrow> None
           | Some (Some _) \<Rightarrow> Some (st1, Inl EEXIST)
           | Some None \<Rightarrow>
               map_option (\<lambda>(st2, i). (st2, Inr i))
                 (attach_new r ((VNode_new 0 0 filename FILE fs)\<lparr>fs_data := SysData data\<rparr>) st1)))"

section \<open>Bounds of a read\<close>

text \<open>A read of static data at an offset inside the file returns at most the rest of the file. At an
  offset past the end, where a seek may put it, the subtraction for the remaining length wraps around, so any request
  up to \<open>2 ^ 64\<close> minus the distance is copied from memory beyond the object.\<close>

theorem sysfs_static_read:
  assumes "read_callback d = None" "static_data d = Some mem"
  shows "\<exists>s' bs. sysfs_read node d len s w = (w, s', Inr bs)
    \<and> bs = map (\<lambda>i. mem (unat (offset s) + i)) [0..<length bs]
    \<and> length bs = (if offset s \<le> vn_size node then min (unat len) (unat (vn_size node) - unat (offset s))
                   else min (unat len) (2 ^ 64 - (unat (offset s) - unat (vn_size node))))
    \<and> offset s' = offset s + of_nat (length bs)"
proof -
  let ?left = "vn_size node - offset s"
  let ?len = "if len > ?left then ?left else len"
  have "unat ?left = (if offset s \<le> vn_size node then unat (vn_size node) - unat (offset s)
      else 2 ^ 64 - (unat (offset s) - unat (vn_size node)))"
  proof (cases "offset s \<le> vn_size node")
    case True then show ?thesis by (simp add: unat_sub)
  next
    case False
    then have "\<not> unat (offset s) \<le> unat (vn_size node)" by (simp add: word_le_nat_alt)
    moreover have "unat (offset s) < 2 ^ LENGTH(64)" by (rule unsigned_less)
    ultimately show ?thesis using False by (simp add: unat_sub_if')
  qed
  then have "unat ?len = (if offset s \<le> vn_size node then min (unat len) (unat (vn_size node) - unat (offset s))
      else min (unat len) (2 ^ 64 - (unat (offset s) - unat (vn_size node))))"
    by (auto simp: word_less_nat_alt min_def)
  moreover have "of_nat (unat ?len) = ?len" by simp
  ultimately show ?thesis
    using assms by (auto simp: sysfs_read_def Let_def)
qed

theorem sysfs_static_read_witness:
  "let d = \<lparr>static_data = Some of_nat, read_callback = None, write_callback = None, small_data = \<lambda>_. 0\<rparr> :: unit sysfs_data;
       node = VNode_new 0 4 [0x66] FILE 1
   in \<exists>s' bs. sysfs_read node d 3 (fst (sysfs_seek node 9 0 (sysfs_open 0))) () = ((), s', Inr bs) \<and> length bs = 3
      \<and> bs = map (\<lambda>i. of_nat (9 + i)) [0..<3]"
proof -
  let ?d = "\<lparr>static_data = Some of_nat, read_callback = None, write_callback = None, small_data = \<lambda>_. 0\<rparr> :: unit sysfs_data"
  let ?s = "\<lparr>stream_node = 0, offset = 9\<rparr> :: file_stream"
  have "\<exists>s' bs. sysfs_read (VNode_new 0 4 [0x66] FILE 1) ?d 3 ?s () = ((), s', Inr bs)
    \<and> bs = map (\<lambda>i. of_nat (unat (offset ?s) + i)) [0..<length bs]
    \<and> length bs = (if offset ?s \<le> vn_size (VNode_new 0 4 [0x66] FILE 1) then min (unat (3::size_t)) (unat (vn_size (VNode_new 0 4 [0x66] FILE 1)) - unat (offset ?s))
                   else min (unat (3::size_t)) (2 ^ 64 - (unat (offset ?s) - unat (vn_size (VNode_new 0 4 [0x66] FILE 1)))))
    \<and> offset s' = offset ?s + of_nat (length bs)"
    by (rule sysfs_static_read) simp_all
  then show ?thesis by (auto simp: Let_def sysfs_seek_def sysfs_open_def)
qed

end
