(* ===== verification/Locking.thy ===== *)
theory Locking
  imports Prelude
begin

text \<open>
  The locks of \<^verbatim>\<open>kernel/include/locking\<close> and \<^verbatim>\<open>kernel/src/locking\<close>: \<^verbatim>\<open>SpinLock\<close>, \<^verbatim>\<open>Semaphore\<close>
  and \<^verbatim>\<open>RecursiveMutex\<close>. Every atomic memory access of the source is one step of a thread, and
  the threads' steps interleave freely; the theorems say that at most one thread is between a
  completed \<^verbatim>\<open>lock\<close> and its \<^verbatim>\<open>unlock\<close>. A thread is named by the value of
  \<^verbatim>\<open>Thread::current()->pid()\<close>, which is not 0.

  \<^verbatim>\<open>f_counter\<close>, \<^verbatim>\<open>f_current\<close> and \<^verbatim>\<open>f_recursion\<close> count outstanding calls; they are unbounded
  integers here, which agrees with the 32-bit fields while fewer than \<open>2 ^ 31\<close> calls are
  outstanding. \<^verbatim>\<open>ASSERT_F\<close> only prints a message, so a failed assertion changes no state.
\<close>

section \<open>Interleavings that keep an invariant exclude each other\<close>

locale exclusive_lock =
  fixes init :: "'s \<Rightarrow> bool"
    and step :: "'s \<Rightarrow> 's \<Rightarrow> bool"
    and inv :: "'s \<Rightarrow> bool"
    and holds :: "'s \<Rightarrow> 'i \<Rightarrow> bool"
  assumes init_inv: "init s \<Longrightarrow> inv s"
    and step_inv: "inv s \<Longrightarrow> step s s' \<Longrightarrow> inv s'"
    and inv_excl: "inv s \<Longrightarrow> holds s t \<Longrightarrow> holds s u \<Longrightarrow> t = u"
begin

lemma reachable_inv:
  assumes "step\<^sup>*\<^sup>* s s'" "init s"
  shows "inv s'"
  using assms by induction (auto intro: init_inv step_inv)

lemma mutual_exclusion: "init s \<Longrightarrow> step\<^sup>*\<^sup>* s s' \<Longrightarrow> holds s' t \<Longrightarrow> holds s' u \<Longrightarrow> t = u"
  using reachable_inv inv_excl by blast

end

section \<open>SpinLock\<close>

text \<open>
  The program points of \<^verbatim>\<open>SpinLock::lock\<close> are its labels; \<^verbatim>\<open>cmpxchg\<close> with \<open>eax = 0\<close> stores 1 when
  the lock word is 0.
\<close>

datatype spin_pc = SpinIdle | SpinTryLock | SpinPause | SpinHeld

definition cmpxchg :: "u32 \<Rightarrow> u32 \<Rightarrow> u32 \<Rightarrow> bool \<times> u32 \<times> u32" where
  "cmpxchg eax ecx locked = (if locked = eax then (True, eax, ecx) else (False, locked, locked))"

fun spin_lock_exec :: "spin_pc \<Rightarrow> u32 \<Rightarrow> spin_pc \<times> u32" where
  "spin_lock_exec SpinTryLock locked =
     (case cmpxchg 0 1 locked of (zf, eax, locked') \<Rightarrow> (if zf then SpinHeld else SpinPause, locked'))"
| "spin_lock_exec SpinPause locked = (if locked = 0 then SpinTryLock else SpinPause, locked)"
| "spin_lock_exec pc locked = (pc, locked)"

definition spin_unlock :: "u32 \<Rightarrow> u32" where
  "spin_unlock locked = 0"

definition spin_try_lock :: "u32 \<Rightarrow> bool \<times> u32" where
  "spin_try_lock locked = (case cmpxchg 0 1 locked of (zf, eax, locked') \<Rightarrow> (zf, locked'))"

definition spin_is_locked :: "u32 \<Rightarrow> bool" where
  "spin_is_locked locked \<longleftrightarrow> locked = 1"

record spin_state =
  spin_word :: u32
  spin_threads :: "pid_t \<Rightarrow> spin_pc"

inductive spin_step :: "spin_state \<Rightarrow> spin_state \<Rightarrow> bool" where
  call_lock: "spin_threads s t = SpinIdle \<Longrightarrow>
    spin_step s (s\<lparr>spin_threads := (spin_threads s)(t := SpinTryLock)\<rparr>)"
| in_lock: "spin_threads s t \<in> {SpinTryLock, SpinPause} \<Longrightarrow>
    spin_lock_exec (spin_threads s t) (spin_word s) = (pc, w) \<Longrightarrow>
    spin_step s \<lparr>spin_word = w, spin_threads = (spin_threads s)(t := pc)\<rparr>"
| call_try_lock: "spin_threads s t = SpinIdle \<Longrightarrow> spin_try_lock (spin_word s) = (ok, w) \<Longrightarrow>
    spin_step s \<lparr>spin_word = w, spin_threads = (spin_threads s)(t := (if ok then SpinHeld else SpinIdle))\<rparr>"
| call_unlock: "spin_threads s t = SpinHeld \<Longrightarrow>
    spin_step s \<lparr>spin_word = spin_unlock (spin_word s), spin_threads = (spin_threads s)(t := SpinIdle)\<rparr>"

definition spin_init :: "spin_state \<Rightarrow> bool" where
  "spin_init s \<longleftrightarrow> s = \<lparr>spin_word = 0, spin_threads = (\<lambda>_. SpinIdle)\<rparr>"

definition spin_holds :: "spin_state \<Rightarrow> pid_t \<Rightarrow> bool" where
  "spin_holds s t \<longleftrightarrow> spin_threads s t = SpinHeld"

definition spin_inv :: "spin_state \<Rightarrow> bool" where
  "spin_inv s \<longleftrightarrow> (spin_word s = 0 \<longrightarrow> (\<forall>t. \<not> spin_holds s t)) \<and>
     (\<forall>t u. spin_holds s t \<longrightarrow> spin_holds s u \<longrightarrow> t = u)"

lemma spin_step_inv: "spin_inv s \<Longrightarrow> spin_step s s' \<Longrightarrow> spin_inv s'"
  by (erule spin_step.cases)
    (auto simp: spin_inv_def spin_holds_def cmpxchg_def spin_try_lock_def spin_unlock_def
        split: if_splits)

interpretation sl: exclusive_lock spin_init spin_step spin_inv spin_holds
proof unfold_locales
  show "spin_inv s" if "spin_init s" for s using that by (simp add: spin_init_def spin_inv_def spin_holds_def)
  show "t = u" if "spin_inv s" "spin_holds s t" "spin_holds s u" for s t u
    using that by (simp add: spin_inv_def)
qed (rule spin_step_inv)

section \<open>Semaphore\<close>

record semaphore =
  f_current :: int
  f_max :: int

definition semaphore_new :: "int \<Rightarrow> int \<Rightarrow> semaphore" where
  "semaphore_new amount initial = \<lparr>f_current = initial, f_max = amount\<rparr>"

text \<open>The three atomic accesses of \<^verbatim>\<open>acquire\<close> and the one of \<^verbatim>\<open>release\<close>; the boolean is the test
  the code makes on the value read.\<close>

definition sem_load :: "semaphore \<Rightarrow> bool" where
  "sem_load s \<longleftrightarrow> f_current s > 0"

definition sem_take :: "semaphore \<Rightarrow> bool \<times> semaphore" where
  "sem_take s = (f_current s > 0, s\<lparr>f_current := f_current s - 1\<rparr>)"

definition sem_undo :: "semaphore \<Rightarrow> semaphore" where
  "sem_undo s = s\<lparr>f_current := f_current s + 1\<rparr>"

definition sem_release :: "semaphore \<Rightarrow> bool \<times> semaphore" where
  "sem_release s = (f_current s < f_max s, s\<lparr>f_current := f_current s + 1\<rparr>)"

text \<open>\<^verbatim>\<open>acquire\<close> run alone: with no unit left it spins forever, which is \<open>None\<close>.\<close>

definition sem_acquire :: "semaphore \<Rightarrow> semaphore option" where
  "sem_acquire s = (if sem_load s then Some (snd (sem_take s)) else None)"

section \<open>RecursiveMutex\<close>

record recursive_mutex =
  f_counter :: int
  f_recursion :: nat
  f_owner :: pid_t
  f_semaphore :: semaphore

definition rm_new :: recursive_mutex where
  "rm_new = \<lparr>f_counter = 0, f_recursion = 0, f_owner = 0, f_semaphore = semaphore_new 1 0\<rparr>"

definition rm_is_locked :: "recursive_mutex \<Rightarrow> bool" where
  "rm_is_locked m \<longleftrightarrow> f_counter m > 0"

subsection \<open>Steps of one thread\<close>

datatype rm_pc =
    Idle
  | LockCount | LockCheckOwner | SemLoad | SemTake | SemUndo | LockSetOwner | LockRecurse
  | UnlockRecurse | UnlockClearOwner | UnlockCount nat | SemRelease
  | TryOwner | TryCount | TryCas

text \<open>
  One atomic access of thread \<open>tid\<close>, from the program point and the number of \<^verbatim>\<open>lock\<close> calls the
  thread has completed and not yet undone.
\<close>

fun rm_exec :: "pid_t \<Rightarrow> rm_pc \<times> nat \<Rightarrow> recursive_mutex \<Rightarrow> (rm_pc \<times> nat) \<times> recursive_mutex" where
  "rm_exec tid (Idle, d) m = ((Idle, d), m)"
| "rm_exec tid (LockCount, d) m =
     ((if f_counter m > 0 then LockCheckOwner else LockSetOwner, d), m\<lparr>f_counter := f_counter m + 1\<rparr>)"
| "rm_exec tid (LockCheckOwner, d) m = ((if tid \<noteq> f_owner m then SemLoad else LockSetOwner, d), m)"
| "rm_exec tid (SemLoad, d) m = ((if sem_load (f_semaphore m) then SemTake else SemLoad, d), m)"
| "rm_exec tid (SemTake, d) m =
     (case sem_take (f_semaphore m) of
        (ok, s) \<Rightarrow> ((if ok then LockSetOwner else SemUndo, d), m\<lparr>f_semaphore := s\<rparr>))"
| "rm_exec tid (SemUndo, d) m = ((SemLoad, d), m\<lparr>f_semaphore := sem_undo (f_semaphore m)\<rparr>)"
| "rm_exec tid (LockSetOwner, d) m = ((LockRecurse, d), m\<lparr>f_owner := tid\<rparr>)"
| "rm_exec tid (LockRecurse, d) m = ((Idle, Suc d), m\<lparr>f_recursion := Suc (f_recursion m)\<rparr>)"
| "rm_exec tid (UnlockRecurse, d) m =
     (let r = f_recursion m - 1
      in ((if r = 0 then UnlockClearOwner else UnlockCount r, d - 1), m\<lparr>f_recursion := r\<rparr>))"
| "rm_exec tid (UnlockClearOwner, d) m = ((UnlockCount 0, d), m\<lparr>f_owner := 0\<rparr>)"
| "rm_exec tid (UnlockCount r, d) m =
     ((if f_counter m > 1 \<and> r = 0 then SemRelease else Idle, d), m\<lparr>f_counter := f_counter m - 1\<rparr>)"
| "rm_exec tid (SemRelease, d) m = ((Idle, d), m\<lparr>f_semaphore := snd (sem_release (f_semaphore m))\<rparr>)"
| "rm_exec tid (TryOwner, d) m = ((if f_owner m = tid then TryCount else TryCas, d), m)"
| "rm_exec tid (TryCount, d) m = ((LockRecurse, d), m\<lparr>f_counter := f_counter m + 1\<rparr>)"
| "rm_exec tid (TryCas, d) m =
     (if f_counter m = 0 then ((LockSetOwner, d), m\<lparr>f_counter := 1\<rparr>) else ((Idle, d), m))"

subsection \<open>Interleaving\<close>

record rm_state =
  rm_mutex :: recursive_mutex
  rm_threads :: "pid_t \<Rightarrow> rm_pc \<times> nat"

text \<open>An idle thread may call \<^verbatim>\<open>lock\<close> or \<^verbatim>\<open>try_lock\<close>, and \<^verbatim>\<open>unlock\<close> when it holds the mutex.\<close>

inductive rm_step :: "rm_state \<Rightarrow> rm_state \<Rightarrow> bool" where
  rm_call_lock: "t \<noteq> 0 \<Longrightarrow> rm_threads s t = (Idle, d) \<Longrightarrow> pc \<in> {LockCount, TryOwner} \<Longrightarrow>
    rm_step s (s\<lparr>rm_threads := (rm_threads s)(t := (pc, d))\<rparr>)"
| rm_call_unlock: "rm_threads s t = (Idle, d) \<Longrightarrow> 0 < d \<Longrightarrow>
    rm_step s (s\<lparr>rm_threads := (rm_threads s)(t := (UnlockRecurse, d))\<rparr>)"
| rm_run: "rm_exec t (rm_threads s t) (rm_mutex s) = (l, m) \<Longrightarrow>
    rm_step s \<lparr>rm_mutex = m, rm_threads = (rm_threads s)(t := l)\<rparr>"

definition rm_init :: "rm_state \<Rightarrow> bool" where
  "rm_init s \<longleftrightarrow> s = \<lparr>rm_mutex = rm_new, rm_threads = (\<lambda>_. (Idle, 0))\<rparr>"

definition rm_holds :: "rm_state \<Rightarrow> pid_t \<Rightarrow> bool" where
  "rm_holds s t \<longleftrightarrow> 0 < snd (rm_threads s t)"

subsection \<open>The invariant\<close>

text \<open>
  A thread owns the mutex from the access that gives it the mutex until the one that passes it
  on; it waits from the failed test of \<^verbatim>\<open>f_counter\<close> until it takes the semaphore's unit.
\<close>

fun rm_owning :: "rm_pc \<times> nat \<Rightarrow> bool" where
  "rm_owning (pc, d) \<longleftrightarrow> 0 < d \<or> pc \<in> {LockSetOwner, LockRecurse, UnlockClearOwner, SemRelease} \<or> (\<exists>r. pc = UnlockCount r)"

fun rm_waiting :: "rm_pc \<times> nat \<Rightarrow> bool" where
  "rm_waiting (pc, d) \<longleftrightarrow> d = 0 \<and> pc \<in> {LockCheckOwner, SemLoad, SemTake, SemUndo}"

text \<open>A thread's share of \<^verbatim>\<open>f_counter\<close>, and of the units borrowed from the semaphore.\<close>

fun rm_share :: "rm_pc \<times> nat \<Rightarrow> int" where
  "rm_share (pc, d) = int d + (case pc of
      LockCheckOwner \<Rightarrow> 1 | SemLoad \<Rightarrow> 1 | SemTake \<Rightarrow> 1 | SemUndo \<Rightarrow> 1 | LockSetOwner \<Rightarrow> 1
    | LockRecurse \<Rightarrow> 1 | UnlockClearOwner \<Rightarrow> 1 | UnlockCount r \<Rightarrow> 1 | _ \<Rightarrow> 0)"

fun rm_borrow :: "rm_pc \<times> nat \<Rightarrow> int" where
  "rm_borrow (pc, d) = (if pc = SemUndo then 1 else 0)"

fun rm_local :: "rm_pc \<times> nat \<Rightarrow> bool" where
  "rm_local (pc, d) \<longleftrightarrow> (case pc of
      SemLoad \<Rightarrow> d = 0 | SemTake \<Rightarrow> d = 0 | SemUndo \<Rightarrow> d = 0 | UnlockRecurse \<Rightarrow> 0 < d
    | UnlockClearOwner \<Rightarrow> d = 0 | UnlockCount r \<Rightarrow> r = d | SemRelease \<Rightarrow> d = 0
    | TryCount \<Rightarrow> 0 < d | TryCas \<Rightarrow> d = 0 | _ \<Rightarrow> True)"

fun rm_is_owner :: "rm_pc \<times> nat \<Rightarrow> bool" where
  "rm_is_owner (pc, d) \<longleftrightarrow> 0 < d \<or> pc \<in> {LockRecurse, UnlockClearOwner}"

definition total :: "('a \<Rightarrow> int) \<Rightarrow> (pid_t \<Rightarrow> 'a) \<Rightarrow> int" where
  "total g th = (\<Sum>t\<in>UNIV. g (th t))"

definition rm_units :: "rm_state \<Rightarrow> int" where
  "rm_units s = f_current (f_semaphore (rm_mutex s)) + total rm_borrow (rm_threads s)"

definition rm_inv :: "rm_state \<Rightarrow> bool" where
  "rm_inv s \<longleftrightarrow>
     rm_threads s 0 = (Idle, 0) \<and> (\<forall>t. rm_local (rm_threads s t)) \<and>
     (\<forall>t u. rm_owning (rm_threads s t) \<longrightarrow> rm_owning (rm_threads s u) \<longrightarrow> t = u) \<and>
     (\<forall>t. t \<noteq> 0 \<longrightarrow> (f_owner (rm_mutex s) = t \<longleftrightarrow> rm_is_owner (rm_threads s t))) \<and>
     (\<forall>t. 0 < snd (rm_threads s t) \<longrightarrow> f_recursion (rm_mutex s) = snd (rm_threads s t)) \<and>
     ((\<forall>t. snd (rm_threads s t) = 0) \<longrightarrow> f_recursion (rm_mutex s) = 0) \<and>
     f_counter (rm_mutex s) = total rm_share (rm_threads s) \<and>
     0 \<le> rm_units s \<and> rm_units s \<le> 1 \<and>
     (0 < rm_units s \<longrightarrow> (\<forall>t. \<not> rm_owning (rm_threads s t))) \<and>
     (0 < rm_units s \<or> (\<exists>t. fst (rm_threads s t) = SemRelease) \<longrightarrow> (\<exists>u. rm_waiting (rm_threads s u))) \<and>
     (0 < f_counter (rm_mutex s) \<longrightarrow> 0 < rm_units s \<or> (\<exists>t. rm_owning (rm_threads s t)))"

lemma total_upd: "total g (th(t := x)) = total g th - g (th t) + g x"
  unfolding total_def by (subst (1 2) sum.remove [of _ t]) (auto intro: sum.cong)

lemma total_nonneg: "(\<And>x. 0 \<le> g x) \<Longrightarrow> 0 \<le> total g th"
  by (simp add: total_def sum_nonneg)

lemma total_ge: "(\<And>x. 0 \<le> g x) \<Longrightarrow> g (th t) \<le> total g th"
  unfolding total_def by (rule member_le_sum) auto

lemma total_ge2: "(\<And>x. 0 \<le> g x) \<Longrightarrow> t \<noteq> u \<Longrightarrow> g (th t) + g (th u) \<le> total g th"
  unfolding total_def using sum_mono2 [of UNIV "{t, u}" "\<lambda>t. g (th t)"] by simp

lemma total_gr_ex:
  assumes "g (th t) < total g th"
  shows "\<exists>u. u \<noteq> t \<and> 0 < g (th u)"
proof (rule ccontr)
  assume "\<not> ?thesis"
  then have "(\<Sum>u\<in>UNIV - {t}. g (th u)) \<le> 0" by (intro sum_nonpos) (auto simp: not_less)
  with assms show False unfolding total_def by (simp add: sum.remove [of UNIV t])
qed

lemma rm_share_nonneg [simp]: "0 \<le> rm_share x"
  by (cases x) (auto split: rm_pc.splits)

lemma rm_share_waiting: "rm_waiting x \<Longrightarrow> 0 < rm_share x"
  by (cases x) (auto split: rm_pc.splits)

lemma rm_share_pos: "rm_local x \<Longrightarrow> 0 < rm_share x \<Longrightarrow> rm_owning x \<or> rm_waiting x"
  by (cases x) (auto split: rm_pc.splits)

lemma rm_owning_share: "rm_owning x \<Longrightarrow> fst x \<noteq> SemRelease \<Longrightarrow> 0 < rm_share x"
  by (cases x) (auto split: rm_pc.splits)

lemma rm_invD:
  assumes "rm_inv s"
  shows "rm_threads s 0 = (Idle, 0)" "rm_local (rm_threads s t)"
    "rm_owning (rm_threads s t) \<Longrightarrow> rm_owning (rm_threads s u) \<Longrightarrow> t = u"
    "t \<noteq> 0 \<Longrightarrow> f_owner (rm_mutex s) = t \<longleftrightarrow> rm_is_owner (rm_threads s t)"
    "0 < snd (rm_threads s t) \<Longrightarrow> f_recursion (rm_mutex s) = snd (rm_threads s t)"
    "(\<And>t. snd (rm_threads s t) = 0) \<Longrightarrow> f_recursion (rm_mutex s) = 0"
    "f_counter (rm_mutex s) = total rm_share (rm_threads s)"
    "0 \<le> rm_units s" "rm_units s \<le> 1"
    "0 < rm_units s \<Longrightarrow> \<not> rm_owning (rm_threads s t)"
    "0 < rm_units s \<or> fst (rm_threads s t) = SemRelease \<Longrightarrow> \<exists>u. rm_waiting (rm_threads s u)"
    "0 < f_counter (rm_mutex s) \<Longrightarrow> 0 < rm_units s \<or> (\<exists>t. rm_owning (rm_threads s t))"
  using assms unfolding rm_inv_def by simp_all blast

lemma rm_invI:
  assumes "rm_threads s 0 = (Idle, 0)" "\<And>t. rm_local (rm_threads s t)"
    "\<And>t u. rm_owning (rm_threads s t) \<Longrightarrow> rm_owning (rm_threads s u) \<Longrightarrow> t = u"
    "\<And>t. t \<noteq> 0 \<Longrightarrow> f_owner (rm_mutex s) = t \<longleftrightarrow> rm_is_owner (rm_threads s t)"
    "\<And>t. 0 < snd (rm_threads s t) \<Longrightarrow> f_recursion (rm_mutex s) = snd (rm_threads s t)"
    "\<forall>t. snd (rm_threads s t) = 0 \<Longrightarrow> f_recursion (rm_mutex s) = 0"
    "f_counter (rm_mutex s) = total rm_share (rm_threads s)"
    "0 \<le> rm_units s" "rm_units s \<le> 1"
    "\<And>t. 0 < rm_units s \<Longrightarrow> \<not> rm_owning (rm_threads s t)"
    "0 < rm_units s \<Longrightarrow> \<exists>u. rm_waiting (rm_threads s u)"
    "\<And>t. fst (rm_threads s t) = SemRelease \<Longrightarrow> \<exists>u. rm_waiting (rm_threads s u)"
    "0 < f_counter (rm_mutex s) \<Longrightarrow> 0 < rm_units s \<or> (\<exists>t. rm_owning (rm_threads s t))"
  shows "rm_inv s"
  unfolding rm_inv_def
  by (intro conjI allI impI; (elim disjE exE)?; (rule assms; assumption)?)

lemma rm_free:
  assumes "rm_inv s" "f_counter (rm_mutex s) \<le> 0"
  shows "\<not> rm_owning (rm_threads s t)" "\<not> rm_waiting (rm_threads s t)" "rm_units s = 0"
proof -
  have 0: "rm_share (rm_threads s u) = 0" for u
  proof (rule antisym)
    show "rm_share (rm_threads s u) \<le> 0"
      using assms(2) total_ge [of rm_share "rm_threads s" u] by (simp add: rm_invD(7) [OF assms(1)])
  qed simp
  show w: "\<not> rm_waiting (rm_threads s u)" for u using rm_share_waiting [of "rm_threads s u"] 0 by force
  show "rm_units s = 0" using rm_invD(8,11) [OF assms(1)] w by force
  show "\<not> rm_owning (rm_threads s t)"
    using rm_owning_share [of "rm_threads s t"] 0 [of t] rm_invD(11) [OF assms(1), of t] w by fastforce
qed

lemma rm_waiter:
  assumes "rm_inv s" "rm_threads s t = (UnlockCount 0, d)" "1 < f_counter (rm_mutex s)"
  shows "\<exists>u. u \<noteq> t \<and> rm_waiting (rm_threads s u)"
proof -
  have "d = 0" using rm_invD(2) [OF assms(1), of t] assms(2) by simp
  then obtain u where u: "u \<noteq> t" "0 < rm_share (rm_threads s u)"
    using total_gr_ex [of rm_share "rm_threads s" t] assms(2,3) by (auto simp: rm_invD(7) [OF assms(1)])
  moreover have "\<not> rm_owning (rm_threads s u)"
    using rm_invD(3) [OF assms(1), of u t] u(1) assms(2) by auto
  ultimately show ?thesis using rm_share_pos [OF rm_invD(2) [OF assms(1)]] by blast
qed

lemma rm_is_owner_owning: "rm_is_owner x \<Longrightarrow> rm_owning x"
  by (cases x) auto

lemma rm_depth_owning: "0 < snd x \<Longrightarrow> rm_owning x"
  by (cases x) auto

lemma rm_release_owning: "fst x = SemRelease \<Longrightarrow> rm_owning x"
  by (cases x) auto

text \<open>What a step of thread \<open>t\<close> to the local state \<open>l\<close> and the mutex \<open>m\<close> has to satisfy.\<close>

lemma rm_inv_update:
  assumes inv: "rm_inv s" and t: "t \<noteq> 0"
    and l: "rm_local l" "rm_owning l \<Longrightarrow> rm_owning (rm_threads s t) \<or> (\<forall>u. \<not> rm_owning (rm_threads s u))"
    and own: "f_owner m = t \<longleftrightarrow> rm_is_owner l"
      "f_owner m = f_owner (rm_mutex s) \<or> rm_owning (rm_threads s t) \<and> f_owner m \<in> {0, t}"
    and rec: "f_recursion m = f_recursion (rm_mutex s) \<and> snd l = snd (rm_threads s t) \<or>
      rm_owning (rm_threads s t) \<and> f_recursion m = snd l"
    and cnt: "f_counter m = f_counter (rm_mutex s) - rm_share (rm_threads s t) + rm_share l"
    and k: "k = rm_units s + (f_current (f_semaphore m) - f_current (f_semaphore (rm_mutex s)))
        - rm_borrow (rm_threads s t) + rm_borrow l" "0 \<le> k" "k \<le> 1"
      "0 < k \<Longrightarrow> \<not> rm_owning l \<and> (0 < rm_units s \<or> fst (rm_threads s t) = SemRelease)"
    and w: "rm_waiting (rm_threads s t) \<Longrightarrow> rm_waiting l \<or> k \<le> 0 \<and> (\<forall>u. \<not> rm_owning (rm_threads s u))"
      "fst l = SemRelease \<Longrightarrow> \<exists>u. u \<noteq> t \<and> rm_waiting (rm_threads s u)"
    and live: "0 < f_counter m \<Longrightarrow> rm_owning l \<or> 0 < k \<or>
      \<not> rm_owning (rm_threads s t) \<and> k = rm_units s \<and> 0 < f_counter (rm_mutex s)"
  shows "rm_inv \<lparr>rm_mutex = m, rm_threads = (rm_threads s)(t := l)\<rparr>" (is "rm_inv ?s")
proof -
  note D = rm_invD [OF inv]
  have units: "rm_units ?s = k" by (simp add: k(1) rm_units_def total_upd)
  have other: "\<not> rm_owning (rm_threads s u)" if "rm_owning (rm_threads s t)" "u \<noteq> t" for u
    using D(3) that by blast
  have excl: "a = b" if "rm_owning (((rm_threads s)(t := l)) a)" "rm_owning (((rm_threads s)(t := l)) b)" for a b
  proof (cases "a = t"; cases "b = t")
    assume "a \<noteq> t" "b \<noteq> t"
    then show ?thesis using that D(3) [of a b] by simp
  next
    assume "a = t" "b \<noteq> t"
    then show ?thesis using that l(2) other [of b] by auto
  next
    assume "a \<noteq> t" "b = t"
    then show ?thesis using that l(2) other [of a] by auto
  qed simp
  have owner: "f_owner m = u \<longleftrightarrow> rm_is_owner (((rm_threads s)(t := l)) u)" if "u \<noteq> 0" for u
    using that own t D(4) [of u] other [of u] rm_is_owner_owning [of "rm_threads s u"] by auto
  have depth: "f_recursion m = snd (((rm_threads s)(t := l)) u)" if "0 < snd (((rm_threads s)(t := l)) u)" for u
  proof (cases "u = t")
    case False
    then show ?thesis using that rec D(5) [of u] other [of u] rm_depth_owning by auto
  next
    case True
    then show ?thesis using that rec D(5) [of t] by auto
  qed
  have zero: "f_recursion m = 0" if z: "\<forall>u. snd (((rm_threads s)(t := l)) u) = 0"
  proof (cases "rm_owning (rm_threads s t) \<and> f_recursion m = snd l")
    case True
    then show ?thesis using z by (metis fun_upd_same)
  next
    case False
    then have "snd (rm_threads s u) = 0" for u using z rec by (cases "u = t") (auto dest: spec [of _ u] spec [of _ t])
    then show ?thesis using D(6) rec False by auto
  qed
  have wait: "\<exists>u. rm_waiting (((rm_threads s)(t := l)) u)" if "rm_waiting (rm_threads s v)" "0 < k \<or> (\<exists>u. rm_owning (rm_threads s u))" for v
    using that w(1) by (cases "v = t") (auto intro: exI [of _ t] exI [of _ v])
  have release: "\<exists>u. rm_waiting (((rm_threads s)(t := l)) u)" if "fst (((rm_threads s)(t := l)) u) = SemRelease" for u
  proof (cases "u = t")
    case True
    then show ?thesis using that w(2) by force
  next
    case False
    then have r: "fst (rm_threads s u) = SemRelease" using that by simp
    then obtain v where "rm_waiting (rm_threads s v)" using D(11) [of u] by blast
    then show ?thesis using wait r rm_release_owning by blast
  qed
  have unit_wait: "\<exists>u. rm_waiting (((rm_threads s)(t := l)) u)" if "0 < k"
    using that k(4) D(11) [of t] wait by blast
  have unit_free: "\<not> rm_owning (((rm_threads s)(t := l)) u)" if "0 < k" for u
    using k(4) [OF that] D(10) [of u] other [of u] rm_release_owning [of "rm_threads s t"] by auto
  have count: "f_counter m = total rm_share ((rm_threads s)(t := l))"
    using cnt by (simp add: D(7) total_upd)
  have loc: "rm_local (((rm_threads s)(t := l)) u)" for u using D(2) l(1) by simp
  have alive: "0 < k \<or> (\<exists>u. rm_owning (((rm_threads s)(t := l)) u))" if pos: "0 < f_counter m"
  proof (cases "rm_owning l \<or> 0 < k")
    case True
    then show ?thesis by (metis fun_upd_same)
  next
    case False
    then obtain u where "u \<noteq> t" "rm_owning (rm_threads s u)" using live [OF pos] D(12) by fastforce
    then show ?thesis by (metis fun_upd_other)
  qed
  have idle: "((rm_threads s)(t := l)) 0 = (Idle, 0)" using D(1) t by simp
  show ?thesis
    by (rule rm_invI; unfold units rm_state.simps;
        (rule idle loc owner depth zero count k(2,3) release unit_wait unit_free alive | rule excl); assumption?)
qed
lemma rm_exec_inv:
  assumes "rm_inv s" "rm_exec t (rm_threads s t) (rm_mutex s) = (l, m)"
  shows "rm_inv \<lparr>rm_mutex = m, rm_threads = (rm_threads s)(t := l)\<rparr>"
proof (cases "t = 0")
  case True
  then have "l = rm_threads s t" "m = rm_mutex s" using assms(2) rm_invD(1) [OF assms(1)] by auto
  then have "\<lparr>rm_mutex = m, rm_threads = (rm_threads s)(t := l)\<rparr> = s" by simp
  then show ?thesis using assms(1) by simp
next
  case False
  obtain pc d where pd: "rm_threads s t = (pc, d)" by fastforce
  note D = rm_invD [OF assms(1)]
  have own: "f_owner (rm_mutex s) = t \<longleftrightarrow> rm_is_owner (pc, d)" using D(4) [OF False] pd by simp
  have loc: "rm_local (pc, d)" using D(2) [of t] pd by simp
  have none: "rm_units s = 0" if "rm_owning (pc, d)" using D(10) [of t] D(8) that pd by force
  have depth: "f_recursion (rm_mutex s) = d" if "rm_owning (pc, d)"
  proof (cases "\<exists>u. 0 < snd (rm_threads s u)")
    case True
    then obtain u where "0 < snd (rm_threads s u)" by blast
    moreover from this have "u = t" using D(3) [of u t] that pd by (simp add: rm_depth_owning)
    ultimately show ?thesis using D(5) [of t] pd by simp
  next
    case False
    then show ?thesis using D(6) pd by (metis gr0I snd_conv)
  qed
  have free: "0 < rm_units s \<Longrightarrow> \<not> rm_owning (rm_threads s u)" for u by (rule D(10))
  have "0 \<le> total rm_borrow (rm_threads s)" by (rule total_nonneg) (auto simp: rm_borrow.simps)
  then have cur: "f_current (f_semaphore (rm_mutex s)) \<le> rm_units s" by (simp add: rm_units_def)
  note wait = rm_waiter [OF assms(1), of t, unfolded pd] and cfree = rm_free [OF assms(1)]
  have exec: "rm_exec t (pc, d) (rm_mutex s) = (l, m)" using assms(2) pd by simp
  note ops = Let_def sem_take_def sem_undo_def sem_release_def
  let ?k = "rm_units s + (f_current (f_semaphore m) - f_current (f_semaphore (rm_mutex s)))
        - rm_borrow (rm_threads s t) + rm_borrow l"
  have k: "?k = rm_units s + (case pc of SemTake \<Rightarrow> if f_current (f_semaphore (rm_mutex s)) > 0 then - 1 else 0
      | SemRelease \<Rightarrow> 1 | _ \<Rightarrow> 0)"
    using exec by (cases pc) (auto simp: ops pd split: if_splits)
  show ?thesis
  proof (rule rm_inv_update [OF assms(1) False _ _ _ _ _ _ refl], unfold k, unfold pd)
    show "rm_local l" using exec loc depth own by (cases pc) (auto simp: ops split: if_splits)
    show "rm_owning (pc, d) \<or> (\<forall>u. \<not> rm_owning (rm_threads s u))" if "rm_owning l"
      using exec that loc own cur free cfree(1) by (cases pc) (auto simp: ops split: if_splits)
    show "f_owner m = t \<longleftrightarrow> rm_is_owner l"
      using exec loc own False depth by (cases pc) (auto simp: ops split: if_splits)
    show "f_owner m = f_owner (rm_mutex s) \<or> rm_owning (pc, d) \<and> f_owner m \<in> {0, t}"
      using exec by (cases pc) (auto simp: ops split: if_splits)
    show "f_recursion m = f_recursion (rm_mutex s) \<and> snd l = snd (pc, d) \<or> rm_owning (pc, d) \<and> f_recursion m = snd l"
      using exec loc depth by (cases pc) (auto simp: ops split: if_splits)
    show "f_counter m = f_counter (rm_mutex s) - rm_share (pc, d) + rm_share l"
      using exec loc depth by (cases pc) (auto simp: ops split: if_splits)
  next
    let ?c = "rm_units s + (case pc of SemTake \<Rightarrow> if f_current (f_semaphore (rm_mutex s)) > 0 then - 1 else 0
      | SemRelease \<Rightarrow> 1 | _ \<Rightarrow> 0)"
    show "0 \<le> ?c" using D(8) cur by (cases pc) auto
    show "?c \<le> 1" using D(9) none by (cases pc) auto
    show "\<not> rm_owning l \<and> (0 < rm_units s \<or> fst (pc, d) = SemRelease)" if "0 < ?c"
    proof (cases "0 < rm_units s")
      case True
      then have "\<not> rm_owning (pc, d)" "\<not> f_counter (rm_mutex s) \<le> 0" using free [of t] pd cfree(3) by auto
      with True that show ?thesis using exec loc own D(9) by (cases pc) (auto simp: ops split: if_splits)
    next
      case False
      then show ?thesis using that exec loc by (cases pc) (auto split: if_splits)
    qed
    show "rm_waiting l \<or> ?c \<le> 0 \<and> (\<forall>u. \<not> rm_owning (rm_threads s u))" if "rm_waiting (pc, d)"
    proof (cases "rm_waiting l")
      case False
      then have c: "pc = SemTake" "0 < f_current (f_semaphore (rm_mutex s))"
        using that exec own by (cases pc; auto simp: ops split: if_splits)+
      then have "\<not> rm_owning (rm_threads s u)" for u using free [of u] cur by simp
      then show ?thesis using c D(9) by simp
    qed simp
    show "\<exists>u. u \<noteq> t \<and> rm_waiting (rm_threads s u)" if "fst l = SemRelease"
      using that exec wait by (cases pc) (auto simp: ops split: if_splits)
    show "rm_owning l \<or> 0 < ?c \<or> \<not> rm_owning (pc, d) \<and> ?c = rm_units s \<and> 0 < f_counter (rm_mutex s)"
      if "0 < f_counter m"
      using that exec loc depth D(8) by (cases pc) (auto simp: ops split: if_splits)
  qed
qed

lemma rm_call_inv:
  assumes "rm_inv s" "rm_threads s t = (Idle, d)" "t \<noteq> 0" "pc \<in> {LockCount, TryOwner} \<or> pc = UnlockRecurse \<and> 0 < d"
  shows "rm_inv (s\<lparr>rm_threads := (rm_threads s)(t := (pc, d))\<rparr>)"
proof -
  have none: "d = 0 \<or> rm_units s \<le> 0" using rm_invD(10) [OF assms(1), of t] assms(2) by force
  have "rm_inv \<lparr>rm_mutex = rm_mutex s, rm_threads = (rm_threads s)(t := (pc, d))\<rparr>"
  proof (rule rm_inv_update [OF assms(1,3) _ _ _ _ _ _ refl], unfold assms(2))
    show "f_owner (rm_mutex s) = t \<longleftrightarrow> rm_is_owner (pc, d)"
      using rm_invD(4) [OF assms(1,3)] assms(2,4) by auto
  qed (use rm_invD(8,9) [OF assms(1)] none assms(4) in auto)
  then show ?thesis by (cases s) simp
qed

lemma rm_step_inv:
  assumes "rm_step s s'" "rm_inv s"
  shows "rm_inv s'"
  using assms
proof cases
  case (rm_call_lock t d pc)
  then show ?thesis using rm_call_inv [OF assms(2)] by blast
next
  case (rm_call_unlock t d)
  then have "t \<noteq> 0" using rm_invD(1) [OF assms(2)] by auto
  then show ?thesis using rm_call_unlock rm_call_inv [OF assms(2)] by blast
next
  case (rm_run t l m)
  then show ?thesis using rm_exec_inv [OF assms(2)] by blast
qed

lemma rm_init_inv: "rm_init s \<Longrightarrow> rm_inv s"
  by (rule rm_invI)
    (simp_all add: rm_init_def rm_new_def semaphore_new_def rm_units_def total_def)

interpretation rmx: exclusive_lock rm_init rm_step rm_inv rm_holds
proof unfold_locales
  show "t = u" if "rm_inv s" "rm_holds s t" "rm_holds s u" for s t u
    using that rm_invD(3) rm_depth_owning unfolding rm_holds_def by blast
qed (auto intro: rm_init_inv rm_step_inv)

section \<open>The locks used by one thread at a time\<close>

text \<open>
  \<^verbatim>\<open>lock\<close>, \<^verbatim>\<open>unlock\<close> and \<^verbatim>\<open>try_lock\<close> run without interruption, as code with a single thread sees
  them: \<open>None\<close> is a thread that waits for another. The boolean of \<^verbatim>\<open>unlock\<close> is its assertion.
\<close>

definition rm_lock :: "pid_t \<Rightarrow> recursive_mutex \<Rightarrow> recursive_mutex option" where
  "rm_lock tid m =
     (let m1 = m\<lparr>f_counter := f_counter m + 1\<rparr>
      in map_option (\<lambda>m2. m2\<lparr>f_owner := tid, f_recursion := Suc (f_recursion m2)\<rparr>)
           (if f_counter m > 0 \<and> tid \<noteq> f_owner m1
            then map_option (\<lambda>s. m1\<lparr>f_semaphore := s\<rparr>) (sem_acquire (f_semaphore m1)) else Some m1))"

definition rm_unlock :: "pid_t \<Rightarrow> recursive_mutex \<Rightarrow> bool \<times> recursive_mutex" where
  "rm_unlock tid m =
     (let r = f_recursion m - 1;
          m1 = m\<lparr>f_recursion := r\<rparr>;
          m2 = (if r = 0 then m1\<lparr>f_owner := 0\<rparr> else m1);
          m3 = m2\<lparr>f_counter := f_counter m2 - 1\<rparr>
      in (tid = f_owner m,
          if f_counter m2 > 1 \<and> r = 0 then m3\<lparr>f_semaphore := snd (sem_release (f_semaphore m3))\<rparr> else m3))"

definition rm_try_lock :: "pid_t \<Rightarrow> recursive_mutex \<Rightarrow> bool \<times> recursive_mutex" where
  "rm_try_lock tid m =
     (if f_owner m = tid then (True, m\<lparr>f_counter := f_counter m + 1, f_recursion := Suc (f_recursion m)\<rparr>)
      else if f_counter m = 0 then (True, m\<lparr>f_counter := 1, f_owner := tid, f_recursion := Suc (f_recursion m)\<rparr>)
      else (False, m))"

text \<open>A mutex that nobody holds, or that \<open>tid\<close> holds with nobody waiting.\<close>

definition rm_available :: "pid_t \<Rightarrow> recursive_mutex \<Rightarrow> bool" where
  "rm_available tid m \<longleftrightarrow> tid \<noteq> 0 \<and> f_counter m = int (f_recursion m) \<and>
     f_owner m = (if f_recursion m = 0 then 0 else tid)"

lemma rm_lock_available:
  assumes "rm_available tid m"
  shows "rm_lock tid m = Some (m\<lparr>f_counter := f_counter m + 1, f_owner := tid, f_recursion := Suc (f_recursion m)\<rparr>)"
    "rm_available tid (m\<lparr>f_counter := f_counter m + 1, f_owner := tid, f_recursion := Suc (f_recursion m)\<rparr>)"
  using assms by (auto simp: rm_lock_def rm_available_def Let_def)

lemma rm_lock_unlock:
  assumes "rm_available tid m"
  shows "rm_unlock tid (m\<lparr>f_counter := f_counter m + 1, f_owner := tid, f_recursion := Suc (f_recursion m)\<rparr>) = (True, m)"
  using assms by (auto simp: rm_unlock_def rm_available_def Let_def)

section \<open>Properties\<close>

text \<open>\<^verbatim>\<open>SpinLock\<close>: in every interleaving of \<^verbatim>\<open>lock\<close>, \<^verbatim>\<open>try_lock\<close> and \<^verbatim>\<open>unlock\<close> calls, two threads never
  hold the lock at once.\<close>
theorem spin_lock_exclusive:
  assumes "spin_init s" "spin_step\<^sup>*\<^sup>* s s'" "spin_holds s' t" "spin_holds s' u"
  shows "t = u"
  by (rule sl.mutual_exclusion [OF assms])

theorem spin_lock_exclusive_witness:
  "\<exists>s s'. spin_init s \<and> spin_step\<^sup>*\<^sup>* s s' \<and> {u. spin_holds s' u} = {5}"
proof -
  let ?s = "\<lparr>spin_word = 0, spin_threads = (\<lambda>_. SpinIdle)\<rparr>"
  let ?s' = "\<lparr>spin_word = 1, spin_threads = (\<lambda>_. SpinIdle)(5 := SpinHeld)\<rparr>"
  have i: "spin_init ?s" by (simp add: spin_init_def)
  have r: "spin_step\<^sup>*\<^sup>* ?s ?s'"
    using call_try_lock [of ?s 5 True 1] by (auto simp: spin_try_lock_def cmpxchg_def)
  have h: "spin_holds ?s' 5" by (simp add: spin_holds_def)
  then have "{u. spin_holds ?s' u} = {5}" using spin_lock_exclusive [OF i r h] by auto
  with i r show ?thesis by blast
qed



end
