(* ===== verification/Pager.thy ===== *)
theory Pager
  imports Physical Locking "HOL-Library.Monad_Syntax"
begin

unbundle bit_operations_syntax

text \<open>
  The virtual memory manager (\<^verbatim>\<open>kernel/src/memory/virtual.cpp\<close>): the four-level page tables of
  an address space, changed through a window of work pages that the control page maps.

  Table frames are a function from frame addresses to their 512 entries. The control page is
  itself such a frame, and \<^verbatim>\<open>WORKPAGE(i)\<close> is the frame whose address entry \<open>i\<close> of the control page
  holds. A work page index \<open>-1\<close> is \<open>None\<close>. The bits of a \<^verbatim>\<open>PageFlags\<close> that its constructors leave
  unset read as 0. \<^verbatim>\<open>ASSERT_F\<close> logs a message and continues. An operation is \<open>None\<close> where the code
  does not return, reads an uninitialised work page index, or leaves the page status array.
\<close>

section \<open>Page table entries\<close>

definition e_present :: "u64 \<Rightarrow> bool" where
  "e_present e \<longleftrightarrow> bit e 0"

definition e_address :: "u64 \<Rightarrow> u64" where
  "e_address e = take_bit 40 (drop_bit 12 e)"

text \<open>\<^verbatim>\<open>structured.address << 12\<close>\<close>

definition table_addr :: "u64 \<Rightarrow> physaddr_t" where
  "table_addr e = push_bit 12 (e_address e)"

definition put_bit :: "nat \<Rightarrow> bool \<Rightarrow> u64 \<Rightarrow> u64" where
  "put_bit n b e = (if b then set_bit n e else unset_bit n e)"

definition put_address :: "u64 \<Rightarrow> u64 \<Rightarrow> u64" where
  "put_address a e = (e AND NOT (push_bit 12 (mask 40))) OR push_bit 12 (take_bit 40 a)"

record page_flags =
  present :: bool
  writable :: bool
  user_accesible :: bool
  executable :: bool
  global :: bool
  cache_disable :: bool
  dirty :: bool

definition flags_default :: page_flags where
  "flags_default = \<lparr>present = True, writable = False, user_accesible = False, executable = False,
     global = False, cache_disable = False, dirty = False\<rparr>"

definition set_entry_flags :: "page_flags \<Rightarrow> u64 \<Rightarrow> u64" where
  "set_entry_flags fl e =
     put_bit 6 (dirty fl) (put_bit 4 (cache_disable fl) (put_bit 8 (global fl)
       (put_bit 63 (\<not> executable fl) (put_bit 2 (user_accesible fl) (put_bit 1 (writable fl)
       (put_bit 0 True e))))))"

definition map_entry :: "u64 \<Rightarrow> page_flags \<Rightarrow> u64 \<Rightarrow> u64" where
  "map_entry phys fl e = set_entry_flags fl (put_address phys e)"

definition entry_flags :: "u64 \<Rightarrow> page_flags" where
  "entry_flags e =
     (let fl = flags_default\<lparr>present := e_present e\<rparr>
      in if present fl then
           fl\<lparr>writable := bit e 1, user_accesible := bit e 2, executable := \<not> bit e 63,
              global := bit e 8, cache_disable := bit e 4, dirty := bit e 6\<rparr>
         else fl)"

section \<open>State\<close>

type_synonym table_store = "physaddr_t \<Rightarrow> nat \<Rightarrow> u64"

record vmem =
  frames :: table_store
  control_frame :: physaddr_t
  vm_pmm :: pmm
  kernel_pd0 :: physaddr_t
  kernel_pd1 :: physaddr_t
  first_potential_kernel_page :: virtaddr_t
  kernel_locker :: recursive_mutex
  pagers :: "physaddr_t list"
  kernel_pager :: physaddr_t
  cr3_register :: u64
  running :: pid_t
  failed_asserts :: "string list"

record pager =
  pml4 :: physaddr_t
  work_pages :: "nat option list"
  current_pml4e :: int
  current_pdpte :: int
  current_pde :: int
  pager_locker :: recursive_mutex
  first_potential_page :: virtaddr_t

type_synonym pstate = "pager \<times> vmem"

definition KERNEL_START :: virtaddr_t where "KERNEL_START = 0xFFFFFFFF80000000"
definition BASE_MAPPING_ADDRESS :: virtaddr_t where "BASE_MAPPING_ADDRESS = 0x1000"

definition assert_f :: "bool \<Rightarrow> string \<Rightarrow> vmem \<Rightarrow> vmem" where
  "assert_f c msg v = (if c then v else v\<lparr>failed_asserts := failed_asserts v @ [msg]\<rparr>)"

definition vm_palloc :: "vmem \<Rightarrow> (physaddr_t \<times> vmem) option" where
  "vm_palloc v = map_option (\<lambda>(p, a). (a, v\<lparr>vm_pmm := p\<rparr>)) (palloc 1 (vm_pmm v))"

definition klock :: "vmem \<Rightarrow> vmem option" where
  "klock v = map_option (\<lambda>m. v\<lparr>kernel_locker := m\<rparr>) (rm_lock (running v) (kernel_locker v))"

definition kunlock :: "vmem \<Rightarrow> vmem" where
  "kunlock v = (case rm_unlock (running v) (kernel_locker v) of
     (ok, m) \<Rightarrow> assert_f ok ''You are not the owner of this lock'' (v\<lparr>kernel_locker := m\<rparr>))"

text \<open>A \<^verbatim>\<open>for\<close> loop over the elements of a list whose body may fail.\<close>

fun foldM :: "('a \<Rightarrow> 's \<Rightarrow> 's option) \<Rightarrow> 'a list \<Rightarrow> 's \<Rightarrow> 's option" where
  "foldM f [] s = Some s"
| "foldM f (x # xs) s = Option.bind (f x s) (foldM f xs)"

section \<open>Work pages\<close>

definition write_entry :: "physaddr_t \<Rightarrow> nat \<Rightarrow> u64 \<Rightarrow> vmem \<Rightarrow> vmem" where
  "write_entry f i x v = v\<lparr>frames := (frames v)(f := (frames v f)(i := x))\<rparr>"

definition zero_frame :: "physaddr_t \<Rightarrow> vmem \<Rightarrow> vmem" where
  "zero_frame f v = v\<lparr>frames := (frames v)(f := (\<lambda>_. 0))\<rparr>"

definition control :: "vmem \<Rightarrow> nat \<Rightarrow> u64" where
  "control v i = frames v (control_frame v) i"

definition workpage :: "vmem \<Rightarrow> nat \<Rightarrow> physaddr_t" where
  "workpage v i = table_addr (control v i)"

definition aquireWorkpageIndex :: "vmem \<Rightarrow> (nat \<times> vmem) option" where
  "aquireWorkpageIndex v =
     (case find (\<lambda>i. \<not> e_present (control v i)) [0..<511] of
        None \<Rightarrow> None
      | Some i \<Rightarrow> Some (i, write_entry (control_frame v) i (put_bit 0 True (control v i)) v))"

definition releaseWorkpageIndex :: "nat \<Rightarrow> vmem \<Rightarrow> vmem" where
  "releaseWorkpageIndex i v = write_entry (control_frame v) i (put_bit 0 False (control v i)) v"

definition getWorkpage :: "nat \<Rightarrow> pstate \<Rightarrow> (nat \<times> pstate) option" where
  "getWorkpage k st =
     (case st of (pg, v) \<Rightarrow>
       (case work_pages pg ! k of
          Some w \<Rightarrow> Some (w, st)
        | None \<Rightarrow> do {
            (w, v) \<leftarrow> aquireWorkpageIndex v;
            Some (w, pg\<lparr>work_pages := (work_pages pg)[k := Some w]\<rparr>, v) }))"

text \<open>
  One level of \<^verbatim>\<open>mapStructures\<close>: make entry \<open>e\<close> of the table in work page \<open>pw\<close> present, with a new
  zeroed table when it is not, and map that table into work page \<open>cw\<close>.
\<close>

definition map_level :: "nat \<Rightarrow> nat \<Rightarrow> nat \<Rightarrow> vmem \<Rightarrow> vmem option" where
  "map_level pw cw e v =
     (if e_present (frames v (workpage v pw) e) then
        let addr = table_addr (frames v (workpage v pw) e)
        in Some (write_entry (control_frame v) cw (addr OR 0x8000000000000003) v)
      else do {
        (addr, v) \<leftarrow> vm_palloc v;
        let v = write_entry (workpage v pw) e (addr OR 0x07) v;
        let v = write_entry (control_frame v) cw (addr OR 0x8000000000000003) v;
        Some (zero_frame (workpage v cw) v) })"

text \<open>The work page of the root table, taken and pointed at it on first use.\<close>

definition map_root :: "pstate \<Rightarrow> (nat \<times> pstate) option" where
  "map_root st =
     (case work_pages (fst st) ! 0 of
        Some w \<Rightarrow> Some (w, st)
      | None \<Rightarrow> do {
          (w, pg, v) \<leftarrow> getWorkpage 0 st;
          Some (w, pg, write_entry (control_frame v) w (pml4 pg OR 0x8000000000000003) v) })"

definition mapStructures :: "nat \<Rightarrow> nat \<Rightarrow> nat \<Rightarrow> pstate \<Rightarrow> pstate option" where
  "mapStructures new_pml4e new_pdpte new_pde st = do {
     (pml4_work, pg, v) \<leftarrow> map_root st;
     let remap1 = (current_pml4e pg \<noteq> int new_pml4e);
     (pdpt_work, pg, v) \<leftarrow>
       (if remap1 then do {
          (w, pg, v) \<leftarrow> getWorkpage 1 (pg, v);
          v \<leftarrow> map_level pml4_work w new_pml4e v;
          Some (Some w, pg, v) }
        else Some (None, pg, v));
     let remap2 = (current_pdpte pg \<noteq> int new_pdpte \<or> remap1);
     (pd_work, pg, v) \<leftarrow>
       (if remap2 then do {
          (w, pg, v) \<leftarrow> getWorkpage 2 (pg, v);
          pw \<leftarrow> pdpt_work;
          v \<leftarrow> map_level pw w new_pdpte v;
          Some (Some w, pg, v) }
        else Some (None, pg, v));
     if current_pde pg \<noteq> int new_pde \<or> remap2 then do {
       (w, pg, v) \<leftarrow> getWorkpage 3 (pg, v);
       pw \<leftarrow> pd_work;
       v \<leftarrow> map_level pw w new_pde v;
       Some (pg, v) }
     else Some (pg, v) }"

section \<open>Locking\<close>

definition forget_current :: "pager \<Rightarrow> pager" where
  "forget_current pg = pg\<lparr>current_pml4e := -1, current_pdpte := -1, current_pde := -1\<rparr>"

definition pager_try_lock :: "pstate \<Rightarrow> bool \<times> pstate" where
  "pager_try_lock st = (case st of (pg, v) \<Rightarrow>
     (case rm_try_lock (running v) (pager_locker pg) of
        (result, m) \<Rightarrow>
          let pg = pg\<lparr>pager_locker := m\<rparr>
          in (result, if result then forget_current pg else pg, v)))"

definition pager_lock :: "pstate \<Rightarrow> pstate option" where
  "pager_lock st = (case st of (pg, v) \<Rightarrow>
     map_option (\<lambda>m. (forget_current (pg\<lparr>pager_locker := m\<rparr>), v)) (rm_lock (running v) (pager_locker pg)))"

definition release_slot :: "nat \<Rightarrow> pstate \<Rightarrow> pstate" where
  "release_slot k st = (case st of (pg, v) \<Rightarrow>
     (case work_pages pg ! k of
        None \<Rightarrow> (pg, v)
      | Some w \<Rightarrow> (pg\<lparr>work_pages := (work_pages pg)[k := None]\<rparr>, releaseWorkpageIndex w v)))"

definition pager_unlock :: "pstate \<Rightarrow> pstate" where
  "pager_unlock st = (case fold release_slot [0..<4] st of (pg, v) \<Rightarrow>
     (case rm_unlock (running v) (pager_locker pg) of
        (ok, m) \<Rightarrow> (pg\<lparr>pager_locker := m\<rparr>, assert_f ok ''You are not the owner of this lock'' v)))"

section \<open>Mapping and unmapping\<close>

text \<open>The four table indices of a page number.\<close>

definition pml4_index :: "u64 \<Rightarrow> nat" where "pml4_index n = unat (drop_bit 27 n AND 0x1FF)"
definition pdpt_index :: "u64 \<Rightarrow> nat" where "pdpt_index n = unat (drop_bit 18 n AND 0x1FF)"
definition pd_index :: "u64 \<Rightarrow> nat" where "pd_index n = unat (drop_bit 9 n AND 0x1FF)"
definition pt_index :: "u64 \<Rightarrow> nat" where "pt_index n = unat (n AND 0x1FF)"

definition in_kernel :: "virtaddr_t \<Rightarrow> size_t \<Rightarrow> bool" where
  "in_kernel virt len \<longleftrightarrow> virt \<ge> KERNEL_START \<or> virt + push_bit 12 len > KERNEL_START"

definition klock_if :: "bool \<Rightarrow> pstate \<Rightarrow> pstate option" where
  "klock_if c st = (if c then map_option (Pair (fst st)) (klock (snd st)) else Some st)"

definition kunlock_if :: "bool \<Rightarrow> pstate \<Rightarrow> pstate" where
  "kunlock_if c st = (if c then (fst st, kunlock (snd st)) else st)"

text \<open>
  The body of the page loops: \<^verbatim>\<open>mapStructures\<close> for page \<open>n\<close>, then its entry in the table that work page \<open>w\<close>
  shows; \<^verbatim>\<open>map\<close> and \<^verbatim>\<open>flags\<close> update that entry.
\<close>

definition visit_page :: "nat \<Rightarrow> u64 \<Rightarrow> pstate \<Rightarrow> ((u64 \<times> physaddr_t) \<times> pstate) option" where
  "visit_page w n st = do {
     (pg, v) \<leftarrow> mapStructures (pml4_index n) (pdpt_index n) (pd_index n) st;
     let t = workpage v w;
     Some ((frames v t (pt_index n), t), pg, v) }"

definition update_page :: "nat \<Rightarrow> u64 \<Rightarrow> (u64 \<Rightarrow> u64) \<Rightarrow> pstate \<Rightarrow> pstate option" where
  "update_page w n f st = do {
     ((e, t), pg, v) \<leftarrow> visit_page w n st;
     Some (pg, write_entry t (pt_index n) (f e) v) }"

definition pager_asserts :: "virtaddr_t \<Rightarrow> pstate \<Rightarrow> pstate" where
  "pager_asserts virt st = (case st of (pg, v) \<Rightarrow>
     (pg, assert_f (virt \<noteq> 0) ''Mapping to address 0''
            (assert_f (rm_is_locked (pager_locker pg)) ''Using an unlocked pager'' v)))"

definition pager_map :: "physaddr_t \<Rightarrow> virtaddr_t \<Rightarrow> size_t \<Rightarrow> page_flags \<Rightarrow> pstate \<Rightarrow> pstate option" where
  "pager_map phys virt len fl st = do {
     let st = pager_asserts virt st;
     let kernel = in_kernel virt len;
     st \<leftarrow> klock_if kernel st;
     (pt_work, st) \<leftarrow> getWorkpage 3 st;
     st \<leftarrow> foldM (\<lambda>i. update_page pt_work (drop_bit 12 virt + of_nat i) (map_entry (drop_bit 12 phys + of_nat i) fl))
             [0..<unat len] st;
     Some (kunlock_if kernel st) }"

definition pager_flags :: "virtaddr_t \<Rightarrow> size_t \<Rightarrow> page_flags \<Rightarrow> pstate \<Rightarrow> pstate option" where
  "pager_flags virt len fl st = do {
     let st = pager_asserts virt st;
     let kernel = in_kernel virt len;
     st \<leftarrow> klock_if kernel st;
     (pt_work, st) \<leftarrow> getWorkpage 3 st;
     st \<leftarrow> foldM (\<lambda>i. update_page pt_work (drop_bit 12 virt + of_nat i) (set_entry_flags fl)) [0..<unat len] st;
     Some (kunlock_if kernel st) }"

definition locked_assert :: "pstate \<Rightarrow> pstate" where
  "locked_assert st = (case st of (pg, v) \<Rightarrow>
     (pg, assert_f (rm_is_locked (pager_locker pg)) ''Using an unlocked pager'' v))"

definition unmap_page :: "nat \<Rightarrow> u64 \<Rightarrow> physaddr_t \<times> pstate \<Rightarrow> (physaddr_t \<times> pstate) option" where
  "unmap_page w n s = do {
     ((e, t), pg, v) \<leftarrow> visit_page w n (snd s);
     Some (if fst s = 0 then table_addr e else fst s, pg, write_entry t (pt_index n) 0 v) }"

definition pager_unmap :: "virtaddr_t \<Rightarrow> size_t \<Rightarrow> pstate \<Rightarrow> (physaddr_t \<times> pstate) option" where
  "pager_unmap virt len st = do {
     let st = locked_assert st;
     let kernel = in_kernel virt len;
     st \<leftarrow> klock_if kernel st;
     let virt = drop_bit 12 virt;
     (pt_work, st) \<leftarrow> getWorkpage 3 st;
     (addr, pg, v) \<leftarrow> foldM (\<lambda>i. unmap_page pt_work (virt + of_nat i)) [0..<unat len] (0, st);
     let v = (if virt < first_potential_kernel_page v \<and> virt \<ge> KERNEL_START
              then v\<lparr>first_potential_kernel_page := virt\<rparr> else v);
     Some (addr, kunlock_if kernel (pg, v)) }"

section \<open>Queries\<close>

text \<open>The entry of a virtual address: \<^verbatim>\<open>mapStructures\<close>, then \<^verbatim>\<open>WORKPAGE(getWorkpage(3))[pte]\<close>.\<close>

definition look_up :: "virtaddr_t \<Rightarrow> pstate \<Rightarrow> (u64 \<times> pstate) option" where
  "look_up virt st = do {
     let n = drop_bit 12 virt;
     st \<leftarrow> mapStructures (pml4_index n) (pdpt_index n) (pd_index n) st;
     (w, pg, v) \<leftarrow> getWorkpage 3 st;
     Some (frames v (workpage v w) (pt_index n), pg, v) }"

definition getPhysicalAddress :: "virtaddr_t \<Rightarrow> pstate \<Rightarrow> (physaddr_t \<times> pstate) option" where
  "getPhysicalAddress virt st = do {
     (e, st) \<leftarrow> look_up virt st;
     Some (table_addr e OR (virt AND 0xFFF), st) }"

definition getFlags :: "virtaddr_t \<Rightarrow> pstate \<Rightarrow> (page_flags \<times> pstate) option" where
  "getFlags virt st = do {
     (e, st) \<leftarrow> look_up virt st;
     Some (entry_flags e, st) }"

section \<open>Free ranges\<close>

definition note_used :: "virtaddr_t \<Rightarrow> virtaddr_t \<Rightarrow> pstate \<Rightarrow> pstate" where
  "note_used addr offset st = (case st of (pg, v) \<Rightarrow>
     (if addr = first_potential_page pg then pg\<lparr>first_potential_page := addr + offset + 0x1000\<rparr> else pg,
      if addr = first_potential_kernel_page v then v\<lparr>first_potential_kernel_page := addr + offset + 0x1000\<rparr> else v))"

partial_function (option) scan_range ::
  "virtaddr_t \<Rightarrow> virtaddr_t \<Rightarrow> virtaddr_t \<Rightarrow> pstate \<Rightarrow> ((virtaddr_t \<times> bool) \<times> pstate) option" where
  "scan_range addr len offset st =
     (if offset < len then
        Option.bind (getFlags (addr + offset) st) (\<lambda>(fl, st).
          if present fl then Some ((offset, False), note_used addr offset st)
          else scan_range addr len (offset + 0x1000) st)
      else Some ((offset, True), st))"

partial_function (option) free_range_from ::
  "virtaddr_t \<Rightarrow> size_t \<Rightarrow> bool \<Rightarrow> pstate \<Rightarrow> (virtaddr_t \<times> pstate) option" where
  "free_range_from addr len klocked st =
     (if addr = 0 then Some (0, kunlock_if klocked st)
      else
        Option.bind (klock_if (in_kernel addr len \<and> \<not> klocked) st) (\<lambda>st.
        Option.bind (scan_range addr (push_bit 12 len) 0 st) (\<lambda>((offset, found), st).
          if found then Some (addr, kunlock_if (klocked \<or> in_kernel addr len) st)
          else free_range_from (addr + offset + 0x1000) len (klocked \<or> in_kernel addr len) st)))"

definition getFreeRange :: "virtaddr_t \<Rightarrow> size_t \<Rightarrow> pstate \<Rightarrow> (virtaddr_t \<times> pstate) option" where
  "getFreeRange start len st = free_range_from start len False st"

definition kmap :: "physaddr_t \<Rightarrow> size_t \<Rightarrow> page_flags \<Rightarrow> pstate \<Rightarrow> (virtaddr_t \<times> pstate) option" where
  "kmap phys len fl st = do {
     st \<leftarrow> klock_if True (locked_assert st);
     (start, st) \<leftarrow> getFreeRange (first_potential_kernel_page (snd st)) len st;
     st \<leftarrow> pager_map phys start len fl st;
     Some (start + (phys AND 0xFFF), kunlock_if True st) }"

definition kalloc_page :: "virtaddr_t \<Rightarrow> nat \<Rightarrow> pstate \<Rightarrow> pstate option" where
  "kalloc_page start i st = do {
     (a, v) \<leftarrow> vm_palloc (snd st);
     pager_map a (start + push_bit 12 (of_nat i)) 1
       (flags_default\<lparr>present := True, writable := True, global := True\<rparr>) (fst st, v) }"

definition kalloc :: "size_t \<Rightarrow> pstate \<Rightarrow> (virtaddr_t \<times> pstate) option" where
  "kalloc len st = do {
     st \<leftarrow> klock_if True (locked_assert st);
     (start, st) \<leftarrow> getFreeRange (first_potential_kernel_page (snd st)) len st;
     if start = 0 then Some (0, kunlock_if True st)
     else do {
       st \<leftarrow> foldM (kalloc_page start) [0..<unat len] st;
       Some (start, kunlock_if True st) } }"

definition free_page :: "virtaddr_t \<Rightarrow> nat \<Rightarrow> pstate \<Rightarrow> pstate option" where
  "free_page ptr i st = do {
     (addr, pg, v) \<leftarrow> pager_unmap (ptr + push_bit 12 (of_nat i)) 1 st;
     p \<leftarrow> pfree addr 1 (vm_pmm v);
     Some (pg, v\<lparr>vm_pmm := p\<rparr>) }"

definition pager_free :: "virtaddr_t \<Rightarrow> size_t \<Rightarrow> pstate \<Rightarrow> pstate option" where
  "pager_free ptr len st = foldM (free_page ptr) [0..<unat len] (locked_assert st)"

section \<open>Address spaces\<close>

text \<open>The constructor of \<^verbatim>\<open>Pager\<close>; the fields it leaves uninitialised are arguments.\<close>

definition pager_new :: "int \<times> int \<times> int \<Rightarrow> vmem \<Rightarrow> pstate option" where
  "pager_new junk v = do {
     (pml4_frame, v) \<leftarrow> vm_palloc v;
     (index, v) \<leftarrow> aquireWorkpageIndex v;
     let v = write_entry (control_frame v) index (pml4_frame OR 0x03) v;
     let v = zero_frame (workpage v index) v;
     (index2, v) \<leftarrow> aquireWorkpageIndex v;
     (pdpt, v) \<leftarrow> vm_palloc v;
     let v = write_entry (control_frame v) index2 (pdpt OR 0x03) v;
     let v = zero_frame (workpage v index2) v;
     let v = write_entry (workpage v index) 511 (pdpt OR 0x03) v;
     let v = write_entry (workpage v index2) 510 (kernel_pd0 v OR 0x03) v;
     let v = write_entry (workpage v index2) 511 (kernel_pd1 v OR 0x03) v;
     let v = releaseWorkpageIndex index2 (releaseWorkpageIndex index v);
     Some (\<lparr>pml4 = pml4_frame, work_pages = replicate 4 None, current_pml4e = fst junk,
             current_pdpte = fst (snd junk), current_pde = snd (snd junk), pager_locker = rm_new,
             first_potential_page = BASE_MAPPING_ADDRESS\<rparr>,
           v\<lparr>pagers := pagers v @ [pml4_frame]\<rparr>) }"

definition pager_delete :: "pstate \<Rightarrow> vmem" where
  "pager_delete st = (case st of (pg, v) \<Rightarrow> v\<lparr>pagers := remove1 (pml4 pg) (pagers v)\<rparr>)"

definition pager_enable :: "pstate \<Rightarrow> pstate" where
  "pager_enable st = (case st of (pg, v) \<Rightarrow> (pg, v\<lparr>cr3_register := pml4 pg\<rparr>))"

text \<open>\<^verbatim>\<open>Pager::active\<close>: with no pager for the register's value the code loops forever.\<close>

definition pager_active :: "vmem \<Rightarrow> physaddr_t option" where
  "pager_active v = find (\<lambda>a. a = cr3_register v AND NOT 0xFFF) (pagers v)"

subsection \<open>Initialisation\<close>

record pmr =
  pmr_base :: u64
  pmr_length :: u64
  pmr_permissions :: u64

definition STIVALE2_PMR_EXECUTABLE :: u64 where "STIVALE2_PMR_EXECUTABLE = 1"
definition STIVALE2_PMR_WRITABLE :: u64 where "STIVALE2_PMR_WRITABLE = 2"

text \<open>One page of a kernel segment: its table in \<^verbatim>\<open>kernel_pd[0]\<close> and its entry.\<close>

definition init_page :: "physaddr_t \<Rightarrow> virtaddr_t \<Rightarrow> u64 \<Rightarrow> u64 \<Rightarrow> vmem \<Rightarrow> vmem option" where
  "init_page kernel_base_p kernel_base_v addr perms v = do {
     let i = unat (drop_bit 21 addr AND 0x1FF);
     let pde = frames v (kernel_pd0 v) i;
     (pt, v) \<leftarrow>
       (if \<not> e_present pde then do {
          (pt, v) \<leftarrow> vm_palloc v;
          Some (pt, zero_frame pt (write_entry (kernel_pd0 v) i (put_bit 1 True (put_bit 0 True pt)) v)) }
        else Some (pde AND NOT 0xFFF, v));
     let raw = put_bit 8 True (put_bit 0 True (addr - kernel_base_v + kernel_base_p));
     let raw = (if perms AND STIVALE2_PMR_WRITABLE \<noteq> 0 then put_bit 1 True raw else raw);
     let raw = (if perms AND STIVALE2_PMR_EXECUTABLE = 0 then put_bit 63 True raw else raw);
     Some (write_entry pt (unat (drop_bit 12 addr AND 0x1FF)) raw v) }"

partial_function (option) init_region ::
  "physaddr_t \<Rightarrow> virtaddr_t \<Rightarrow> pmr \<Rightarrow> u64 \<Rightarrow> vmem \<Rightarrow> vmem option" where
  "init_region kernel_base_p kernel_base_v r offset v =
     (if offset < pmr_length r then
        Option.bind (init_page kernel_base_p kernel_base_v (pmr_base r + offset) (pmr_permissions r) v)
          (init_region kernel_base_p kernel_base_v r (offset + 0x1000))
      else Some v)"

definition pager_init :: "int \<times> int \<times> int \<Rightarrow> physaddr_t \<Rightarrow> virtaddr_t \<Rightarrow> pmr list \<Rightarrow> vmem \<Rightarrow> pstate option" where
  "pager_init junk kernel_base_p kernel_base_v pmrs v = do {
     (init_pml4, v) \<leftarrow> vm_palloc v;
     (init_pdpt, v) \<leftarrow> vm_palloc v;
     (pd0, v) \<leftarrow> vm_palloc v;
     (pd1, v) \<leftarrow> vm_palloc v;
     let v = zero_frame pd1 (zero_frame pd0 (v\<lparr>kernel_pd0 := pd0, kernel_pd1 := pd1\<rparr>));
     let v = write_entry init_pml4 511 (init_pdpt OR 0x03) v;
     let v = write_entry init_pdpt 510 (pd0 OR 0x03) v;
     let v = write_entry init_pdpt 511 (pd1 OR 0x03) v;
     v \<leftarrow> foldM (\<lambda>r. init_region kernel_base_p kernel_base_v r 0) pmrs v;
     (control_page, v) \<leftarrow> vm_palloc v;
     let v = zero_frame control_page v;
     let v = write_entry pd1 511 (control_page OR 0x03) v;
     let v = write_entry control_page 511 (control_page OR 0x8000000000000103) v;
     let v = v\<lparr>control_frame := control_page, kernel_locker := rm_new, cr3_register := init_pml4,
               first_potential_kernel_page := KERNEL_START\<rparr>;
     st \<leftarrow> pager_new junk v;
     let (pg, v) = pager_enable st;
     p \<leftarrow> pfree init_pml4 1 (vm_pmm v);
     p \<leftarrow> pfree init_pdpt 1 p;
     Some (pg, v\<lparr>vm_pmm := p, kernel_pager := pml4 pg\<rparr>) }"

end
