(* ===== verification/Pager_Walk.thy ===== *)
theory Pager_Walk
  imports Pager
begin

unbundle bit_operations_syntax

text \<open>
  Correctness of the virtual memory manager. An address space is read off the table frames by
  walking them from the root; the tables of an address space are pairwise different frames that
  the physical allocator knows as used. \<^verbatim>\<open>Pager::map\<close>, \<^verbatim>\<open>flags\<close> and \<^verbatim>\<open>unmap\<close> then change exactly
  the entries of their pages, and the queries read the entry back.
\<close>

section \<open>Entries\<close>

lemma bit_small [simp]:
  "bit (7 :: u64) n \<longleftrightarrow> n < 3" "bit (0x8000000000000003 :: u64) n \<longleftrightarrow> n < 2 \<or> n = 63"
proof -
  have "bit (mask 3 :: u64) n \<longleftrightarrow> n < 3" by (auto simp: bit_simps)
  then show "bit (7 :: u64) n \<longleftrightarrow> n < 3" by (simp add: mask_eq_exp_minus_1)
  have "bit (2 ^ 63 OR mask 2 :: u64) n \<longleftrightarrow> n < 2 \<or> n = 63"
    by (simp only: bit_or_iff bit_exp_iff bit_mask_iff) (auto simp: possible_bit_word)
  then show "bit (0x8000000000000003 :: u64) n \<longleftrightarrow> n < 2 \<or> n = 63" by (simp add: mask_eq_exp_minus_1)
qed

lemma bit_page_addr: "bit (page_addr n) k \<longleftrightarrow> 12 \<le> k \<and> k < 64 \<and> bit n (k - 12)"
proof -
  have "page_addr n = push_bit 12 (of_nat n)" by (simp add: page_addr_def push_bit_eq_mult mult.commute)
  then show ?thesis by (auto simp: bit_simps)
qed

lemma bit_nat_less: "n < 2 ^ m \<Longrightarrow> bit (n :: nat) k \<Longrightarrow> k < m"
  by (metis bit_take_bit_iff take_bit_nat_eq_self)

lemma e_present_ptr [simp]:
  "\<not> e_present 0" "e_present (a OR 0x8000000000000003)" "e_present (a OR 7)"
  by (simp_all add: e_present_def bit_simps)

lemma table_addr_ptr:
  assumes "n < 2 ^ 20"
  shows "table_addr (page_addr n OR 0x8000000000000003) = page_addr n" "table_addr (page_addr n OR 7) = page_addr n"
  using bit_nat_less [OF assms]
  by (auto intro!: bit_word_eqI simp: table_addr_def e_address_def bit_simps bit_page_addr) fastforce+

lemma table_addr_put_bit0 [simp]: "table_addr (put_bit 0 b e) = table_addr e"
  by (rule bit_word_eqI) (auto simp: table_addr_def e_address_def put_bit_def bit_simps)

lemma e_present_put_bit0 [simp]: "e_present (put_bit 0 b e) \<longleftrightarrow> b"
  by (auto simp: e_present_def put_bit_def bit_simps)

section \<open>Walking the tables\<close>

fun table_at :: "table_store \<Rightarrow> physaddr_t \<Rightarrow> nat list \<Rightarrow> physaddr_t option" where
  "table_at m r [] = Some r"
| "table_at m r (i # is) = (if e_present (m r i) then table_at m (table_addr (m r i)) is else None)"

definition pte :: "vmem \<Rightarrow> physaddr_t \<Rightarrow> nat list \<Rightarrow> nat \<Rightarrow> u64" where
  "pte v root p i = (case table_at (frames v) root p of None \<Rightarrow> 0 | Some t \<Rightarrow> frames v t i)"

definition work_window :: "nat list" where
  "work_window = [511, 511, 511]"

lemma length_work_window [simp]: "length work_window = 3"
  by (simp add: work_window_def)

definition paging_wf :: "vmem \<Rightarrow> physaddr_t \<Rightarrow> bool" where
  "paging_wf v root \<longleftrightarrow> pmm_wf (vm_pmm v) \<and>
     (\<forall>p q t. length p \<le> 3 \<longrightarrow> length q \<le> 3 \<longrightarrow> table_at (frames v) root p = Some t \<longrightarrow>
        table_at (frames v) root q = Some t \<longrightarrow> p = q) \<and>
     (\<forall>p t. length p \<le> 3 \<longrightarrow> table_at (frames v) root p = Some t \<longrightarrow>
        (\<exists>n<2 ^ 20. t = page_addr n \<and> page_used (vm_pmm v) n)) \<and>
     table_at (frames v) root work_window = Some (control_frame v)"

definition free_count :: "vmem \<Rightarrow> nat" where
  "free_count v = card {n. n < 2 ^ 20 \<and> \<not> page_used (vm_pmm v) n}"

lemma paging_wfD:
  assumes "paging_wf v root"
  shows "pmm_wf (vm_pmm v)"
    "length p \<le> 3 \<Longrightarrow> length q \<le> 3 \<Longrightarrow> table_at (frames v) root p = Some t \<Longrightarrow>
        table_at (frames v) root q = Some t \<Longrightarrow> p = q"
    "length p \<le> 3 \<Longrightarrow> table_at (frames v) root p = Some t \<Longrightarrow>
        \<exists>n<2 ^ 20. t = page_addr n \<and> page_used (vm_pmm v) n"
    "table_at (frames v) root work_window = Some (control_frame v)"
  using assms unfolding paging_wf_def by simp_all

lemma table_at_append: "table_at m r (p @ q) = Option.bind (table_at m r p) (\<lambda>t. table_at m t q)"
  by (induction p arbitrary: r) auto

text \<open>A write to one entry changes only the walks through that entry.\<close>

lemma table_at_write:
  assumes "\<And>q i rest. p = q @ i # rest \<Longrightarrow> table_at m r q = Some f \<Longrightarrow> g i = m f i"
  shows "table_at (m(f := g)) r p = table_at m r p"
  using assms
proof (induction p arbitrary: r)
  case (Cons j p)
  have same: "(m(f := g)) r j = m r j" using Cons.prems [of "[]"] by auto
  have "table_at (m(f := g)) (table_addr (m r j)) p = table_at m (table_addr (m r j)) p" if "e_present (m r j)"
  proof (rule Cons.IH)
    fix q i rest assume "p = q @ i # rest" "table_at m (table_addr (m r j)) q = Some f"
    then show "g i = m f i" using Cons.prems [of "j # q"] that by auto
  qed
  then show ?case using same by (simp del: fun_upd_apply)
qed simp

lemma table_at_untouched:
  assumes "\<And>q. length q < length p \<Longrightarrow> table_at m r q \<noteq> Some f"
  shows "table_at (m(f := g)) r p = table_at m r p"
  by (rule table_at_write) (use assms in fastforce)

text \<open>Everything but the table frames and the page status.\<close>

definition same_frame :: "vmem \<Rightarrow> vmem \<Rightarrow> bool" where
  "same_frame v v' \<longleftrightarrow> control_frame v' = control_frame v \<and> kernel_pd0 v' = kernel_pd0 v \<and> kernel_pd1 v' = kernel_pd1 v \<and>
     first_potential_kernel_page v' = first_potential_kernel_page v \<and> kernel_locker v' = kernel_locker v \<and>
     pagers v' = pagers v \<and> kernel_pager v' = kernel_pager v \<and> cr3_register v' = cr3_register v \<and>
     running v' = running v \<and> failed_asserts v' = failed_asserts v"

lemma same_frame_trans: "same_frame a b \<Longrightarrow> same_frame b c \<Longrightarrow> same_frame a c"
  unfolding same_frame_def by simp

lemma same_frame_update [simp]:
  "same_frame v v" "same_frame v (write_entry t i x v)" "same_frame v (v\<lparr>frames := fr, vm_pmm := pm\<rparr>)"
  by (simp_all add: same_frame_def write_entry_def)

text \<open>
  What every step towards a table keeps: the address space is well formed, no table is lost, no
  entry of a page outside the work window changes, and at most \<open>k\<close> frames were allocated.
\<close>

definition space_kept :: "nat \<Rightarrow> physaddr_t \<Rightarrow> vmem \<Rightarrow> vmem \<Rightarrow> bool" where
  "space_kept k root v v' \<longleftrightarrow> paging_wf v' root \<and>
     (\<forall>p t. length p \<le> 3 \<longrightarrow> table_at (frames v) root p = Some t \<longrightarrow> table_at (frames v') root p = Some t) \<and>
     (\<forall>p i. length p = 3 \<longrightarrow> p \<noteq> work_window \<longrightarrow> pte v' root p i = pte v root p i) \<and>
     free_count v \<le> free_count v' + k \<and> same_frame v v'"

lemma space_keptD:
  assumes "space_kept k root v v'"
  shows "paging_wf v' root"
    "length p \<le> 3 \<Longrightarrow> table_at (frames v) root p = Some t \<Longrightarrow> table_at (frames v') root p = Some t"
    "length p = 3 \<Longrightarrow> p \<noteq> work_window \<Longrightarrow> pte v' root p i = pte v root p i"
    "free_count v \<le> free_count v' + k" "control_frame v' = control_frame v"
  using assms unfolding space_kept_def same_frame_def by auto

lemma space_kept_refl: "paging_wf v root \<Longrightarrow> space_kept 0 root v v"
  unfolding space_kept_def by simp

lemma space_kept_trans:
  assumes "space_kept a root v v'" "space_kept b root v' v''"
  shows "space_kept (a + b) root v v''"
  using assms same_frame_trans unfolding space_kept_def by fastforce

lemma control_frame_unreachable:
  assumes "paging_wf v root" "length q < 3"
  shows "table_at (frames v) root q \<noteq> Some (control_frame v)"
  using paging_wfD(2) [OF assms(1), of q work_window] paging_wfD(4) [OF assms(1)] assms(2) by auto

lemma control_write:
  assumes "paging_wf v root"
  shows "space_kept 0 root v (write_entry (control_frame v) i x v)"
    "control (write_entry (control_frame v) i x v) j = (if j = i then x else control v j)"
proof -
  have t: "table_at ((frames v)(control_frame v := g)) root p = table_at (frames v) root p" if "length p \<le> 3" for p g
    by (rule table_at_untouched) (use control_frame_unreachable [OF assms] that in auto)
  have c: "t \<noteq> control_frame v" if "length p = 3" "p \<noteq> work_window" "table_at (frames v) root p = Some t" for p t
    using paging_wfD(2) [OF assms, of p work_window t] paging_wfD(4) [OF assms] that by auto
  have "paging_wf (write_entry (control_frame v) i x v) root"
    using assms t unfolding paging_wf_def write_entry_def by simp
  moreover have "pte (write_entry (control_frame v) i x v) root p k = pte v root p k"
    if "length p = 3" "p \<noteq> work_window" for p k
    using that t [of p] c [of p] by (auto simp: pte_def write_entry_def split: option.splits)
  ultimately show "space_kept 0 root v (write_entry (control_frame v) i x v)"
    unfolding space_kept_def using t by (simp add: free_count_def) (simp add: write_entry_def)
  show "control (write_entry (control_frame v) i x v) j = (if j = i then x else control v j)"
    by (simp add: control_def write_entry_def)
qed

lemma table_not_fresh:
  assumes "paging_wf v root" "length p \<le> 3" "table_at (frames v) root p = Some t"
    "\<not> page_used (vm_pmm v) n" "n < 2 ^ 20"
  shows "t \<noteq> page_addr n"
proof -
  obtain k where "k < 2 ^ 20" "t = page_addr k" "page_used (vm_pmm v) k"
    using paging_wfD(3) [OF assms(1-3)] by blast
  then show ?thesis using page_addr_eq_iff [of n k] assms(4,5) by auto
qed

text \<open>A new zeroed table linked into an empty entry.\<close>

lemma link_table:
  assumes "paging_wf v root" "length path < 3" "table_at (frames v) root path = Some T"
    "\<not> e_present (frames v T e)" "\<not> page_used (vm_pmm v) n" "n < 2 ^ 20"
    "pmm_wf pm" "\<And>m. page_used pm m \<longleftrightarrow> page_used (vm_pmm v) m \<or> m = n"
  defines "m1 \<equiv> (frames v)(page_addr n := (\<lambda>_. 0))"
  defines "m2 \<equiv> m1(T := (m1 T)(e := page_addr n OR 7))"
  shows "table_at m2 root (path @ [e]) = Some (page_addr n)"
    "space_kept 1 root v (v\<lparr>frames := m2, vm_pmm := pm\<rparr>)"
proof -
  note D = paging_wfD [OF assms(1)]
  let ?F = "page_addr n"
  have F: "table_at (frames v) root p \<noteq> Some ?F" if "length p \<le> 3" for p
    using table_not_fresh [OF assms(1) that _ assms(5,6)] by blast
  have TF: "T \<noteq> ?F" using F [of path] assms(2,3) by auto
  have m1: "table_at m1 root p = table_at (frames v) root p" if "length p \<le> 3" for p
    unfolding m1_def by (rule table_at_untouched) (use F that in auto)
  have path: "q = path" if "length q \<le> 3" "table_at m1 root q = Some T" for q
    using D(2) [of q path T] that assms(2,3) m1 by auto
  have off: "table_at m2 root p = table_at m1 root p"
    if len: "length p \<le> 3" and no: "\<And>rest. p \<noteq> path @ e # rest" for p
    unfolding m2_def
  proof (rule table_at_write)
    fix q i rest assume q: "p = q @ i # rest" "table_at m1 root q = Some T"
    then have "q = path" using path [of q] len by simp
    then show "((m1 T)(e := ?F OR 7)) i = m1 T i" using no q(1) by auto
  qed
  have atT: "table_at m2 root path = Some T" using off [of path] m1 [of path] assms(2,3) by simp
  have ext: "table_at m2 root (path @ e # rest) = (if rest = [] then Some ?F else None)" for rest
  proof -
    have "m2 T e = ?F OR 7" "m2 ?F = (\<lambda>_. 0)" using TF by (auto simp: m2_def m1_def)
    then show ?thesis
      using atT table_addr_ptr(2) [OF assms(6)]
      by (cases rest) (auto simp: table_at_append)
  qed
  have old: "table_at (frames v) root (path @ e # rest) = None" for rest
    using assms(3,4) by (simp add: table_at_append)
  show "table_at m2 root (path @ [e]) = Some ?F" using ext [of "[]"] by simp
  have walk: "table_at m2 root p = (if p = path @ [e] then Some ?F else table_at (frames v) root p)"
    if "length p \<le> 3" for p
  proof (cases "\<exists>rest. p = path @ e # rest")
    case True
    then obtain rest where r: "p = path @ e # rest" by blast
    then show ?thesis using ext [of rest] old [of rest] by auto
  next
    case False
    then show ?thesis using off [OF that] m1 [OF that] by auto
  qed
  let ?v = "v\<lparr>frames := m2, vm_pmm := pm\<rparr>"
  have wf: "paging_wf ?v root"
    unfolding paging_wf_def
  proof (intro conjI allI impI)
    fix p q t assume a: "length p \<le> 3" "length q \<le> 3" "table_at (frames ?v) root p = Some t" "table_at (frames ?v) root q = Some t"
    then show "p = q" using walk [OF a(1)] walk [OF a(2)] F D(2) [of p q t] by (auto split: if_splits)
  next
    fix p t assume a: "length p \<le> 3" "table_at (frames ?v) root p = Some t"
    then show "\<exists>n<2 ^ 20. t = page_addr n \<and> page_used (vm_pmm ?v) n"
      using walk [OF a(1)] D(3) [of p t] assms(6,8) by (auto split: if_splits)
  next
    show "table_at (frames ?v) root work_window = Some (control_frame ?v)"
      using walk [of work_window] D(4) old [of "[]"] by auto
  qed (use assms(7) in simp)
  have tables: "table_at (frames ?v) root p = Some t" if "length p \<le> 3" "table_at (frames v) root p = Some t" for p t
    using walk [OF that(1)] that(2) old [of "[]"] by auto
  have entries: "pte ?v root p i = pte v root p i" if "length p = 3" for p i
  proof (cases "p = path @ [e]")
    case True
    then show ?thesis using ext [of "[]"] old [of "[]"] TF by (simp add: pte_def m2_def m1_def)
  next
    case False
    have "m2 t i = frames v t i" if "table_at (frames v) root p = Some t" for t
    proof -
      have "t \<noteq> T" using D(2) [of p path] that \<open>length p = 3\<close> assms(2,3) by auto
      moreover have "t \<noteq> ?F" using F [of p] that \<open>length p = 3\<close> by auto
      ultimately show ?thesis by (simp add: m2_def m1_def)
    qed
    then show ?thesis using walk [of p] that False by (auto simp: pte_def split: option.splits)
  qed
  have "{m. m < 2 ^ 20 \<and> \<not> page_used (vm_pmm v) m} = insert n {m. m < 2 ^ 20 \<and> \<not> page_used pm m}"
    using assms(5,6,8) by auto
  moreover have "finite {m. m < (2::nat) ^ 20 \<and> \<not> page_used pm m}" by (rule finite_subset [of _ "{..<2 ^ 20}"]) auto
  ultimately have "free_count v \<le> free_count ?v + 1"
    by (simp add: free_count_def card_insert_if)
  then show "space_kept 1 root v ?v"
    unfolding space_kept_def using wf tables entries by simp
qed

lemma vm_palloc_free:
  assumes "pmm_wf (vm_pmm v)" "0 < free_count v"
  shows "\<exists>n pm. vm_palloc v = Some (page_addr n, v\<lparr>vm_pmm := pm\<rparr>) \<and> n < 2 ^ 20 \<and> \<not> page_used (vm_pmm v) n \<and>
    pmm_wf pm \<and> (\<forall>m. page_used pm m \<longleftrightarrow> page_used (vm_pmm v) m \<or> m = n)"
proof -
  obtain q where "q < 2 ^ 20" "\<not> page_used (vm_pmm v) q"
    using assms(2) by (fastforce simp: free_count_def card_gt_0_iff)
  then have "free_block (vm_pmm v) (unat (1 :: size_t)) q" by (simp add: free_block_def)
  then obtain pm n where "palloc 1 (vm_pmm v) = Some (pm, page_addr n)" "pmm_wf pm"
    "free_block (vm_pmm v) (unat (1 :: size_t)) n"
    "\<forall>m. page_used pm m \<longleftrightarrow> page_used (vm_pmm v) m \<or> n \<le> m \<and> m < n + unat (1 :: size_t)"
    using palloc_low [OF assms(1), of 1 q] by auto
  then show ?thesis
    by (intro exI [of _ n] exI [of _ pm]) (auto simp: vm_palloc_def free_block_def)
qed

lemma map_level_ok:
  assumes "paging_wf v root" "length path < 3" "table_at (frames v) root path = Some (workpage v pw)"
    "pw \<noteq> cw" "0 < free_count v"
  shows "\<exists>v'. map_level pw cw e v = Some v' \<and> space_kept 1 root v v' \<and>
    table_at (frames v') root (path @ [e]) = Some (workpage v' cw) \<and> e_present (control v' cw) \<and>
    (\<forall>j. j \<noteq> cw \<longrightarrow> control v' j = control v j)"
proof (cases "e_present (frames v (workpage v pw) e)")
  case True
  let ?a = "table_addr (frames v (workpage v pw) e)"
  let ?v = "write_entry (control_frame v) cw (?a OR 0x8000000000000003) v"
  have t: "table_at (frames v) root (path @ [e]) = Some ?a" using assms(3) True by (simp add: table_at_append)
  obtain n where n: "n < 2 ^ 20" "?a = page_addr n"
    using paging_wfD(3) [OF assms(1) _ t] assms(2) by auto
  have k: "space_kept 0 root v ?v" by (rule control_write(1) [OF assms(1)])
  then have "space_kept 1 root v ?v" unfolding space_kept_def by auto
  moreover have "table_at (frames ?v) root (path @ [e]) = Some ?a" using space_keptD(2) [OF k _ t] assms(2) by simp
  moreover have "workpage ?v cw = ?a"
    using n table_addr_ptr(1) by (simp add: workpage_def control_write(2) [OF assms(1)])
  ultimately show ?thesis
    using True by (auto simp: map_level_def control_write(2) [OF assms(1)])
next
  case False
  let ?T = "workpage v pw"
  obtain n pm where al: "vm_palloc v = Some (page_addr n, v\<lparr>vm_pmm := pm\<rparr>)" "n < 2 ^ 20" "\<not> page_used (vm_pmm v) n"
    "pmm_wf pm" "\<forall>m. page_used pm m \<longleftrightarrow> page_used (vm_pmm v) m \<or> m = n"
    using vm_palloc_free [OF paging_wfD(1) [OF assms(1)] assms(5)] by blast
  define m2 where "m2 = ((frames v)(page_addr n := (\<lambda>_. 0)))
    (?T := (((frames v)(page_addr n := (\<lambda>_. 0))) ?T)(e := page_addr n OR 7))"
  let ?v2 = "v\<lparr>frames := m2, vm_pmm := pm\<rparr>"
  have link: "table_at m2 root (path @ [e]) = Some (page_addr n)" "space_kept 1 root v ?v2"
    using link_table [OF assms(1-3) False al(3,2,4)] al(5) unfolding m2_def by blast+
  have wf2: "paging_wf ?v2 root" by (rule space_keptD(1) [OF link(2)])
  let ?v3 = "write_entry (control_frame v) cw (page_addr n OR 0x8000000000000003) ?v2"
  have k3: "space_kept 0 root ?v2 ?v3" using control_write(1) [OF wf2] by simp
  have ctl: "control ?v3 j = (if j = cw then page_addr n OR 0x8000000000000003 else control ?v2 j)" for j
    using control_write(2) [OF wf2] by simp
  have nC: "page_addr n \<noteq> control_frame v" and nT: "page_addr n \<noteq> ?T" and CT: "control_frame v \<noteq> ?T"
  proof -
    show "page_addr n \<noteq> control_frame v"
      using table_not_fresh [OF assms(1) _ paging_wfD(4) [OF assms(1)] al(3,2)] by auto
    show "page_addr n \<noteq> ?T" using table_not_fresh [OF assms(1) _ assms(3) al(3,2)] assms(2) by auto
    show "control_frame v \<noteq> ?T" using control_frame_unreachable [OF assms(1,2)] assms(3) by auto
  qed
  have same: "control ?v2 j = control v j" for j using nC CT by (simp add: control_def m2_def)
  have "map_level pw cw e v = Some ?v3"
  proof -
    have w: "workpage (write_entry (control_frame v) cw (page_addr n OR 0x8000000000000003)
        (write_entry ?T e (page_addr n OR 7) (v\<lparr>vm_pmm := pm\<rparr>))) cw = page_addr n"
      using table_addr_ptr(1) [OF al(2)] by (simp add: workpage_def control_def write_entry_def)
    have "frames (zero_frame (page_addr n) (write_entry (control_frame v) cw (page_addr n OR 0x8000000000000003)
        (write_entry ?T e (page_addr n OR 7) (v\<lparr>vm_pmm := pm\<rparr>)))) = frames ?v3"
      using nC nT CT by (auto simp: zero_frame_def write_entry_def m2_def fun_eq_iff)
    moreover have "workpage (v\<lparr>vm_pmm := pm\<rparr>) pw = ?T" by (simp add: workpage_def control_def)
    ultimately show ?thesis
      using False al(1) w by (simp add: map_level_def Let_def) (simp add: zero_frame_def write_entry_def)
  qed
  moreover have "space_kept 1 root v ?v3" using space_kept_trans [OF link(2) k3] by simp
  moreover have "table_at (frames ?v3) root (path @ [e]) = Some (page_addr n)"
    using space_keptD(2) [OF k3, of "path @ [e]"] link(1) assms(2) by simp
  moreover have "workpage ?v3 cw = page_addr n"
    using table_addr_ptr(1) [OF al(2)] by (simp add: workpage_def ctl)
  ultimately show ?thesis using ctl same by auto
qed

section \<open>Work pages\<close>

text \<open>
  The work pages a pager has taken are pairwise different present entries of the control page,
  and enough entries are left for those it has not taken; the first shows the root table.
\<close>

definition slots_ok :: "pager \<Rightarrow> vmem \<Rightarrow> bool" where
  "slots_ok pg v \<longleftrightarrow> length (work_pages pg) = 4 \<and>
     (\<forall>k<4. \<forall>w. work_pages pg ! k = Some w \<longrightarrow> w < 511 \<and> e_present (control v w)) \<and>
     (\<forall>j<4. \<forall>k<4. work_pages pg ! j = work_pages pg ! k \<longrightarrow> work_pages pg ! j \<noteq> None \<longrightarrow> j = k) \<and>
     card {k. k < 4 \<and> work_pages pg ! k = None} \<le> card {i. i < 511 \<and> \<not> e_present (control v i)}"

definition root_shown :: "pager \<Rightarrow> vmem \<Rightarrow> bool" where
  "root_shown pg v \<longleftrightarrow> (\<forall>w. work_pages pg ! 0 = Some w \<longrightarrow> workpage v w = pml4 pg)"

lemma slots_ok_present:
  assumes "slots_ok pg v" "\<And>j. e_present (control v' j) \<longleftrightarrow> e_present (control v j)"
  shows "slots_ok pg v'"
  using assms by (simp add: slots_ok_def)

lemma slots_okD:
  assumes "slots_ok pg v" "k < 4" "work_pages pg ! k = Some w"
  shows "w < 511" "e_present (control v w)" "j < 4 \<Longrightarrow> j \<noteq> k \<Longrightarrow> work_pages pg ! j \<noteq> Some w"
  using assms unfolding slots_ok_def by (metis option.distinct(1))+

lemma aquire_ok:
  assumes "paging_wf v root" "i < 511" "\<not> e_present (control v i)"
  shows "\<exists>w. aquireWorkpageIndex v = Some (w, write_entry (control_frame v) w (put_bit 0 True (control v w)) v) \<and>
    w < 511 \<and> \<not> e_present (control v w)"
proof -
  have "find (\<lambda>i. \<not> e_present (control v i)) [0..<511] \<noteq> None"
    using assms(2,3) by (simp add: find_None_iff del: upt_Suc) blast
  then obtain w where w: "find (\<lambda>i. \<not> e_present (control v i)) [0..<511] = Some w" by blast
  then have "w \<in> set [0..<511] \<and> \<not> e_present (control v w)" by (auto simp: find_Some_iff simp del: upt_Suc)
  then show ?thesis using w by (simp add: aquireWorkpageIndex_def)
qed

lemma getWorkpage_ok:
  assumes "paging_wf v root" "slots_ok pg v" "k < 4"
  shows "\<exists>w v'. getWorkpage k (pg, v) = Some (w, pg\<lparr>work_pages := (work_pages pg)[k := Some w]\<rparr>, v') \<and>
    space_kept 0 root v v' \<and> slots_ok (pg\<lparr>work_pages := (work_pages pg)[k := Some w]\<rparr>) v' \<and>
    (\<forall>j. workpage v' j = workpage v j)"
proof (cases "work_pages pg ! k")
  case (Some w)
  then have "(work_pages pg)[k := Some w] = work_pages pg" by (metis list_update_id)
  then show ?thesis using Some assms space_kept_refl [OF assms(1)] by (simp add: getWorkpage_def)
next
  case None
  let ?A = "{k. k < 4 \<and> work_pages pg ! k = None}" and ?B = "{i. i < 511 \<and> \<not> e_present (control v i)}"
  have len: "length (work_pages pg) = 4" and le: "card ?A \<le> card ?B" using assms(2) by (simp_all add: slots_ok_def)
  have "k \<in> ?A" using assms(3) None by simp
  then have "0 < card ?A" by (auto simp: card_gt_0_iff)
  then have "0 < card ?B" using le by simp
  then obtain i where "i < 511" "\<not> e_present (control v i)" by (auto simp: card_gt_0_iff)
  then obtain w where w: "aquireWorkpageIndex v = Some (w, write_entry (control_frame v) w (put_bit 0 True (control v w)) v)"
    "w < 511" "\<not> e_present (control v w)"
    using aquire_ok [OF assms(1)] by blast
  let ?v = "write_entry (control_frame v) w (put_bit 0 True (control v w)) v"
  let ?wp = "(work_pages pg)[k := Some w]"
  note ctl = control_write(2) [OF assms(1), of w "put_bit 0 True (control v w)"]
  have old: "work_pages pg ! j \<noteq> Some w" if "j < 4" for j
    using w(3) slots_okD(2) [OF assms(2) that] by auto
  have "{j. j < 4 \<and> ?wp ! j = None} = ?A - {k}"
    using len assms(3) by (auto simp: nth_list_update split: if_splits)
  moreover have "{i. i < 511 \<and> \<not> e_present (control ?v i)} = ?B - {w}" by (auto simp: ctl)
  moreover have "card (?A - {k}) = card ?A - 1" using \<open>k \<in> ?A\<close> by simp
  moreover have "card (?B - {w}) = card ?B - 1" using w by simp
  ultimately have "card {j. j < 4 \<and> ?wp ! j = None} \<le> card {i. i < 511 \<and> \<not> e_present (control ?v i)}"
    using le by simp
  moreover have nth: "?wp ! j = (if j = k then Some w else work_pages pg ! j)" if "j < 4" for j
    using len that by (simp add: nth_list_update)
  have "x < 511 \<and> e_present (control ?v x)" if "j < 4" "?wp ! j = Some x" for j x
    using that nth w(2) slots_okD(1,2) [OF assms(2), of j x] by (auto simp: ctl split: if_splits)
  moreover have "i = j" if "i < 4" "j < 4" "?wp ! i = ?wp ! j" "?wp ! i \<noteq> None" for i j
  proof (cases "i = k \<or> j = k")
    case True
    then show ?thesis using that nth old by (metis (full_types))
  next
    case False
    then show ?thesis using that nth assms(2) by (simp add: slots_ok_def)
  qed
  ultimately have "slots_ok (pg\<lparr>work_pages := ?wp\<rparr>) ?v"
    using len unfolding slots_ok_def by simp
  moreover have "workpage ?v j = workpage v j" for j by (simp add: workpage_def ctl)
  ultimately show ?thesis
    using control_write(1) [OF assms(1)] None w(1) by (auto simp: getWorkpage_def)
qed

text \<open>One level of \<^verbatim>\<open>mapStructures\<close> together with its work page.\<close>

lemma slot_level_ok:
  assumes "paging_wf v (pml4 pg)" "slots_ok pg v" "root_shown pg v" "0 < k" "k < 4"
    "j < 4" "j \<noteq> k" "work_pages pg ! j = Some pw"
    "table_at (frames v) (pml4 pg) path = Some (workpage v pw)" "length path < 3" "0 < free_count v"
  shows "\<exists>w v1 v'. getWorkpage k (pg, v) = Some (w, pg\<lparr>work_pages := (work_pages pg)[k := Some w]\<rparr>, v1) \<and>
    map_level pw w e v1 = Some v' \<and> space_kept 1 (pml4 pg) v v' \<and>
    slots_ok (pg\<lparr>work_pages := (work_pages pg)[k := Some w]\<rparr>) v' \<and>
    root_shown (pg\<lparr>work_pages := (work_pages pg)[k := Some w]\<rparr>) v' \<and>
    table_at (frames v') (pml4 pg) (path @ [e]) = Some (workpage v' w)"
proof -
  obtain w v1 where g: "getWorkpage k (pg, v) = Some (w, pg\<lparr>work_pages := (work_pages pg)[k := Some w]\<rparr>, v1)"
    "space_kept 0 (pml4 pg) v v1" "slots_ok (pg\<lparr>work_pages := (work_pages pg)[k := Some w]\<rparr>) v1"
    "\<forall>j. workpage v1 j = workpage v j"
    using getWorkpage_ok [OF assms(1,2,5)] by blast
  let ?pg = "pg\<lparr>work_pages := (work_pages pg)[k := Some w]\<rparr>"
  have len: "length (work_pages pg) = 4" using assms(2) by (simp add: slots_ok_def)
  have kw: "work_pages ?pg ! k = Some w" using len assms(5) by simp
  have other: "work_pages ?pg ! i \<noteq> Some w" if "i < 4" "i \<noteq> k" for i
    using slots_okD(3) [OF g(3) assms(5) kw that] .
  have ne: "pw \<noteq> w" using other [OF assms(6,7)] assms(7,8) by auto
  have t1: "table_at (frames v1) (pml4 pg) path = Some (workpage v1 pw)"
    using space_keptD(2) [OF g(2) _ assms(9)] assms(10) g(4) by simp
  have f1: "0 < free_count v1" using space_keptD(4) [OF g(2)] assms(11) by simp
  obtain v' where m: "map_level pw w e v1 = Some v'" "space_kept 1 (pml4 pg) v1 v'"
    "table_at (frames v') (pml4 pg) (path @ [e]) = Some (workpage v' w)" "e_present (control v' w)"
    "\<forall>j. j \<noteq> w \<longrightarrow> control v' j = control v1 j"
    using map_level_ok [OF space_keptD(1) [OF g(2)] assms(10) t1 ne f1] by blast
  have "e_present (control v' i) \<longleftrightarrow> e_present (control v1 i)" for i
    using m(4,5) slots_okD(2) [OF g(3) assms(5) kw] by (cases "i = w") auto
  then have "slots_ok ?pg v'" by (rule slots_ok_present [OF g(3)])
  moreover have "root_shown ?pg v'"
    unfolding root_shown_def
  proof (intro allI impI)
    fix x assume x: "work_pages ?pg ! 0 = Some x"
    then have "x \<noteq> w" using other [of 0] assms(4) by auto
    then have "workpage v' x = workpage v x" using m(5) g(4) by (metis workpage_def)
    then show "workpage v' x = pml4 ?pg" using assms(3,4) x by (simp add: root_shown_def)
  qed
  moreover have "space_kept 1 (pml4 pg) v v'" using space_kept_trans [OF g(2) m(2)] by simp
  ultimately show ?thesis using g(1) m(1,3) by blast
qed

definition pager_ready :: "pager \<Rightarrow> vmem \<Rightarrow> bool" where
  "pager_ready pg v \<longleftrightarrow> paging_wf v (pml4 pg) \<and> slots_ok pg v \<and> root_shown pg v \<and>
     current_pml4e pg = -1 \<and> current_pdpte pg = -1 \<and> current_pde pg = -1"

lemma root_slot_ok:
  assumes "pager_ready pg v"
  shows "\<exists>w v'. map_root (pg, v) = Some (w, pg\<lparr>work_pages := (work_pages pg)[0 := Some w]\<rparr>, v') \<and>
    space_kept 0 (pml4 pg) v v' \<and> slots_ok (pg\<lparr>work_pages := (work_pages pg)[0 := Some w]\<rparr>) v' \<and>
    workpage v' w = pml4 pg"
proof (cases "work_pages pg ! 0")
  case (Some w)
  then have "(work_pages pg)[0 := Some w] = work_pages pg" by (metis list_update_id)
  then show ?thesis
    using Some assms space_kept_refl by (auto simp: pager_ready_def root_shown_def map_root_def)
next
  case None
  have a: "paging_wf v (pml4 pg)" "slots_ok pg v" using assms by (simp_all add: pager_ready_def)
  obtain w v1 where g: "getWorkpage 0 (pg, v) = Some (w, pg\<lparr>work_pages := (work_pages pg)[0 := Some w]\<rparr>, v1)"
    "space_kept 0 (pml4 pg) v v1" "slots_ok (pg\<lparr>work_pages := (work_pages pg)[0 := Some w]\<rparr>) v1"
    using getWorkpage_ok [OF a, of 0] by auto
  let ?pg = "pg\<lparr>work_pages := (work_pages pg)[0 := Some w]\<rparr>"
  let ?v = "write_entry (control_frame v1) w (pml4 pg OR 0x8000000000000003) v1"
  note wf1 = space_keptD(1) [OF g(2)]
  note ctl = control_write(2) [OF wf1, of w "pml4 pg OR 0x8000000000000003"]
  have len: "length (work_pages pg) = 4" using a(2) by (simp add: slots_ok_def)
  have "e_present (control v1 w)" using slots_okD(2) [OF g(3), of 0 w] len by simp
  then have "e_present (control ?v i) \<longleftrightarrow> e_present (control v1 i)" for i by (simp add: ctl)
  then have "slots_ok ?pg ?v" by (rule slots_ok_present [OF g(3)])
  moreover obtain n where "n < 2 ^ 20" "pml4 pg = page_addr n"
    using paging_wfD(3) [OF a(1), of "[]"] by auto
  then have "table_addr (pml4 pg OR 0x8000000000000003) = pml4 pg" using table_addr_ptr(1) by simp
  then have "workpage ?v w = pml4 pg" by (simp add: workpage_def ctl)
  moreover have "space_kept 0 (pml4 pg) v ?v"
    using space_kept_trans [OF g(2) control_write(1) [OF wf1]] by simp
  ultimately show ?thesis using None g(1) by (auto simp: map_root_def)
qed

lemma mapStructures_ok:
  assumes "pager_ready pg v" "3 \<le> free_count v"
  obtains wp w v' where "mapStructures a b c (pg, v) = Some (pg\<lparr>work_pages := wp\<rparr>, v')"
    "space_kept 3 (pml4 pg) v v'" "pager_ready (pg\<lparr>work_pages := wp\<rparr>) v'" "wp ! 3 = Some w"
    "\<forall>x. work_pages pg ! 3 = Some x \<longrightarrow> w = x"
    "table_at (frames v') (pml4 pg) [a, b, c] = Some (workpage v' w)"
proof -
  let ?r = "pml4 pg"
  have cur: "current_pml4e pg = -1" "current_pdpte pg = -1" "current_pde pg = -1"
    and len: "length (work_pages pg) = 4"
    using assms(1) by (simp_all add: pager_ready_def slots_ok_def)
  obtain w0 v0 where s0: "map_root (pg, v) = Some (w0, pg\<lparr>work_pages := (work_pages pg)[0 := Some w0]\<rparr>, v0)"
    "space_kept 0 ?r v v0" "slots_ok (pg\<lparr>work_pages := (work_pages pg)[0 := Some w0]\<rparr>) v0" "workpage v0 w0 = ?r"
    using root_slot_ok [OF assms(1)] by blast
  define pg0 where "pg0 = pg\<lparr>work_pages := (work_pages pg)[0 := Some w0]\<rparr>"
  have p0: "pml4 pg0 = ?r" "work_pages pg0 ! 0 = Some w0" using len by (simp_all add: pg0_def)
  have r0: "root_shown pg0 v0" using s0(4) p0 by (simp add: root_shown_def)
  have f0: "3 \<le> free_count v0" using space_keptD(4) [OF s0(2)] assms(2) by simp
  obtain w1 u1 v1 where s1: "getWorkpage 1 (pg0, v0) = Some (w1, pg0\<lparr>work_pages := (work_pages pg0)[1 := Some w1]\<rparr>, u1)"
    "map_level w0 w1 a u1 = Some v1" "space_kept 1 ?r v0 v1"
    "slots_ok (pg0\<lparr>work_pages := (work_pages pg0)[1 := Some w1]\<rparr>) v1"
    "root_shown (pg0\<lparr>work_pages := (work_pages pg0)[1 := Some w1]\<rparr>) v1"
    "table_at (frames v1) ?r [a] = Some (workpage v1 w1)"
    using slot_level_ok [where v = v0 and pg = pg0 and k = 1 and j = 0 and path = "[]" and e = a, OF _ s0(3) [folded pg0_def] r0 _ _ _ _ p0(2)]
      space_keptD(1) [OF s0(2)] s0(4) p0(1) f0 by auto
  define pg1 where "pg1 = pg0\<lparr>work_pages := (work_pages pg0)[1 := Some w1]\<rparr>"
  have p1: "pml4 pg1 = ?r" "work_pages pg1 ! 1 = Some w1" using len p0 by (simp_all add: pg0_def pg1_def)
  have f1: "2 \<le> free_count v1" using space_keptD(4) [OF s1(3)] f0 by simp
  obtain w2 u2 v2 where s2: "getWorkpage 2 (pg1, v1) = Some (w2, pg1\<lparr>work_pages := (work_pages pg1)[2 := Some w2]\<rparr>, u2)"
    "map_level w1 w2 b u2 = Some v2" "space_kept 1 ?r v1 v2"
    "slots_ok (pg1\<lparr>work_pages := (work_pages pg1)[2 := Some w2]\<rparr>) v2"
    "root_shown (pg1\<lparr>work_pages := (work_pages pg1)[2 := Some w2]\<rparr>) v2"
    "table_at (frames v2) ?r [a, b] = Some (workpage v2 w2)"
    using slot_level_ok [where v = v1 and pg = pg1 and k = 2 and j = 1 and path = "[a]" and e = b, OF _ s1(4,5) [folded pg1_def] _ _ _ _ p1(2)]
      space_keptD(1) [OF s1(3)] s1(6) p1(1) f1 by auto
  define pg2 where "pg2 = pg1\<lparr>work_pages := (work_pages pg1)[2 := Some w2]\<rparr>"
  have p2: "pml4 pg2 = ?r" "work_pages pg2 ! 2 = Some w2" using len p1 by (simp_all add: pg0_def pg1_def pg2_def)
  have f2: "1 \<le> free_count v2" using space_keptD(4) [OF s2(3)] f1 by simp
  obtain w3 u3 v3 where s3: "getWorkpage 3 (pg2, v2) = Some (w3, pg2\<lparr>work_pages := (work_pages pg2)[3 := Some w3]\<rparr>, u3)"
    "map_level w2 w3 c u3 = Some v3" "space_kept 1 ?r v2 v3"
    "slots_ok (pg2\<lparr>work_pages := (work_pages pg2)[3 := Some w3]\<rparr>) v3"
    "root_shown (pg2\<lparr>work_pages := (work_pages pg2)[3 := Some w3]\<rparr>) v3"
    "table_at (frames v3) ?r [a, b, c] = Some (workpage v3 w3)"
    using slot_level_ok [where v = v2 and pg = pg2 and k = 3 and j = 2 and path = "[a, b]" and e = c, OF _ s2(4,5) [folded pg2_def] _ _ _ _ p2(2)]
      space_keptD(1) [OF s2(3)] s2(6) p2(1) f2 by auto
  let ?wp = "(work_pages pg2)[3 := Some w3]"
  have pg': "pg2\<lparr>work_pages := ?wp\<rparr> = pg\<lparr>work_pages := ?wp\<rparr>" by (simp add: pg0_def pg1_def pg2_def)
  have "current_pml4e pg0 \<noteq> int a" using cur by (simp add: pg0_def)
  then have run: "mapStructures a b c (pg, v) = Some (pg\<lparr>work_pages := ?wp\<rparr>, v3)"
    unfolding mapStructures_def pg' [symmetric]
    using s0(1) [folded pg0_def] s1(1,2) [folded pg1_def] s2(1,2) [folded pg2_def] s3(1,2) by simp
  have kept: "space_kept 3 ?r v v3"
    using space_kept_trans [OF s0(2) space_kept_trans [OF s1(3) space_kept_trans [OF s2(3) s3(3)]]]
    by (simp add: numeral_3_eq_3)
  have ready: "pager_ready (pg\<lparr>work_pages := ?wp\<rparr>) v3"
    using s3(4,5) cur space_keptD(1) [OF s3(3)] unfolding pg' pager_ready_def by simp
  have slot: "w3 = x" if old: "work_pages pg ! 3 = Some x" for x
  proof -
    have "work_pages pg2 ! 3 = Some x" using old by (simp add: pg0_def pg1_def pg2_def)
    then show ?thesis using s3(1) by (simp add: getWorkpage_def)
  qed
  have "?wp ! 3 = Some w3" using len by (simp add: pg0_def pg1_def pg2_def)
  then show thesis using slot by (intro that [OF run kept ready _ _ s3(6)]) auto
qed

section \<open>Virtual pages\<close>

text \<open>A virtual address has 36 bits of page number: four table indices of nine bits.\<close>

type_synonym vpage = "36 word"

definition vpage_of :: "u64 \<Rightarrow> vpage" where
  "vpage_of n = ucast n"

definition vpath :: "vpage \<Rightarrow> nat list" where
  "vpath p = [unat (drop_bit 27 p), unat (take_bit 9 (drop_bit 18 p)), unat (take_bit 9 (drop_bit 9 p))]"

definition vindex :: "vpage \<Rightarrow> nat" where
  "vindex p = unat (take_bit 9 p)"

text \<open>The address space of a pager: the leaf entry of every virtual page.\<close>

definition space :: "pager \<Rightarrow> vmem \<Rightarrow> vpage \<Rightarrow> u64" where
  "space pg v p = pte v (pml4 pg) (vpath p) (vindex p)"

definition in_window :: "vpage \<Rightarrow> bool" where
  "in_window p \<longleftrightarrow> vpath p = work_window"

lemma length_vpath [simp]: "length (vpath p) = 3"
  by (simp add: vpath_def)

lemma vpage_indices:
  "[pml4_index n, pdpt_index n, pd_index n] = vpath (vpage_of n)" "pt_index n = vindex (vpage_of n)"
  by (simp_all add: vpath_def vindex_def vpage_of_def pml4_index_def pdpt_index_def pd_index_def pt_index_def
      and_low_mask unsigned_take_bit_eq unat_drop_bit_eq unsigned_ucast_eq drop_bit_take_bit min_def)

lemma vpage_of_add: "vpage_of (n + of_nat i) = vpage_of n + of_nat i"
proof (rule word_unat_eq_iff [THEN iffD2])
  have m: "x mod 2 ^ 64 mod 2 ^ 36 = x mod 2 ^ 36" for x :: nat
    by (rule mod_mod_cancel) (rule le_imp_power_dvd, simp)
  have u: "unat (vpage_of a) = unat a mod 2 ^ 36" for a
    by (simp add: vpage_of_def unsigned_ucast_eq take_bit_eq_mod)
  have "unat (vpage_of (n + of_nat i)) = (unat n + i mod 2 ^ 64) mod 2 ^ 64 mod 2 ^ 36"
    unfolding u by (simp add: unat_word_ariths(1) unat_of_nat)
  also have "\<dots> = (unat n + i) mod 2 ^ 36"
    unfolding m by (metis m mod_add_right_eq)
  also have "\<dots> = unat (vpage_of n + of_nat i)"
    unfolding unat_word_ariths(1) u by (simp add: unat_of_nat mod_add_eq)
  finally show "unat (vpage_of (n + of_nat i)) = unat (vpage_of n + of_nat i)" .
qed

lemma vpage_eqI:
  assumes "vpath p = vpath q" "vindex p = vindex q"
  shows "p = q"
proof (rule bit_word_eqI)
  have eq: "drop_bit 27 p = drop_bit 27 q" "take_bit 9 (drop_bit 18 p) = take_bit 9 (drop_bit 18 q)"
    "take_bit 9 (drop_bit 9 p) = take_bit 9 (drop_bit 9 q)" "take_bit 9 p = take_bit 9 q"
    using assms unfolding vpath_def vindex_def word_unat_eq_iff by simp_all
  fix k assume k: "k < LENGTH(36)"
  have "bit (drop_bit 27 p) (k - 27) \<longleftrightarrow> bit (drop_bit 27 q) (k - 27)"
    "bit (take_bit 9 (drop_bit 18 p)) (k - 18) \<longleftrightarrow> bit (take_bit 9 (drop_bit 18 q)) (k - 18)"
    "bit (take_bit 9 (drop_bit 9 p)) (k - 9) \<longleftrightarrow> bit (take_bit 9 (drop_bit 9 q)) (k - 9)"
    "bit (take_bit 9 p) k \<longleftrightarrow> bit (take_bit 9 q) k"
    by (simp_all only: eq)
  then show "bit p k \<longleftrightarrow> bit q k"
    using k by (cases "k < 9"; cases "k < 18"; cases "k < 27") (auto simp: bit_simps)
qed

lemma leaf_write:
  assumes "paging_wf v root" "table_at (frames v) root path = Some T" "length path = 3" "path \<noteq> work_window"
  shows "paging_wf (write_entry T i x v) root"
    "length p = 3 \<Longrightarrow> pte (write_entry T i x v) root p j = (if p = path \<and> j = i then x else pte v root p j)"
    "control (write_entry T i x v) k = control v k"
proof -
  have t: "table_at ((frames v)(T := g)) root p = table_at (frames v) root p" if "length p \<le> 3" for p g
  proof (rule table_at_untouched)
    fix q :: "nat list" assume "length q < length p"
    then show "table_at (frames v) root q \<noteq> Some T"
      using paging_wfD(2) [OF assms(1), of q path T] assms(2,3) that by auto
  qed
  show "paging_wf (write_entry T i x v) root"
    using assms(1) t unfolding paging_wf_def write_entry_def by simp
  show "pte (write_entry T i x v) root p j = (if p = path \<and> j = i then x else pte v root p j)" if "length p = 3"
  proof (cases "p = path")
    case True
    then show ?thesis using t [of p] assms(2) that by (simp add: pte_def write_entry_def)
  next
    case False
    then have "table_at (frames v) root p \<noteq> Some T"
      using paging_wfD(2) [OF assms(1), of p path T] assms(2,3) that by auto
    then show ?thesis using t [of p] that False by (simp add: pte_def write_entry_def split: option.splits)
  qed
  have "T \<noteq> control_frame v"
    using paging_wfD(2) [OF assms(1), of path work_window T] paging_wfD(4) [OF assms(1)] assms(2-4) by auto
  then show "control (write_entry T i x v) k = control v k" by (simp add: control_def write_entry_def)
qed

section \<open>Updates of the address space\<close>

lemma space_kept_frame: "space_kept k r v v' \<Longrightarrow> same_frame v v'"
  by (simp add: space_kept_def)

lemma space_kept_space: "space_kept k (pml4 pg) v v' \<Longrightarrow> \<not> in_window p \<Longrightarrow> space pg v' p = space pg v p"
  by (simp add: space_def in_window_def space_keptD(3))

lemma visit_page_ok:
  assumes "pager_ready pg v" "3 \<le> free_count v" "work_pages pg ! 3 = Some w" "\<not> in_window (vpage_of n)"
  obtains wp T v' where "visit_page w n (pg, v) = Some ((space pg v (vpage_of n), T), pg\<lparr>work_pages := wp\<rparr>, v')"
    "space_kept 3 (pml4 pg) v v'" "pager_ready (pg\<lparr>work_pages := wp\<rparr>) v'" "wp ! 3 = Some w"
    "table_at (frames v') (pml4 pg) (vpath (vpage_of n)) = Some T"
proof -
  let ?a = "pml4_index n" and ?b = "pdpt_index n" and ?c = "pd_index n"
  obtain wp w' v1 where m: "mapStructures ?a ?b ?c (pg, v) = Some (pg\<lparr>work_pages := wp\<rparr>, v1)"
    "space_kept 3 (pml4 pg) v v1" "pager_ready (pg\<lparr>work_pages := wp\<rparr>) v1" "wp ! 3 = Some w'"
    "\<forall>x. work_pages pg ! 3 = Some x \<longrightarrow> w' = x" "table_at (frames v1) (pml4 pg) [?a, ?b, ?c] = Some (workpage v1 w')"
    by (rule mapStructures_ok [where a = ?a and b = ?b and c = ?c, OF assms(1,2)])
  have w: "w' = w" using m(5) assms(3) by simp
  have t: "table_at (frames v1) (pml4 pg) (vpath (vpage_of n)) = Some (workpage v1 w)"
    using m(6) w by (simp add: vpage_indices(1))
  have "frames v1 (workpage v1 w) (pt_index n) = space pg v1 (vpage_of n)"
    using t by (simp add: space_def pte_def vpage_indices(2))
  then have "frames v1 (workpage v1 w) (pt_index n) = space pg v (vpage_of n)"
    using space_kept_space [OF m(2) assms(4)] by simp
  then have "visit_page w n (pg, v) = Some ((space pg v (vpage_of n), workpage v1 w), pg\<lparr>work_pages := wp\<rparr>, v1)"
    using m(1) by (simp add: visit_page_def Let_def)
  then show thesis using m(4) w by (intro that [OF _ m(2,3) _ t]) simp_all
qed

lemma write_page_ok:
  assumes "pager_ready pg v" "table_at (frames v) (pml4 pg) (vpath (vpage_of n)) = Some T" "\<not> in_window (vpage_of n)"
  shows "pager_ready pg (write_entry T (pt_index n) x v)"
    "space pg (write_entry T (pt_index n) x v) p = (if p = vpage_of n then x else space pg v p)"
    "free_count (write_entry T (pt_index n) x v) = free_count v"
proof -
  have wf: "paging_wf v (pml4 pg)" using assms(1) by (simp add: pager_ready_def)
  have nw: "vpath (vpage_of n) \<noteq> work_window" using assms(3) by (simp add: in_window_def)
  note L = leaf_write [OF wf assms(2) length_vpath nw]
  show "pager_ready pg (write_entry T (pt_index n) x v)"
    using assms(1) L(1) by (simp add: pager_ready_def slots_ok_def root_shown_def workpage_def L(3))
  have "vpath p = vpath (vpage_of n) \<and> vindex p = pt_index n \<longleftrightarrow> p = vpage_of n"
    using vpage_eqI vpage_indices(2) by metis
  then show "space pg (write_entry T (pt_index n) x v) p = (if p = vpage_of n then x else space pg v p)"
    unfolding space_def using L(2) [of "vpath p"] by simp
  show "free_count (write_entry T (pt_index n) x v) = free_count v"
    by (simp add: free_count_def write_entry_def)
qed

lemma update_page_ok:
  assumes "pager_ready pg v" "3 \<le> free_count v" "work_pages pg ! 3 = Some w" "\<not> in_window (vpage_of n)"
  obtains wp v' where "update_page w n f (pg, v) = Some (pg\<lparr>work_pages := wp\<rparr>, v')"
    "pager_ready (pg\<lparr>work_pages := wp\<rparr>) v'" "wp ! 3 = Some w" "same_frame v v'" "free_count v \<le> free_count v' + 3"
    "\<forall>p. \<not> in_window p \<longrightarrow> space pg v' p = (if p = vpage_of n then f (space pg v p) else space pg v p)"
    "unmap_page w n (a, pg, v) = map_option (Pair (if a = 0 then table_addr (space pg v (vpage_of n)) else a))
       (update_page w n (\<lambda>_. 0) (pg, v))"
proof -
  obtain wp T v1 where m: "visit_page w n (pg, v) = Some ((space pg v (vpage_of n), T), pg\<lparr>work_pages := wp\<rparr>, v1)"
    "space_kept 3 (pml4 pg) v v1" "pager_ready (pg\<lparr>work_pages := wp\<rparr>) v1" "wp ! 3 = Some w"
    "table_at (frames v1) (pml4 pg) (vpath (vpage_of n)) = Some T"
    by (rule visit_page_ok [OF assms])
  let ?v = "write_entry T (pt_index n) (f (space pg v (vpage_of n))) v1"
  have t: "table_at (frames v1) (pml4 (pg\<lparr>work_pages := wp\<rparr>)) (vpath (vpage_of n)) = Some T" using m(5) by simp
  note W = write_page_ok [OF m(3) t assms(4), of "f (space pg v (vpage_of n))"]
  have same: "space (pg\<lparr>work_pages := wp\<rparr>) = space pg" by (simp add: space_def fun_eq_iff)
  have fr: "same_frame v ?v" by (rule same_frame_trans [OF space_kept_frame [OF m(2)]]) simp
  show thesis
  proof (rule that [OF _ W(1) m(4) fr])
    show "update_page w n f (pg, v) = Some (pg\<lparr>work_pages := wp\<rparr>, ?v)" using m(1) by (simp add: update_page_def)
    show "free_count v \<le> free_count ?v + 3" using space_keptD(4) [OF m(2)] W(3) by simp
    show "\<forall>p. \<not> in_window p \<longrightarrow> space pg ?v p = (if p = vpage_of n then f (space pg v p) else space pg v p)"
      using W(2) space_kept_space [OF m(2)] unfolding same by simp
    show "unmap_page w n (a, pg, v) = map_option (Pair (if a = 0 then table_addr (space pg v (vpage_of n)) else a))
       (update_page w n (\<lambda>_. 0) (pg, v))"
      using m(1) by (simp add: unmap_page_def update_page_def)
  qed
qed

lemma foldM_append: "foldM f (xs @ ys) s = Option.bind (foldM f xs s) (foldM f ys)"
  by (induction xs arbitrary: s) (auto split: bind_splits)

lemma foldM_Nil: "foldM f [] = Some"
  by (simp add: fun_eq_iff)

lemma page_offset:
  assumes "n < 2 ^ 36"
  shows "(p :: vpage) = q + of_nat n \<longleftrightarrow> unat (p - q) = n"
proof
  assume "p = q + of_nat n"
  then have "p - q = of_nat n" by simp
  then show "unat (p - q) = n" using assms by (simp add: unat_of_nat_less)
next
  assume "unat (p - q) = n"
  then have "of_nat n = p - q" by auto
  then show "p = q + of_nat n" by simp
qed

text \<open>The loop over consecutive pages that \<^verbatim>\<open>map\<close>, \<^verbatim>\<open>flags\<close> and \<^verbatim>\<open>unmap\<close> share.\<close>

lemma update_loop_ok:
  assumes "pager_ready pg v" "work_pages pg ! 3 = Some w" "3 * n \<le> free_count v" "n \<le> 2 ^ 36"
    "\<And>i. i < n \<Longrightarrow> \<not> in_window (vpage_of m + of_nat i)"
  shows "\<exists>wp v'. foldM (\<lambda>i. update_page w (m + of_nat i) (f i)) [0..<n] (pg, v) = Some (pg\<lparr>work_pages := wp\<rparr>, v') \<and>
    pager_ready (pg\<lparr>work_pages := wp\<rparr>) v' \<and> wp ! 3 = Some w \<and> same_frame v v' \<and> free_count v \<le> free_count v' + 3 * n \<and>
    (\<forall>p. \<not> in_window p \<longrightarrow> space pg v' p =
       (if unat (p - vpage_of m) < n then f (unat (p - vpage_of m)) (space pg v p) else space pg v p))"
  using assms(3-5)
proof (induction n)
  case 0
  show ?case using assms(1,2) by (intro exI [of _ "work_pages pg"] exI [of _ v]) simp
next
  case (Suc n)
  obtain wp v1 where IH: "foldM (\<lambda>i. update_page w (m + of_nat i) (f i)) [0..<n] (pg, v) = Some (pg\<lparr>work_pages := wp\<rparr>, v1)"
    "pager_ready (pg\<lparr>work_pages := wp\<rparr>) v1" "wp ! 3 = Some w" "same_frame v v1" "free_count v \<le> free_count v1 + 3 * n"
    and sp1: "\<And>p. \<not> in_window p \<Longrightarrow> space pg v1 p =
       (if unat (p - vpage_of m) < n then f (unat (p - vpage_of m)) (space pg v p) else space pg v p)"
    using Suc by auto
  have f1: "3 \<le> free_count v1" using IH(5) Suc.prems(1) by simp
  have nw: "\<not> in_window (vpage_of (m + of_nat n))" using Suc.prems(3) [of n] by (simp add: vpage_of_add)
  obtain wp' v' where u: "update_page w (m + of_nat n) (f n) (pg\<lparr>work_pages := wp\<rparr>, v1) =
      Some (pg\<lparr>work_pages := wp\<rparr>\<lparr>work_pages := wp'\<rparr>, v')"
    "pager_ready (pg\<lparr>work_pages := wp\<rparr>\<lparr>work_pages := wp'\<rparr>) v'" "wp' ! 3 = Some w" "same_frame v1 v'"
    "free_count v1 \<le> free_count v' + 3"
    "\<forall>p. \<not> in_window p \<longrightarrow> space (pg\<lparr>work_pages := wp\<rparr>) v' p =
      (if p = vpage_of (m + of_nat n) then f n (space (pg\<lparr>work_pages := wp\<rparr>) v1 p) else space (pg\<lparr>work_pages := wp\<rparr>) v1 p)"
    by (rule update_page_ok [where f = "f n", OF IH(2) f1 _ nw]) (simp add: IH(3))
  have same: "space (pg\<lparr>work_pages := wp\<rparr>) = space pg" by (simp add: space_def fun_eq_iff)
  have sp: "space pg v' p = (if unat (p - vpage_of m) < Suc n then f (unat (p - vpage_of m)) (space pg v p) else space pg v p)"
    if "\<not> in_window p" for p
  proof -
    have "p = vpage_of (m + of_nat n) \<longleftrightarrow> unat (p - vpage_of m) = n"
      unfolding vpage_of_add by (rule page_offset) (use Suc.prems(2) in simp)
    then show ?thesis using u(6) [rule_format, OF that] sp1 [OF that] unfolding same by (auto simp: less_Suc_eq)
  qed
  have "foldM (\<lambda>i. update_page w (m + of_nat i) (f i)) [0..<Suc n] (pg, v) = Some (pg\<lparr>work_pages := wp'\<rparr>, v')"
    using IH(1) u(1) by (simp add: foldM_append)
  moreover have "same_frame v v'" by (rule same_frame_trans [OF IH(4) u(4)])
  moreover have "free_count v \<le> free_count v' + 3 * Suc n" using IH(5) u(5) by simp
  ultimately show ?case using u(2,3) sp by (intro exI [of _ wp'] exI [of _ v']) simp
qed

lemma slot3_ready:
  assumes "pager_ready pg v"
  obtains w wp v' where "getWorkpage 3 (pg, v) = Some (w, pg\<lparr>work_pages := wp\<rparr>, v')" "wp ! 3 = Some w"
    "pager_ready (pg\<lparr>work_pages := wp\<rparr>) v'" "space_kept 0 (pml4 pg) v v'"
proof -
  have a: "paging_wf v (pml4 pg)" "slots_ok pg v" "length (work_pages pg) = 4"
    using assms by (simp_all add: pager_ready_def slots_ok_def)
  obtain w v' where g: "getWorkpage 3 (pg, v) = Some (w, pg\<lparr>work_pages := (work_pages pg)[3 := Some w]\<rparr>, v')"
    "space_kept 0 (pml4 pg) v v'" "slots_ok (pg\<lparr>work_pages := (work_pages pg)[3 := Some w]\<rparr>) v'"
    "\<forall>j. workpage v' j = workpage v j"
    using getWorkpage_ok [OF a(1,2), of 3] by auto
  have r: "pager_ready (pg\<lparr>work_pages := (work_pages pg)[3 := Some w]\<rparr>) v'"
    using assms g(3,4) space_keptD(1) [OF g(2)] by (simp add: pager_ready_def root_shown_def)
  show thesis by (rule that [OF g(1) _ r g(2)]) (simp add: a(3))
qed

text \<open>\<^verbatim>\<open>unmap\<close> returns the first address that is not 0 among those it removes.\<close>

definition first_address :: "u64 list \<Rightarrow> physaddr_t" where
  "first_address es = foldl (\<lambda>a e. if a = 0 then table_addr e else a) 0 es"

lemma first_address_snoc:
  "first_address (es @ [e]) = (if first_address es = 0 then table_addr e else first_address es)"
  by (simp add: first_address_def)

lemma unmap_loop_ok:
  assumes "pager_ready pg v" "work_pages pg ! 3 = Some w" "3 * n \<le> free_count v" "n \<le> 2 ^ 36"
    "\<And>i. i < n \<Longrightarrow> \<not> in_window (vpage_of m + of_nat i)"
  shows "foldM (\<lambda>i. unmap_page w (m + of_nat i)) [0..<n] (0, pg, v) =
    map_option (Pair (first_address (map (\<lambda>i. space pg v (vpage_of m + of_nat i)) [0..<n])))
      (foldM (\<lambda>i. update_page w (m + of_nat i) (\<lambda>_. 0)) [0..<n] (pg, v))"
  using assms(3-5)
proof (induction n)
  case 0
  show ?case by (simp add: first_address_def)
next
  case (Suc n)
  let ?a = "first_address (map (\<lambda>i. space pg v (vpage_of m + of_nat i)) [0..<n])"
  obtain wp v1 where L: "foldM (\<lambda>i. update_page w (m + of_nat i) (\<lambda>_. 0)) [0..<n] (pg, v) = Some (pg\<lparr>work_pages := wp\<rparr>, v1)"
    "pager_ready (pg\<lparr>work_pages := wp\<rparr>) v1" "wp ! 3 = Some w" "free_count v \<le> free_count v1 + 3 * n"
    "\<forall>p. \<not> in_window p \<longrightarrow> space pg v1 p = (if unat (p - vpage_of m) < n then 0 else space pg v p)"
    using update_loop_ok [OF assms(1,2), of n m "\<lambda>_ _. 0"] Suc.prems by auto
  have f1: "3 \<le> free_count v1" using L(4) Suc.prems(1) by simp
  have nw: "\<not> in_window (vpage_of (m + of_nat n))" using Suc.prems(3) [of n] by (simp add: vpage_of_add)
  have "unmap_page w (m + of_nat n) (?a, pg\<lparr>work_pages := wp\<rparr>, v1) =
      map_option (Pair (if ?a = 0 then table_addr (space (pg\<lparr>work_pages := wp\<rparr>) v1 (vpage_of (m + of_nat n))) else ?a))
       (update_page w (m + of_nat n) (\<lambda>_. 0) (pg\<lparr>work_pages := wp\<rparr>, v1))"
    by (rule update_page_ok [where a = ?a, OF L(2) f1 _ nw]) (simp_all add: L(3))
  moreover have "space (pg\<lparr>work_pages := wp\<rparr>) v1 (vpage_of (m + of_nat n)) = space pg v (vpage_of m + of_nat n)"
  proof -
    have "unat ((vpage_of m + of_nat n) - vpage_of m) = n"
      using page_offset [of n "vpage_of m + of_nat n" "vpage_of m"] Suc.prems(2) by simp
    then have "space pg v1 (vpage_of m + of_nat n) = space pg v (vpage_of m + of_nat n)"
      using L(5) nw by (simp add: vpage_of_add)
    then show ?thesis by (simp add: space_def vpage_of_add)
  qed
  ultimately show ?case
    using Suc.IH Suc.prems L(1) by (simp add: foldM_append foldM_Nil first_address_snoc option.map_ident)
qed

section \<open>Locks and assertions\<close>

lemma unlocked_view [simp]:
  "pager_ready pg (v\<lparr>kernel_locker := m\<rparr>) = pager_ready pg v"
  "space pg (v\<lparr>kernel_locker := m\<rparr>) = space pg v"
  "free_count (v\<lparr>kernel_locker := m\<rparr>) = free_count v"
  by (simp_all add: pager_ready_def paging_wf_def slots_ok_def root_shown_def workpage_def control_def
      space_def pte_def free_count_def fun_eq_iff split: option.split)

definition klocked :: "bool \<Rightarrow> vmem \<Rightarrow> recursive_mutex" where
  "klocked c v = (if c then (kernel_locker v)\<lparr>f_counter := f_counter (kernel_locker v) + 1, f_owner := running v,
     f_recursion := Suc (f_recursion (kernel_locker v))\<rparr> else kernel_locker v)"

lemma klock_if_ok:
  assumes "rm_available (running v) (kernel_locker v)"
  shows "klock_if c (pg, v) = Some (pg, v\<lparr>kernel_locker := klocked c v\<rparr>)"
  using rm_lock_available(1) [OF assms] by (simp add: klock_if_def klock_def klocked_def)

lemma klocked_available:
  assumes "rm_available (running v) (kernel_locker v)"
  shows "rm_available (running v) (klocked c v)"
  using rm_lock_available(2) [OF assms] assms by (simp add: klocked_def)

lemma kunlock_if_ok:
  assumes "rm_available (running v) (kernel_locker v)" "same_frame (v\<lparr>kernel_locker := klocked c v\<rparr>) u"
  shows "kunlock_if c (pg, u) = (pg, u\<lparr>kernel_locker := kernel_locker v\<rparr>)"
    "same_frame v (u\<lparr>kernel_locker := kernel_locker v\<rparr>)"
proof -
  have eq: "kernel_locker u = klocked c v" "running u = running v"
    using assms(2) by (simp_all add: same_frame_def)
  have "kernel_locker v = kernel_locker u" if "\<not> c" using eq that by (simp add: klocked_def)
  then show "kunlock_if c (pg, u) = (pg, u\<lparr>kernel_locker := kernel_locker v\<rparr>)"
    using rm_lock_unlock [OF assms(1)] eq by (auto simp: kunlock_if_def kunlock_def klocked_def assert_f_def)
  show "same_frame v (u\<lparr>kernel_locker := kernel_locker v\<rparr>)" using assms(2) by (simp add: same_frame_def)
qed

text \<open>The common body of \<^verbatim>\<open>map\<close> and \<^verbatim>\<open>flags\<close>, and of \<^verbatim>\<open>unmap\<close>.\<close>

definition pages_ok :: "pstate \<Rightarrow> virtaddr_t \<Rightarrow> size_t \<Rightarrow> bool" where
  "pages_ok st virt len \<longleftrightarrow> (case st of (pg, v) \<Rightarrow>
     pager_ready pg v \<and> rm_available (running v) (kernel_locker v) \<and> rm_is_locked (pager_locker pg) \<and>
     3 * unat len \<le> free_count v \<and> unat len \<le> 2 ^ 36 \<and>
     (\<forall>i<unat len. \<not> in_window (vpage_of (drop_bit 12 virt) + of_nat i)))"

definition in_pages :: "virtaddr_t \<Rightarrow> size_t \<Rightarrow> vpage \<Rightarrow> bool" where
  "in_pages virt len p \<longleftrightarrow> unat (p - vpage_of (drop_bit 12 virt)) < unat len"

definition page_number :: "virtaddr_t \<Rightarrow> vpage \<Rightarrow> nat" where
  "page_number virt p = unat (p - vpage_of (drop_bit 12 virt))"

lemma locked_update_ok:
  assumes "pages_ok (pg, v) virt len"
  obtains w st1 wp v' where "getWorkpage 3 (pg, v\<lparr>kernel_locker := klocked c v\<rparr>) = Some (w, st1)"
    "foldM (\<lambda>i. update_page w (drop_bit 12 virt + of_nat i) (f i)) [0..<unat len] st1 = Some (pg\<lparr>work_pages := wp\<rparr>, v')"
    "foldM (\<lambda>i. unmap_page w (drop_bit 12 virt + of_nat i)) [0..<unat len] (0, st1) =
      map_option (Pair (first_address (map (\<lambda>i. space pg v (vpage_of (drop_bit 12 virt) + of_nat i)) [0..<unat len])))
       (foldM (\<lambda>i. update_page w (drop_bit 12 virt + of_nat i) (\<lambda>_. 0)) [0..<unat len] st1)"
    "pager_ready (pg\<lparr>work_pages := wp\<rparr>) v'" "same_frame (v\<lparr>kernel_locker := klocked c v\<rparr>) v'"
    "free_count v \<le> free_count v' + 3 * unat len"
    "\<forall>p. \<not> in_window p \<longrightarrow> space pg v' p =
       (if in_pages virt len p then f (page_number virt p) (space pg v p) else space pg v p)"
proof -
  let ?v = "v\<lparr>kernel_locker := klocked c v\<rparr>" and ?m = "drop_bit 12 virt" and ?n = "unat len"
  have a: "pager_ready pg ?v" "3 * ?n \<le> free_count v" "?n \<le> 2 ^ 36"
    and nw: "\<And>i. i < ?n \<Longrightarrow> \<not> in_window (vpage_of ?m + of_nat i)"
    using assms by (simp_all add: pages_ok_def)
  obtain w wp v1 where g: "getWorkpage 3 (pg, ?v) = Some (w, pg\<lparr>work_pages := wp\<rparr>, v1)" "wp ! 3 = Some w"
    "pager_ready (pg\<lparr>work_pages := wp\<rparr>) v1" "space_kept 0 (pml4 pg) ?v v1"
    by (rule slot3_ready [OF a(1)])
  have f1: "3 * ?n \<le> free_count v1" using space_keptD(4) [OF g(4)] a(2) by simp
  have w1: "work_pages (pg\<lparr>work_pages := wp\<rparr>) ! 3 = Some w" using g(2) by simp
  have same: "space (pg\<lparr>work_pages := x\<rparr>) = space pg" for x by (simp add: space_def fun_eq_iff)
  have sp: "space pg v1 p = space pg v p" if "\<not> in_window p" for p
    using space_kept_space [OF g(4) that] by simp
  obtain wp' v' where u: "foldM (\<lambda>i. update_page w (?m + of_nat i) (f i)) [0..<?n] (pg\<lparr>work_pages := wp\<rparr>, v1) =
      Some (pg\<lparr>work_pages := wp'\<rparr>, v')"
    "pager_ready (pg\<lparr>work_pages := wp'\<rparr>) v'" "same_frame v1 v'" "free_count v1 \<le> free_count v' + 3 * ?n"
    "\<forall>p. \<not> in_window p \<longrightarrow> space pg v' p =
       (if unat (p - vpage_of ?m) < ?n then f (unat (p - vpage_of ?m)) (space pg v1 p) else space pg v1 p)"
    using update_loop_ok [OF g(3) w1 f1 a(3) nw, of f] unfolding same by auto
  have es: "map (\<lambda>i. space (pg\<lparr>work_pages := wp\<rparr>) v1 (vpage_of ?m + of_nat i)) [0..<?n] =
      map (\<lambda>i. space pg v (vpage_of ?m + of_nat i)) [0..<?n]"
    using sp nw unfolding same by simp
  show thesis
  proof (rule that [OF g(1) u(1) _ u(2)])
    show "same_frame ?v v'" by (rule same_frame_trans [OF space_kept_frame [OF g(4)] u(3)])
    show "free_count v \<le> free_count v' + 3 * ?n" using space_keptD(4) [OF g(4)] u(4) by simp
    show "\<forall>p. \<not> in_window p \<longrightarrow> space pg v' p =
       (if in_pages virt len p then f (page_number virt p) (space pg v p) else space pg v p)"
      using u(5) sp by (simp add: in_pages_def page_number_def)
  qed (simp only: unmap_loop_ok [OF g(3) w1 f1 a(3) nw] es)
qed

section \<open>The operations on whole ranges\<close>

lemma asserts_hold:
  assumes "pages_ok (pg, v) virt len"
  shows "locked_assert (pg, v) = (pg, v)" "virt \<noteq> 0 \<Longrightarrow> pager_asserts virt (pg, v) = (pg, v)"
  using assms by (simp_all add: pages_ok_def locked_assert_def pager_asserts_def assert_f_def)

lemma finish_locked:
  assumes "pages_ok (pg, v) virt len" "pager_ready pg' v'" "same_frame (v\<lparr>kernel_locker := klocked c v\<rparr>) v'"
  shows "kunlock_if c (pg', v') = (pg', v'\<lparr>kernel_locker := kernel_locker v\<rparr>)"
    "pager_ready pg' (v'\<lparr>kernel_locker := kernel_locker v\<rparr>)"
    "same_frame v (v'\<lparr>kernel_locker := kernel_locker v\<rparr>)"
proof -
  have "rm_available (running v) (kernel_locker v)" using assms(1) by (simp add: pages_ok_def)
  note K = kunlock_if_ok [OF this assms(3)]
  show "kunlock_if c (pg', v') = (pg', v'\<lparr>kernel_locker := kernel_locker v\<rparr>)"
    "pager_ready pg' (v'\<lparr>kernel_locker := kernel_locker v\<rparr>)"
    "same_frame v (v'\<lparr>kernel_locker := kernel_locker v\<rparr>)"
    using K assms(2) by simp_all
qed

lemma pages_lock: "pages_ok (pg, v) virt len \<Longrightarrow> klock_if c (pg, v) = Some (pg, v\<lparr>kernel_locker := klocked c v\<rparr>)"
  by (rule klock_if_ok) (simp add: pages_ok_def)

lemma pager_map_ok:
  assumes "pages_ok (pg, v) virt len" "virt \<noteq> 0"
  obtains wp v' where "pager_map phys virt len fl (pg, v) = Some (pg\<lparr>work_pages := wp\<rparr>, v')"
    "pager_ready (pg\<lparr>work_pages := wp\<rparr>) v'" "same_frame v v'" "free_count v \<le> free_count v' + 3 * unat len"
    "\<forall>p. \<not> in_window p \<longrightarrow> space pg v' p =
       (if in_pages virt len p then map_entry (drop_bit 12 phys + of_nat (page_number virt p)) fl (space pg v p)
        else space pg v p)"
proof -
  let ?c = "in_kernel virt len" and ?f = "\<lambda>i. map_entry (drop_bit 12 phys + of_nat i) fl"
  obtain w st1 wp v' where u: "getWorkpage 3 (pg, v\<lparr>kernel_locker := klocked ?c v\<rparr>) = Some (w, st1)"
    "foldM (\<lambda>i. update_page w (drop_bit 12 virt + of_nat i) (?f i)) [0..<unat len] st1 = Some (pg\<lparr>work_pages := wp\<rparr>, v')"
    "foldM (\<lambda>i. unmap_page w (drop_bit 12 virt + of_nat i)) [0..<unat len] (0, st1) =
      map_option (Pair (first_address (map (\<lambda>i. space pg v (vpage_of (drop_bit 12 virt) + of_nat i)) [0..<unat len])))
       (foldM (\<lambda>i. update_page w (drop_bit 12 virt + of_nat i) (\<lambda>_. 0)) [0..<unat len] st1)"
    "pager_ready (pg\<lparr>work_pages := wp\<rparr>) v'" "same_frame (v\<lparr>kernel_locker := klocked ?c v\<rparr>) v'"
    "free_count v \<le> free_count v' + 3 * unat len"
    "\<forall>p. \<not> in_window p \<longrightarrow> space pg v' p =
       (if in_pages virt len p then ?f (page_number virt p) (space pg v p) else space pg v p)"
    by (rule locked_update_ok [OF assms(1), where c = ?c and f = ?f])
  note F = finish_locked [OF assms(1) u(4,5)]
  show thesis
    by (rule that [OF _ F(2,3)])
      (use u(1,2,6,7) F(1) asserts_hold(2) [OF assms] pages_lock [OF assms(1)] in \<open>simp_all add: pager_map_def\<close>)
qed

lemma pager_unmap_ok:
  assumes "pages_ok (pg, v) virt len"
  obtains wp v' where "pager_unmap virt len (pg, v) =
      Some (first_address (map (\<lambda>i. space pg v (vpage_of (drop_bit 12 virt) + of_nat i)) [0..<unat len]),
        pg\<lparr>work_pages := wp\<rparr>, v')"
    "pager_ready (pg\<lparr>work_pages := wp\<rparr>) v'" "same_frame v v'" "free_count v \<le> free_count v' + 3 * unat len"
    "\<forall>p. \<not> in_window p \<longrightarrow> space pg v' p = (if in_pages virt len p then 0 else space pg v p)"
proof -
  let ?c = "in_kernel virt len" and ?es = "map (\<lambda>i. space pg v (vpage_of (drop_bit 12 virt) + of_nat i)) [0..<unat len]"
  have low: "\<not> drop_bit 12 virt \<ge> KERNEL_START"
  proof -
    have "unat virt < 2 ^ 64" using unsigned_less [of virt] by simp
    then have "unat (drop_bit 12 virt) < 2 ^ 52" by (simp add: unat_drop_div)
    then show ?thesis by (simp add: word_le_nat_alt KERNEL_START_def)
  qed
  obtain w st1 wp v' where u: "getWorkpage 3 (pg, v\<lparr>kernel_locker := klocked ?c v\<rparr>) = Some (w, st1)"
    "foldM (\<lambda>i. update_page w (drop_bit 12 virt + of_nat i) (\<lambda>_. 0)) [0..<unat len] st1 = Some (pg\<lparr>work_pages := wp\<rparr>, v')"
    "foldM (\<lambda>i. unmap_page w (drop_bit 12 virt + of_nat i)) [0..<unat len] (0, st1) = map_option (Pair (first_address ?es))
       (foldM (\<lambda>i. update_page w (drop_bit 12 virt + of_nat i) (\<lambda>_. 0)) [0..<unat len] st1)"
    "pager_ready (pg\<lparr>work_pages := wp\<rparr>) v'" "same_frame (v\<lparr>kernel_locker := klocked ?c v\<rparr>) v'"
    "free_count v \<le> free_count v' + 3 * unat len"
    "\<forall>p. \<not> in_window p \<longrightarrow> space pg v' p = (if in_pages virt len p then 0 else space pg v p)"
    by (rule locked_update_ok [OF assms(1), where c = ?c and f = "\<lambda>_ _. 0"])
  note F = finish_locked [OF assms(1) u(4,5)]
  show thesis
    by (rule that [OF _ F(2,3)])
      (use u(1-3,6,7) F(1) low pages_lock [OF assms] asserts_hold(1) [OF assms] in \<open>simp_all add: pager_unmap_def\<close>)
qed

lemma look_up_ok:
  assumes "pager_ready pg v" "3 \<le> free_count v" "\<not> in_window (vpage_of (drop_bit 12 virt))"
  obtains wp v' where "look_up virt (pg, v) = Some (space pg v (vpage_of (drop_bit 12 virt)), pg\<lparr>work_pages := wp\<rparr>, v')"
    "space_kept 3 (pml4 pg) v v'" "pager_ready (pg\<lparr>work_pages := wp\<rparr>) v'"
proof -
  let ?n = "drop_bit 12 virt"
  let ?a = "pml4_index ?n" and ?b = "pdpt_index ?n" and ?c = "pd_index ?n"
  obtain wp w v1 where m: "mapStructures ?a ?b ?c (pg, v) = Some (pg\<lparr>work_pages := wp\<rparr>, v1)"
    "space_kept 3 (pml4 pg) v v1" "pager_ready (pg\<lparr>work_pages := wp\<rparr>) v1" "wp ! 3 = Some w"
    "\<forall>x. work_pages pg ! 3 = Some x \<longrightarrow> w = x" "table_at (frames v1) (pml4 pg) [?a, ?b, ?c] = Some (workpage v1 w)"
    by (rule mapStructures_ok [where a = ?a and b = ?b and c = ?c, OF assms(1,2)])
  have "frames v1 (workpage v1 w) (pt_index ?n) = space pg v1 (vpage_of ?n)"
    using m(6) by (simp add: space_def pte_def vpage_indices)
  then have "look_up virt (pg, v) = Some (space pg v (vpage_of ?n), pg\<lparr>work_pages := wp\<rparr>, v1)"
    using m(1,4) space_kept_space [OF m(2) assms(3)] by (simp add: look_up_def getWorkpage_def Let_def)
  then show thesis by (rule that [OF _ m(2,3)])
qed

lemma map_entry_read:
  "table_addr (map_entry a fl e) = push_bit 12 (take_bit 40 a)"
  "entry_flags (map_entry a fl e) = fl\<lparr>present := True\<rparr>"
proof -
  show "table_addr (map_entry a fl e) = push_bit 12 (take_bit 40 a)"
    by (rule bit_word_eqI)
      (auto simp: table_addr_def e_address_def map_entry_def set_entry_flags_def put_bit_def put_address_def bit_simps)
  show "entry_flags (map_entry a fl e) = fl\<lparr>present := True\<rparr>"
    by (auto simp: entry_flags_def flags_default_def e_present_def map_entry_def set_entry_flags_def put_bit_def bit_simps Let_def)
qed

section \<open>A concrete address space\<close>

text \<open>Root, directory pointer table, directory and control page in the frames 1 to 4, nothing mapped.\<close>

definition sample_frames :: table_store where
  "sample_frames = (\<lambda>_ _. 0)
     (page_addr 1 := (\<lambda>_. 0)(511 := page_addr 2 OR 7), page_addr 2 := (\<lambda>_. 0)(511 := page_addr 3 OR 7),
      page_addr 3 := (\<lambda>_. 0)(511 := page_addr 4 OR 7))"

definition sample_vmem :: vmem where
  "sample_vmem = \<lparr>frames = sample_frames, control_frame = page_addr 4, vm_pmm = sample_pmm, kernel_pd0 = 0,
     kernel_pd1 = page_addr 3, first_potential_kernel_page = KERNEL_START, kernel_locker = rm_new, pagers = [],
     kernel_pager = 0, cr3_register = page_addr 1, running = 1, failed_asserts = []\<rparr>"

definition sample_pager :: pager where
  "sample_pager = \<lparr>pml4 = page_addr 1, work_pages = replicate 4 None, current_pml4e = -1, current_pdpte = -1,
     current_pde = -1, pager_locker = rm_new\<lparr>f_counter := 1, f_owner := 1, f_recursion := 1\<rparr>,
     first_potential_page = BASE_MAPPING_ADDRESS\<rparr>"

lemma sample_entry:
  assumes "n \<in> {1, 2, 3}"
  shows "e_present (sample_frames (page_addr n) i) \<longleftrightarrow> i = 511"
    "table_addr (sample_frames (page_addr n) 511) = page_addr (n + 1)"
  using assms table_addr_ptr(2) [of 2] table_addr_ptr(2) [of 3] table_addr_ptr(2) [of 4]
  by (auto simp: sample_frames_def page_addr_eq_iff)

lemma sample_walk:
  assumes "length p \<le> 3"
  shows "table_at sample_frames (page_addr 1) p = (if \<forall>i\<in>set p. i = 511 then Some (page_addr (1 + length p)) else None)"
proof -
  have *: "table_at sample_frames (page_addr n) p = (if \<forall>i\<in>set p. i = 511 then Some (page_addr (n + length p)) else None)"
    if "1 \<le> n" "n + length p \<le> 4" for n
    using that
  proof (induction p arbitrary: n)
    case (Cons i p)
    then have "n \<in> {1, 2, 3}" by auto
    then show ?case using Cons by (auto simp: sample_entry)
  qed simp
  show ?thesis using * [of 1] assms by simp
qed

lemma sample_ready: "pager_ready sample_pager sample_vmem"
proof -
  have wf: "paging_wf sample_vmem (page_addr 1)"
    unfolding paging_wf_def
  proof (intro conjI allI impI)
    fix p q :: "nat list" and t
    assume a: "length p \<le> 3" "length q \<le> 3" "table_at (frames sample_vmem) (page_addr 1) p = Some t"
      "table_at (frames sample_vmem) (page_addr 1) q = Some t"
    then have s: "\<forall>i\<in>set p. i = 511" "\<forall>i\<in>set q. i = 511" "page_addr (1 + length p) = page_addr (1 + length q)"
      using sample_walk [of p] sample_walk [of q] by (auto simp: sample_vmem_def split: if_splits)
    then have "length p = length q" using page_addr_eq_iff [of "1 + length p" "1 + length q"] a(1,2) by simp
    then show "p = q" using s(1,2) by (metis nth_equalityI nth_mem)
  next
    fix p :: "nat list" and t
    assume a: "length p \<le> 3" "table_at (frames sample_vmem) (page_addr 1) p = Some t"
    then have "t = page_addr (1 + length p)" using sample_walk [of p] by (simp add: sample_vmem_def split: if_splits)
    then show "\<exists>n<2 ^ 20. t = page_addr n \<and> page_used (vm_pmm sample_vmem) n"
      using a(1) by (intro exI [of _ "1 + length p"]) (simp add: sample_vmem_def sample_pmm_used)
  next
    show "table_at (frames sample_vmem) (page_addr 1) work_window = Some (control_frame sample_vmem)"
    proof -
      have "\<forall>i\<in>set work_window. i = 511" by (simp add: work_window_def)
      then show ?thesis using sample_walk [of work_window] by (simp add: sample_vmem_def)
    qed
  qed (simp add: sample_vmem_def sample_pmm_wf)
  have ctl: "control sample_vmem i = 0" for i
    by (simp add: control_def sample_vmem_def sample_frames_def page_addr_eq_iff)
  have "slots_ok sample_pager sample_vmem"
  proof -
    have "{k. k < 4 \<and> replicate 4 None ! k = (None :: nat option)} = {..<4}" by auto
    moreover have "card {i. i < (511::nat)} = 511" by simp
    ultimately show ?thesis by (simp add: slots_ok_def sample_pager_def ctl)
  qed
  then show ?thesis using wf by (simp add: pager_ready_def sample_pager_def root_shown_def)
qed

lemma sample_free: "100 \<le> free_count sample_vmem"
proof -
  have "card {10..<110::nat} \<le> free_count sample_vmem"
    unfolding free_count_def by (rule card_mono) (auto simp: sample_vmem_def sample_pmm_used intro: finite_subset [of _ "{..<2 ^ 20}"])
  then show ?thesis by simp
qed

lemma sample_pages: "pages_ok (sample_pager, sample_vmem) 0x400000 2"
proof -
  have "\<not> in_window (vpage_of (drop_bit 12 0x400000) + of_nat i)" if "i < 2" for i
    using that by (auto simp: less_2_cases_iff in_window_def vpath_def work_window_def vpage_of_def)
  moreover have "pager_ready sample_pager sample_vmem" by (rule sample_ready)
  ultimately show ?thesis
    using sample_free by (auto simp: pages_ok_def sample_vmem_def rm_available_def rm_new_def sample_pager_def rm_is_locked_def)
qed

section \<open>Properties\<close>

text \<open>C2: \<^verbatim>\<open>Pager::map\<close> refines an update of the address space. On a well-formed, locked pager with enough free
  frames it returns; afterwards every page of the range has the new physical page and flags, every other page
  outside the work page window keeps its entry, the tables are well formed again, and apart from the table
  frames and the page status nothing changed, the kernel lock included.\<close>
theorem pager_map_refines:
  assumes "pages_ok (pg, v) virt len" "virt \<noteq> 0"
  shows "\<exists>pg' v'. pager_map phys virt len fl (pg, v) = Some (pg', v') \<and> pager_ready pg' v' \<and> same_frame v v' \<and>
    (\<forall>p. \<not> in_window p \<longrightarrow> space pg' v' p =
       (if in_pages virt len p then map_entry (drop_bit 12 phys + of_nat (page_number virt p)) fl (space pg v p)
        else space pg v p))"
proof -
  obtain wp v' where m: "pager_map phys virt len fl (pg, v) = Some (pg\<lparr>work_pages := wp\<rparr>, v')"
    "pager_ready (pg\<lparr>work_pages := wp\<rparr>) v'" "same_frame v v'" "free_count v \<le> free_count v' + 3 * unat len"
    "\<forall>p. \<not> in_window p \<longrightarrow> space pg v' p =
       (if in_pages virt len p then map_entry (drop_bit 12 phys + of_nat (page_number virt p)) fl (space pg v p)
        else space pg v p)"
    by (rule pager_map_ok [OF assms])
  then show ?thesis by (intro exI [of _ "pg\<lparr>work_pages := wp\<rparr>"] exI [of _ v']) (simp add: space_def)
qed

theorem pager_map_refines_witness:
  "\<exists>pg' v'. pager_map 0x7000 0x400000 2 flags_default (sample_pager, sample_vmem) = Some (pg', v') \<and> pager_ready pg' v' \<and>
     space pg' v' 0x401 = map_entry 8 flags_default (space sample_pager sample_vmem 0x401) \<and>
     space pg' v' 0x402 = space sample_pager sample_vmem 0x402"
proof -
  have w: "\<not> in_window 0x401" "\<not> in_window 0x402" by (simp_all add: in_window_def vpath_def work_window_def)
  have r: "in_pages 0x400000 2 0x401" "\<not> in_pages 0x400000 2 0x402" "page_number 0x400000 0x401 = 1"
    by (simp_all add: in_pages_def page_number_def vpage_of_def)
  show ?thesis
    using pager_map_refines [OF sample_pages, of "0x7000" flags_default] w r by fastforce
qed

text \<open>C31: \<^verbatim>\<open>Pager::map\<close> followed by the queries. For every address of a mapped page
  \<^verbatim>\<open>getPhysicalAddress\<close> returns the physical page it was mapped to with the address's offset, and \<^verbatim>\<open>getFlags\<close> the flags given
  to \<^verbatim>\<open>map\<close> with \<^verbatim>\<open>present\<close> set.\<close>
theorem pager_map_then_query:
  assumes "pages_ok (pg, v) virt len" "virt \<noteq> 0" "3 * unat len + 3 \<le> free_count v"
    "in_pages virt len (vpage_of (drop_bit 12 a))" "\<not> in_window (vpage_of (drop_bit 12 a))"
  shows "\<exists>st st'. pager_map phys virt len fl (pg, v) = Some st \<and>
    getPhysicalAddress a st =
      Some (push_bit 12 (take_bit 40 (drop_bit 12 phys + of_nat (page_number virt (vpage_of (drop_bit 12 a))))) OR (a AND 0xFFF), st') \<and>
    getFlags a st = Some (fl\<lparr>present := True\<rparr>, st')"
proof -
  obtain wp v' where m: "pager_map phys virt len fl (pg, v) = Some (pg\<lparr>work_pages := wp\<rparr>, v')"
    "pager_ready (pg\<lparr>work_pages := wp\<rparr>) v'" "same_frame v v'" "free_count v \<le> free_count v' + 3 * unat len"
    "\<forall>p. \<not> in_window p \<longrightarrow> space pg v' p =
       (if in_pages virt len p then map_entry (drop_bit 12 phys + of_nat (page_number virt p)) fl (space pg v p)
        else space pg v p)"
    by (rule pager_map_ok [OF assms(1,2)])
  have f: "3 \<le> free_count v'" using m(4) assms(3) by simp
  obtain wp' v'' where l: "look_up a (pg\<lparr>work_pages := wp\<rparr>, v') =
      Some (space (pg\<lparr>work_pages := wp\<rparr>) v' (vpage_of (drop_bit 12 a)), pg\<lparr>work_pages := wp\<rparr>\<lparr>work_pages := wp'\<rparr>, v'')"
    "space_kept 3 (pml4 (pg\<lparr>work_pages := wp\<rparr>)) v' v''" "pager_ready (pg\<lparr>work_pages := wp\<rparr>\<lparr>work_pages := wp'\<rparr>) v''"
    by (rule look_up_ok [OF m(2) f assms(5)])
  have "space (pg\<lparr>work_pages := wp\<rparr>) v' (vpage_of (drop_bit 12 a)) =
      map_entry (drop_bit 12 phys + of_nat (page_number virt (vpage_of (drop_bit 12 a)))) fl (space pg v (vpage_of (drop_bit 12 a)))"
    using m(5) assms(4,5) by (simp add: space_def)
  then show ?thesis
    using m(1) l(1)
    by (intro exI [of _ "(pg\<lparr>work_pages := wp\<rparr>, v')"] exI [of _ "(pg\<lparr>work_pages := wp'\<rparr>, v'')"])
      (simp add: getPhysicalAddress_def getFlags_def map_entry_read)
qed

theorem pager_map_then_query_witness:
  "\<exists>st st'. pager_map 0x7000 0x400000 2 flags_default (sample_pager, sample_vmem) = Some st \<and>
    getPhysicalAddress 0x401234 st = Some (0x8234, st')"
proof -
  have "in_pages 0x400000 2 (vpage_of (drop_bit 12 0x401234))" "\<not> in_window (vpage_of (drop_bit 12 0x401234))"
    "page_number 0x400000 (vpage_of (drop_bit 12 0x401234)) = 1"
    by (simp_all add: in_pages_def page_number_def vpage_of_def in_window_def vpath_def work_window_def)
  moreover have "3 * unat (2 :: size_t) + 3 \<le> free_count sample_vmem" using sample_free by simp
  ultimately show ?thesis
    using pager_map_then_query [OF sample_pages, of "0x401234" "0x7000" flags_default] by fastforce
qed

text \<open>C32: \<^verbatim>\<open>Pager::unmap\<close> clears exactly the entries of its pages and returns the first non-zero address they
  held; the start of the search for free kernel pages is left as it was, also for a kernel page below it
  (the code compares the page number instead of the address with \<^verbatim>\<open>KERNEL_START\<close>).\<close>
theorem pager_unmap_refines:
  assumes "pages_ok (pg, v) virt len"
  shows "\<exists>pg' v'. pager_unmap virt len (pg, v) =
      Some (first_address (map (\<lambda>i. space pg v (vpage_of (drop_bit 12 virt) + of_nat i)) [0..<unat len]), pg', v') \<and>
    pager_ready pg' v' \<and> first_potential_kernel_page v' = first_potential_kernel_page v \<and>
    (\<forall>p. \<not> in_window p \<longrightarrow> space pg' v' p = (if in_pages virt len p then 0 else space pg v p))"
proof -
  obtain wp v' where m: "pager_unmap virt len (pg, v) =
      Some (first_address (map (\<lambda>i. space pg v (vpage_of (drop_bit 12 virt) + of_nat i)) [0..<unat len]),
        pg\<lparr>work_pages := wp\<rparr>, v')"
    "pager_ready (pg\<lparr>work_pages := wp\<rparr>) v'" "same_frame v v'" "free_count v \<le> free_count v' + 3 * unat len"
    "\<forall>p. \<not> in_window p \<longrightarrow> space pg v' p = (if in_pages virt len p then 0 else space pg v p)"
    by (rule pager_unmap_ok [OF assms])
  then show ?thesis
    by (intro exI [of _ "pg\<lparr>work_pages := wp\<rparr>"] exI [of _ v']) (simp add: space_def same_frame_def)
qed

theorem pager_unmap_refines_witness:
  "\<exists>a pg' v'. pager_unmap 0x400000 2 (sample_pager, sample_vmem) = Some (a, pg', v') \<and> space pg' v' 0x401 = 0"
proof -
  have "\<not> in_window 0x401" "in_pages 0x400000 2 0x401"
    by (simp_all add: in_window_def vpath_def work_window_def in_pages_def vpage_of_def)
  then show ?thesis using pager_unmap_refines [OF sample_pages] by fastforce
qed

end
