(* ===== verification/Std_Queue.thy ===== *)
theory Std_Queue
  imports Prelude
begin

text \<open>
  Singly linked chains in a heap, and \<^verbatim>\<open>std::Queue\<close> (\<^verbatim>\<open>kernel/std/include/queue.hpp\<close>) on top of them.
  Addresses are natural numbers with 0 as the null pointer. \<^verbatim>\<open>new Entry\<close> returns an address the
  caller supplies; a null dereference is \<open>None\<close>.
\<close>

section \<open>Chains\<close>

fun chain_from :: "(nat \<Rightarrow> nat) \<Rightarrow> nat \<Rightarrow> nat list \<Rightarrow> bool" where
  "chain_from nxt p [] \<longleftrightarrow> p = 0"
| "chain_from nxt p (x # xs) \<longleftrightarrow> p = x \<and> x \<noteq> 0 \<and> chain_from nxt (nxt x) xs"

lemma chain_from_cong: "(\<And>x. x \<in> set xs \<Longrightarrow> f x = g x) \<Longrightarrow> chain_from f p xs = chain_from g p xs"
  by (induction xs arbitrary: p) auto

lemma chain_from_nonzero: "chain_from nxt p xs \<Longrightarrow> 0 \<notin> set xs"
  by (induction xs arbitrary: p) auto

lemma chain_from_null: "chain_from nxt 0 xs \<longleftrightarrow> xs = []"
  by (cases xs) auto

lemma chain_from_last: "chain_from nxt p xs \<Longrightarrow> xs \<noteq> [] \<Longrightarrow> nxt (last xs) = 0"
  by (induction xs arbitrary: p) (auto simp: chain_from_null)

text \<open>Appending a node, and unlinking one, are single pointer writes.\<close>

lemma last_notin_butlast: "xs \<noteq> [] \<Longrightarrow> distinct xs \<Longrightarrow> last xs \<notin> set (butlast xs)"
  by (induction xs) auto

lemma chain_from_snoc:
  assumes "chain_from nxt p xs" "xs \<noteq> []" "\<And>x. x \<in> set (butlast xs) \<Longrightarrow> g x = nxt x" "g (last xs) = a" "g a = 0" "a \<noteq> 0"
  shows "chain_from g p (xs @ [a])"
  using assms
proof (induction xs arbitrary: p)
  case (Cons x xs)
  then show ?case by (cases "xs = []") auto
qed simp

lemma chain_from_unlink:
  assumes "chain_from nxt p (xs @ y # z # zs)" "g y = nxt z" "\<And>x. x \<in> set xs \<union> set zs \<Longrightarrow> g x = nxt x"
  shows "chain_from g p (xs @ y # zs)"
  using assms
proof (induction xs arbitrary: p)
  case Nil
  then show ?case using chain_from_cong [of zs g nxt] by auto
next
  case (Cons x xs)
  then show ?case by auto
qed

section \<open>First in, first out\<close>

text \<open>What a queue promises: \<open>contents s ys\<close> says that \<open>s\<close> is a well-formed queue holding \<open>ys\<close>.\<close>

locale fifo =
  fixes push :: "'x \<Rightarrow> 's \<Rightarrow> 's option"
    and pop :: "'s \<Rightarrow> ('y \<times> 's) option"
    and contents :: "'s \<Rightarrow> 'y list \<Rightarrow> bool"
    and item :: "'x \<Rightarrow> 'y"
    and fresh :: "'x \<Rightarrow> 's \<Rightarrow> bool"
  assumes push: "contents s ys \<Longrightarrow> fresh x s \<Longrightarrow> \<exists>s'. push x s = Some s' \<and> contents s' (ys @ [item x])"
    and pop: "contents s (y # ys) \<Longrightarrow> \<exists>s'. pop s = Some (y, s') \<and> contents s' ys"
begin

fun pops :: "nat \<Rightarrow> 's \<Rightarrow> ('y list \<times> 's) option" where
  "pops 0 s = Some ([], s)"
| "pops (Suc n) s = (case pop s of None \<Rightarrow> None | Some (y, s) \<Rightarrow> map_option (\<lambda>(ys, s). (y # ys, s)) (pops n s))"

lemma pops_contents: "contents s (xs @ ys) \<Longrightarrow> \<exists>s'. pops (length xs) s = Some (xs, s') \<and> contents s' ys"
proof (induction xs arbitrary: s)
  case (Cons x xs)
  then obtain s1 where s1: "pop s = Some (x, s1)" "contents s1 (xs @ ys)" using pop by (metis append_Cons)
  then show ?case using Cons.IH [OF s1(2)] by auto
qed simp

lemma push_pops:
  assumes "contents s ys" "fresh x s"
  shows "\<exists>s1 s2. push x s = Some s1 \<and> pops (length ys) s1 = Some (ys, s2) \<and> contents s2 [item x]"
  using push [OF assms] pops_contents by blast

end

section \<open>std::Queue\<close>

record 'a queue =
  q_value :: "nat \<Rightarrow> 'a"
  q_next :: "nat \<Rightarrow> nat"
  q_first :: nat
  q_last :: nat
  q_size :: size_t

definition queue_new :: "'a queue \<Rightarrow> 'a queue" where
  "queue_new q = q\<lparr>q_first := 0, q_last := 0, q_size := 0\<rparr>"

definition queue_clear :: "'a queue \<Rightarrow> 'a queue" where
  "queue_clear q = q\<lparr>q_first := 0, q_last := 0, q_size := 0\<rparr>"

text \<open>The constructor of \<^verbatim>\<open>Entry\<close> at address \<open>a\<close>, and \<^verbatim>\<open>push\<close>.\<close>

definition queue_entry :: "nat \<Rightarrow> 'a \<Rightarrow> 'a queue \<Rightarrow> 'a queue" where
  "queue_entry a v q = q\<lparr>q_value := (q_value q)(a := v), q_next := (q_next q)(a := 0)\<rparr>"

definition queue_push :: "nat \<Rightarrow> 'a queue \<Rightarrow> 'a queue" where
  "queue_push a q =
     (let q1 = (if q_last q = 0 then q\<lparr>q_first := a, q_last := a\<rparr>
                else q\<lparr>q_next := (q_next q)(q_last q := a), q_last := a\<rparr>)
      in q1\<lparr>q_size := q_size q1 + 1\<rparr>)"

definition queue_push_back :: "nat \<times> 'a \<Rightarrow> 'a queue \<Rightarrow> 'a queue option" where
  "queue_push_back e q = (case e of (a, v) \<Rightarrow> if a = 0 then None else Some (queue_push a (queue_entry a v q)))"

definition queue_pop_front :: "'a queue \<Rightarrow> ('a \<times> 'a queue) option" where
  "queue_pop_front q =
     (if q_first q = 0 then None
      else
        let en = q_first q;
            q1 = q\<lparr>q_first := q_next q en\<rparr>;
            q2 = (if q_first q1 = 0 then q1\<lparr>q_last := 0\<rparr> else q1);
            q3 = q2\<lparr>q_size := q_size q2 - 1\<rparr>
        in Some (q_value q3 en, q3))"

definition queue_peek :: "'a queue \<Rightarrow> 'a option" where
  "queue_peek q = (if q_first q = 0 then None else Some (q_value q (q_first q)))"

definition queue_size :: "'a queue \<Rightarrow> size_t" where
  "queue_size q = q_size q"

definition queue_nodes :: "'a queue \<Rightarrow> nat list \<Rightarrow> bool" where
  "queue_nodes q ns \<longleftrightarrow> chain_from (q_next q) (q_first q) ns \<and> distinct ns \<and>
     q_last q = (if ns = [] then 0 else last ns) \<and> q_size q = of_nat (length ns)"

definition queue_contents :: "'a queue \<Rightarrow> 'a list \<Rightarrow> bool" where
  "queue_contents q vs \<longleftrightarrow> (\<exists>ns. queue_nodes q ns \<and> vs = map (q_value q) ns)"

definition queue_fresh :: "nat \<times> 'a \<Rightarrow> 'a queue \<Rightarrow> bool" where
  "queue_fresh e q \<longleftrightarrow> fst e \<noteq> 0 \<and> (\<forall>ns. queue_nodes q ns \<longrightarrow> fst e \<notin> set ns)"

lemma queue_push_back_nodes:
  assumes "queue_nodes q ns" "a \<noteq> 0" "a \<notin> set ns"
  shows "\<exists>q'. queue_push_back (a, v) q = Some q' \<and> queue_nodes q' (ns @ [a]) \<and> q_value q' = (q_value q)(a := v)"
proof (cases "ns = []")
  case True
  then show ?thesis using assms
    by (auto simp: queue_push_back_def queue_push_def queue_entry_def queue_nodes_def Let_def)
next
  case False
  then have "last ns \<in> set ns" by simp
  moreover have "0 \<notin> set ns" using chain_from_nonzero [of "q_next q" "q_first q" ns] assms(1) by (simp add: queue_nodes_def)
  ultimately have l: "last ns \<noteq> 0" "last ns \<noteq> a" using assms(3) by metis+
  have "chain_from ((q_next q)(a := 0, last ns := a)) (q_first q) (ns @ [a])"
  proof (rule chain_from_snoc)
    show "chain_from (q_next q) (q_first q) ns" using assms(1) by (simp add: queue_nodes_def)
    have "last ns \<notin> set (butlast ns)"
      by (rule last_notin_butlast) (use assms(1) False in \<open>simp_all add: queue_nodes_def\<close>)
    then show "((q_next q)(a := 0, last ns := a)) x = q_next q x" if "x \<in> set (butlast ns)" for x
      using that assms(3) in_set_butlastD [of x ns] by auto
  qed (use False l assms(2) in auto)
  then show ?thesis
    using assms False l by (auto simp: queue_push_back_def queue_push_def queue_entry_def queue_nodes_def Let_def)
qed

lemma queue_pop_front_nodes:
  assumes "queue_nodes q (n # ns)"
  shows "\<exists>q'. queue_pop_front q = Some (q_value q n, q') \<and> queue_nodes q' ns \<and> q_value q' = q_value q"
proof -
  have c: "q_first q = n" "n \<noteq> 0" "chain_from (q_next q) (q_next q n) ns" using assms by (auto simp: queue_nodes_def)
  have "q_next q n = 0 \<longleftrightarrow> ns = []" using c(3) by (cases ns) auto
  then show ?thesis
    using assms c by (cases "ns = []") (auto simp: queue_pop_front_def queue_nodes_def Let_def)
qed

interpretation sq_fifo: fifo queue_push_back queue_pop_front queue_contents snd queue_fresh
proof unfold_locales
  fix q :: "'a queue" and vs x
  assume a: "queue_contents q vs" "queue_fresh x q"
  obtain p v where x: "x = (p, v)" by fastforce
  obtain ns where ns: "queue_nodes q ns" "vs = map (q_value q) ns" using a(1) by (auto simp: queue_contents_def)
  then have "p \<noteq> 0" "p \<notin> set ns" using a(2) x by (auto simp: queue_fresh_def)
  then obtain q' where "queue_push_back (p, v) q = Some q'" "queue_nodes q' (ns @ [p])" "q_value q' = (q_value q)(p := v)"
    using queue_push_back_nodes [OF ns(1)] by blast
  moreover have "map ((q_value q)(p := v)) ns = map (q_value q) ns" using \<open>p \<notin> set ns\<close> by auto
  ultimately show "\<exists>q'. queue_push_back x q = Some q' \<and> queue_contents q' (vs @ [snd x])"
    using x ns(2) by (auto simp: queue_contents_def intro!: exI [of _ "ns @ [p]"])
next
  fix q :: "'a queue" and v vs
  assume "queue_contents q (v # vs)"
  then obtain n ns where "queue_nodes q (n # ns)" "v = q_value q n" "vs = map (q_value q) ns"
    by (auto simp: queue_contents_def)
  then show "\<exists>q'. queue_pop_front q = Some (v, q') \<and> queue_contents q' vs"
    using queue_pop_front_nodes [of q n ns] by (auto simp: queue_contents_def)
qed

end
