(* ===== verification/Tasking.thy ===== *)
theory Tasking
  imports Std_Queue Unordered_Map Pager
begin

text \<open>
  Threads and the scheduler: \<^verbatim>\<open>ThreadQueue\<close> (\<^verbatim>\<open>tasking/thread_queue.hpp\<close>), \<^verbatim>\<open>Scheduler\<close>
  (\<^verbatim>\<open>tasking/scheduler.cpp\<close>), the state changes of \<^verbatim>\<open>Thread\<close> (\<^verbatim>\<open>tasking/thread.cpp\<close>),
  \<^verbatim>\<open>SleepQueue\<close> and \<^verbatim>\<open>Futex\<close>.

  A thread is an object at an address, 0 is the null pointer; the queue links threads through
  their \<^verbatim>\<open>f_next\<close> fields. A null dereference is \<open>None\<close>. The queue lock is a lock word as in
  \<open>Locking\<close>. What belongs to the processor (register frames behind a \<^verbatim>\<open>CPUState\<close> pointer, FPU
  state, interrupts) is represented by the pointers and by the log of switches asked for.
\<close>

section \<open>State\<close>

datatype thread_state = RUNNING | RUNNABLE | SLEEPING | DYING | DEAD

record sleep_queue =
  sq_sleeping :: "pid_t queue"
  sq_access :: semaphore

record thread =
  t_kernel_stack :: nat
  t_parent :: nat
  t_ksp :: nat
  t_syscall_state :: nat
  t_state :: thread_state
  t_watchers :: sleep_queue
  t_pid :: pid_t
  t_next :: nat
  t_preferred_core :: int

record scheduler =
  core_id :: int
  current_thread :: nat
  idle_ksp :: nat
  is_idle :: bool
  first_switch :: bool

datatype switch_request = Force | Irq int

record tasking =
  heap :: "nat \<Rightarrow> thread option"
  tq_first :: nat
  tq_last :: nat
  tq_length :: size_t
  queue_lock :: u32
  schedulers :: "scheduler list option"
  next_switch_time :: "nat \<Rightarrow> nat"
  s_next_pid :: pid_t
  s_threads :: "(pid_t, nat) umap"
  requests :: "switch_request list"
  task_asserts :: "string list"

definition upd_thread :: "nat \<Rightarrow> (thread \<Rightarrow> thread) \<Rightarrow> tasking \<Rightarrow> tasking option" where
  "upd_thread p f s = (case heap s p of None \<Rightarrow> None | Some t \<Rightarrow> Some (s\<lparr>heap := (heap s)(p \<mapsto> f t)\<rparr>))"

definition task_assert :: "bool \<Rightarrow> string \<Rightarrow> tasking \<Rightarrow> tasking" where
  "task_assert c msg s = (if c then s else s\<lparr>task_asserts := task_asserts s @ [msg]\<rparr>)"

section \<open>ThreadQueue\<close>

definition tq_push_front :: "nat \<Rightarrow> tasking \<Rightarrow> tasking option" where
  "tq_push_front p s =
     Option.bind (upd_thread p (\<lambda>t. t\<lparr>t_next := tq_first s\<rparr>) s) (\<lambda>s.
       let s = s\<lparr>tq_first := p\<rparr>
       in Some (if tq_last s = 0 then s\<lparr>tq_last := tq_first s\<rparr> else s))"

definition tq_push_back :: "nat \<Rightarrow> tasking \<Rightarrow> tasking option" where
  "tq_push_back p s =
     Option.bind (upd_thread p (\<lambda>t. t\<lparr>t_next := 0\<rparr>) s) (\<lambda>s.
     Option.bind
       (if tq_last s \<noteq> 0 then map_option (\<lambda>s. s\<lparr>tq_last := p\<rparr>) (upd_thread (tq_last s) (\<lambda>t. t\<lparr>t_next := p\<rparr>) s)
        else Some (s\<lparr>tq_first := p, tq_last := p\<rparr>)) (\<lambda>s.
       Some (s\<lparr>tq_length := tq_length s + 1\<rparr>)))"

definition tq_pop_front :: "tasking \<Rightarrow> tasking option" where
  "tq_pop_front s =
     map_option (\<lambda>s. s\<lparr>tq_length := tq_length s - 1\<rparr>)
       (if tq_first s = tq_last s then Some (s\<lparr>tq_first := 0, tq_last := 0\<rparr>)
        else map_option (\<lambda>t. s\<lparr>tq_first := t_next t\<rparr>) (heap s (tq_first s)))"

text \<open>
  \<^verbatim>\<open>erase(Thread*)\<close> advances with \<^verbatim>\<open>++t\<close>, to the address one object further on, and its
  \<^verbatim>\<open>prev = t->f_next\<close> assigns the local variable. The address is a 64-bit word, so the walk
  from \<^verbatim>\<open>first\<close> ends at the thread, at 0, or never.
\<close>

partial_function (option) tq_erase_from :: "nat \<Rightarrow> nat \<Rightarrow> nat \<Rightarrow> nat \<Rightarrow> tasking \<Rightarrow> (bool \<times> tasking) option" where
  "tq_erase_from sizeof_thread p t prev s =
     (if t = 0 then Some (False, s)
      else if t = p then
        Option.bind (heap s t) (\<lambda>th.
          let prev' = (if prev = 0 then prev else t_next th);
              s = (if prev = 0 then s\<lparr>tq_first := t_next th\<rparr> else s);
              s = (if tq_last s = t then s\<lparr>tq_last := prev'\<rparr> else s)
          in Some (True, s\<lparr>tq_length := tq_length s - 1\<rparr>))
      else tq_erase_from sizeof_thread p ((t + sizeof_thread) mod 2 ^ 64) t s)"

definition tq_erase :: "nat \<Rightarrow> nat \<Rightarrow> tasking \<Rightarrow> (bool \<times> tasking) option" where
  "tq_erase sizeof_thread p s = tq_erase_from sizeof_thread p (tq_first s) 0 s"

text \<open>\<^verbatim>\<open>erase(iterator)\<close>; an iterator is a pair of the thread and its predecessor.\<close>

definition tq_erase_iter :: "nat \<times> nat \<Rightarrow> tasking \<Rightarrow> ((nat \<times> nat) \<times> tasking) option" where
  "tq_erase_iter pos s = (case pos of (p, prev) \<Rightarrow>
     Option.bind (heap s p) (\<lambda>th.
       if prev = 0 then
         map_option (\<lambda>s. ((tq_first s, 0), s)) (upd_thread p (\<lambda>t. t\<lparr>t_next := 0\<rparr>) (s\<lparr>tq_first := t_next th\<rparr>))
       else
         Option.bind (upd_thread prev (\<lambda>t. t\<lparr>t_next := t_next th\<rparr>) (if t_next th = 0 then s\<lparr>tq_last := prev\<rparr> else s)) (\<lambda>s.
         Option.bind (upd_thread p (\<lambda>t. t\<lparr>t_next := 0\<rparr>) s) (\<lambda>s.
           map_option (\<lambda>pt. ((t_next pt, prev), s)) (heap s prev)))))"

text \<open>The search of \<^verbatim>\<open>get_optimal_thread\<close>: its outcome is a thread to unlink with its predecessor, or
  the candidate at the end of the queue together with the last \<^verbatim>\<open>prev\<close>.\<close>

datatype optimal = Found nat nat | Candidate nat nat

partial_function (option) tq_search :: "int \<Rightarrow> nat \<Rightarrow> nat \<Rightarrow> nat \<Rightarrow> tasking \<Rightarrow> optimal option" where
  "tq_search core best prev p s =
     (if p = 0 then Some (Candidate best prev)
      else
        Option.bind (heap s best) (\<lambda>b. Option.bind (heap s p) (\<lambda>t.
          if t_preferred_core b \<noteq> core \<and> t_preferred_core t = core then Some (Found p prev)
          else tq_search core
                 (if t_preferred_core b \<noteq> core \<and> t_preferred_core b \<noteq> - 1 \<and> t_preferred_core t = - 1 then p else best)
                 p (t_next t) s)))"

definition tq_take :: "nat \<Rightarrow> nat \<Rightarrow> thread \<Rightarrow> tasking \<Rightarrow> tasking option" where
  "tq_take p prev th s =
     (if prev \<noteq> 0 then upd_thread prev (\<lambda>t. t\<lparr>t_next := t_next th\<rparr>) s else Some (s\<lparr>tq_first := t_next th\<rparr>))"

definition tq_get_optimal_thread :: "int \<Rightarrow> tasking \<Rightarrow> (nat \<times> tasking) option" where
  "tq_get_optimal_thread core s =
     Option.bind (tq_search core (tq_first s) 0 (tq_first s) s) (\<lambda>r.
       case r of
         Found p prev \<Rightarrow>
           Option.bind (heap s p) (\<lambda>th.
           Option.bind (tq_take p prev th s) (\<lambda>s.
             let s = (if p = tq_last s then s\<lparr>tq_last := prev\<rparr> else s)
             in map_option (Pair p) (upd_thread p (\<lambda>t. t\<lparr>t_next := 0\<rparr>) s)))
       | Candidate best prev \<Rightarrow>
           if best = 0 then Some (0, s)
           else
             Option.bind (heap s best) (\<lambda>th.
               let prev' = (if best = tq_first s then 0 else prev)
               in Option.bind (if best = tq_first s then Some (s\<lparr>tq_first := t_next th\<rparr>)
                          else upd_thread prev (\<lambda>t. t\<lparr>t_next := t_next th\<rparr>) s) (\<lambda>s.
                  let s = (if best = tq_last s then s\<lparr>tq_last := prev'\<rparr> else s)
                  in map_option (Pair best) (upd_thread best (\<lambda>t. t\<lparr>t_next := 0, t_preferred_core := core\<rparr>) s))))"

section \<open>Scheduler\<close>

definition sched_at :: "nat \<Rightarrow> tasking \<Rightarrow> scheduler option" where
  "sched_at c s = (case schedulers s of None \<Rightarrow> None | Some scs \<Rightarrow> if c < length scs then Some (scs ! c) else None)"

definition set_sched :: "nat \<Rightarrow> scheduler \<Rightarrow> tasking \<Rightarrow> tasking" where
  "set_sched c sc s = s\<lparr>schedulers := map_option (\<lambda>scs. scs[c := sc]) (schedulers s)\<rparr>"

definition scheduler_new :: "nat \<Rightarrow> scheduler" where
  "scheduler_new ksp = \<lparr>core_id = 0, current_thread = 0, idle_ksp = ksp, is_idle = False, first_switch = True\<rparr>"

definition scheduler_init :: "nat list \<Rightarrow> tasking \<Rightarrow> tasking" where
  "scheduler_init ksps s =
     s\<lparr>schedulers := Some (map (\<lambda>(i, ksp). (scheduler_new ksp)\<lparr>core_id := int i\<rparr>) (enumerate 0 ksps))\<rparr>"

definition set_switch_time :: "nat \<Rightarrow> nat \<Rightarrow> tasking \<Rightarrow> tasking" where
  "set_switch_time ksp us s = s\<lparr>next_switch_time := (next_switch_time s)(ksp := us)\<rparr>"

text \<open>The first half of \<^verbatim>\<open>schedule\<close>: what happens to the interrupted task.\<close>

definition put_away :: "nat \<Rightarrow> scheduler \<Rightarrow> tasking \<Rightarrow> (scheduler \<times> tasking) option" where
  "put_away state sc s =
     (if \<not> first_switch sc then
        if current_thread sc = 0 then Some (sc\<lparr>idle_ksp := state\<rparr>, s)
        else
          Option.bind (upd_thread (current_thread sc) (\<lambda>t. t\<lparr>t_ksp := state\<rparr>) s) (\<lambda>s.
          Option.bind (heap s (current_thread sc)) (\<lambda>t.
          Option.bind
            (if t_state t = RUNNING then
               Option.bind (upd_thread (current_thread sc) (\<lambda>t. t\<lparr>t_state := RUNNABLE\<rparr>) s) (tq_push_back (current_thread sc))
             else Some s) (\<lambda>s.
            Some (sc\<lparr>current_thread := 0\<rparr>, s))))
      else Some (sc\<lparr>first_switch := False\<rparr>, s))"

definition schedule :: "nat \<Rightarrow> nat \<Rightarrow> tasking \<Rightarrow> (nat \<times> tasking) option" where
  "schedule core state s =
     Option.bind (sched_at core s) (\<lambda>sc.
     case spin_try_lock (queue_lock s) of (ok, lock) \<Rightarrow>
       let s = s\<lparr>queue_lock := lock\<rparr>
       in if \<not> ok then Some (state, set_switch_time state 1 s)
          else
            Option.bind (put_away state sc s) (\<lambda>(sc, s).
            Option.bind (tq_get_optimal_thread (core_id sc) s) (\<lambda>(new_thread, s).
            let s = s\<lparr>queue_lock := spin_unlock (queue_lock s)\<rparr>
            in if new_thread = 0 then
                 Some (idle_ksp sc, set_switch_time (idle_ksp sc) 250 (set_sched core (sc\<lparr>is_idle := True\<rparr>) s))
               else
                 Option.bind (upd_thread new_thread (\<lambda>t. t\<lparr>t_state := RUNNING\<rparr>) s) (\<lambda>s.
                 Option.bind (heap s new_thread) (\<lambda>t.
                   Some (t_ksp t, set_switch_time (t_ksp t) 1000
                     (set_sched core (sc\<lparr>is_idle := False, current_thread := new_thread\<rparr>) s)))))))"

text \<open>\<^verbatim>\<open>Locker lock(queue_lock)\<close>: with the lock taken the caller spins, which is \<open>None\<close> for one caller.\<close>

definition with_queue_lock :: "(tasking \<Rightarrow> ('a \<times> tasking) option) \<Rightarrow> tasking \<Rightarrow> ('a \<times> tasking) option" where
  "with_queue_lock f s =
     (if queue_lock s \<noteq> 0 then None
      else map_option (\<lambda>(x, s). (x, s\<lparr>queue_lock := spin_unlock (queue_lock s)\<rparr>)) (f (s\<lparr>queue_lock := 1\<rparr>)))"

fun push_runnable :: "nat list \<Rightarrow> tasking \<Rightarrow> tasking option" where
  "push_runnable [] s = Some s"
| "push_runnable (p # ps) s =
     Option.bind (heap s p) (\<lambda>t.
       if t_state t \<noteq> RUNNABLE then push_runnable ps s
       else Option.bind (tq_push_back p s) (push_runnable ps))"

definition schedule_process :: "nat list \<Rightarrow> tasking \<Rightarrow> tasking option" where
  "schedule_process threads s = map_option snd (with_queue_lock (\<lambda>s. map_option (Pair ()) (push_runnable threads s)) s)"

definition schedule_thread :: "nat \<Rightarrow> tasking \<Rightarrow> tasking option" where
  "schedule_thread p s =
     Option.bind (heap s p) (\<lambda>t.
       map_option snd (with_queue_lock (\<lambda>s. map_option (Pair ()) (tq_push_back p s))
         (task_assert (t_state t = RUNNABLE) ''Trying to run a thread that is not in the RUNNABLE state'' s)))"

definition remove_thread :: "nat \<Rightarrow> nat \<Rightarrow> tasking \<Rightarrow> tasking option" where
  "remove_thread sizeof_thread p s = map_option snd (with_queue_lock (tq_erase sizeof_thread p) s)"

definition sched_is_initialized :: "tasking \<Rightarrow> bool" where
  "sched_is_initialized s \<longleftrightarrow> schedulers s \<noteq> None"

section \<open>Threads\<close>

definition sleep_queue_new :: "pid_t queue \<Rightarrow> sleep_queue" where
  "sleep_queue_new q = \<lparr>sq_sleeping = queue_new q, sq_access = semaphore_new 1 1\<rparr>"

text \<open>\<^verbatim>\<open>generate_pid\<close>: the search for an unused number wraps around with the 32-bit counter.\<close>

partial_function (option) generate_pid :: "tasking \<Rightarrow> (pid_t \<times> tasking) option" where
  "generate_pid s =
     Option.bind (um_at hash_u32 (s_next_pid s) (s_threads s)) (\<lambda>r.
       case r of
         None \<Rightarrow> Some (s_next_pid s, s\<lparr>s_next_pid := s_next_pid s + 1\<rparr>)
       | Some x \<Rightarrow> generate_pid (s\<lparr>s_next_pid := s_next_pid s + 1\<rparr>))"

definition KERNEL_STACK_SIZE :: nat where "KERNEL_STACK_SIZE = 1024 * 16"

text \<open>
  The constructor of \<^verbatim>\<open>Thread\<close> at address \<open>p\<close>, with its kernel stack at \<open>stack\<close>; \<open>cpu_size\<close> is
  \<^verbatim>\<open>sizeof(CPUState)\<close>. The register frame it fills is behind the pointer.
\<close>

definition thread_new :: "nat \<Rightarrow> nat \<Rightarrow> nat \<Rightarrow> nat \<Rightarrow> pid_t queue \<Rightarrow> tasking \<Rightarrow> tasking option" where
  "thread_new cpu_size p stack process q s =
     Option.bind (generate_pid s) (\<lambda>(pid, s).
       let t = \<lparr>t_kernel_stack = stack, t_parent = process, t_ksp = stack + KERNEL_STACK_SIZE - cpu_size,
                t_syscall_state = 0, t_state = RUNNABLE, t_watchers = sleep_queue_new q, t_pid = pid,
                t_next = 0, t_preferred_core = -1\<rparr>
       in map_option (\<lambda>(m, _). s\<lparr>heap := (heap s)(p \<mapsto> t), s_threads := m\<rparr>) (um_insert hash_u32 pid p (s_threads s)))"

definition thread_delete :: "nat \<Rightarrow> tasking \<Rightarrow> tasking option" where
  "thread_delete p s =
     Option.bind (heap s p) (\<lambda>t.
       let s = task_assert (t_state t = DEAD) ''When deleting a thread it should be dead'' s
       in map_option (\<lambda>m. s\<lparr>s_threads := m, heap := (heap s)(p := None)\<rparr>) (um_erase hash_u32 (t_pid t) (s_threads s)))"

definition thread_get :: "pid_t \<Rightarrow> tasking \<Rightarrow> nat option" where
  "thread_get tid s = map_option (\<lambda>r. case r of None \<Rightarrow> 0 | Some p \<Rightarrow> p) (um_at hash_u32 tid (s_threads s))"

definition thread_current :: "nat \<Rightarrow> tasking \<Rightarrow> nat option" where
  "thread_current core s =
     (if \<not> sched_is_initialized s then Some 0 else map_option current_thread (sched_at core s))"

definition thread_sleep :: "nat \<Rightarrow> nat \<Rightarrow> nat \<Rightarrow> bool \<Rightarrow> tasking \<Rightarrow> tasking option" where
  "thread_sleep sizeof_thread core p reschedule s =
     Option.bind (heap s p) (\<lambda>t.
     let prevState = t_state t
     in Option.bind (upd_thread p (\<lambda>t. t\<lparr>t_state := SLEEPING\<rparr>) s) (\<lambda>s.
        Option.bind (remove_thread sizeof_thread p s) (\<lambda>s.
        if reschedule then
          Option.bind (thread_current core s) (\<lambda>cur.
            Some (if cur = p then s\<lparr>requests := requests s @ [Force]\<rparr>
                  else if prevState = RUNNING then s\<lparr>requests := requests s @ [Irq (t_preferred_core t)]\<rparr>
                  else s))
        else Some s)))"

definition thread_wakeup :: "nat \<Rightarrow> tasking \<Rightarrow> tasking option" where
  "thread_wakeup p s =
     Option.bind (heap s p) (\<lambda>t.
       Option.bind (upd_thread p (\<lambda>t. t\<lparr>t_state := RUNNABLE\<rparr>)
         (task_assert (t_state t = SLEEPING) ''Cannot wake up a thread that is not sleeping'' s)) (schedule_thread p))"

fun translate_state :: "thread_state \<Rightarrow> thread_state" where
  "translate_state RUNNING = RUNNING"
| "translate_state RUNNABLE = RUNNING"
| "translate_state SLEEPING = RUNNING"
| "translate_state DYING = DEAD"
| "translate_state DEAD = DEAD"

definition thread_minimize :: "nat \<Rightarrow> tasking \<Rightarrow> tasking option" where
  "thread_minimize p s =
     Option.bind (heap s p) (\<lambda>t.
       upd_thread p (\<lambda>t. t\<lparr>t_kernel_stack := 0, t_ksp := 0, t_syscall_state := 0\<rparr>)
         (task_assert (t_state t = DEAD) ''Cannot minimize a living process'' s))"

definition make_ks :: "nat \<Rightarrow> nat \<Rightarrow> tasking \<Rightarrow> tasking option" where
  "make_ks cpu_size p s =
     upd_thread p (\<lambda>t. t\<lparr>t_syscall_state := t_kernel_stack t + KERNEL_STACK_SIZE - cpu_size\<rparr>) s"

definition pre_syscall :: "nat \<Rightarrow> nat \<Rightarrow> tasking \<Rightarrow> tasking option" where
  "pre_syscall core state s =
     Option.bind (thread_current core s) (\<lambda>p. upd_thread p (\<lambda>t. t\<lparr>t_syscall_state := state\<rparr>) s)"

definition post_syscall :: "nat \<Rightarrow> tasking \<Rightarrow> nat option" where
  "post_syscall core s = Option.bind (thread_current core s) (\<lambda>p. map_option t_syscall_state (heap s p))"

section \<open>SleepQueue\<close>

text \<open>\<open>a\<close> is the address of the queue entry the push allocates.\<close>

definition sleep_queue_sleep :: "nat \<Rightarrow> nat \<Rightarrow> nat \<Rightarrow> sleep_queue \<times> tasking \<Rightarrow> (sleep_queue \<times> tasking) option" where
  "sleep_queue_sleep sizeof_thread core a qs = (case qs of (q, s) \<Rightarrow>
     Option.bind (sem_acquire (sq_access q)) (\<lambda>sem.
     Option.bind (thread_current core s) (\<lambda>p.
     Option.bind (thread_sleep sizeof_thread core p False s) (\<lambda>s.
     Option.bind (heap s p) (\<lambda>t.
     Option.bind (queue_push_back (a, t_pid t) (sq_sleeping q)) (\<lambda>sl.
       case sem_release sem of (ok, sem) \<Rightarrow>
         let s = task_assert ok ''Releasing the semaphore more than the max use count'' s
         in Some (\<lparr>sq_sleeping = sl, sq_access = sem\<rparr>, s\<lparr>requests := requests s @ [Force]\<rparr>)))))))"

definition wake_one :: "pid_t queue \<times> tasking \<Rightarrow> (pid_t queue \<times> tasking) option" where
  "wake_one qs = (case qs of (q, s) \<Rightarrow>
     Option.bind (queue_pop_front q) (\<lambda>(tid, q).
     Option.bind (thread_get tid s) (\<lambda>p.
       if p \<noteq> 0 then map_option (Pair q) (thread_wakeup p s) else Some (q, s))))"

text \<open>\<^verbatim>\<open>while(woke++ < count && f_sleeping.size() > 0)\<close>\<close>

partial_function (option) wake_loop :: "size_t \<Rightarrow> size_t \<Rightarrow> pid_t queue \<times> tasking \<Rightarrow> (size_t \<times> pid_t queue \<times> tasking) option" where
  "wake_loop max_wake woke qs =
     (if woke < max_wake \<and> queue_size (fst qs) > 0
      then Option.bind (wake_one qs) (wake_loop max_wake (woke + 1))
      else Some (woke + 1, qs))"

definition sleep_queue_wakeup :: "size_t \<Rightarrow> sleep_queue \<times> tasking \<Rightarrow> (size_t \<times> sleep_queue \<times> tasking) option" where
  "sleep_queue_wakeup max_wake qs = (case qs of (q, s) \<Rightarrow>
     Option.bind (sem_acquire (sq_access q)) (\<lambda>sem.
     Option.bind (wake_loop max_wake 0 (sq_sleeping q, s)) (\<lambda>(woke, sl, s).
       case sem_release sem of (ok, sem) \<Rightarrow>
         Some (woke, \<lparr>sq_sleeping = sl, sq_access = sem\<rparr>,
               task_assert ok ''Releasing the semaphore more than the max use count'' s))))"

definition sleep_queue_empty :: "sleep_queue \<Rightarrow> bool" where
  "sleep_queue_empty q \<longleftrightarrow> queue_size (sq_sleeping q) = 0"

text \<open>\<^verbatim>\<open>Thread::get_state\<close> returns at once, or after the caller has been put to sleep on the thread's
  watchers; the second translation happens when it runs again, on the state of that time.\<close>

definition get_state :: "nat \<Rightarrow> nat \<Rightarrow> nat \<Rightarrow> nat \<Rightarrow> bool \<Rightarrow> tasking \<Rightarrow> (thread_state option \<times> tasking) option" where
  "get_state sizeof_thread core a p sleep s =
     Option.bind (heap s p) (\<lambda>t.
       if translate_state (t_state t) = RUNNING \<and> sleep then
         Option.bind (sleep_queue_sleep sizeof_thread core a (t_watchers t, s)) (\<lambda>(q, s).
           map_option (Pair None) (upd_thread p (\<lambda>t. t\<lparr>t_watchers := q\<rparr>) s))
       else Some (Some (translate_state (t_state t)), s))"

definition change_state :: "nat \<Rightarrow> thread_state \<Rightarrow> tasking \<Rightarrow> tasking option" where
  "change_state p newState s =
     Option.bind (upd_thread p (\<lambda>t. t\<lparr>t_state := newState\<rparr>) s) (\<lambda>s.
     Option.bind (heap s p) (\<lambda>t.
     Option.bind (sleep_queue_wakeup (- 1) (t_watchers t, s)) (\<lambda>(_, q, s).
       upd_thread p (\<lambda>t. t\<lparr>t_watchers := q\<rparr>) s)))"

section \<open>Futex\<close>

record futex =
  fx_sleep :: sleep_queue
  fx_addr :: virtaddr_t

text \<open>The list \<^verbatim>\<open>s_futexes\<close> of physical addresses and futex objects, which are named by their address.\<close>

type_synonym futexes = "(physaddr_t \<times> nat) list"

datatype wait_result = Again | Sleeping

text \<open>\<^verbatim>\<open>wait\<close> on the word \<open>w\<close> at the futex's address.\<close>

definition futex_wait :: "nat \<Rightarrow> nat \<Rightarrow> nat \<Rightarrow> u32 \<Rightarrow> u32 \<Rightarrow> futex \<times> tasking \<Rightarrow> (wait_result \<times> u32 \<times> futex \<times> tasking) option" where
  "futex_wait sizeof_thread core a v w fs = (case fs of (f, s) \<Rightarrow>
     (if w \<noteq> v then Some (Again, w, f, s)
      else Option.bind (sleep_queue_sleep sizeof_thread core a (fx_sleep f, s)) (\<lambda>(q, s).
             Some (Sleeping, v + 1, f\<lparr>fx_sleep := q\<rparr>, s))))"

definition futex_wake :: "u32 \<Rightarrow> futex \<times> tasking \<Rightarrow> (u32 \<times> futex \<times> tasking) option" where
  "futex_wake v fs = (case fs of (f, s) \<Rightarrow>
     Option.bind (sleep_queue_wakeup (ucast v) (fx_sleep f, s)) (\<lambda>(n, q, s). Some (ucast n, f\<lparr>fx_sleep := q\<rparr>, s)))"

definition futex_empty :: "futex \<Rightarrow> bool" where
  "futex_empty f = sleep_queue_empty (fx_sleep f)"

definition futex_paddr :: "virtaddr_t \<Rightarrow> pstate \<Rightarrow> (physaddr_t \<times> pstate) option" where
  "futex_paddr addr st =
     Option.bind (pager_lock st) (\<lambda>st.
     Option.bind (getPhysicalAddress addr st) (\<lambda>(pa, st). Some (pa, pager_unlock st)))"

definition futex_get :: "virtaddr_t \<Rightarrow> futexes \<Rightarrow> pstate \<Rightarrow> (nat \<times> pstate) option" where
  "futex_get addr fs st =
     Option.bind (futex_paddr addr st) (\<lambda>(pa, st).
       Some (case find (\<lambda>e. fst e = pa) fs of None \<Rightarrow> 0 | Some e \<Rightarrow> snd e, st))"

definition futex_make :: "nat \<Rightarrow> virtaddr_t \<Rightarrow> futexes \<Rightarrow> pstate \<Rightarrow> (nat \<times> futexes \<times> pstate) option" where
  "futex_make new_futex addr fs st =
     Option.bind (futex_get addr fs st) (\<lambda>(f, st).
       if f \<noteq> 0 then Some (f, fs, st)
       else Option.bind (futex_paddr addr st) (\<lambda>(pa, st). Some (new_futex, fs @ [(pa, new_futex)], st)))"

end
