(* ===== verification/Scheduling.thy ===== *)
theory Scheduling
  imports Tasking
begin

text \<open>
  Correctness of the thread queue, the scheduler and the sleep queues of \<open>Tasking\<close>: the linked
  queue represents a list of threads, \<^verbatim>\<open>get_optimal_thread\<close> removes the thread it prefers, and the
  scheduler loses no thread; a thread without a preferred core, however, is passed over for as long as
  one that prefers the core is runnable.
\<close>

section \<open>The queue as a list of threads\<close>

definition nxt :: "tasking \<Rightarrow> nat \<Rightarrow> nat" where
  "nxt s p = (case heap s p of None \<Rightarrow> 0 | Some t \<Rightarrow> t_next t)"

definition pref :: "tasking \<Rightarrow> nat \<Rightarrow> int" where
  "pref s p = (case heap s p of None \<Rightarrow> 0 | Some t \<Rightarrow> t_preferred_core t)"

definition tq_rep :: "tasking \<Rightarrow> nat list \<Rightarrow> bool" where
  "tq_rep s ts \<longleftrightarrow> chain_from (nxt s) (tq_first s) ts \<and> distinct ts \<and> (\<forall>p\<in>set ts. heap s p \<noteq> None) \<and>
     tq_last s = (if ts = [] then 0 else last ts)"

text \<open>Queue operations change link fields only.\<close>

definition links_only :: "tasking \<Rightarrow> tasking \<Rightarrow> bool" where
  "links_only s s' \<longleftrightarrow> schedulers s' = schedulers s \<and> queue_lock s' = queue_lock s \<and> s_threads s' = s_threads s \<and>
     (\<forall>p. map_option (t_next_update (\<lambda>_. 0)) (heap s' p) = map_option (t_next_update (\<lambda>_. 0)) (heap s p))"

lemma links_only_heap:
  assumes "links_only s s'" "heap s p = Some t"
  obtains n where "heap s' p = Some (t\<lparr>t_next := n\<rparr>)"
proof -
  have "map_option (t_next_update (\<lambda>_. 0)) (heap s' p) = Some (t\<lparr>t_next := 0\<rparr>)"
    using assms by (simp add: links_only_def)
  then obtain t' where t': "heap s' p = Some t'" "t'\<lparr>t_next := 0\<rparr> = t\<lparr>t_next := 0\<rparr>" by auto
  then have "t'\<lparr>t_next := 0\<rparr>\<lparr>t_next := t_next t'\<rparr> = t\<lparr>t_next := 0\<rparr>\<lparr>t_next := t_next t'\<rparr>" by simp
  then have "t' = t\<lparr>t_next := t_next t'\<rparr>" by simp
  then show thesis using that t'(1) by metis
qed

lemma upd_thread_Some: "heap s p = Some t \<Longrightarrow> upd_thread p f s = Some (s\<lparr>heap := (heap s)(p \<mapsto> f t)\<rparr>)"
  by (simp add: upd_thread_def)

lemma nxt_upd [simp]:
  "nxt (s\<lparr>heap := (heap s)(p \<mapsto> t)\<rparr>) = (nxt s)(p := t_next t)"
  "nxt (s\<lparr>tq_first := a\<rparr>) = nxt s" "nxt (s\<lparr>tq_last := a\<rparr>) = nxt s" "nxt (s\<lparr>tq_length := n\<rparr>) = nxt s"
  "nxt (s\<lparr>queue_lock := w\<rparr>) = nxt s"
  by (auto simp: nxt_def fun_eq_iff)

lemma nxt_heap: "heap s p = Some t \<Longrightarrow> nxt s p = t_next t"
  by (simp add: nxt_def)

lemma tq_push_back_rep:
  assumes "tq_rep s ts" "heap s p = Some t" "p \<noteq> 0" "p \<notin> set ts"
  shows "\<exists>s'. tq_push_back p s = Some s' \<and> tq_rep s' (ts @ [p]) \<and> links_only s s'"
proof (cases "ts = []")
  case True
  then show ?thesis using assms
    by (auto simp: tq_push_back_def upd_thread_Some tq_rep_def links_only_def)
next
  case False
  let ?l = "last ts"
  have l: "?l \<in> set ts" using False by simp
  have "0 \<notin> set ts" using assms(1) chain_from_nonzero by (auto simp: tq_rep_def)
  then have l0: "?l \<noteq> 0" "?l \<noteq> p" using l assms(4) by metis+
  obtain tl where tl: "heap s ?l = Some tl" using assms(1) l by (auto simp: tq_rep_def)
  let ?s1 = "s\<lparr>heap := (heap s)(p \<mapsto> t\<lparr>t_next := 0\<rparr>)\<rparr>"
  have h1: "heap ?s1 ?l = Some tl" using tl l0 by simp
  let ?s' = "?s1\<lparr>heap := (heap ?s1)(?l \<mapsto> tl\<lparr>t_next := p\<rparr>)\<rparr>\<lparr>tq_last := p\<rparr>\<lparr>tq_length := tq_length s + 1\<rparr>"
  have "tq_push_back p s = Some ?s'"
    using assms(1) False l0 by (simp add: tq_push_back_def upd_thread_Some [OF assms(2)] upd_thread_Some [OF h1] tq_rep_def)
  moreover have "tq_rep ?s' (ts @ [p])"
  proof -
    have c: "chain_from (nxt s) (tq_first s) ts" "distinct ts" using assms(1) by (simp_all add: tq_rep_def)
    have "chain_from (nxt ?s') (tq_first s) (ts @ [p])"
    proof (rule chain_from_snoc [OF c(1) False])
      show "nxt ?s' x = nxt s x" if "x \<in> set (butlast ts)" for x
        using that last_notin_butlast [OF False c(2)] in_set_butlastD [OF that] assms(4) l0 by (auto simp: nxt_def)
    qed (use l0 assms(3) in \<open>auto simp: nxt_def\<close>)
    then show ?thesis using assms l0 by (auto simp: tq_rep_def)
  qed
  moreover have "links_only s ?s'" using assms(2) tl l0 by (auto simp: links_only_def)
  ultimately show ?thesis by blast
qed

section \<open>The search for the optimal thread\<close>

text \<open>With a thread for this core in the rest of the queue the search ends there.\<close>

lemma tq_search_found:
  assumes "chain_from (nxt s) p (xs @ u # zs)" "\<forall>x\<in>set (xs @ u # zs). heap s x \<noteq> None" "heap s best \<noteq> None"
    "pref s best \<noteq> core" "\<forall>x\<in>set xs. pref s x \<noteq> core" "pref s u = core" "core \<noteq> - 1"
  shows "tq_search core best prev p s = Some (Found u (if xs = [] then prev else last xs))"
  using assms
proof (induction xs arbitrary: p best prev)
  case Nil
  then show ?case by (subst tq_search.simps) (auto simp: pref_def)
next
  case (Cons x xs)
  obtain b t where bt: "heap s best = Some b" "heap s x = Some t" using Cons.prems(2,3) by auto
  let ?best = "if t_preferred_core b \<noteq> core \<and> t_preferred_core b \<noteq> - 1 \<and> t_preferred_core t = - 1 then x else best"
  have "p = x" "x \<noteq> 0" "chain_from (nxt s) (t_next t) (xs @ u # zs)" 
    using Cons.prems(1) nxt_heap [OF bt(2)] by auto
  moreover have "heap s ?best \<noteq> None" "pref s ?best \<noteq> core"
    using bt Cons.prems(4,5,7) by (auto simp: pref_def)
  ultimately have "tq_search core ?best x (t_next t) s = Some (Found u (if xs = [] then x else last xs))"
    using Cons.prems by (intro Cons.IH) auto
  moreover have "\<not> (t_preferred_core b \<noteq> core \<and> t_preferred_core t = core)" using Cons.prems(5) bt by (auto simp: pref_def)
  ultimately show ?case using \<open>p = x\<close> \<open>x \<noteq> 0\<close> bt by (subst tq_search.simps) (auto simp: Let_def)
qed

text \<open>A candidate that prefers this core, or none, is kept to the end of the queue.\<close>

lemma tq_search_candidate:
  assumes "chain_from (nxt s) p us" "\<forall>x\<in>set us. heap s x \<noteq> None" "heap s best \<noteq> None"
    "pref s best = core \<or> pref s best = - 1 \<and> (\<forall>x\<in>set us. pref s x \<noteq> core)"
  shows "tq_search core best prev p s = Some (Candidate best (if us = [] then prev else last us))"
  using assms
proof (induction us arbitrary: p prev)
  case Nil
  then show ?case by (subst tq_search.simps) simp
next
  case (Cons x us)
  obtain b t where bt: "heap s best = Some b" "heap s x = Some t" using Cons.prems(2,3) by auto
  have "p = x" "x \<noteq> 0" "chain_from (nxt s) (t_next t) us" 
    using Cons.prems(1) nxt_heap [OF bt(2)] by auto
  moreover from this have "tq_search core best x (t_next t) s = Some (Candidate best (if us = [] then x else last us))"
    using Cons.prems by (intro Cons.IH) auto
  moreover have "t_preferred_core b = core \<or> t_preferred_core b = - 1 \<and> t_preferred_core t \<noteq> core"
    using Cons.prems(4) bt by (auto simp: pref_def)
  ultimately show ?case using bt by (subst tq_search.simps) auto
qed

text \<open>The thread the search should choose: the first that prefers this core, else the first.\<close>

definition optimal_of :: "tasking \<Rightarrow> int \<Rightarrow> nat list \<Rightarrow> nat" where
  "optimal_of s core ts = (case find (\<lambda>u. pref s u = core) ts of None \<Rightarrow> hd ts | Some u \<Rightarrow> u)"

text \<open>The change of the chosen thread: unlinked, and bound to the core.\<close>

definition bound_to :: "tasking \<Rightarrow> tasking \<Rightarrow> nat \<Rightarrow> int \<Rightarrow> bool" where
  "bound_to s s' r core \<longleftrightarrow> schedulers s' = schedulers s \<and> queue_lock s' = queue_lock s \<and> s_threads s' = s_threads s \<and>
     (\<forall>p. map_option (\<lambda>t. t\<lparr>t_next := 0, t_preferred_core := if p = r then core else t_preferred_core t\<rparr>) (heap s p) =
          map_option (t_next_update (\<lambda>_. 0)) (heap s' p))"

lemma tq_unlink_first:
  assumes "tq_rep s (u # zs)" "heap s u = Some t" "f t = t\<lparr>t_next := 0, t_preferred_core := core\<rparr>"
  shows "\<exists>s'. map_option (Pair u) (upd_thread u f
      (let s1 = s\<lparr>tq_first := t_next t\<rparr> in if u = tq_last s1 then s1\<lparr>tq_last := 0\<rparr> else s1)) = Some (u, s') \<and>
    tq_rep s' zs \<and> bound_to s s' u core"
proof -
  have c: "chain_from (nxt s) (t_next t) zs" "u \<noteq> 0" "u \<notin> set zs" "distinct zs"
    using assms(1) nxt_heap [OF assms(2)] by (auto simp: tq_rep_def)
  let ?s1 = "s\<lparr>tq_first := t_next t\<rparr>"
  let ?s2 = "if u = tq_last ?s1 then ?s1\<lparr>tq_last := 0\<rparr> else ?s1"
  let ?s' = "?s2\<lparr>heap := (heap s)(u \<mapsto> f t)\<rparr>"
  have h: "heap ?s2 = heap s" by simp
  have run: "upd_thread u f ?s2 = Some ?s'" using assms(2) h by (simp add: upd_thread_def)
  have "chain_from (nxt ?s') (t_next t) zs"
    by (subst chain_from_cong [of zs _ "nxt s"]) (use c in \<open>auto simp: nxt_def\<close>)
  moreover have "u = tq_last s \<longleftrightarrow> zs = []"
    using assms(1) c(3) by (cases "zs = []") (auto simp: tq_rep_def)
  ultimately have "tq_rep ?s' zs"
    using assms(1) c by (auto simp: tq_rep_def)
  moreover have "bound_to s ?s' u core" using assms(2,3) by (auto simp: bound_to_def)
  ultimately show ?thesis using run unfolding Let_def by simp
qed

lemma tq_unlink_inner:
  assumes "tq_rep s (xs @ y # u # zs)" "heap s u = Some t"
  shows "\<exists>s'. Option.bind (tq_take u y t s) (\<lambda>s.
      let s = (if u = tq_last s then s\<lparr>tq_last := y\<rparr> else s)
      in map_option (Pair u) (upd_thread u (\<lambda>t. t\<lparr>t_next := 0\<rparr>) s)) = Some (u, s') \<and>
    tq_rep s' (xs @ y # zs) \<and> bound_to s s' u (t_preferred_core t)"
proof -
  have c: "chain_from (nxt s) (tq_first s) (xs @ y # u # zs)" and d: "distinct (xs @ y # u # zs)"
    using assms(1) by (simp_all add: tq_rep_def)
  have y0: "y \<noteq> 0" using chain_from_nonzero [OF c] by auto
  obtain ty where ty: "heap s y = Some ty" using assms(1) by (auto simp: tq_rep_def)
  let ?s1 = "s\<lparr>heap := (heap s)(y \<mapsto> ty\<lparr>t_next := t_next t\<rparr>)\<rparr>"
  let ?s2 = "if u = tq_last ?s1 then ?s1\<lparr>tq_last := y\<rparr> else ?s1"
  let ?s' = "?s2\<lparr>heap := (heap ?s1)(u \<mapsto> t\<lparr>t_next := 0\<rparr>)\<rparr>"
  have uy: "u \<noteq> y" using d by auto
  have "tq_take u y t s = Some ?s1" using y0 ty by (simp add: tq_take_def upd_thread_Some)
  moreover have "upd_thread u (\<lambda>t. t\<lparr>t_next := 0\<rparr>) ?s2 = Some ?s'"
    using assms(2) uy by (auto simp: upd_thread_def)
  moreover have "chain_from (nxt ?s') (tq_first s) (xs @ y # zs)"
    by (rule chain_from_unlink [OF c]) (use d uy nxt_heap [OF assms(2)] in \<open>auto simp: nxt_def\<close>)
  moreover have "u = tq_last s \<longleftrightarrow> zs = []"
    using assms(1) d by (cases "zs = []") (auto simp: tq_rep_def)
  moreover have "bound_to s ?s' u (t_preferred_core t)" using assms(2) ty uy by (auto simp: bound_to_def)
  ultimately show ?thesis using assms(1) by (auto simp: tq_rep_def Let_def)
qed

lemma find_split: "find P xs = Some u \<Longrightarrow> \<exists>ys zs. xs = ys @ u # zs \<and> P u \<and> (\<forall>y\<in>set ys. \<not> P y)"
proof (induction xs)
  case (Cons x xs)
  show ?case
  proof (cases "P x")
    case True
    then show ?thesis using Cons.prems by (intro exI [of _ "[]"] exI [of _ xs]) auto
  next
    case False
    then obtain ys zs where "xs = ys @ u # zs" "P u" "\<forall>y\<in>set ys. \<not> P y" using Cons by auto
    then show ?thesis using False by (intro exI [of _ "x # ys"] exI [of _ zs]) auto
  qed
qed simp

lemma optimal_of_pref:
  assumes "\<exists>u\<in>set ts. pref s u = core"
  shows "optimal_of s core ts \<in> set ts \<and> pref s (optimal_of s core ts) = core"
proof -
  have "find (\<lambda>u. pref s u = core) ts \<noteq> None" using assms unfolding find_None_iff by auto
  then obtain u where u: "find (\<lambda>u. pref s u = core) ts = Some u" by blast
  then have "u \<in> set ts \<and> pref s u = core" using find_split [OF u] by auto
  then show ?thesis using u by (simp add: optimal_of_def)
qed

lemma tq_get_optimal_ok:
  assumes "tq_rep s ts" "ts \<noteq> []" "core \<noteq> - 1" "pref s (hd ts) = - 1 \<or> (\<exists>u\<in>set ts. pref s u = core)"
  shows "\<exists>s'. tq_get_optimal_thread core s = Some (optimal_of s core ts, s') \<and>
    tq_rep s' (remove1 (optimal_of s core ts) ts) \<and> bound_to s s' (optimal_of s core ts) core"
proof -
  have c: "chain_from (nxt s) (tq_first s) ts" and h: "\<forall>p\<in>set ts. heap s p \<noteq> None"
    using assms(1) by (simp_all add: tq_rep_def)
  have first: "tq_first s = hd ts" "hd ts \<noteq> 0" using c assms(2) by (cases ts; simp)+
  obtain t0 where t0: "heap s (hd ts) = Some t0" using h assms(2) by fastforce
  show ?thesis
  proof (cases "find (\<lambda>u. pref s u = core) ts = None \<or> pref s (hd ts) = core")
    case True
    then have o: "optimal_of s core ts = hd ts"
      using assms(2) by (cases ts) (auto simp: optimal_of_def)
    have "pref s (hd ts) = core \<or> pref s (hd ts) = - 1 \<and> (\<forall>x\<in>set ts. pref s x \<noteq> core)"
      using True assms(4) by (auto simp: find_None_iff)
    then have "tq_search core (tq_first s) 0 (tq_first s) s = Some (Candidate (hd ts) (if ts = [] then 0 else last ts))"
      using tq_search_candidate [OF c h, of "hd ts"] t0 first by simp
    moreover obtain zs where zs: "ts = hd ts # zs" using assms(2) by (cases ts) auto
    moreover have "tq_rep s (hd ts # zs)" using assms(1) zs by metis
    then obtain s' where "map_option (Pair (hd ts)) (upd_thread (hd ts) (\<lambda>t. t\<lparr>t_next := 0, t_preferred_core := core\<rparr>)
      (let s1 = s\<lparr>tq_first := t_next t0\<rparr> in if hd ts = tq_last s1 then s1\<lparr>tq_last := 0\<rparr> else s1)) = Some (hd ts, s')"
      "tq_rep s' zs" "bound_to s s' (hd ts) core"
      using tq_unlink_first [OF _ t0, of zs "\<lambda>t. t\<lparr>t_next := 0, t_preferred_core := core\<rparr>" core] by auto
    moreover have "remove1 (hd ts) ts = zs" using zs by (metis remove1.simps(2))
    ultimately show ?thesis using o t0 first by (auto simp: tq_get_optimal_thread_def Let_def)
  next
    case False
    then obtain u where f: "find (\<lambda>u. pref s u = core) ts = Some u" by auto
    then have o: "optimal_of s core ts = u" by (simp add: optimal_of_def)
    obtain xs zs where ts: "ts = xs @ u # zs" "pref s u = core" "\<forall>x\<in>set xs. pref s x \<noteq> core"
      using find_split [OF f] by auto
    have xs: "xs \<noteq> []" using False ts(1,2) by auto
    then obtain ys y where ys: "xs = ys @ [y]" by (metis rev_exhaust)
    have hd: "pref s (hd ts) \<noteq> core" using False by simp
    have "tq_search core (tq_first s) 0 (tq_first s) s = Some (Found u (if xs = [] then 0 else last xs))"
      by (rule tq_search_found) (use c h ts hd t0 first assms(3) in auto)
    then have search: "tq_search core (tq_first s) 0 (tq_first s) s = Some (Found u y)" using ys by simp
    obtain t where t: "heap s u = Some t" using h ts(1) by auto
    have "tq_rep s (ys @ y # u # zs)" using assms(1) ts(1) ys by simp
    then obtain s' where "Option.bind (tq_take u y t s) (\<lambda>s.
      let s = (if u = tq_last s then s\<lparr>tq_last := y\<rparr> else s)
      in map_option (Pair u) (upd_thread u (\<lambda>t. t\<lparr>t_next := 0\<rparr>) s)) = Some (u, s')"
      "tq_rep s' (ys @ y # zs)" "bound_to s s' u (t_preferred_core t)"
      using tq_unlink_inner [OF _ t] by blast
    moreover have "t_preferred_core t = core" using ts(2) t by (simp add: pref_def)
    moreover have "remove1 u ts = ys @ y # zs"
    proof -
      have "distinct ts" using assms(1) by (simp add: tq_rep_def)
      then show ?thesis using ts(1) ys by (auto simp: remove1_append)
    qed
    ultimately show ?thesis using search o t by (simp add: tq_get_optimal_thread_def)
  qed
qed

lemma tq_get_optimal_empty: "tq_rep s [] \<Longrightarrow> tq_get_optimal_thread core s = Some (0, s)"
  by (simp add: tq_get_optimal_thread_def tq_rep_def tq_search.simps)

section \<open>The scheduler\<close>

text \<open>
  A core between two interrupts: its scheduler runs thread \<open>A\<close>, which prefers the core, the
  queue holds \<open>ts\<close>, and the queue lock is free.
\<close>

definition core_runs :: "nat \<Rightarrow> tasking \<Rightarrow> nat \<Rightarrow> nat list \<Rightarrow> bool" where
  "core_runs c s A ts \<longleftrightarrow> (\<exists>sc. sched_at c s = Some sc \<and> current_thread sc = A \<and> core_id sc = int c \<and> \<not> first_switch sc) \<and>
     queue_lock s = 0 \<and> A \<noteq> 0 \<and> A \<notin> set ts \<and> tq_rep s ts \<and>
     (\<exists>t. heap s A = Some t \<and> t_state t = RUNNING \<and> t_preferred_core t = int c)"

lemma sched_at_cong: "schedulers s' = schedulers s \<Longrightarrow> sched_at c s' = sched_at c s"
  by (simp add: sched_at_def)

lemma sched_at_set:
  "sched_at c s = Some sc \<Longrightarrow> sched_at c (set_sched c sc' s) = Some sc'"
  by (auto simp: sched_at_def set_sched_def split: option.splits if_splits)

lemma tq_rep_cong:
  assumes "tq_rep s ts" "tq_first s' = tq_first s" "tq_last s' = tq_last s" "\<And>p. p \<in> set ts \<Longrightarrow> nxt s' p = nxt s p"
    "\<And>p. p \<in> set ts \<Longrightarrow> heap s' p \<noteq> None"
  shows "tq_rep s' ts"
  using assms chain_from_cong [of ts "nxt s'" "nxt s"] by (simp add: tq_rep_def)

lemma bound_to_heap:
  assumes "bound_to s s' r core" "heap s p = Some t"
  obtains n where "heap s' p = Some (t\<lparr>t_preferred_core := if p = r then core else t_preferred_core t, t_next := n\<rparr>)"
proof -
  let ?u = "t\<lparr>t_next := 0, t_preferred_core := if p = r then core else t_preferred_core t\<rparr>"
  have "map_option (t_next_update (\<lambda>_. 0)) (heap s' p) = Some ?u"
    using assms unfolding bound_to_def by (metis (mono_tags, lifting) option.simps(9))
  then obtain t' where t': "heap s' p = Some t'" "t'\<lparr>t_next := 0\<rparr> = ?u" by auto
  then have "t'\<lparr>t_next := 0\<rparr>\<lparr>t_next := t_next t'\<rparr> = ?u\<lparr>t_next := t_next t'\<rparr>" by simp
  then have "t' = t\<lparr>t_preferred_core := if p = r then core else t_preferred_core t, t_next := t_next t'\<rparr>" by simp
  then show thesis using that [of "t_next t'"] t'(1) by metis
qed

text \<open>The interrupted thread goes to the back of the queue.\<close>

lemma put_away_runs:
  assumes "core_runs c s A ts" "sched_at c s = Some sc"
  obtains s' where "put_away state sc (s\<lparr>queue_lock := 1\<rparr>) = Some (sc\<lparr>current_thread := 0\<rparr>, s')"
    "tq_rep s' (ts @ [A])" "schedulers s' = schedulers s" "queue_lock s' = 1"
    "\<forall>p. pref s' p = pref s p" "\<forall>p. heap s' p = None \<longleftrightarrow> heap s p = None"
proof -
  obtain t where t: "heap s A = Some t" "t_state t = RUNNING" and A: "A \<noteq> 0" "A \<notin> set ts" and rep: "tq_rep s ts"
    using assms(1) by (auto simp: core_runs_def)
  have sc: "current_thread sc = A" "\<not> first_switch sc" using assms by (auto simp: core_runs_def)
  let ?t = "t\<lparr>t_ksp := state, t_state := RUNNABLE\<rparr>"
  let ?s1 = "s\<lparr>queue_lock := 1, heap := (heap s)(A \<mapsto> ?t)\<rparr>"
  have "tq_rep ?s1 ts"
    by (rule tq_rep_cong [OF rep]) (use A t rep in \<open>auto simp: nxt_def tq_rep_def\<close>)
  then obtain s' where s': "tq_push_back A ?s1 = Some s'" "tq_rep s' (ts @ [A])" "links_only ?s1 s'"
    using tq_push_back_rep [of ?s1 ts A ?t] A by auto
  have "put_away state sc (s\<lparr>queue_lock := 1\<rparr>) = Some (sc\<lparr>current_thread := 0\<rparr>, s')"
    using s'(1) sc A t by (simp add: put_away_def upd_thread_def)
  moreover have eq: "map_option (t_next_update (\<lambda>_. 0)) (heap s' p) = map_option (t_next_update (\<lambda>_. 0)) (heap ?s1 p)" for p
    using s'(3) by (simp add: links_only_def)
  have "heap s' p = None \<longleftrightarrow> heap s p = None" for p using eq [of p] t by (cases "p = A") auto
  moreover have "pref s' p = pref s p" for p
  proof (cases "heap s p")
    case None
    then show ?thesis using \<open>heap s' p = None \<longleftrightarrow> heap s p = None\<close> by (simp add: pref_def)
  next
    case (Some u)
    then obtain v where "heap ?s1 p = Some v" "t_preferred_core v = t_preferred_core u" using t by (cases "p = A") auto
    moreover obtain n where "heap s' p = Some (v\<lparr>t_next := n\<rparr>)" using links_only_heap [OF s'(3) \<open>heap ?s1 p = Some v\<close>] .
    ultimately show ?thesis using Some by (simp add: pref_def)
  qed
  ultimately show thesis using that s'(2,3) by (simp add: links_only_def)
qed

lemma find_append: "find P (xs @ ys) = (case find P xs of None \<Rightarrow> find P ys | Some x \<Rightarrow> Some x)"
  by (induction xs) auto

text \<open>One timer interrupt: the first thread of the queue that prefers the core runs next, or the
  interrupted thread again; no thread is lost and no other preference changes.\<close>

lemma schedule_step:
  assumes "core_runs c s A ts"
  shows "\<exists>ksp s'. schedule c state s = Some (ksp, s') \<and>
    core_runs c s' (optimal_of s (int c) (ts @ [A])) (remove1 (optimal_of s (int c) (ts @ [A])) (ts @ [A])) \<and>
    (\<forall>p. pref s' p = pref s p)"
proof -
  obtain sc where sc: "sched_at c s = Some sc" "core_id sc = int c" and lock: "queue_lock s = 0"
    using assms by (auto simp: core_runs_def)
  have pA: "pref s A = int c" using assms by (auto simp: core_runs_def pref_def)
  obtain s1 where s1: "put_away state sc (s\<lparr>queue_lock := 1\<rparr>) = Some (sc\<lparr>current_thread := 0\<rparr>, s1)"
    "tq_rep s1 (ts @ [A])" "schedulers s1 = schedulers s" "queue_lock s1 = 1"
    "\<forall>p. pref s1 p = pref s p" "\<forall>p. heap s1 p = None \<longleftrightarrow> heap s p = None"
    by (rule put_away_runs [where state = state, OF assms sc(1)])
  let ?r = "optimal_of s (int c) (ts @ [A])"
  have o: "optimal_of s1 (int c) (ts @ [A]) = ?r" using s1(5) by (simp add: optimal_of_def)
  obtain s2 where s2: "tq_get_optimal_thread (int c) s1 = Some (?r, s2)" "tq_rep s2 (remove1 ?r (ts @ [A]))"
    "bound_to s1 s2 ?r (int c)"
    using tq_get_optimal_ok [OF s1(2), of "int c"] s1(5) pA unfolding o by auto
  have r: "?r \<in> set (ts @ [A])" "pref s ?r = int c"
    using optimal_of_pref [of "ts @ [A]" s "int c"] pA by auto
  have "0 \<notin> set (ts @ [A])"
    by (rule chain_from_nonzero [of "nxt s1" "tq_first s1"]) (use s1(2) in \<open>simp add: tq_rep_def\<close>)
  then have nz: "?r \<noteq> 0" using r(1) by metis
  obtain t where t: "heap s1 ?r = Some t" using s1(2) r(1) by (auto simp: tq_rep_def)
  then obtain n where t2: "heap s2 ?r = Some (t\<lparr>t_preferred_core := int c, t_next := n\<rparr>)"
    using bound_to_heap [OF s2(3) t] by auto
  let ?t = "t\<lparr>t_preferred_core := int c, t_next := n, t_state := RUNNING\<rparr>"
  let ?s3 = "s2\<lparr>queue_lock := 0\<rparr>\<lparr>heap := (heap s2)(?r \<mapsto> ?t)\<rparr>"
  let ?sc = "sc\<lparr>current_thread := 0\<rparr>\<lparr>is_idle := False, current_thread := ?r\<rparr>"
  let ?s' = "set_switch_time (t_ksp t) 1000 (set_sched c ?sc ?s3)"
  have run: "schedule c state s = Some (t_ksp t, ?s')"
    using sc lock s1(1) s2(1) nz t2
    by (simp add: schedule_def spin_try_lock_def cmpxchg_def spin_unlock_def upd_thread_def)
  have sched: "schedulers ?s3 = schedulers s" using s1(3) s2(3) by (simp add: bound_to_def)
  have d: "distinct (ts @ [A])" using s1(2) by (simp add: tq_rep_def)
  have "tq_rep ?s' (remove1 ?r (ts @ [A]))"
    by (rule tq_rep_cong [OF s2(2)])
      (use s2(2) d in \<open>auto simp: set_switch_time_def set_sched_def nxt_def tq_rep_def\<close>)
  moreover have "?r \<notin> set (remove1 ?r (ts @ [A]))" using d by simp
  moreover have "sched_at c ?s' = Some ?sc"
  proof -
    have "sched_at c ?s3 = Some sc" using sched_at_cong [OF sched] sc(1) by simp
    then have "sched_at c (set_sched c ?sc ?s3) = Some ?sc" by (rule sched_at_set)
    moreover have "schedulers ?s' = schedulers (set_sched c ?sc ?s3)" by (simp add: set_switch_time_def)
    ultimately show ?thesis using sched_at_cong [of ?s' "set_sched c ?sc ?s3"] by simp
  qed
  moreover have "heap ?s' ?r = Some ?t" "queue_lock ?s' = 0" by (simp_all add: set_switch_time_def set_sched_def)
  moreover have "\<not> first_switch sc" using assms sc(1) by (simp add: core_runs_def)
  ultimately have "core_runs c ?s' ?r (remove1 ?r (ts @ [A]))"
    using nz sc(2) unfolding core_runs_def by simp
  moreover have "pref ?s' p = pref s p" for p
  proof (cases "heap s p")
    case None
    then have "heap s1 p = None" using s1(6) by simp
    moreover have "map_option (t_next_update (\<lambda>_. 0)) (heap s2 p) = map_option (\<lambda>t. t\<lparr>t_next := 0,
        t_preferred_core := if p = ?r then int c else t_preferred_core t\<rparr>) (heap s1 p)"
      using s2(3) unfolding bound_to_def by metis
    ultimately have "heap s2 p = None" by simp
    then show ?thesis using None t2 by (auto simp: pref_def set_switch_time_def set_sched_def)
  next
    case (Some u)
    then obtain v where v: "heap s1 p = Some v" using s1(6) by fastforce
    then have "pref s1 p = t_preferred_core v" by (simp add: pref_def)
    then have "t_preferred_core v = pref s p" using s1(5) by simp
    moreover obtain m where "heap s2 p = Some (v\<lparr>t_preferred_core := if p = ?r then int c else t_preferred_core v, t_next := m\<rparr>)"
      using bound_to_heap [OF s2(3) v] .
    ultimately show ?thesis using r(2) by (auto simp: pref_def set_switch_time_def set_sched_def)
  qed
  ultimately show ?thesis using run by blast
qed

fun run_schedule :: "nat \<Rightarrow> nat list \<Rightarrow> tasking \<Rightarrow> tasking option" where
  "run_schedule c [] s = Some s"
| "run_schedule c (state # states) s = Option.bind (schedule c state s) (\<lambda>(_, s). run_schedule c states s)"

lemma run_schedule_passes_over:
  assumes "core_runs c s A ts" "B \<in> set ts" "pref s B \<noteq> int c"
  shows "\<exists>s' A' ts'. run_schedule c states s = Some s' \<and> core_runs c s' A' ts' \<and> B \<in> set ts' \<and> A' \<noteq> B \<and>
    mset (A' # ts') = mset (A # ts)"
  using assms
proof (induction states arbitrary: s A ts)
  case Nil
  then have "B \<noteq> A" by (auto simp: core_runs_def)
  with Nil show ?case by auto
next
  case (Cons state states)
  let ?r = "optimal_of s (int c) (ts @ [A])" and ?ts = "remove1 (optimal_of s (int c) (ts @ [A])) (ts @ [A])"
  obtain ksp s1 where s1: "schedule c state s = Some (ksp, s1)" "core_runs c s1 ?r ?ts" "\<forall>p. pref s1 p = pref s p"
    using schedule_step [OF Cons.prems(1)] by blast
  have "pref s A = int c" using Cons.prems(1) by (auto simp: core_runs_def pref_def)
  then have r: "?r \<in> set (ts @ [A])" "pref s ?r = int c"
    using optimal_of_pref [of "ts @ [A]" s "int c"] by auto
  then have "B \<noteq> ?r" using Cons.prems(3) by auto
  then have "B \<in> set ?ts" using Cons.prems(2) by (simp add: in_set_remove1)
  then obtain s' A' ts' where "run_schedule c states s1 = Some s'" "core_runs c s' A' ts'" "B \<in> set ts'" "A' \<noteq> B"
    "mset (A' # ts') = mset (?r # ?ts)"
    using Cons.IH [OF s1(2)] s1(3) Cons.prems(3) by auto
  moreover have "mset (?r # ?ts) = mset (A # ts)" using r(1) by (simp add: mset_remove1 insert_DiffM)
  ultimately show ?case using s1(1) by auto
qed

section \<open>A concrete core\<close>

definition sample_thread :: "pid_t \<Rightarrow> nat \<Rightarrow> thread_state \<Rightarrow> int \<Rightarrow> thread" where
  "sample_thread pid n st core = \<lparr>t_kernel_stack = 0, t_parent = 0, t_ksp = 0, t_syscall_state = 0, t_state = st,
     t_watchers = \<lparr>sq_sleeping = \<lparr>q_value = (\<lambda>_. 0), q_next = (\<lambda>_. 0), q_first = 0, q_last = 0, q_size = 0\<rparr>,
       sq_access = semaphore_new 1 1\<rparr>, t_pid = pid, t_next = n, t_preferred_core = core\<rparr>"

definition sample_tasking :: tasking where
  "sample_tasking = \<lparr>heap = [10 \<mapsto> sample_thread 1 0 RUNNING 0, 20 \<mapsto> sample_thread 2 30 RUNNABLE (-1),
       30 \<mapsto> sample_thread 3 0 RUNNABLE 0],
     tq_first = 20, tq_last = 30, tq_length = 2, queue_lock = 0,
     schedulers = Some [\<lparr>core_id = 0, current_thread = 10, idle_ksp = 0, is_idle = False, first_switch = False\<rparr>],
     next_switch_time = (\<lambda>_. 0), s_next_pid = 4, s_threads = um_empty, requests = [], task_asserts = []\<rparr>"

lemma sample_rep: "tq_rep sample_tasking [20, 30]"
  by (simp add: tq_rep_def sample_tasking_def nxt_def sample_thread_def)

lemma sample_core: "core_runs 0 sample_tasking 10 [20, 30]"
  unfolding core_runs_def using sample_rep by (simp add: sample_tasking_def sched_at_def sample_thread_def)

section \<open>Properties\<close>



text \<open>C40: \<^verbatim>\<open>Scheduler::schedule\<close> starves new threads. While a core runs a thread that prefers it and that stays
  runnable, every timer interrupt keeps all threads, but a queued thread without a preferred core (as every
  new thread) is still queued, and not running, after any number of interrupts.\<close>
theorem schedule_starves_new_thread:
  assumes "core_runs c s A ts" "B \<in> set ts" "pref s B = - 1"
  shows "\<exists>s' A' ts'. run_schedule c states s = Some s' \<and> core_runs c s' A' ts' \<and> B \<in> set ts' \<and> A' \<noteq> B \<and>
    mset (A' # ts') = mset (A # ts)"
  by (rule run_schedule_passes_over [OF assms(1,2)]) (simp add: assms(3))

theorem schedule_starves_new_thread_witness:
  "\<exists>s' A' ts'. run_schedule 0 (replicate 1000 7) sample_tasking = Some s' \<and> core_runs 0 s' A' ts' \<and> 20 \<in> set ts'"
proof -
  have "pref sample_tasking 20 = - 1" by (simp add: pref_def sample_tasking_def sample_thread_def)
  then show ?thesis
    using schedule_starves_new_thread [OF sample_core, of 20 "replicate 1000 7"] by auto
qed

end
