(* ===== verification/Crc.thy ===== *)
theory Crc
  imports Prelude
begin

unbundle bit_operations_syntax

text \<open>
  The CRC-32 of \<^verbatim>\<open>kernel/src/util/crc.c\<close>, which the GPT partition driver checks its headers with. The code
  keeps the remainder most significant bit first and reflects every byte and the result; the
  reference is the usual definition that works on the reflected remainder throughout.
\<close>

section \<open>The code\<close>

text \<open>The loop of \<^verbatim>\<open>reflect32\<close> and \<^verbatim>\<open>reflect8\<close>.\<close>

fun reflect_loop :: "nat \<Rightarrow> 'a::len word \<Rightarrow> 'a word \<Rightarrow> 'a word" where
  "reflect_loop 0 v ret = ret"
| "reflect_loop (Suc n) v ret = reflect_loop n (drop_bit 1 v) (push_bit 1 ret OR (v AND 1))"

definition reflect32 :: "u32 \<Rightarrow> u32" where
  "reflect32 v = reflect_loop 32 v 0"

definition reflect8 :: "u8 \<Rightarrow> u8" where
  "reflect8 v = reflect_loop 8 v 0"

definition CRC32_POLYNOMIAL :: u32 where
  "CRC32_POLYNOMIAL = 0x04C11DB7"

definition crc_bit :: "u32 \<Rightarrow> u32" where
  "crc_bit r = (if r AND 0x80000000 \<noteq> 0 then push_bit 1 r XOR CRC32_POLYNOMIAL else push_bit 1 r)"

definition crc_byte :: "u32 \<Rightarrow> u8 \<Rightarrow> u32" where
  "crc_byte r b = (crc_bit ^^ 8) (r XOR push_bit 24 (ucast (reflect8 b)))"

definition calc_crc32 :: "u8 list \<Rightarrow> u32" where
  "calc_crc32 bytes = reflect32 (NOT (foldl crc_byte (- 1) bytes))"

definition begin_calc_crc32 :: u32 where
  "begin_calc_crc32 = - 1"

definition continue_calc_crc32 :: "u32 \<Rightarrow> u8 list \<Rightarrow> u32" where
  "continue_calc_crc32 remainder bytes = foldl crc_byte remainder bytes"

definition end_calc_crc32 :: "u32 \<Rightarrow> u32" where
  "end_calc_crc32 remainder = reflect32 (NOT remainder)"

section \<open>The reference definition\<close>

definition ref_bit :: "u32 \<Rightarrow> u32" where
  "ref_bit r = (if bit r 0 then drop_bit 1 r XOR 0xEDB88320 else drop_bit 1 r)"

definition ref_byte :: "u32 \<Rightarrow> u8 \<Rightarrow> u32" where
  "ref_byte r b = (ref_bit ^^ 8) (r XOR ucast b)"

definition crc32_reference :: "u8 list \<Rightarrow> u32" where
  "crc32_reference bytes = NOT (foldl ref_byte (- 1) bytes)"

section \<open>Reflection\<close>

lemma bit_shift1: "bit (push_bit 1 (w :: 'a::len word)) j \<longleftrightarrow> 0 < j \<and> j < LENGTH('a) \<and> bit w (j - 1)"
  unfolding bit_push_bit_iff possible_bit_word by auto

lemma bit_reflect_loop:
  "k < LENGTH('a) \<Longrightarrow> bit (reflect_loop n (v :: 'a::len word) ret) k \<longleftrightarrow> (if k < n then bit v (n - 1 - k) else bit ret (k - n))"
proof (induction n arbitrary: v ret)
  case (Suc n)
  have b: "bit (push_bit 1 ret OR (v AND 1)) j \<longleftrightarrow> (if j = 0 then bit v 0 else bit ret (j - 1))" if "j < LENGTH('a)" for j
    using that unfolding bit_or_iff bit_shift1 bit_and_iff by (auto simp: bit_1_iff)
  consider "k < n" | "k = n" | "k > n" by linarith
  then show ?case
  proof cases
    case 1
    then show ?thesis using Suc by (simp add: bit_simps Suc_diff_Suc)
  next
    case 2
    then show ?thesis using Suc b [of 0] by simp
  next
    case 3
    then show ?thesis using Suc b [of "k - n"] by (simp add: Suc_diff_Suc)
  qed
qed simp

lemma bit_reflect:
  "k < 32 \<Longrightarrow> bit (reflect32 v) k \<longleftrightarrow> bit v (31 - k)" "k < 8 \<Longrightarrow> bit (reflect8 b) k \<longleftrightarrow> bit b (7 - k)"
  by (simp_all add: reflect32_def reflect8_def bit_reflect_loop)

lemma reflect32_xor: "reflect32 (a XOR b) = reflect32 a XOR reflect32 b"
  by (rule bit_word_eqI) (simp add: bit_reflect bit_simps)

lemma reflect32_not: "reflect32 (NOT a) = NOT (reflect32 a)"
  by (rule bit_word_eqI) (auto simp: bit_reflect bit_simps)

lemma reflect32_shift: "reflect32 (push_bit 1 a) = drop_bit 1 (reflect32 a)"
proof (rule bit_word_eqI)
  fix n assume n: "n < LENGTH(32)"
  then have l: "bit (reflect32 (push_bit 1 a)) n \<longleftrightarrow> n < 31 \<and> bit a (31 - n - 1)"
    unfolding bit_reflect(1) [OF n [simplified]] bit_shift1 by auto
  have "bit (drop_bit 1 (reflect32 a)) n \<longleftrightarrow> bit (reflect32 a) (1 + n)" by (simp add: bit_simps)
  moreover have "bit (reflect32 a) (1 + n) \<longleftrightarrow> n < 31 \<and> bit a (31 - n - 1)"
    using bit_reflect(1) [of "1 + n" a] bit_imp_le_length [of "reflect32 a" "1 + n"] by (cases "n < 31") auto
  ultimately show "bit (reflect32 (push_bit 1 a)) n \<longleftrightarrow> bit (drop_bit 1 (reflect32 a)) n" using l by simp
qed

lemma reflect32_byte: "reflect32 (push_bit 24 (ucast (reflect8 b))) = ucast b"
proof (rule bit_word_eqI)
  fix n assume n: "n < LENGTH(32)"
  have "bit (reflect32 (push_bit 24 (ucast (reflect8 b)))) n \<longleftrightarrow> n < 8 \<and> bit (reflect8 b) (7 - n)"
    using n by (auto simp: bit_reflect(1) bit_simps)
  also have "\<dots> \<longleftrightarrow> n < 8 \<and> bit b n" using bit_reflect(2) [of "7 - n" b] by auto
  also have "\<dots> \<longleftrightarrow> bit (ucast b :: u32) n" using n bit_imp_le_length [of b n] by (auto simp: bit_simps)
  finally show "bit (reflect32 (push_bit 24 (ucast (reflect8 b)))) n \<longleftrightarrow> bit (ucast b :: u32) n" .
qed

lemma reflect32_minus_1: "reflect32 (- 1) = - 1"
  by (rule bit_word_eqI) (simp add: bit_reflect)

lemma reflect32_polynomial: "reflect32 CRC32_POLYNOMIAL = 0xEDB88320"
  by code_simp

lemma top_bit: "(r :: u32) AND 0x80000000 \<noteq> 0 \<longleftrightarrow> bit r 31"
proof -
  have "(0x80000000 :: u32) = push_bit 31 1" by simp
  moreover have "r AND push_bit 31 1 \<noteq> 0 \<longleftrightarrow> bit r 31"
    by (metis and_exp_eq_0_iff_not_bit push_bit_of_1)
  ultimately show ?thesis by metis
qed

lemma crc_bit_reflect: "reflect32 (crc_bit r) = ref_bit (reflect32 r)"
proof (cases "bit r 31")
  case True
  then have "bit (reflect32 r) 0" by (simp add: bit_reflect)
  with True show ?thesis
    by (simp only: crc_bit_def ref_bit_def top_bit if_True reflect32_xor reflect32_shift reflect32_polynomial)
next
  case False
  then have "\<not> bit (reflect32 r) 0" by (simp add: bit_reflect)
  with False show ?thesis by (simp only: crc_bit_def ref_bit_def top_bit if_False reflect32_shift)
qed

lemma crc_bits_reflect: "reflect32 ((crc_bit ^^ n) r) = (ref_bit ^^ n) (reflect32 r)"
  by (induction n) (simp_all add: crc_bit_reflect)

lemma crc_bytes_reflect: "reflect32 (foldl crc_byte r bytes) = foldl ref_byte (reflect32 r) bytes"
  by (induction bytes arbitrary: r)
    (simp_all add: crc_byte_def ref_byte_def crc_bits_reflect reflect32_xor reflect32_byte)

lemma calc_crc32_reference: "calc_crc32 bytes = crc32_reference bytes"
  by (simp add: calc_crc32_def crc32_reference_def reflect32_not crc_bytes_reflect reflect32_minus_1)

lemma end_continue_begin: "end_calc_crc32 (continue_calc_crc32 begin_calc_crc32 bytes) = crc32_reference bytes"
  by (simp add: calc_crc32_reference [symmetric] end_calc_crc32_def continue_calc_crc32_def begin_calc_crc32_def calc_crc32_def)

section \<open>Properties\<close>

text \<open>C9: \<^verbatim>\<open>calc_crc32\<close> equals the reference CRC-32, and the three-step interface gives the same value for
  the concatenation of the pieces it is fed.\<close>
theorem crc32_equivalent:
  "calc_crc32 bytes = crc32_reference bytes \<and>
   end_calc_crc32 (foldl continue_calc_crc32 begin_calc_crc32 pieces) = crc32_reference (concat pieces)"
proof -
  have "foldl continue_calc_crc32 r pieces = continue_calc_crc32 r (concat pieces)" for r
    by (induction pieces arbitrary: r) (simp_all add: continue_calc_crc32_def)
  then show ?thesis by (simp add: calc_crc32_reference end_continue_begin)
qed

end
