(* ===== verification/Ppage.thy ===== *)
theory Ppage
  imports Pager
begin

text \<open>
  \<^verbatim>\<open>PhysicalPage\<close> (\<^verbatim>\<open>kernel/src/memory/ppage.cpp\<close>): a counted handle to one physical page. A handle is
  the address of its \<^verbatim>\<open>Data\<close> object, 0 for none; \<^verbatim>\<open>new Data()\<close> returns an address the caller
  supplies. A dereference of a null or deleted object is \<open>None\<close>. \<^verbatim>\<open>AnonymousPage\<close> and
  \<^verbatim>\<open>SharedAnonymousPage\<close>, which create such pages on demand, follow.
\<close>

section \<open>State and operations\<close>

record pp_data =
  d_addr :: physaddr_t
  d_ref_count :: u32
  d_obj_ref_count :: size_t
  d_flags :: page_flags
  d_copy_on_write :: bool

record pp_state =
  pp_pmm :: pmm
  pp_heap :: "nat \<Rightarrow> pp_data option"
  pp_asserts :: "string list"

definition pp_new :: "nat \<Rightarrow> pp_state \<Rightarrow> (nat \<times> pp_state) option" where
  "pp_new a s =
     map_option (\<lambda>(p, addr). (a, s\<lparr>pp_pmm := p, pp_heap := (pp_heap s)(a \<mapsto>
         \<lparr>d_addr = addr, d_ref_count = 0, d_obj_ref_count = 1, d_flags = flags_default, d_copy_on_write = False\<rparr>)\<rparr>))
       (palloc 1 (pp_pmm s))"

text \<open>The destructor; the handle it leaves behind is 0 when the object is gone.\<close>

definition pp_delete :: "nat \<Rightarrow> pp_state \<Rightarrow> (nat \<times> pp_state) option" where
  "pp_delete h s =
     (if h = 0 then Some (0, s)
      else
        Option.bind (pp_heap s h) (\<lambda>d.
          if d_obj_ref_count d = 1 then
            Option.bind
              (if d_ref_count d = 0 \<and> d_addr d \<noteq> 0 then pfree (d_addr d) 1 (pp_pmm s) else Some (pp_pmm s)) (\<lambda>p.
              Some (0, s\<lparr>pp_pmm := p, pp_heap := (pp_heap s)(h := None)\<rparr>))
          else Some (h, s\<lparr>pp_heap := (pp_heap s)(h \<mapsto> d\<lparr>d_obj_ref_count := d_obj_ref_count d - 1\<rparr>)\<rparr>)))"

definition pp_upd :: "nat \<Rightarrow> (pp_data \<Rightarrow> pp_data) \<Rightarrow> pp_state \<Rightarrow> pp_state option" where
  "pp_upd h f s = map_option (\<lambda>d. s\<lparr>pp_heap := (pp_heap s)(h \<mapsto> f d)\<rparr>) (if h = 0 then None else pp_heap s h)"

definition pp_copy :: "nat \<Rightarrow> pp_state \<Rightarrow> (nat \<times> pp_state) option" where
  "pp_copy other s = map_option (Pair other) (pp_upd other (\<lambda>d. d\<lparr>d_obj_ref_count := d_obj_ref_count d + 1\<rparr>) s)"

definition leak_ptr :: "nat \<Rightarrow> nat \<times> nat" where
  "leak_ptr h = (h, 0)"

text \<open>The assignments; the results are the new handles of \<^verbatim>\<open>this\<close> and, for a move, of \<open>other\<close>.\<close>

definition pp_assign :: "nat \<Rightarrow> nat \<Rightarrow> pp_state \<Rightarrow> (nat \<times> pp_state) option" where
  "pp_assign this other s =
     Option.bind (pp_delete this s) (\<lambda>(_, s).
       if other \<noteq> 0 then pp_copy other s else Some (0, s))"

definition pp_move_assign :: "nat \<Rightarrow> nat \<Rightarrow> pp_state \<Rightarrow> ((nat \<times> nat) \<times> pp_state) option" where
  "pp_move_assign this other s = Option.bind (pp_delete this s) (\<lambda>(_, s). Some (leak_ptr other, s))"

definition pp_ref :: "nat \<Rightarrow> pp_state \<Rightarrow> pp_state option" where
  "pp_ref h s = pp_upd h (\<lambda>d. d\<lparr>d_ref_count := d_ref_count d + 1\<rparr>) s"

definition pp_unref :: "nat \<Rightarrow> pp_state \<Rightarrow> pp_state option" where
  "pp_unref h s =
     (if h = 0 then None
      else Option.bind (pp_heap s h) (\<lambda>d.
        let s = (if d_ref_count d > 0 then s
                 else s\<lparr>pp_asserts := pp_asserts s @ [''Unreferencing a nonreferenced physical page'']\<rparr>)
        in pp_upd h (\<lambda>d. d\<lparr>d_ref_count := d_ref_count d - 1\<rparr>) s))"

definition pp_ref_count :: "nat \<Rightarrow> pp_state \<Rightarrow> u32 option" where
  "pp_ref_count h s = (if h = 0 then None else map_option d_ref_count (pp_heap s h))"

definition pp_addr :: "nat \<Rightarrow> pp_state \<Rightarrow> physaddr_t option" where
  "pp_addr h s = (if h = 0 then Some 0 else map_option d_addr (pp_heap s h))"

definition pp_is_null :: "nat \<Rightarrow> pp_state \<Rightarrow> bool option" where
  "pp_is_null h s = (if h = 0 then Some True else map_option (\<lambda>d. d_addr d = 0) (pp_heap s h))"

definition pp_set_flags :: "nat \<Rightarrow> page_flags \<Rightarrow> pp_state \<Rightarrow> pp_state option" where
  "pp_set_flags h fl s = pp_upd h (\<lambda>d. d\<lparr>d_flags := fl\<rparr>) s"

subsection \<open>Pages resolved on demand\<close>

record anonymous_page =
  ap_flags :: page_flags
  ap_zero :: bool

text \<open>\<open>zero\<close> is the filling of the page with zeros through a temporary kernel mapping.\<close>

definition anonymous_resolve ::
    "(physaddr_t \<Rightarrow> pp_state \<Rightarrow> pp_state option) \<Rightarrow> nat \<Rightarrow> anonymous_page \<Rightarrow> pp_state \<Rightarrow> (nat \<times> pp_state) option" where
  "anonymous_resolve zero a ap s =
     Option.bind (pp_new a s) (\<lambda>(h, s).
     Option.bind (pp_set_flags h (ap_flags ap) s) (\<lambda>s.
       if ap_zero ap then Option.bind (pp_addr h s) (\<lambda>addr. map_option (Pair h) (zero addr s))
       else Some (h, s)))"

text \<open>\<^verbatim>\<open>SharedAnonymousPage::resolve\<close> keeps the first page it creates; \<open>f_page\<close> is its handle.\<close>

definition shared_resolve ::
    "(physaddr_t \<Rightarrow> pp_state \<Rightarrow> pp_state option) \<Rightarrow> nat \<Rightarrow> anonymous_page \<Rightarrow> nat \<times> pp_state \<Rightarrow> (nat \<times> nat \<times> pp_state) option" where
  "shared_resolve zero a ap fs = (case fs of (f_page, s) \<Rightarrow>
     Option.bind (pp_is_null f_page s) (\<lambda>null.
     Option.bind
       (if null then
          Option.bind (anonymous_resolve zero a ap s) (\<lambda>(page, s).
          Option.bind (pp_assign f_page page s) (\<lambda>(f_page, s).
          Option.bind (pp_delete page s) (\<lambda>(_, s). Some (f_page, s))))
        else Some (f_page, s)) (\<lambda>(f_page, s).
       map_option (\<lambda>(h, s). (h, f_page, s)) (pp_copy f_page s))))"

section \<open>Handles and their pages\<close>

text \<open>
  The live handles of a program: created, copied, dropped and used in any order. The number of
  handles stays below the range of the counter.
\<close>

inductive pp_step :: "nat list \<times> pp_state \<Rightarrow> nat list \<times> pp_state \<Rightarrow> bool" where
  step_new: "pp_heap s a = None \<Longrightarrow> a \<noteq> 0 \<Longrightarrow> length hs < 2 ^ 64 - 1 \<Longrightarrow> pp_new a s = Some (h, s') \<Longrightarrow> pp_step (hs, s) (h # hs, s')"
| step_copy: "h \<in> set hs \<Longrightarrow> length hs < 2 ^ 64 - 1 \<Longrightarrow> pp_copy h s = Some (h', s') \<Longrightarrow> pp_step (hs, s) (h' # hs, s')"
| step_drop: "h \<in> set hs \<Longrightarrow> pp_delete h s = Some (h', s') \<Longrightarrow> pp_step (hs, s) (remove1 h hs, s')"
| step_ref: "h \<in> set hs \<Longrightarrow> pp_ref h s = Some s' \<Longrightarrow> pp_step (hs, s) (hs, s')"
| step_unref: "h \<in> set hs \<Longrightarrow> pp_unref h s = Some s' \<Longrightarrow> pp_step (hs, s) (hs, s')"
| step_flags: "h \<in> set hs \<Longrightarrow> pp_set_flags h fl s = Some s' \<Longrightarrow> pp_step (hs, s) (hs, s')"

inductive_cases pp_stepE: "pp_step (hs, s) st'"

definition pp_inv :: "nat list \<times> pp_state \<Rightarrow> bool" where
  "pp_inv st \<longleftrightarrow> (case st of (hs, s) \<Rightarrow> pmm_wf (pp_pmm s) \<and> length hs < 2 ^ 64 \<and> 0 \<notin> set hs \<and>
     (\<forall>h. pp_heap s h \<noteq> None \<longleftrightarrow> h \<in> set hs) \<and>
     (\<forall>h d. pp_heap s h = Some d \<longrightarrow> d_obj_ref_count d = of_nat (count (mset hs) h) \<and>
        (\<exists>n<2 ^ 20. d_addr d = page_addr n \<and> page_used (pp_pmm s) n)) \<and>
     (\<forall>g h c d. pp_heap s g = Some c \<longrightarrow> pp_heap s h = Some d \<longrightarrow> d_addr c = d_addr d \<longrightarrow> g = h))"

lemma pp_invD:
  assumes "pp_inv (hs, s)"
  shows "pmm_wf (pp_pmm s)" "length hs < 2 ^ 64" "0 \<notin> set hs" "pp_heap s h \<noteq> None \<longleftrightarrow> h \<in> set hs"
    "pp_heap s h = Some d \<Longrightarrow> d_obj_ref_count d = of_nat (count (mset hs) h)"
    "pp_heap s h = Some d \<Longrightarrow> \<exists>n<2 ^ 20. d_addr d = page_addr n \<and> page_used (pp_pmm s) n"
    "pp_heap s g = Some c \<Longrightarrow> pp_heap s h = Some d \<Longrightarrow> d_addr c = d_addr d \<Longrightarrow> g = h"
  using assms unfolding pp_inv_def by simp_all

text \<open>An update that keeps the page and the handle count of an object.\<close>

lemma pp_inv_upd:
  assumes "pp_inv (hs, s)" "pp_heap s h = Some d" "d_addr (f d) = d_addr d" "set hs' = set hs" "length hs' < 2 ^ 64"
    "\<And>g. g \<noteq> h \<Longrightarrow> count (mset hs') g = count (mset hs) g" "d_obj_ref_count (f d) = of_nat (count (mset hs') h)"
    "pp_pmm s' = pp_pmm s" "pp_heap s' = (pp_heap s)(h \<mapsto> f d)"
  shows "pp_inv (hs', s')"
proof -
  note D = pp_invD [OF assms(1)]
  have "h \<in> set hs" using D(4) [of h] assms(2) by simp
  then have "pp_heap s' g \<noteq> None \<longleftrightarrow> g \<in> set hs'" for g using D(4) [of g] assms(4,9) by auto
  moreover have "d_obj_ref_count c = of_nat (count (mset hs') g) \<and> (\<exists>n<2 ^ 20. d_addr c = page_addr n \<and> page_used (pp_pmm s') n)"
    if "pp_heap s' g = Some c" for g c
    using that D(5,6) [of g] D(6) [OF assms(2)] assms(3,6-9) by (cases "g = h") auto
  moreover have "g = k" if "pp_heap s' g = Some c" "pp_heap s' k = Some e" "d_addr c = d_addr e" for g k c e
  proof -
    have old: "\<exists>c'. pp_heap s x = Some c' \<and> d_addr c' = d_addr y" if "pp_heap s' x = Some y" for x y
      using that assms(2,3,9) by (cases "x = h") auto
    show ?thesis using old [OF that(1)] old [OF that(2)] that(3) D(7) by fastforce
  qed
  ultimately show ?thesis
    using D(1,3) assms(4,5,8) unfolding pp_inv_def by simp
qed

lemma pp_new_inv:
  assumes "pp_inv (hs, s)" "pp_heap s a = None" "a \<noteq> 0" "pp_new a s = Some (h, s')" "length hs < 2 ^ 64 - 1"
  shows "pp_inv (h # hs, s')"
proof -
  note D = pp_invD [OF assms(1)]
  obtain p addr where al: "palloc 1 (pp_pmm s) = Some (p, addr)" and h: "h = a"
    and s': "s' = s\<lparr>pp_pmm := p, pp_heap := (pp_heap s)(a \<mapsto>
         \<lparr>d_addr = addr, d_ref_count = 0, d_obj_ref_count = 1, d_flags = flags_default, d_copy_on_write = False\<rparr>)\<rparr>"
    using assms(4) by (auto simp: pp_new_def)
  obtain r where r0: "addr = page_addr r" "r + unat (1 :: size_t) \<le> 2 ^ 20" "pmm_wf p"
    "\<forall>k<unat (1 :: size_t). \<not> page_used (pp_pmm s) (r + k)"
    "\<forall>m. page_used p m \<longleftrightarrow> page_used (pp_pmm s) m \<or> r \<le> m \<and> m < r + unat (1 :: size_t)"
    using pa.alloc [OF D(1) _ al] by auto
  then have r: "addr = page_addr r" "r < 2 ^ 20" "pmm_wf p" "\<not> page_used (pp_pmm s) r"
    "\<forall>m. page_used p m \<longleftrightarrow> page_used (pp_pmm s) m \<or> m = r"
    by (auto simp: le_less_Suc_eq)
  have a: "a \<notin> set hs" using D(4) [of a] assms(2) by auto
  then have "count (mset hs) a = 0" by (simp add: count_eq_zero_iff)
  moreover have other: "d_addr c \<noteq> addr" if c: "pp_heap s g = Some c" for g c
  proof -
    obtain n where "n < 2 ^ 20" "d_addr c = page_addr n" "page_used (pp_pmm s) n" using D(6) [OF c] by blast
    then show ?thesis using r(1,2,4) page_addr_eq_iff [of n r] by auto
  qed
  moreover have "pp_heap s' g \<noteq> None \<longleftrightarrow> g \<in> set (a # hs)" for g using D(4) [of g] s' by auto
  moreover have "g = k" if g: "pp_heap s' g = Some c" and k: "pp_heap s' k = Some e" and e: "d_addr c = d_addr e" for g k c e
    using g k e other [of g c] other [of k e] D(7) [of g c k e] s' by (auto split: if_splits)
  moreover have "d_obj_ref_count c = of_nat (count (mset (a # hs)) g)" if c: "pp_heap s' g = Some c" for g c
  proof (cases "g = a")
    case True
    then have "count (mset (a # hs)) g = 1" using \<open>count (mset hs) a = 0\<close> by simp
    moreover have "d_obj_ref_count c = 1" using c True s' by auto
    ultimately show ?thesis by (simp only: of_nat_1)
  next
    case False
    then show ?thesis using c D(5) [of g c] s' by auto
  qed
  moreover have "\<exists>n<2 ^ 20. d_addr c = page_addr n \<and> page_used p n" if c: "pp_heap s' g = Some c" for g c
    using c D(6) [of g c] r s' by (cases "g = a") auto
  moreover have "pp_pmm s' = p" "length (a # hs) < 2 ^ 64" "0 \<notin> set (a # hs)" using s' assms(3,5) D(3) by auto
  ultimately show ?thesis using r(3) unfolding pp_inv_def h by simp
qed

lemma pp_delete_last:
  assumes "pp_delete h s = Some (h', s')" "h \<noteq> 0" "pp_heap s h = Some d" "d_obj_ref_count d = 1"
    "pmm_wf (pp_pmm s)" "d_addr d = page_addr n" "n < 2 ^ 20"
  shows "\<exists>p. s' = s\<lparr>pp_pmm := p, pp_heap := (pp_heap s)(h := None)\<rparr> \<and> pmm_wf p \<and>
    (\<forall>m. m \<noteq> n \<longrightarrow> page_used p m = page_used (pp_pmm s) m)"
proof -
  have "n + unat (1 :: size_t) \<le> 2 ^ 20" using assms(7) by simp
  then obtain p where p: "pfree (page_addr n) 1 (pp_pmm s) = Some p" "pmm_wf p"
    "\<forall>m. page_used p m \<longleftrightarrow> page_used (pp_pmm s) m \<and> \<not> (n \<le> m \<and> m < n + unat (1 :: size_t))"
    using pa.free [OF assms(5), of n 1] by blast
  show ?thesis
  proof (cases "d_ref_count d = 0 \<and> d_addr d \<noteq> 0")
    case True
    then show ?thesis using assms p by (intro exI [of _ p]) (auto simp: pp_delete_def)
  next
    case False
    then show ?thesis using assms by (intro exI [of _ "pp_pmm s"]) (auto simp: pp_delete_def)
  qed
qed

lemma pp_delete_inv:
  assumes "pp_inv (hs, s)" "h \<in> set hs" "pp_delete h s = Some (h', s')"
  shows "pp_inv (remove1 h hs, s')"
proof -
  note D = pp_invD [OF assms(1)]
  obtain d where d: "pp_heap s h = Some d" using D(4) [of h] assms(2) by auto
  have h0: "h \<noteq> 0" using D(3) assms(2) by metis
  have c: "0 < count (mset hs) h" using assms(2) by simp
  have le: "count (mset hs) h < 2 ^ 64" using D(2) count_le_size [of "mset hs" h] by simp
  have cnt: "d_obj_ref_count d = of_nat (count (mset hs) h)" by (rule D(5) [OF d])
  then have "unat (d_obj_ref_count d) = count (mset hs) h" using le by (simp add: unat_of_nat_less)
  then have one: "d_obj_ref_count d = 1 \<longleftrightarrow> count (mset hs) h = 1" by (simp add: word_unat_eq_iff)
  show ?thesis
  proof (cases "count (mset hs) h = 1")
    case False
    then have s': "s' = s\<lparr>pp_heap := (pp_heap s)(h \<mapsto> d\<lparr>d_obj_ref_count := d_obj_ref_count d - 1\<rparr>)\<rparr>"
      using assms(3) h0 d one by (auto simp: pp_delete_def)
    have "set (remove1 h hs) = set hs"
    proof -
      have "1 < count (mset hs) h" using False c by linarith
      then have "0 < count (mset (remove1 h hs)) h" by simp
      then have "h \<in> set (remove1 h hs)" by (simp only: count_greater_zero_iff set_mset_mset)
      then show ?thesis by (metis in_set_remove1 notin_set_remove1 subsetI subset_antisym)
    qed
    moreover have "d_obj_ref_count d - 1 = of_nat (count (mset (remove1 h hs)) h)"
      using cnt c by (simp add: of_nat_diff)
    ultimately show ?thesis
      by (intro pp_inv_upd [OF assms(1) d, where f = "\<lambda>d. d\<lparr>d_obj_ref_count := d_obj_ref_count d - 1\<rparr>"])
        (use D(2) s' in \<open>auto simp: length_remove1\<close>)
  next
    case True
    then have last: "set (remove1 h hs) = set hs - {h}"
    proof -
      have "count (mset (remove1 h hs)) h = 0" using True by simp
      then have "h \<notin> set (remove1 h hs)" by (metis count_eq_zero_iff set_mset_mset)
      then have "x \<in> set (remove1 h hs) \<longleftrightarrow> x \<in> set hs - {h}" for x using in_set_remove1 [of x h hs] by (cases "x = h") auto
      then show ?thesis by blast
    qed
    obtain n where n: "n < 2 ^ 20" "d_addr d = page_addr n" "page_used (pp_pmm s) n" using D(6) [OF d] by blast
    obtain p where p: "s' = s\<lparr>pp_pmm := p, pp_heap := (pp_heap s)(h := None)\<rparr>" "pmm_wf p"
      "\<forall>m. m \<noteq> n \<longrightarrow> page_used p m = page_used (pp_pmm s) m"
      using pp_delete_last [OF assms(3) h0 d one [THEN iffD2, OF True] D(1) n(2,1)] by blast
    have "\<exists>k<2 ^ 20. d_addr c = page_addr k \<and> page_used p k" if g: "g \<noteq> h" and gc: "pp_heap s g = Some c" for g c
    proof -
      obtain k where k: "k < 2 ^ 20" "d_addr c = page_addr k" "page_used (pp_pmm s) k" using D(6) [OF gc] by blast
      have "k \<noteq> n" using k(2) n(2) D(7) [OF gc d] g by auto
      then show ?thesis using k p(3) by auto
    qed
    moreover have "pp_heap s' g \<noteq> None \<longleftrightarrow> g \<in> set (remove1 h hs)" for g using D(4) [of g] p(1) last by auto
    moreover have "length (remove1 h hs) \<le> length hs" by (simp add: length_remove1)
    then have "length (remove1 h hs) < 2 ^ 64" using D(2) by linarith
    moreover have "0 \<notin> set (remove1 h hs)" using D(3) last by auto
    ultimately show ?thesis using D(5,7) p(1,2) unfolding pp_inv_def by (auto split: if_splits)
  qed
qed

lemma pp_upd_inv:
  assumes "pp_inv (hs, s)" "pp_upd h f s = Some s'" "\<And>d. d_addr (f d) = d_addr d" "\<And>d. d_obj_ref_count (f d) = d_obj_ref_count d"
  shows "pp_inv (hs, s')"
proof -
  obtain d where d: "pp_heap s h = Some d" "s' = s\<lparr>pp_heap := (pp_heap s)(h \<mapsto> f d)\<rparr>"
    using assms(2) by (auto simp: pp_upd_def split: if_splits)
  show ?thesis
    by (rule pp_inv_upd [OF assms(1) d(1), where f = f])
      (use assms(3,4) d pp_invD(2,5) [OF assms(1)] in auto)
qed

lemma pp_copy_inv:
  assumes "pp_inv (hs, s)" "h \<in> set hs" "length hs < 2 ^ 64 - 1" "pp_copy h s = Some (h', s')"
  shows "pp_inv (h' # hs, s')"
proof -
  let ?f = "\<lambda>d. d\<lparr>d_obj_ref_count := d_obj_ref_count d + 1\<rparr>"
  have h': "h' = h" using assms(4) by (auto simp: pp_copy_def)
  obtain d where d: "pp_heap s h = Some d" using pp_invD(4) [OF assms(1), of h] assms(2) by auto
  have "pp_upd h ?f s = Some s'" using assms(4) by (auto simp: pp_copy_def)
  then have s': "s' = s\<lparr>pp_heap := (pp_heap s)(h \<mapsto> ?f d)\<rparr>" using d by (simp add: pp_upd_def split: if_splits)
  have c: "count (mset (h # hs)) h = count (mset hs) h + 1" by simp
  have len: "length (h # hs) < 2 ^ 64" using assms(3) unfolding list.size by linarith
  have set: "set (h # hs) = set hs" using assms(2) by auto
  have o: "d_obj_ref_count (?f d) = of_nat (count (mset (h # hs)) h)"
    unfolding c using pp_invD(5) [OF assms(1) d] by simp
  show ?thesis
    unfolding h' by (rule pp_inv_upd [where f = ?f, OF assms(1) d _ set len _ o]) (simp_all add: s')
qed

lemma pp_step_inv:
  assumes "pp_step st st'" "pp_inv st"
  shows "pp_inv st'"
  using assms
proof cases
  case (step_new s a hs h s')
  then show ?thesis using pp_new_inv assms(2) by blast
next
  case (step_copy h hs s h' s')
  then show ?thesis using pp_copy_inv assms(2) by blast
next
  case (step_drop h hs s h' s')
  then show ?thesis using pp_delete_inv assms(2) by blast
next
  case (step_ref h hs s s')
  then show ?thesis using pp_upd_inv [of hs s h "\<lambda>d. d\<lparr>d_ref_count := d_ref_count d + 1\<rparr>" s'] assms(2)
    by (simp add: pp_ref_def)
next
  case (step_unref h hs s s')
  then obtain s1 where s1: "pp_upd h (\<lambda>d. d\<lparr>d_ref_count := d_ref_count d - 1\<rparr>) s1 = Some s'"
    "pp_pmm s1 = pp_pmm s" "pp_heap s1 = pp_heap s"
    by (auto simp: pp_unref_def Let_def split: if_splits bind_splits)
  have "pp_inv (hs, s1)" using assms(2) step_unref(1) s1(2,3) by (simp add: pp_inv_def)
  then show ?thesis using pp_upd_inv [OF _ s1(1)] step_unref(2) by simp
next
  case (step_flags h hs fl s s')
  then show ?thesis using pp_upd_inv [of hs s h "\<lambda>d. d\<lparr>d_flags := fl\<rparr>" s'] assms(2)
    by (simp add: pp_set_flags_def)
qed

lemma pp_reachable_inv:
  assumes "pp_step\<^sup>*\<^sup>* st st'" "pp_inv st"
  shows "pp_inv st'"
  using assms by induction (auto intro: pp_step_inv)

section \<open>Properties\<close>

text \<open>C10: \<^verbatim>\<open>PhysicalPage\<close>: starting without handles, after any sequence of creating, copying, dropping,
  referencing and unreferencing handles, every live handle reads the address of a page the allocator has marked
  used, and handles of different objects never share a page.\<close>
theorem physical_page_no_use_after_free:
  assumes "pmm_wf p" "pp_step\<^sup>*\<^sup>* ([], \<lparr>pp_pmm = p, pp_heap = (\<lambda>_. None), pp_asserts = []\<rparr>) (hs, s)" "h \<in> set hs" "g \<in> set hs"
  shows "\<exists>n<2 ^ 20. pp_addr h s = Some (page_addr n) \<and> page_used (pp_pmm s) n \<and>
    (pp_addr g s = Some (page_addr n) \<longrightarrow> g = h)"
proof -
  have "pp_inv ([], \<lparr>pp_pmm = p, pp_heap = (\<lambda>_. None), pp_asserts = []\<rparr>)" using assms(1) by (simp add: pp_inv_def)
  then have inv: "pp_inv (hs, s)" by (rule pp_reachable_inv [OF assms(2)])
  note D = pp_invD [OF inv]
  obtain d c where d: "pp_heap s h = Some d" "pp_heap s g = Some c" using D(4) [of h] D(4) [of g] assms(3,4) by auto
  have "h \<noteq> 0" "g \<noteq> 0" using D(3) assms(3,4) by metis+
  then show ?thesis using D(6) [OF d(1)] D(7) [OF d(2) d(1)] d by (auto simp: pp_addr_def)
qed

theorem physical_page_no_use_after_free_witness:
  "\<exists>s n. pp_step\<^sup>*\<^sup>* ([], \<lparr>pp_pmm = sample_pmm, pp_heap = (\<lambda>_. None), pp_asserts = []\<rparr>) ([5], s) \<and>
     pp_addr 5 s = Some (page_addr n) \<and> page_used (pp_pmm s) n"
proof -
  let ?s0 = "\<lparr>pp_pmm = sample_pmm, pp_heap = (\<lambda>_. None), pp_asserts = []\<rparr>"
  have "free_block sample_pmm 1 20" by (simp add: free_block_def sample_pmm_used)
  then obtain p r where "palloc 1 sample_pmm = Some (p, page_addr r)"
    using palloc_low [OF sample_pmm_wf, of 1 20] by auto
  then obtain s where s: "pp_new 5 ?s0 = Some (5, s)" by (simp add: pp_new_def)
  have "pp_step ([], ?s0) ([5], s)" by (rule step_new [OF _ _ _ s]) simp_all
  then have r: "pp_step\<^sup>*\<^sup>* ([], ?s0) ([5], s)" by simp
  show ?thesis using physical_page_no_use_after_free [OF sample_pmm_wf r, of 5 5] r by auto
qed

end
