(* ===== verification/Strings.thy ===== *)
theory Strings
  imports Prelude
begin

unbundle bit_operations_syntax

text \<open>
  \<^verbatim>\<open>std::String\<close>, \<^verbatim>\<open>num_to_string\<close> and \<^verbatim>\<open>uuid_to_string\<close> (\<^verbatim>\<open>kernel/std/include/string.hpp\<close>), \<^verbatim>\<open>uuid_t\<close>
  (\<^verbatim>\<open>kernel/include/types.h\<close>) and \<^verbatim>\<open>str_to_uuid\<close> (\<^verbatim>\<open>kernel/src/util/uuid.cpp\<close>). A C string is the list
  of the bytes of its buffer, the terminating 0 included; a read past the end of a buffer is \<open>None\<close>.
\<close>

section \<open>std::String\<close>

type_synonym buf = "u8 list"

record str =
  characters :: buf
  str_len :: nat

text \<open>\<^verbatim>\<open>strlen\<close>: the index of the first 0.\<close>

fun strlen :: "buf \<Rightarrow> nat option" where
  "strlen [] = None"
| "strlen (c # cs) = (if c = 0 then Some 0 else map_option Suc (strlen cs))"

text \<open>\<^verbatim>\<open>memcpy\<close> of the first \<open>n\<close> characters of a buffer.\<close>

definition read_chars :: "nat \<Rightarrow> buf \<Rightarrow> buf option" where
  "read_chars n b = (if n \<le> length b then Some (take n b) else None)"

definition string_new :: str where
  "string_new = \<lparr>characters = [0], str_len = 0\<rparr>"

definition string_of_cstr :: "buf \<Rightarrow> str option" where
  "string_of_cstr init = Option.bind (strlen init) (\<lambda>n.
     map_option (\<lambda>cs. \<lparr>characters = cs @ [0], str_len = n\<rparr>) (read_chars n init))"

definition string_copy :: "str \<Rightarrow> str option" where
  "string_copy s = map_option (\<lambda>cs. \<lparr>characters = cs @ [0], str_len = str_len s\<rparr>) (read_chars (str_len s) (characters s))"

definition string_append :: "str \<Rightarrow> str \<Rightarrow> str option" where
  "string_append s t =
     Option.bind (read_chars (str_len s) (characters s)) (\<lambda>a.
     map_option (\<lambda>b. \<lparr>characters = a @ b @ [0], str_len = str_len s + str_len t\<rparr>) (read_chars (str_len t) (characters t)))"

definition string_append_cstr :: "str \<Rightarrow> buf \<Rightarrow> str option" where
  "string_append_cstr s c =
     Option.bind (strlen c) (\<lambda>n.
     Option.bind (read_chars (str_len s) (characters s)) (\<lambda>a.
     map_option (\<lambda>b. \<lparr>characters = a @ b @ [0], str_len = str_len s + n\<rparr>) (read_chars n c)))"

definition string_append_char :: "str \<Rightarrow> u8 \<Rightarrow> str option" where
  "string_append_char s c =
     map_option (\<lambda>a. \<lparr>characters = a @ [c, 0], str_len = str_len s + 1\<rparr>) (read_chars (str_len s) (characters s))"

text \<open>The three \<^verbatim>\<open>operator+\<close> start from \<^verbatim>\<open>String(characters)\<close>, the copy up to the first 0.\<close>

definition string_plus :: "str \<Rightarrow> str \<Rightarrow> str option" where
  "string_plus s t = Option.bind (string_of_cstr (characters s)) (\<lambda>u. string_append u t)"

definition string_plus_cstr :: "str \<Rightarrow> buf \<Rightarrow> str option" where
  "string_plus_cstr s c = Option.bind (string_of_cstr (characters s)) (\<lambda>u. string_append_cstr u c)"

definition string_plus_char :: "str \<Rightarrow> u8 \<Rightarrow> str option" where
  "string_plus_char s c = Option.bind (string_of_cstr (characters s)) (\<lambda>u. string_append_char u c)"

definition string_eq :: "str \<Rightarrow> str \<Rightarrow> bool option" where
  "string_eq s t =
     (if str_len t \<noteq> str_len s then Some False
      else Option.bind (read_chars (str_len s) (characters s)) (\<lambda>a.
           map_option (\<lambda>b. a = b) (read_chars (str_len s) (characters t))))"

definition string_eq_cstr :: "str \<Rightarrow> buf \<Rightarrow> bool option" where
  "string_eq_cstr s c =
     Option.bind (strlen c) (\<lambda>n.
       if str_len s \<noteq> n then Some False
       else Option.bind (read_chars n (characters s)) (\<lambda>a. map_option (\<lambda>b. a = b) (read_chars n c)))"

definition string_at :: "str \<Rightarrow> nat \<Rightarrow> u8 option" where
  "string_at s i = (if i < length (characters s) then Some (characters s ! i) else None)"

text \<open>A well-formed string: its text followed by a 0.\<close>

definition string_is :: "str \<Rightarrow> buf \<Rightarrow> bool" where
  "string_is s cs \<longleftrightarrow> s = \<lparr>characters = cs @ [0], str_len = length cs\<rparr>"

lemma strlen_text: "0 \<notin> set cs \<Longrightarrow> strlen (cs @ 0 # r) = Some (length cs)"
  by (induction cs) auto

lemma read_text [simp]: "n = length cs \<Longrightarrow> read_chars n (cs @ r) = Some cs"
  by (simp add: read_chars_def)

section \<open>num_to_string\<close>

text \<open>Division and remainder of C++ truncate towards 0; the loop runs once for a negative number.\<close>

function num_digits :: "int \<Rightarrow> buf" where
  "num_digits num =
     (let digit = (if num \<ge> 0 then num mod 10 else - ((- num) mod 10));
          num' = (if num \<ge> 0 then num div 10 else - ((- num) div 10));
          c = word_of_int (48 + digit)
      in if num' > 0 then c # num_digits num' else [c])"
  by pat_completeness auto
termination
proof (relation "measure nat", goal_cases)
  case (2 num digit num' c)
  then show ?case by (auto split: if_splits simp: neg_0_less_iff_less pos_imp_zdiv_neg_iff)
qed simp

definition num_to_string :: "int \<Rightarrow> str option" where
  "num_to_string num =
     (let ds = num_digits num
      in string_of_cstr ((if num < 0 then [0x2D] else []) @ rev ds @ [0]))"

text \<open>The value of a decimal numeral.\<close>

definition decimal :: "buf \<Rightarrow> int" where
  "decimal cs = foldl (\<lambda>v c. 10 * v + (uint c - 48)) 0 cs"

declare num_digits.simps [simp del]

lemma decimal_snoc: "decimal (cs @ [c]) = 10 * decimal cs + (uint c - 48)"
  by (simp add: decimal_def)

lemma uint_digit: "0 \<le> d \<Longrightarrow> d < 10 \<Longrightarrow> uint (word_of_int (48 + d) :: u8) = 48 + d"
  by (simp only: uint_word_of_int) (simp add: mod_pos_pos_trivial)

lemma num_digits_ok: "0 \<le> num \<Longrightarrow> decimal (rev (num_digits num)) = num \<and> (\<forall>c\<in>set (num_digits num). 48 \<le> uint c \<and> uint c < 58)"
proof (induction num rule: num_digits.induct)
  case (1 num)
  have d: "uint (word_of_int (48 + num mod 10) :: u8) = 48 + num mod 10" by (rule uint_digit) auto
  show ?case
  proof (cases "num div 10 > 0")
    case True
    then have "num_digits num = word_of_int (48 + num mod 10) # num_digits (num div 10)"
      using 1(2) by (subst num_digits.simps) (simp add: Let_def)
    moreover have "decimal (rev (num_digits (num div 10))) = num div 10 \<and>
        (\<forall>c\<in>set (num_digits (num div 10)). 48 \<le> uint c \<and> uint c < 58)"
      using 1(1) [OF refl refl refl] 1(2) True by simp
    ultimately show ?thesis using d by (simp add: decimal_snoc)
  next
    case False
    then have "num_digits num = [word_of_int (48 + num mod 10)]"
      using 1(2) by (subst num_digits.simps) (simp add: Let_def)
    moreover have "num < 10" using False 1(2) by simp
    moreover from this have "num mod 10 = num" using 1(2) by (simp add: mod_pos_pos_trivial)
    ultimately show ?thesis using d 1(2) False by (simp add: decimal_def del: of_int_add)
  qed
qed

section \<open>uuid_t\<close>

text \<open>The sixteen bytes of a UUID, its constructor from the five parts and the getters.\<close>

type_synonym uuid_t = "u8 list"

definition uuid_new :: "u32 \<Rightarrow> u16 \<Rightarrow> u16 \<Rightarrow> u16 \<Rightarrow> u64 \<Rightarrow> uuid_t" where
  "uuid_new part1 part2 part3 part4 part5 =
     [ucast (drop_bit 24 part1), ucast (drop_bit 16 part1), ucast (drop_bit 8 part1), ucast part1,
      ucast (drop_bit 8 part2), ucast part2,
      ucast (drop_bit 8 part3), ucast part3,
      ucast (drop_bit 8 part4), ucast part4,
      ucast (drop_bit 40 part5), ucast (drop_bit 32 part5), ucast (drop_bit 24 part5),
      ucast (drop_bit 16 part5), ucast (drop_bit 8 part5), ucast part5]"

definition get_part1 :: "uuid_t \<Rightarrow> u32" where
  "get_part1 u = push_bit 24 (ucast (u ! 0)) OR push_bit 16 (ucast (u ! 1)) OR push_bit 8 (ucast (u ! 2)) OR ucast (u ! 3)"

definition get_part2 :: "uuid_t \<Rightarrow> u16" where
  "get_part2 u = push_bit 8 (ucast (u ! 4)) OR ucast (u ! 5)"

definition get_part3 :: "uuid_t \<Rightarrow> u16" where
  "get_part3 u = push_bit 8 (ucast (u ! 6)) OR ucast (u ! 7)"

definition get_part4 :: "uuid_t \<Rightarrow> u16" where
  "get_part4 u = push_bit 8 (ucast (u ! 8)) OR ucast (u ! 9)"

definition get_part5 :: "uuid_t \<Rightarrow> u64" where
  "get_part5 u = push_bit 40 (ucast (u ! 10)) OR push_bit 32 (ucast (u ! 11)) OR push_bit 24 (ucast (u ! 12)) OR
     push_bit 16 (ucast (u ! 13)) OR push_bit 8 (ucast (u ! 14)) OR ucast (u ! 15)"

section \<open>uuid_to_string\<close>

text \<open>\<^verbatim>\<open>lookup\<close>: the characters of 0123456789abcdef.\<close>

definition hex_lookup :: "u8 list" where
  "hex_lookup = [0x30, 0x31, 0x32, 0x33, 0x34, 0x35, 0x36, 0x37, 0x38, 0x39, 0x61, 0x62, 0x63, 0x64, 0x65, 0x66]"

definition hex_byte :: "u8 \<Rightarrow> buf" where
  "hex_byte b = [hex_lookup ! unat (drop_bit 4 b), hex_lookup ! unat (b AND 15)]"

definition uuid_chars :: "uuid_t \<Rightarrow> buf" where
  "uuid_chars u =
     hex_byte (u ! 0) @ hex_byte (u ! 1) @ hex_byte (u ! 2) @ hex_byte (u ! 3) @ [0x2D] @
     hex_byte (u ! 4) @ hex_byte (u ! 5) @ [0x2D] @
     hex_byte (u ! 6) @ hex_byte (u ! 7) @ [0x2D] @
     hex_byte (u ! 8) @ hex_byte (u ! 9) @ [0x2D] @
     hex_byte (u ! 10) @ hex_byte (u ! 11) @ hex_byte (u ! 12) @ hex_byte (u ! 13) @ hex_byte (u ! 14) @ hex_byte (u ! 15)"

definition uuid_to_string :: "uuid_t \<Rightarrow> str option" where
  "uuid_to_string u = string_of_cstr (uuid_chars u @ [0])"

section \<open>str_to_uuid\<close>

definition decode_char :: "u8 \<Rightarrow> u8" where
  "decode_char c =
     (if 0x30 \<le> c \<and> c \<le> 0x39 then c - 0x30
      else if 0x61 \<le> c \<and> c \<le> 0x66 then c - 0x61 + 10
      else if 0x41 \<le> c \<and> c \<le> 0x46 then c - 0x41 + 10
      else 255)"

definition next_byte :: "u8 \<Rightarrow> u8 \<Rightarrow> u16" where
  "next_byte a b =
     (let c1 = decode_char a; c2 = decode_char b
      in if c1 = 255 \<or> c2 = 255 then - 1 else push_bit 4 (ucast c1) OR ucast c2)"

text \<open>
  The loop: \<open>i\<close> the position in the string, \<open>byte\<close> the next byte to fill in \<open>uuid\<close>, which is not
  initialised. \<open>Some None\<close> is the early return of \<^verbatim>\<open>{ }\<close>.
\<close>

definition zero_uuid :: uuid_t where
  "zero_uuid = replicate 16 0"

function uuid_loop :: "buf \<Rightarrow> nat \<Rightarrow> nat \<Rightarrow> uuid_t \<Rightarrow> uuid_t option" where
  "uuid_loop s i byte uuid =
     (if i < 36 then
        (let i' = (if i = 8 \<or> i = 13 \<or> i = 18 \<or> i = 23 then i + 1 else i)
         in if i' + 1 < length s \<and> byte < 16 then
              (let value = next_byte (s ! i') (s ! (i' + 1))
               in if value > 255 then Some zero_uuid
                  else uuid_loop s (i' + 2) (byte + 1) (uuid[byte := ucast value]))
            else None)
      else Some uuid)"
  by pat_completeness auto
termination by (relation "measure (\<lambda>(s, i, byte, uuid). 36 - i)") auto

declare uuid_loop.simps [simp del]

definition str_to_uuid :: "uuid_t \<Rightarrow> buf \<Rightarrow> uuid_t option" where
  "str_to_uuid uninit s =
     Option.bind (strlen s) (\<lambda>n. if n < 36 then Some zero_uuid else uuid_loop s 0 0 uninit)"

lemma hex_nibbles: "list_all (\<lambda>n. decode_char (hex_lookup ! n) = of_nat n \<and> hex_lookup ! n \<noteq> 0) [0..<16]"
  by code_simp

lemma hex_nibble:
  assumes "n < 16"
  shows "decode_char (hex_lookup ! n) = of_nat n" "hex_lookup ! n \<noteq> 0"
  using hex_nibbles assms by (simp_all add: list_all_iff)

lemma nibbles:
  fixes b :: u8
  shows "unat (drop_bit 4 b) < 16" "unat (b AND 15) < 16"
proof -
  have "unat b < 2 ^ 8" using unsigned_less [of b] by simp
  then show "unat (drop_bit 4 b) < 16" by (simp add: unat_drop_div less_mult_imp_div_less)
  show "unat (b AND 15) < 16" by (simp add: and_low_mask unat_take_mod)
qed

lemma nibbles_neq:
  fixes b :: u8
  shows "drop_bit 4 b \<noteq> 255" "b AND 15 \<noteq> 255"
  using nibbles [of b] by (auto simp del: unat_drop_div)

text \<open>The two digits of a byte decode to the byte.\<close>

lemma next_byte_hex:
  fixes b :: u8
  shows "next_byte (hex_lookup ! unat (drop_bit 4 b)) (hex_lookup ! unat (b AND 15)) = ucast b"
proof -
  have "push_bit 4 (ucast (drop_bit 4 b)) OR ucast (b AND 15) = (ucast (b::u8) :: u16)"
    by (rule bit_word_eqI) (auto simp: bit_simps and_low_mask)
  then show ?thesis
    using nibbles_neq [of b] by (simp add: next_byte_def hex_nibble nibbles Let_def)
qed

lemma next_byte_small: "\<not> (255::u16) < ucast (b::u8)"
proof -
  have "unat b < 256" using unsigned_less [of b] by simp
  then show ?thesis by (simp add: word_less_nat_alt unsigned_ucast_eq take_bit_nat_eq_self)
qed

lemma hex_byte_nonzero: "0 \<notin> set (hex_byte b)"
  using hex_nibble(2) nibbles by (auto simp: hex_byte_def)

lemma uuid_chars_nonzero: "0 \<notin> set (uuid_chars u)"
  using hex_byte_nonzero by (simp add: uuid_chars_def)

lemma uuid_chars_length: "length (uuid_chars u) = 36"
  by (simp add: uuid_chars_def hex_byte_def)

lemma uuid_to_string_chars: "uuid_to_string u = Some \<lparr>characters = uuid_chars u @ [0], str_len = 36\<rparr>"
  by (simp add: uuid_to_string_def string_of_cstr_def strlen_text uuid_chars_nonzero uuid_chars_length)

lemma length_16: "length u = 16 \<Longrightarrow>
    u = [u ! 0, u ! 1, u ! 2, u ! 3, u ! 4, u ! 5, u ! 6, u ! 7, u ! 8, u ! 9, u ! 10, u ! 11, u ! 12, u ! 13, u ! 14, u ! 15]"
  by (rule nth_equalityI) (auto simp: less_Suc_eq numeral_eq_Suc)

lemma uuid_loop_step:
  assumes "i < 36" "j = (if i = 8 \<or> i = 13 \<or> i = 18 \<or> i = 23 then i + 1 else i)" "j + 1 < length s" "byte < 16"
    and "[s ! j, s ! (j + 1)] = hex_byte b"
  shows "uuid_loop s i byte uuid = uuid_loop s (j + 2) (byte + 1) (uuid[byte := b])"
proof -
  have "next_byte (s ! j) (s ! (j + 1)) = ucast b" using assms(5) by (simp add: hex_byte_def next_byte_hex)
  moreover have "ucast (ucast b :: u16) = b" by (rule bit_word_eqI) (auto simp: bit_simps)
  ultimately show ?thesis
    using assms(1-4) next_byte_small [of b] by (subst uuid_loop.simps) (simp add: Let_def)
qed

text \<open>The loop index at the start of each iteration, and the position of each byte's digits.\<close>

definition uuid_index :: "nat list" where
  "uuid_index = [0, 2, 4, 6, 8, 11, 13, 16, 18, 21, 23, 26, 28, 30, 32, 34, 36]"

definition uuid_pos :: "nat list" where
  "uuid_pos = [0, 2, 4, 6, 9, 11, 14, 16, 19, 21, 24, 26, 28, 30, 32, 34]"

lemma uuid_positions:
  "list_all (\<lambda>k. uuid_index ! k < 36 \<and> uuid_pos ! k + 1 < 37 \<and> uuid_index ! (k + 1) = uuid_pos ! k + 2 \<and>
     uuid_pos ! k = (let i = uuid_index ! k in if i = 8 \<or> i = 13 \<or> i = 18 \<or> i = 23 then i + 1 else i)) [0..<16]"
  by code_simp

lemma uuid_chars_at:
  "list_all (\<lambda>k. [(uuid_chars u @ [0]) ! (uuid_pos ! k), (uuid_chars u @ [0]) ! (uuid_pos ! k + 1)] = hex_byte (u ! k))
     [0,1,2,3,4,5,6,7,8,9,10,11,12,13,14,15]"
  by (simp add: uuid_chars_def hex_byte_def uuid_pos_def)

lemma upt_16: "[0..<16] = [0,1,2,3,4,5,6,7,8,9,10,11,12,13,14,15]"
  by code_simp

text \<open>The loop on the text that \<^verbatim>\<open>uuid_to_string\<close> prints: from byte \<open>k\<close> on it fills in the bytes of \<open>u\<close>.\<close>

lemma uuid_loop_chars:
  assumes "length u = 16" "length uuid = 16" "k \<le> 16" "take k uuid = take k u"
  shows "uuid_loop (uuid_chars u @ [0]) (uuid_index ! k) k uuid = Some u"
  using assms(3,2,4)
proof (induction "16 - k" arbitrary: k uuid)
  case 0
  then have "k = 16" by simp
  then show ?case
    using 0 assms(1) by (subst uuid_loop.simps) (simp add: uuid_index_def)
next
  case (Suc n)
  then have k: "k < 16" by simp
  have at: "[(uuid_chars u @ [0]) ! (uuid_pos ! k), (uuid_chars u @ [0]) ! (uuid_pos ! k + 1)] = hex_byte (u ! k)"
    using uuid_chars_at [of u, folded upt_16] k by (simp add: list_all_iff)
  have "k \<in> set [0..<16]" using k by simp
  note all = bspec [OF uuid_positions [unfolded list_all_iff] this]
  have pos: "uuid_index ! k < 36" "uuid_pos ! k + 1 < 37" "uuid_index ! (k + 1) = uuid_pos ! k + 2"
      "uuid_pos ! k = (let i = uuid_index ! k in if i = 8 \<or> i = 13 \<or> i = 18 \<or> i = 23 then i + 1 else i)"
    using all by blast+
  have "uuid_loop (uuid_chars u @ [0]) (uuid_index ! k) k uuid =
      uuid_loop (uuid_chars u @ [0]) (uuid_index ! (k + 1)) (k + 1) (uuid[k := u ! k])"
    unfolding pos(3) using pos(2) k
    by (intro uuid_loop_step [OF pos(1) pos(4) [unfolded Let_def] _ _ at]) (simp_all add: uuid_chars_length)
  also have "\<dots> = Some u"
    using Suc assms(1) k by (intro Suc.hyps(1)) (auto simp: take_Suc_conv_app_nth)
  finally show ?case .
qed

section \<open>Properties\<close>

text \<open>C12: the text that \<^verbatim>\<open>uuid_to_string\<close> prints for a UUID is a well-formed string of 36 characters which
  \<^verbatim>\<open>str_to_uuid\<close> reads back as the same UUID, whatever the uninitialised local held.
\<close>

theorem uuid_string_roundtrip:
  assumes "length u = 16" "length uninit = 16"
  shows "\<exists>s. uuid_to_string u = Some s \<and> str_len s = 36 \<and> string_is s (uuid_chars u) \<and>
    str_to_uuid uninit (characters s) = Some u"
  using uuid_loop_chars [OF assms, of 0]
  by (simp add: uuid_to_string_chars string_is_def str_to_uuid_def strlen_text uuid_chars_nonzero uuid_chars_length uuid_index_def)

definition sample_uuid :: uuid_t where
  "sample_uuid = uuid_new 0x12345678 0x9ABC 0xDEF0 0x0FED 0xCBA987654321"

theorem uuid_string_roundtrip_witness:
  "length sample_uuid = 16 \<and> length zero_uuid = 16 \<and>
   (\<exists>s. uuid_to_string sample_uuid = Some s \<and> str_len s = 36 \<and> string_is s (uuid_chars sample_uuid) \<and>
    str_to_uuid zero_uuid (characters s) = Some sample_uuid)"
proof -
  have "length sample_uuid = 16" "length zero_uuid = 16"
    by (simp_all add: sample_uuid_def uuid_new_def zero_uuid_def)
  then show ?thesis using uuid_string_roundtrip [of sample_uuid zero_uuid] by simp
qed

lemma byte_bit_cases:
  fixes n :: nat
  assumes "n < m" "n < 8 \<Longrightarrow> P" "n < m \<Longrightarrow> 8 \<le> n \<Longrightarrow> n < 16 \<Longrightarrow> P" "n < m \<Longrightarrow> 16 \<le> n \<Longrightarrow> n < 24 \<Longrightarrow> P" "n < m \<Longrightarrow> 24 \<le> n \<Longrightarrow> n < 32 \<Longrightarrow> P"
    "n < m \<Longrightarrow> 32 \<le> n \<Longrightarrow> n < 40 \<Longrightarrow> P" "n < m \<Longrightarrow> 40 \<le> n \<Longrightarrow> n < 48 \<Longrightarrow> P" "n < m \<Longrightarrow> 48 \<le> n \<Longrightarrow> P"
  shows P
proof -
  consider "n < 8" | "8 \<le> n" "n < 16" | "16 \<le> n" "n < 24" | "24 \<le> n" "n < 32" | "32 \<le> n" "n < 40" | "40 \<le> n" "n < 48" | "48 \<le> n"
    by linarith
  then show P using assms by cases
qed

text \<open>The getters return the parts of the constructor; of the fifth part, its low 48 bits.\<close>

lemma uuid_parts:
  "get_part1 (uuid_new p1 p2 p3 p4 p5) = p1"
  "get_part2 (uuid_new p1 p2 p3 p4 p5) = p2"
  "get_part3 (uuid_new p1 p2 p3 p4 p5) = p3"
  "get_part4 (uuid_new p1 p2 p3 p4 p5) = p4"
  "get_part5 (uuid_new p1 p2 p3 p4 p5) = take_bit 48 p5"
proof -
  show "get_part1 (uuid_new p1 p2 p3 p4 p5) = p1"
    by (rule bit_word_eqI, erule byte_bit_cases) (auto simp: get_part1_def uuid_new_def bit_simps)
  show "get_part2 (uuid_new p1 p2 p3 p4 p5) = p2"
    by (rule bit_word_eqI, erule byte_bit_cases) (auto simp: get_part2_def uuid_new_def bit_simps)
  show "get_part3 (uuid_new p1 p2 p3 p4 p5) = p3"
    by (rule bit_word_eqI, erule byte_bit_cases) (auto simp: get_part3_def uuid_new_def bit_simps)
  show "get_part4 (uuid_new p1 p2 p3 p4 p5) = p4"
    by (rule bit_word_eqI, erule byte_bit_cases) (auto simp: get_part4_def uuid_new_def bit_simps)
  show "get_part5 (uuid_new p1 p2 p3 p4 p5) = take_bit 48 p5"
    by (rule bit_word_eqI, erule byte_bit_cases) (auto simp: get_part5_def uuid_new_def bit_simps)
qed



text \<open>At most \<open>k\<close> digits are written for a number below \<open>10 ^ k\<close>, so the buffer of 80 characters never overflows.\<close>

lemma num_digits_length: "0 \<le> num \<Longrightarrow> num < 10 ^ Suc k \<Longrightarrow> length (num_digits num) \<le> Suc k"
proof (induction k arbitrary: num)
  case 0
  then show ?case by (subst num_digits.simps) (simp add: Let_def)
next
  case (Suc k)
  have "num div 10 < 10 ^ Suc k" using Suc.prems by (simp add: div_less_iff_less_mult)
  then show ?case using Suc by (subst num_digits.simps) (simp add: Let_def)
qed

text \<open>\<^verbatim>\<open>num_to_string\<close> of a non-negative number of up to 64 bits writes at most 20 of the 80 characters of
  its buffer and returns the string of decimal digits whose value is that number.
\<close>

theorem num_to_string_decimal:
  assumes "0 \<le> num" "num < 2 ^ 64"
  shows "\<exists>s cs. num_to_string num = Some s \<and> string_is s cs \<and> decimal cs = num \<and>
    (\<forall>c\<in>set cs. 48 \<le> uint c \<and> uint c < 58) \<and> 0 < length cs \<and> length cs \<le> 20"
proof -
  let ?cs = "rev (num_digits num)"
  have ok: "decimal ?cs = num" "\<forall>c\<in>set (num_digits num). 48 \<le> uint c \<and> uint c < 58"
    using num_digits_ok [OF assms(1)] by auto
  then have "0 \<notin> set ?cs" by auto
  then have "num_to_string num = Some \<lparr>characters = ?cs @ [0], str_len = length ?cs\<rparr>"
    using assms(1) by (simp add: num_to_string_def Let_def string_of_cstr_def strlen_text)
  moreover have "length ?cs \<le> 20" using num_digits_length [OF assms(1), of 19] assms(2) by simp
  moreover have "0 < length ?cs" by (subst num_digits.simps) (simp add: Let_def)
  ultimately show ?thesis using ok by (intro exI [of _ "\<lparr>characters = ?cs @ [0], str_len = length ?cs\<rparr>"] exI [of _ ?cs]) (simp add: string_is_def)
qed

theorem num_to_string_decimal_witness:
  "\<exists>s cs. num_to_string 1024 = Some s \<and> string_is s cs \<and> decimal cs = 1024 \<and>
    (\<forall>c\<in>set cs. 48 \<le> uint c \<and> uint c < 58) \<and> 0 < length cs \<and> length cs \<le> 20"
  by (rule num_to_string_decimal) simp_all

text \<open>A negative number is printed with a minus sign and one character that is not a digit: \<open>-15\<close> gives \<open>-+\<close>.\<close>

lemma num_to_string_negative: "num_to_string (- 15) = Some \<lparr>characters = [0x2D, 0x2B, 0], str_len = 2\<rparr>"
  by code_simp

end
