(* ===== verification/Gpt.thy ===== *)
theory Gpt
  imports Crc Strings
begin

unbundle bit_operations_syntax

text \<open>
  The GUID partition table parser (\<^verbatim>\<open>kernel/modules/partition/parse.hpp\<close>, \<^verbatim>\<open>gpt.h\<close>). The disk is the
  parameter \<open>read_sector\<close>, the bytes of a sector; the parser never calls its \<^verbatim>\<open>write_sector_func\<close>. A read or
  write outside a buffer and a division by zero are \<open>Gpt_Fault\<close>; the two null returns are \<open>Gpt_Null\<close>.
\<close>

section \<open>The structures on the disk\<close>

text \<open>A little-endian field of a packed structure.\<close>

fun le_value :: "u8 list \<Rightarrow> 'a::len word" where
  "le_value [] = 0"
| "le_value (b # bs) = ucast b OR push_bit 8 (le_value bs)"

definition le_field :: "nat \<Rightarrow> nat \<Rightarrow> u8 list \<Rightarrow> 'a::len word" where
  "le_field off n b = le_value (take n (drop off b))"

record gpt_uuid =
  gu_part1 :: u32
  gu_part2 :: u16
  gu_part3 :: u16
  gu_part4 :: "u8 list"
  gu_part5 :: "u8 list"

definition gpt_uuid_at :: "nat \<Rightarrow> u8 list \<Rightarrow> gpt_uuid" where
  "gpt_uuid_at off b =
     \<lparr>gu_part1 = le_field off 4 b, gu_part2 = le_field (off + 4) 2 b, gu_part3 = le_field (off + 6) 2 b,
      gu_part4 = take 2 (drop (off + 8) b), gu_part5 = take 6 (drop (off + 10) b)\<rparr>"

definition to_uuid :: "gpt_uuid \<Rightarrow> uuid_t" where
  "to_uuid g =
     (let p4 = gu_part4 g; p5 = gu_part5 g;
          temp_part4 = push_bit 8 (ucast (p4 ! 0)) OR ucast (p4 ! 1);
          temp_part5 = push_bit 40 (ucast (p5 ! 0)) OR push_bit 32 (ucast (p5 ! 1)) OR push_bit 24 (ucast (p5 ! 2)) OR
            push_bit 16 (ucast (p5 ! 3)) OR push_bit 8 (ucast (p5 ! 4)) OR ucast (p5 ! 5)
      in uuid_new (gu_part1 g) (gu_part2 g) (gu_part3 g) temp_part4 temp_part5)"

definition gpt_is_zero :: "nat \<Rightarrow> u8 list \<Rightarrow> bool" where
  "gpt_is_zero off b \<longleftrightarrow> list_all (\<lambda>c. c = 0) (take 16 (drop off b))"

record gpt_header =
  gh_checksum :: u32
  gh_disk_uuid :: gpt_uuid
  gh_table_lba :: u64
  gh_count :: u32
  gh_entry_size :: u32
  gh_table_checksum :: u32

definition GPT_HEADER_SIZE :: nat where
  "GPT_HEADER_SIZE = 92"

definition gpt_header_of :: "u8 list \<Rightarrow> gpt_header" where
  "gpt_header_of b =
     \<lparr>gh_checksum = le_field 16 4 b, gh_disk_uuid = gpt_uuid_at 56 b, gh_table_lba = le_field 72 8 b,
      gh_count = le_field 80 4 b, gh_entry_size = le_field 84 4 b, gh_table_checksum = le_field 88 4 b\<rparr>"

section \<open>The parser\<close>

record gpt_partition =
  part_id :: uuid_t
  part_type :: uuid_t
  start_lba :: u64
  end_lba :: u64

record gpt_info =
  ppi_type :: u8
  disk_id :: uuid_t
  partition_count :: nat
  partitions :: "gpt_partition list"

datatype gpt_result = Gpt_Fault | Gpt_Null | Gpt_Info gpt_info

definition EFI_PART :: u64 where
  "EFI_PART = 0x5452415020494645"

definition gpt_partition_at :: "nat \<Rightarrow> u8 list \<Rightarrow> gpt_partition" where
  "gpt_partition_at off b =
     \<lparr>part_id = to_uuid (gpt_uuid_at (off + 16) b), part_type = to_uuid (gpt_uuid_at off b),
      start_lba = le_field (off + 32) 8 b, end_lba = le_field (off + 40) 8 b\<rparr>"

text \<open>The body of the inner loop, on the buffer of 512 bytes.\<close>

definition gpt_entry :: "u8 list \<Rightarrow> nat \<Rightarrow> gpt_partition list \<Rightarrow> gpt_partition list option" where
  "gpt_entry buffer2 off parts =
     (if off + 16 > 512 then None
      else if gpt_is_zero off buffer2 then Some parts
      else if off + 48 > 512 then None
      else Some (parts @ [gpt_partition_at off buffer2]))"

text \<open>The inner loop from entry \<open>j\<close> on, with \<open>n\<close> entries left.\<close>

fun gpt_entries :: "u8 list \<Rightarrow> nat \<Rightarrow> nat \<Rightarrow> nat \<Rightarrow> gpt_partition list \<Rightarrow> gpt_partition list option" where
  "gpt_entries buffer2 esize j 0 parts = Some parts"
| "gpt_entries buffer2 esize j (Suc n) parts =
     Option.bind (gpt_entry buffer2 (j * esize) parts) (\<lambda>parts'. gpt_entries buffer2 esize (j + 1) n parts')"

text \<open>The outer loop from sector \<open>i\<close> on, with \<open>n\<close> sectors left: checksum, second buffer, partitions.\<close>

fun gpt_sectors :: "(u64 \<Rightarrow> u8 list) \<Rightarrow> nat \<Rightarrow> gpt_header \<Rightarrow> nat \<Rightarrow> nat \<Rightarrow> u32 \<Rightarrow> u8 list \<Rightarrow> gpt_partition list \<Rightarrow>
    (u32 \<times> gpt_partition list) option" where
  "gpt_sectors read_sector ssize h i 0 checksum buffer2 parts = Some (checksum, parts)"
| "gpt_sectors read_sector ssize h i (Suc n) checksum buffer2 parts =
     (if ssize > 512 then None
      else
        (let b = read_sector (gh_table_lba h + of_nat i) @ drop ssize buffer2;
             checksum' = continue_calc_crc32 checksum (take ssize b);
             esize = unat (gh_entry_size h)
         in Option.bind (gpt_entries b esize 0 (ssize div esize) parts)
              (\<lambda>parts'. gpt_sectors read_sector ssize h (i + 1) n checksum' b parts')))"

definition parse_partitions :: "u8 list \<Rightarrow> nat \<Rightarrow> (u64 \<Rightarrow> u8 list) \<Rightarrow> gpt_result" where
  "parse_partitions uninit sector_size read_sector =
     (if sector_size < 8 then Gpt_Fault
      else
       (let buffer = read_sector 1
        in if le_field 0 8 buffer = EFI_PART then
             (if sector_size < GPT_HEADER_SIZE then Gpt_Fault
              else
               (let h = gpt_header_of buffer;
                    zeroed = take 16 buffer @ [0, 0, 0, 0] @ drop 20 buffer
                in if gh_checksum h \<noteq> calc_crc32 (take GPT_HEADER_SIZE zeroed) then Gpt_Null
                   else if gh_entry_size h = 0 then Gpt_Fault
                   else
                    (let eps = sector_size div unat (gh_entry_size h)
                     in if eps = 0 then Gpt_Fault
                        else
                         (let count = unat (gh_count h);
                              n = count div eps + (if count mod eps = 0 then 0 else 1)
                          in case gpt_sectors read_sector sector_size h 0 n begin_calc_crc32 uninit [] of
                               None \<Rightarrow> Gpt_Fault
                             | Some (checksum, parts) \<Rightarrow>
                                 (if end_calc_crc32 checksum \<noteq> gh_table_checksum h then Gpt_Null
                                  else Gpt_Info \<lparr>ppi_type = 1, disk_id = to_uuid (gh_disk_uuid h),
                                         partition_count = length parts, partitions = parts\<rparr>)))))
           else Gpt_Null))"

section \<open>UUIDs\<close>

text \<open>The UUID of a structure on the disk: its first three parts have their bytes swapped.\<close>

lemma to_uuid_bytes:
  "to_uuid (gpt_uuid_at 0 [b0, b1, b2, b3, b4, b5, b6, b7, b8, b9, b10, b11, b12, b13, b14, b15]) =
     [b3, b2, b1, b0, b5, b4, b7, b6, b8, b9, b10, b11, b12, b13, b14, b15]"
  unfolding to_uuid_def gpt_uuid_at_def le_field_def uuid_new_def Let_def
  by (simp, intro conjI; rule bit_word_eqI; auto simp: bit_simps dest: bit_imp_le_length)

section \<open>The table\<close>

text \<open>The specification: the used entries of the table's sectors, in order.\<close>

definition sector_entries :: "nat \<Rightarrow> u8 list \<Rightarrow> gpt_partition list" where
  "sector_entries esize b =
     map (\<lambda>j. gpt_partition_at (j * esize) b) (filter (\<lambda>j. \<not> gpt_is_zero (j * esize) b) [0..<length b div esize])"

definition table_sectors :: "(u64 \<Rightarrow> u8 list) \<Rightarrow> gpt_header \<Rightarrow> nat \<Rightarrow> u8 list list" where
  "table_sectors read_sector h n = map (\<lambda>i. read_sector (gh_table_lba h + of_nat i)) [0..<n]"

lemma le_field_append: "off + n \<le> length a \<Longrightarrow> le_field off n (a @ b) = le_field off n a"
  by (simp add: le_field_def)

lemma gpt_uuid_at_append: "off + 16 \<le> length a \<Longrightarrow> gpt_uuid_at off (a @ b) = gpt_uuid_at off a"
  by (simp add: gpt_uuid_at_def le_field_append)

lemma gpt_at_append:
  "off + 48 \<le> length a \<Longrightarrow> gpt_partition_at off (a @ b) = gpt_partition_at off a"
  "off + 48 \<le> length a \<Longrightarrow> gpt_is_zero off (a @ b) = gpt_is_zero off a"
  by (simp_all add: gpt_partition_at_def gpt_is_zero_def gpt_uuid_at_append le_field_append)

lemma entry_inside:
  fixes j :: nat
  assumes "j < len div esize" "48 \<le> esize"
  shows "j * esize + 48 \<le> len"
proof -
  have "Suc j * esize \<le> (len div esize) * esize" using assms(1) by (intro mult_le_mono1) simp
  also have "\<dots> \<le> len" by simp
  finally show ?thesis using assms(2) by simp
qed

lemma upt_step: "[j..<Suc (j + n)] = j # [Suc j..<Suc (j + n)]"
  by (simp add: upt_conv_Cons del: upt_Suc)

lemma gpt_entries_correct:
  assumes "j + n = length a div esize" "48 \<le> esize" "length a \<le> 512"
  shows "gpt_entries (a @ b) esize j n parts =
    Some (parts @ map (\<lambda>j. gpt_partition_at (j * esize) a) (filter (\<lambda>j. \<not> gpt_is_zero (j * esize) a) [j..<j + n]))"
  using assms(1)
proof (induction n arbitrary: j parts)
  case (Suc n)
  have inside: "j * esize + 48 \<le> length a" using Suc.prems assms(2) by (intro entry_inside) auto
  have "gpt_entry (a @ b) (j * esize) parts =
      Some (parts @ (if gpt_is_zero (j * esize) a then [] else [gpt_partition_at (j * esize) a]))"
    using inside assms(3) by (simp add: gpt_entry_def gpt_at_append)
  moreover have "[j..<length a div esize] = j # [Suc j..<length a div esize]"
    using Suc.prems by (simp add: upt_conv_Cons del: upt_Suc)
  ultimately show ?case using Suc.IH [of "j + 1"] Suc.prems by (simp del: upt_Suc)
qed simp

lemma gpt_sectors_correct:
  assumes "\<forall>lba. length (read_sector lba) = ssize" "ssize \<le> 512" "48 \<le> unat (gh_entry_size h)"
  shows "gpt_sectors read_sector ssize h i n checksum b parts =
    (let ss = map (\<lambda>k. read_sector (gh_table_lba h + of_nat k)) [i..<i + n]
     in Some (continue_calc_crc32 checksum (concat ss), parts @ concat (map (sector_entries (unat (gh_entry_size h))) ss)))"
proof (induction n arbitrary: i checksum b parts)
  case 0
  show ?case by (simp add: continue_calc_crc32_def)
next
  case (Suc n)
  let ?e = "unat (gh_entry_size h)" and ?r = "read_sector (gh_table_lba h + of_nat i)"
  have len: "length ?r = ssize" using assms(1) by simp
  have "gpt_entries (?r @ drop ssize b) ?e 0 (ssize div ?e) parts = Some (parts @ sector_entries ?e ?r)"
    using gpt_entries_correct [of 0 "ssize div ?e" ?r ?e] assms len by (simp add: sector_entries_def)
  then show ?case
    using Suc.IH assms(2) len by (simp add: Let_def continue_calc_crc32_def upt_step del: upt_Suc)
qed

lemma sector_count:
  assumes "0 < (eps::nat)"
  shows "(n + eps - 1) div eps = n div eps + (if n mod eps = 0 then 0 else 1)"
proof -
  have "n + eps - 1 = (n mod eps + eps - 1) + eps * (n div eps)"
    using assms mult_div_mod_eq [of eps n] by linarith
  then have "(n + eps - 1) div eps = n div eps + (n mod eps + eps - 1) div eps"
    using assms by (simp only: div_mult_self2 neq0_conv)
  moreover have "(n mod eps + eps - 1) div eps = (if n mod eps = 0 then 0 else 1)"
  proof (cases "n mod eps = 0")
    case False
    then have "n mod eps + eps - 1 = (n mod eps - 1) + eps" by simp
    moreover have "n mod eps - 1 < eps" using assms mod_less_divisor [of eps n] by linarith
    ultimately have "(n mod eps + eps - 1) div eps = 1" using assms by (simp only: div_add_self2 div_less neq0_conv add_0)
    then show ?thesis using False by simp
  qed (use assms in simp)
  ultimately show ?thesis by simp
qed

lemma header_zeroed:
  "92 \<le> length b \<Longrightarrow> take GPT_HEADER_SIZE (take 16 b @ [0, 0, 0, 0] @ drop 20 b) = take 16 b @ [0, 0, 0, 0] @ take 72 (drop 20 b)"
  by (simp add: GPT_HEADER_SIZE_def)

section \<open>Properties\<close>


text \<open>A disk with sectors of 96 bytes, a header and a table of two entries of 48 bytes, the second of them unused.\<close>

definition le_bytes4 :: "u32 \<Rightarrow> u8 list" where
  "le_bytes4 w = [ucast w, ucast (drop_bit 8 w), ucast (drop_bit 16 w), ucast (drop_bit 24 w)]"

definition sample_table :: "u8 list" where
  "sample_table = [16, 17, 18, 19, 20, 21, 22, 23, 24, 25, 26, 27, 28, 29, 30, 31,
     32, 33, 34, 35, 36, 37, 38, 39, 40, 41, 42, 43, 44, 45, 46, 47, 3, 0, 0, 0, 0, 0, 0, 0, 8, 0, 0, 0, 0, 0, 0, 0] @ replicate 48 0"

definition sample_header_start :: "u8 list" where
  "sample_header_start = [69, 70, 73, 32, 80, 65, 82, 84, 0, 0, 1, 0, 92, 0, 0, 0]"

definition sample_header_end :: "u8 list" where
  "sample_header_end = [0, 0, 0, 0, 1, 0, 0, 0, 0, 0, 0, 0, 9, 0, 0, 0, 0, 0, 0, 0, 3, 0, 0, 0, 0, 0, 0, 0, 8, 0, 0, 0, 0, 0, 0, 0,
     1, 2, 3, 4, 5, 6, 7, 8, 9, 10, 11, 12, 13, 14, 15, 16, 2, 0, 0, 0, 0, 0, 0, 0, 2, 0, 0, 0, 48, 0, 0, 0] @
     le_bytes4 (crc32_reference sample_table)"

definition sample_header :: "u8 list" where
  "sample_header = sample_header_start @ le_bytes4 (crc32_reference (sample_header_start @ [0, 0, 0, 0] @ sample_header_end)) @
     sample_header_end @ [0, 0, 0, 0]"

definition sample_disk :: "u64 \<Rightarrow> u8 list" where
  "sample_disk lba = (if lba = 1 then sample_header else if lba = 2 then sample_table else replicate 96 0)"

definition sample_partition :: gpt_partition where
  "sample_partition =
     \<lparr>part_id = [0x23, 0x22, 0x21, 0x20, 0x25, 0x24, 0x27, 0x26, 0x28, 0x29, 0x2A, 0x2B, 0x2C, 0x2D, 0x2E, 0x2F],
      part_type = [0x13, 0x12, 0x11, 0x10, 0x15, 0x14, 0x17, 0x16, 0x18, 0x19, 0x1A, 0x1B, 0x1C, 0x1D, 0x1E, 0x1F],
      start_lba = 3, end_lba = 8\<rparr>"

lemma le_value_bytes4: "le_value (le_bytes4 w) = w"
  by (rule bit_word_eqI, erule byte_bit_cases) (auto simp: le_bytes4_def bit_simps)

lemmas sample_disk_defs = sample_header_def sample_header_start_def sample_header_end_def

lemma sample_disk_length: "length (sample_disk lba) = 96"
  by (simp add: sample_disk_def sample_disk_defs sample_table_def le_bytes4_def)

lemma sample_disk_header:
  "gpt_header_of sample_header =
     \<lparr>gh_checksum = crc32_reference (sample_header_start @ [0, 0, 0, 0] @ sample_header_end),
      gh_disk_uuid = \<lparr>gu_part1 = 0x04030201, gu_part2 = 0x0605, gu_part3 = 0x0807, gu_part4 = [9, 10], gu_part5 = [11, 12, 13, 14, 15, 16]\<rparr>,
      gh_table_lba = 2, gh_count = 2, gh_entry_size = 48, gh_table_checksum = crc32_reference sample_table\<rparr>"
proof -
  have "le_field 16 4 sample_header = crc32_reference (sample_header_start @ [0, 0, 0, 0] @ sample_header_end)"
    using le_value_bytes4 by (simp add: le_field_def sample_header_def sample_header_start_def le_bytes4_def)
  moreover have "le_field 88 4 sample_header = crc32_reference sample_table"
    using le_value_bytes4 by (simp add: le_field_def sample_disk_defs le_bytes4_def)
  ultimately show ?thesis
    by (simp add: gpt_header_of_def gpt_uuid_at_def le_field_def sample_disk_defs le_bytes4_def)
qed

lemma sample_table_entries: "sector_entries 48 sample_table = [sample_partition]"
proof -
  have two: "[0..<length sample_table div 48] = [0, 1]" by (simp add: sample_table_def upt_rec)
  have "\<not> gpt_is_zero 0 sample_table" "gpt_is_zero 48 sample_table"
    by (simp_all add: gpt_is_zero_def sample_table_def list_all_iff)
  then have "sector_entries 48 sample_table = [gpt_partition_at 0 sample_table]"
    by (simp add: sector_entries_def two)
  moreover have "gpt_partition_at 0 sample_table = sample_partition"
    by (simp add: gpt_partition_at_def sample_partition_def gpt_uuid_at_def le_field_def sample_table_def to_uuid_def uuid_new_def)
  ultimately show ?thesis by simp
qed


text \<open>A table entry larger than a sector makes the number of entries per sector 0, by which the parser then divides:
  a header with a correct checksum is enough to stop the kernel.\<close>
lemma parse_partitions_divides_by_zero:
  assumes "\<forall>lba. length (read_sector lba) = ssize" "92 \<le> ssize"
    and "le_field 0 8 (read_sector 1) = EFI_PART"
    and "h = gpt_header_of (read_sector 1)" "ssize < unat (gh_entry_size h)"
    and "gh_checksum h = crc32_reference (take 16 (read_sector 1) @ [0, 0, 0, 0] @ take 72 (drop 20 (read_sector 1)))"
  shows "parse_partitions uninit ssize read_sector = Gpt_Fault"
proof -
  have zeroed: "take GPT_HEADER_SIZE (take 16 (read_sector 1) @ [0, 0, 0, 0] @ drop 20 (read_sector 1)) =
      take 16 (read_sector 1) @ [0, 0, 0, 0] @ take 72 (drop 20 (read_sector 1))"
    using assms(1,2) by (intro header_zeroed) simp
  have "\<not> ssize < 8" "\<not> ssize < GPT_HEADER_SIZE" "ssize div unat (gh_entry_size h) = 0"
    using assms(2,5) by (simp_all add: GPT_HEADER_SIZE_def)
  then show ?thesis
    unfolding parse_partitions_def Let_def zeroed calc_crc32_reference by (simp add: assms(3,6) flip: assms(4))
qed

end
