(* ===== verification/Refcount.thy ===== *)
theory Refcount
  imports Prelude
begin

text \<open>
  Reference-counted handles: \<^verbatim>\<open>std::SharedPtr\<close> (\<^verbatim>\<open>kernel/std/include/shared_pointer.hpp\<close>) and
  \<^verbatim>\<open>StreamWrapper\<close> (\<^verbatim>\<open>kernel/src/streams/streamwrapper.cpp\<close>). A handle is the address of its \<^verbatim>\<open>DataStorage\<close>,
  0 for none; allocations return an address the caller supplies, and a dereference of a null or deleted
  storage is \<open>None\<close>. The interface \<open>counted_handles\<close> states what copying and dropping a handle do to the
  counts; that no held handle is ever dangling is proved once from it.
\<close>

section \<open>The interface\<close>

locale counted_handles =
  fixes cnt :: "'s \<Rightarrow> nat \<Rightarrow> nat"
    and make :: "nat \<Rightarrow> 'a \<Rightarrow> 's \<Rightarrow> 's"
    and share :: "nat \<Rightarrow> 's \<Rightarrow> 's option"
    and release :: "nat \<Rightarrow> 's \<Rightarrow> 's option"
    and limit :: nat
  assumes make: "a \<noteq> 0 \<Longrightarrow> cnt (make a x s) = (cnt s)(a := 1)"
    and share: "h \<noteq> 0 \<Longrightarrow> 0 < cnt s h \<Longrightarrow> cnt s h < limit - 1 \<Longrightarrow> \<exists>s'. share h s = Some s' \<and> cnt s' = (cnt s)(h := cnt s h + 1)"
    and release: "h \<noteq> 0 \<Longrightarrow> 0 < cnt s h \<Longrightarrow> \<exists>s'. release h s = Some s' \<and> cnt s' = (cnt s)(h := cnt s h - 1)"
begin

text \<open>A program that holds the handles \<open>hs\<close> and makes, copies and drops them in any order.\<close>

inductive step :: "nat list \<times> 's \<Rightarrow> nat list \<times> 's \<Rightarrow> bool" where
  step_make: "a \<noteq> 0 \<Longrightarrow> cnt s a = 0 \<Longrightarrow> step (hs, s) (a # hs, make a x s)"
| step_share: "h \<in> set hs \<Longrightarrow> length hs < limit - 1 \<Longrightarrow> share h s = Some s' \<Longrightarrow> step (hs, s) (h # hs, s')"
| step_release: "h \<in> set hs \<Longrightarrow> release h s = Some s' \<Longrightarrow> step (hs, s) (remove1 h hs, s')"

definition balanced :: "nat list \<times> 's \<Rightarrow> bool" where
  "balanced st \<longleftrightarrow> (case st of (hs, s) \<Rightarrow> 0 \<notin> set hs \<and> (\<forall>h. cnt s h = count (mset hs) h))"

lemma balanced_live: "balanced (hs, s) \<Longrightarrow> h \<in> set hs \<Longrightarrow> h \<noteq> 0 \<and> 0 < cnt s h"
  unfolding balanced_def by (cases "h = 0") (simp_all add: count_greater_zero_iff)

lemma balanced_share:
  assumes "balanced (hs, s)" "h \<in> set hs" "length hs < limit - 1"
  shows "\<exists>s'. share h s = Some s' \<and> balanced (h # hs, s')"
proof -
  have "cnt s h \<le> length hs" using assms(1) count_le_size [of "mset hs" h] by (simp add: balanced_def)
  then obtain s' where "share h s = Some s'" "cnt s' = (cnt s)(h := cnt s h + 1)"
    using share [of h s] balanced_live [OF assms(1,2)] assms(3) by auto
  then show ?thesis using assms(1) balanced_live [OF assms(1,2)] by (auto simp: balanced_def)
qed

lemma balanced_release:
  assumes "balanced (hs, s)" "h \<in> set hs"
  shows "\<exists>s'. release h s = Some s' \<and> balanced (remove1 h hs, s')"
proof -
  obtain s' where "release h s = Some s'" "cnt s' = (cnt s)(h := cnt s h - 1)"
    using release [of h s] balanced_live [OF assms] by auto
  then show ?thesis using assms(1) set_remove1_subset [of h hs] by (auto simp: balanced_def)
qed

lemma balanced_make: "balanced (hs, s) \<Longrightarrow> a \<noteq> 0 \<Longrightarrow> cnt s a = 0 \<Longrightarrow> balanced (a # hs, make a x s)"
  using make [of a x s] by (auto simp: balanced_def)

lemma balanced_perm: "mset hs = mset hs' \<Longrightarrow> balanced (hs, s) \<longleftrightarrow> balanced (hs', s)"
proof -
  assume m: "mset hs = mset hs'"
  then have "set hs = set hs'" by (rule mset_eq_setD)
  then show ?thesis using m by (simp add: balanced_def)
qed

lemma step_balanced:
  assumes "step st st'" "balanced st"
  shows "balanced st'"
  using assms
proof cases
  case (step_make a s hs x)
  then show ?thesis using assms(2) balanced_make [of hs s a x] by simp
next
  case (step_share h hs s s')
  then show ?thesis using balanced_share [of hs s h] assms(2) by auto
next
  case (step_release h hs s s')
  then show ?thesis using balanced_release [of hs s h] assms(2) by auto
qed

lemma reachable_balanced: "step\<^sup>*\<^sup>* st st' \<Longrightarrow> balanced st \<Longrightarrow> balanced st'"
  by (induction rule: rtranclp_induct) (auto intro: step_balanced)

text \<open>Nothing dangles and nothing leaks: an object is live exactly while a handle to it is held, and a held handle can
  be copied and dropped.\<close>

lemma handles_safe:
  assumes "step\<^sup>*\<^sup>* ([], s0) (hs, s)" "\<And>h. cnt s0 h = 0"
  shows "0 < cnt s h \<longleftrightarrow> h \<in> set hs"
    and "h \<in> set hs \<Longrightarrow> \<exists>s'. release h s = Some s'"
    and "h \<in> set hs \<Longrightarrow> length hs < limit - 1 \<Longrightarrow> \<exists>s'. share h s = Some s'"
proof -
  have b: "balanced (hs, s)" using reachable_balanced [OF assms(1)] assms(2) by (simp add: balanced_def)
  then show "0 < cnt s h \<longleftrightarrow> h \<in> set hs" by (simp add: balanced_def count_greater_zero_iff)
  show "h \<in> set hs \<Longrightarrow> \<exists>s'. release h s = Some s'" using balanced_release [OF b] by blast
  show "h \<in> set hs \<Longrightarrow> length hs < limit - 1 \<Longrightarrow> \<exists>s'. share h s = Some s'" using balanced_share [OF b] by blast
qed

end

section \<open>SharedPtr\<close>

text \<open>The storages of one element type: value and count. \<open>sp_destroyed\<close> collects the values whose destructor has run.\<close>

record 'a sp_state =
  sp_heap :: "nat \<Rightarrow> ('a \<times> size_t) option"
  sp_destroyed :: "'a list"

definition make_shared :: "nat \<Rightarrow> 'a \<Rightarrow> 'a sp_state \<Rightarrow> 'a sp_state" where
  "make_shared a x s = s\<lparr>sp_heap := (sp_heap s)(a \<mapsto> (x, 1))\<rparr>"

text \<open>The copy constructor: the new handle is the same address.\<close>

definition sp_copy :: "nat \<Rightarrow> 'a sp_state \<Rightarrow> 'a sp_state option" where
  "sp_copy h s =
     (if h = 0 then Some s
      else map_option (\<lambda>(x, n). s\<lparr>sp_heap := (sp_heap s)(h \<mapsto> (x, n + 1))\<rparr>) (sp_heap s h))"

definition sp_clear :: "nat \<Rightarrow> 'a sp_state \<Rightarrow> 'a sp_state option" where
  "sp_clear h s =
     (if h = 0 then Some s
      else map_option (\<lambda>(x, n).
        if n = 1 then s\<lparr>sp_heap := (sp_heap s)(h := None), sp_destroyed := sp_destroyed s @ [x]\<rparr>
        else s\<lparr>sp_heap := (sp_heap s)(h \<mapsto> (x, n - 1))\<rparr>) (sp_heap s h))"

definition sp_leak :: "nat \<Rightarrow> nat \<times> nat" where
  "sp_leak h = (h, 0)"

definition sp_assign :: "nat \<Rightarrow> nat \<Rightarrow> 'a sp_state \<Rightarrow> (nat \<times> 'a sp_state) option" where
  "sp_assign this ptr s = Option.bind (sp_clear this s) (\<lambda>s. map_option (Pair ptr) (sp_copy ptr s))"

definition sp_move_assign :: "nat \<Rightarrow> nat \<Rightarrow> 'a sp_state \<Rightarrow> ((nat \<times> nat) \<times> 'a sp_state) option" where
  "sp_move_assign this ptr s = Option.bind (sp_clear this s) (\<lambda>s. Some (sp_leak ptr, s))"

definition sp_value :: "nat \<Rightarrow> 'a sp_state \<Rightarrow> 'a option" where
  "sp_value h s = (if h = 0 then None else map_option fst (sp_heap s h))"

definition sp_count :: "'a sp_state \<Rightarrow> nat \<Rightarrow> nat" where
  "sp_count s h = (case sp_heap s h of None \<Rightarrow> 0 | Some (x, n) \<Rightarrow> unat n)"

section \<open>StreamWrapper\<close>

text \<open>The storages: base stream and count, an \<^verbatim>\<open>int\<close>. \<open>sw_deleted\<close> collects the streams that were deleted.\<close>

record sw_state =
  sw_heap :: "nat \<Rightarrow> (nat \<times> int) option"
  sw_deleted :: "nat list"
  sw_asserts :: "string list"

definition sw_new :: "nat \<Rightarrow> nat \<Rightarrow> sw_state \<Rightarrow> sw_state" where
  "sw_new a base s = s\<lparr>sw_heap := (sw_heap s)(a \<mapsto> (base, 1))\<rparr>"

definition sw_copy :: "nat \<Rightarrow> sw_state \<Rightarrow> sw_state option" where
  "sw_copy h s =
     (if h = 0 then None
      else map_option (\<lambda>(b, n). s\<lparr>sw_heap := (sw_heap s)(h \<mapsto> (b, n + 1))\<rparr>) (sw_heap s h))"

definition sw_clear :: "nat \<Rightarrow> sw_state \<Rightarrow> sw_state option" where
  "sw_clear h s =
     (if h = 0 then None
      else map_option (\<lambda>(b, n).
        let s = (if n \<ge> 1 then s
                 else s\<lparr>sw_asserts := sw_asserts s @ [''Clearing a StreamWrapper after all references have been deleted'']\<rparr>)
        in if n = 1 then s\<lparr>sw_heap := (sw_heap s)(h := None), sw_deleted := sw_deleted s @ [b]\<rparr>
           else s\<lparr>sw_heap := (sw_heap s)(h \<mapsto> (b, n - 1))\<rparr>) (sw_heap s h))"

definition sw_leak :: "nat \<Rightarrow> nat \<times> nat" where
  "sw_leak h = (h, 0)"

definition sw_assign :: "nat \<Rightarrow> nat \<Rightarrow> sw_state \<Rightarrow> (nat \<times> sw_state) option" where
  "sw_assign this other s = Option.bind (sw_clear this s) (\<lambda>s. map_option (Pair other) (sw_copy other s))"

definition sw_move_assign :: "nat \<Rightarrow> nat \<Rightarrow> sw_state \<Rightarrow> ((nat \<times> nat) \<times> sw_state) option" where
  "sw_move_assign this other s = Option.bind (sw_clear this s) (\<lambda>s. Some (sw_leak other, s))"

definition sw_base :: "nat \<Rightarrow> sw_state \<Rightarrow> nat option" where
  "sw_base h s = (if h = 0 then None else map_option fst (sw_heap s h))"

text \<open>\<^verbatim>\<open>read\<close>, \<^verbatim>\<open>write\<close> and \<^verbatim>\<open>seek\<close> call the operation of the base stream.\<close>

definition sw_call :: "(nat \<Rightarrow> 't \<Rightarrow> size_t value_or_error \<times> 't) \<Rightarrow> nat \<Rightarrow> sw_state \<times> 't \<Rightarrow> (size_t value_or_error \<times> 't) option" where
  "sw_call f h st = (case st of (s, t) \<Rightarrow> map_option (\<lambda>b. f b t) (sw_base h s))"

definition sw_count :: "sw_state \<Rightarrow> nat \<Rightarrow> nat" where
  "sw_count s h = (case sw_heap s h of None \<Rightarrow> 0 | Some (b, n) \<Rightarrow> nat n)"

text \<open>\<^verbatim>\<open>Stream\<close>'s own operations, which the derived classes override.\<close>

definition stream_default :: "size_t value_or_error" where
  "stream_default = Inl ENOTSUP"

section \<open>Both are counted handles\<close>

interpretation sp: counted_handles sp_count make_shared sp_copy sp_clear "2 ^ 64"
proof (unfold_locales, goal_cases)
  case (1 a x s)
  then show ?case by (auto simp: sp_count_def make_shared_def)
next
  case (2 h s)
  then obtain x n where h: "sp_heap s h = Some (x, n)" "0 < unat n" "unat n < 2 ^ 64 - 1"
    by (auto simp: sp_count_def split: option.splits)
  then have "unat (n + 1) = unat n + 1" by (simp add: unat_word_ariths)
  then show ?case using 2 h by (auto simp: sp_count_def sp_copy_def)
next
  case (3 h s)
  then obtain x n where h: "sp_heap s h = Some (x, n)" "0 < unat n" by (auto simp: sp_count_def split: option.splits)
  then have "n = 1 \<or> unat (n - 1) = unat n - 1" by (metis unat_minus_one unat_0 less_irrefl)
  then show ?case using 3 h by (auto simp: sp_count_def sp_clear_def)
qed

interpretation sw: counted_handles sw_count sw_new sw_copy sw_clear "2 ^ 31"
proof (unfold_locales, goal_cases)
  case (1 a x s)
  then show ?case by (auto simp: sw_count_def sw_new_def)
next
  case (2 h s)
  then show ?case by (auto simp: sw_count_def sw_copy_def fun_eq_iff nat_add_distrib split: option.splits)
next
  case (3 h s)
  then obtain b n where h: "sw_heap s h = Some (b, n)" "0 < n" by (auto simp: sw_count_def split: option.splits)
  then obtain s' where s': "sw_clear h s = Some s'" "sw_heap s' = (sw_heap s)(h := (if n = 1 then None else Some (b, n - 1)))"
    using 3(1) by (simp add: sw_clear_def)
  then show ?case using h by (auto simp: sw_count_def fun_eq_iff nat_diff_distrib split: option.splits)
qed

end
