(* ===== verification/Descriptors.thy ===== *)
theory Descriptors
  imports Refcount
begin

text \<open>
  The file descriptors of a process (\<^verbatim>\<open>Process::add_stream\<close>, \<^verbatim>\<open>close_stream\<close>, \<^verbatim>\<open>get_stream\<close> and
  \<^verbatim>\<open>dup_stream\<close> in \<^verbatim>\<open>kernel/src/tasking/process.cpp\<close>, the copying of the table in \<^verbatim>\<open>Process::fork\<close>). The hash table
  \<^verbatim>\<open>f_streams\<close> is the list of its entries, a descriptor and the handle of a \<^verbatim>\<open>StreamWrapper\<close>; its
  \<^verbatim>\<open>insert\<close> keeps an entry that is already there. Every operation holds \<^verbatim>\<open>f_lock\<close> throughout.
\<close>

section \<open>Operations\<close>

record fd_table =
  f_next_fd :: int
  f_streams :: "(int \<times> nat) list"

definition fd_table_new :: fd_table where
  "fd_table_new = \<lparr>f_next_fd = 0, f_streams = []\<rparr>"

definition fd_at :: "int \<Rightarrow> fd_table \<Rightarrow> nat option" where
  "fd_at fd t = map_of (f_streams t) fd"

text \<open>\<^verbatim>\<open>f_streams.erase\<close>: the entry's wrapper is destroyed.\<close>

definition fd_erase :: "int \<Rightarrow> fd_table \<times> sw_state \<Rightarrow> (fd_table \<times> sw_state) option" where
  "fd_erase fd ts = (case ts of (t, s) \<Rightarrow>
     (case fd_at fd t of
        None \<Rightarrow> Some (t, s)
      | Some h \<Rightarrow> map_option (Pair (t\<lparr>f_streams := filter (\<lambda>e. fst e \<noteq> fd) (f_streams t)\<rparr>)) (sw_clear h s)))"

text \<open>\<^verbatim>\<open>f_streams.insert\<close> of a wrapper: the table holds a copy of it.\<close>

definition fd_insert :: "int \<Rightarrow> nat \<Rightarrow> fd_table \<times> sw_state \<Rightarrow> (fd_table \<times> sw_state) option" where
  "fd_insert fd h ts = (case ts of (t, s) \<Rightarrow>
     (if fd_at fd t \<noteq> None then Some (t, s)
      else map_option (Pair (t\<lparr>f_streams := f_streams t @ [(fd, h)]\<rparr>)) (sw_copy h s)))"

text \<open>\<^verbatim>\<open>while(f_streams.find(fd) != f_streams.end()) ++fd;\<close>\<close>

function next_free :: "int \<Rightarrow> fd_table \<Rightarrow> int" where
  "next_free fd t = (if fd_at fd t \<noteq> None then next_free (fd + 1) t else fd)"
  by pat_completeness auto
termination
proof (relation "measure (\<lambda>(fd, t). length (filter (\<lambda>e. fd \<le> fst e) (f_streams t)))", goal_cases)
  case (2 fd t)
  have "length (filter (\<lambda>e. fd + 1 \<le> fst e) es) < length (filter (\<lambda>e. fd \<le> fst e) es)" if "map_of es fd \<noteq> None" for es :: "(int \<times> nat) list"
    using that
  proof (induction es)
    case (Cons e es)
    have "length (filter (\<lambda>e. fd + 1 \<le> fst e) es) \<le> length (filter (\<lambda>e. fd \<le> fst e) es)"
      by (induction es) auto
    then show ?case using Cons by (cases "fst e = fd") auto
  qed simp
  then show ?case using 2 by (simp add: fd_at_def)
qed simp

declare next_free.simps [simp del]

text \<open>\<open>a\<close> is the address of the storage of the wrapper made for the stream; that temporary is dropped at the end.\<close>

definition add_stream :: "nat \<Rightarrow> nat \<Rightarrow> int \<Rightarrow> fd_table \<times> sw_state \<Rightarrow> (int \<times> fd_table \<times> sw_state) option" where
  "add_stream a stream hint ts = (case ts of (t, s) \<Rightarrow>
     (if hint \<noteq> - 1 then
        Option.bind (if fd_at hint t \<noteq> None then fd_erase hint (t, s) else Some (t, s)) (\<lambda>(t, s).
        Option.bind (fd_insert hint a (t, sw_new a stream s)) (\<lambda>(t, s).
        map_option (\<lambda>s. (hint, t, s)) (sw_clear a s)))
      else
        let fd = next_free (f_next_fd t) t
        in Option.bind (fd_insert fd a (t, sw_new a stream s)) (\<lambda>(t, s).
           Option.bind (sw_clear a s) (\<lambda>s.
           Some (fd, if fd = f_next_fd t then t\<lparr>f_next_fd := fd + 1\<rparr> else t, s)))))"

definition close_stream :: "int \<Rightarrow> fd_table \<times> sw_state \<Rightarrow> (fd_table \<times> sw_state) option" where
  "close_stream fd ts =
     Option.bind (fd_erase fd ts) (\<lambda>(t, s). Some (if fd < f_next_fd t then t\<lparr>f_next_fd := fd\<rparr> else t, s))"

definition get_stream :: "int \<Rightarrow> fd_table \<times> sw_state \<Rightarrow> nat option option" where
  "get_stream fd ts = (case ts of (t, s) \<Rightarrow>
     (case fd_at fd t of None \<Rightarrow> Some None | Some h \<Rightarrow> map_option Some (sw_base h s)))"

text \<open>The value found for \<^verbatim>\<open>oldFd\<close> is a reference to the entry of the table, which the erasure may destroy.\<close>

definition dup_stream :: "int \<Rightarrow> int \<Rightarrow> fd_table \<times> sw_state \<Rightarrow> (int value_or_error \<times> fd_table \<times> sw_state) option" where
  "dup_stream oldFd newFd ts = (case ts of (t, s) \<Rightarrow>
     (case fd_at oldFd t of
        None \<Rightarrow> Some (Inl EBADF, t, s)
      | Some _ \<Rightarrow>
          let fd = (if newFd \<noteq> - 1 then newFd else next_free (f_next_fd t) t)
          in Option.bind (if newFd \<noteq> - 1 \<and> fd_at newFd t \<noteq> None then fd_erase newFd (t, s) else Some (t, s)) (\<lambda>(t, s).
             Option.bind (fd_at oldFd t) (\<lambda>h.
             map_option (Pair (Inr fd)) (fd_insert fd h (t, s))))))"

text \<open>The table of the child of \<^verbatim>\<open>fork\<close>.\<close>

fun copy_streams :: "(int \<times> nat) list \<Rightarrow> fd_table \<times> sw_state \<Rightarrow> (fd_table \<times> sw_state) option" where
  "copy_streams [] ts = Some ts"
| "copy_streams ((fd, h) # es) ts = Option.bind (fd_insert fd h ts) (copy_streams es)"

definition fork_streams :: "fd_table \<times> sw_state \<Rightarrow> (fd_table \<times> sw_state) option" where
  "fork_streams ts = (case ts of (t, s) \<Rightarrow> copy_streams (f_streams t) (fd_table_new\<lparr>f_next_fd := f_next_fd t\<rparr>, s))"

section \<open>The numbers handed out\<close>

definition fds :: "fd_table \<Rightarrow> int set" where
  "fds t = fst ` set (f_streams t)"

lemma fd_at_iff: "fd_at fd t \<noteq> None \<longleftrightarrow> fd \<in> fds t"
  by (simp add: fd_at_def fds_def map_of_eq_None_iff)

lemma fd_at_None: "fd_at fd t = None \<longleftrightarrow> fd \<notin> fds t"
  using fd_at_iff by blast

lemma next_free_least:
  "fd \<le> next_free fd t \<and> next_free fd t \<notin> fds t \<and> (\<forall>k. fd \<le> k \<and> k < next_free fd t \<longrightarrow> k \<in> fds t)"
proof (induction fd t rule: next_free.induct)
  case (1 fd t)
  show ?case
  proof (cases "fd \<in> fds t")
    case True
    then have "next_free fd t = next_free (fd + 1) t" by (subst next_free.simps) (simp add: fd_at_None)
    moreover have "k = fd \<or> fd + 1 \<le> k" if "fd \<le> k" for k using that by linarith
    ultimately show ?thesis using 1 True fd_at_iff [of fd t] by force
  next
    case False
    then have "next_free fd t = fd" by (subst next_free.simps) (simp add: fd_at_None)
    then show ?thesis using False by auto
  qed
qed

text \<open>A table of a process: distinct descriptors, and every number below \<^verbatim>\<open>f_next_fd\<close> in use.\<close>

definition fd_ok :: "fd_table \<Rightarrow> bool" where
  "fd_ok t \<longleftrightarrow> distinct (map fst (f_streams t)) \<and> 0 \<le> f_next_fd t \<and> {0..<f_next_fd t} \<subseteq> fds t \<and> fds t \<subseteq> {0..}"

text \<open>The handles a table holds, and a table whose wrappers' counts are balanced with those held elsewhere.\<close>

definition handles :: "fd_table \<Rightarrow> nat list" where
  "handles t = map snd (f_streams t)"

definition fd_inv :: "fd_table \<times> nat list \<times> sw_state \<Rightarrow> bool" where
  "fd_inv st \<longleftrightarrow> (case st of (t, os, s) \<Rightarrow> fd_ok t \<and> sw.balanced (handles t @ os, s))"

lemma fd_at_mem: "fd_at fd t = Some h \<Longrightarrow> (fd, h) \<in> set (f_streams t)"
  by (simp add: fd_at_def map_of_SomeD)

lemma handles_mem: "fd_at fd t = Some h \<Longrightarrow> h \<in> set (handles t)"
  using fd_at_mem by (force simp: handles_def)

text \<open>Removing the entry of a descriptor from the list.\<close>

lemma mset_without:
  assumes "distinct (map fst es)" "map_of es fd = Some h"
  shows "mset (map snd es) = add_mset h (mset (map snd (filter (\<lambda>e. fst e \<noteq> fd) es)))"
  using assms
proof (induction es)
  case (Cons e es)
  show ?case
  proof (cases "fst e = fd")
    case True
    then have "fd \<notin> fst ` set es" using Cons.prems(1) by simp
    then have "filter (\<lambda>e. fst e \<noteq> fd) es = es" by (intro filter_True) (auto simp: image_iff)
    then show ?thesis using True Cons.prems(2) by (cases e) simp
  next
    case False
    then have "map_of es fd = Some h" using Cons.prems(2) by (cases e) simp
    then show ?thesis using Cons.IH Cons.prems(1) False by simp
  qed
qed simp

lemma map_of_without: "k \<noteq> fd \<Longrightarrow> map_of (filter (\<lambda>e. fst e \<noteq> fd) es) k = map_of es k"
  by (induction es) auto

lemma fd_erase_ok:
  assumes "distinct (map fst (f_streams t))" "sw.balanced (handles t @ os, s)"
  shows "\<exists>t' s'. fd_erase fd (t, s) = Some (t', s') \<and> f_next_fd t' = f_next_fd t \<and>
    f_streams t' = filter (\<lambda>e. fst e \<noteq> fd) (f_streams t) \<and> sw.balanced (handles t' @ os, s')"
proof (cases "fd_at fd t")
  case None
  then have "filter (\<lambda>e. fst e \<noteq> fd) (f_streams t) = f_streams t"
    by (intro filter_True) (force simp: fd_at_None fds_def)
  then show ?thesis using None assms by (simp add: fd_erase_def)
next
  case (Some h)
  let ?t = "t\<lparr>f_streams := filter (\<lambda>e. fst e \<noteq> fd) (f_streams t)\<rparr>"
  have m: "mset (handles t) = add_mset h (mset (handles ?t))"
    using mset_without [OF assms(1)] Some by (simp add: handles_def fd_at_def)
  then have "sw.balanced (h # handles ?t @ os, s)"
    using assms(2) sw.balanced_perm [of "handles t @ os" "h # handles ?t @ os"] by simp
  from sw.balanced_release [OF this, of h] obtain s' where "sw_clear h s = Some s'" "sw.balanced (handles ?t @ os, s')"
    by auto
  then show ?thesis using Some by (intro exI [of _ ?t] exI [of _ s']) (simp add: fd_erase_def)
qed

lemma fd_insert_ok:
  assumes "sw.balanced (handles t @ os, s)" "fd \<notin> fds t" "h \<in> set (handles t @ os)" "length (handles t @ os) < 2 ^ 31 - 1"
  shows "\<exists>s'. fd_insert fd h (t, s) = Some (t\<lparr>f_streams := f_streams t @ [(fd, h)]\<rparr>, s') \<and>
    sw.balanced (handles (t\<lparr>f_streams := f_streams t @ [(fd, h)]\<rparr>) @ os, s')"
proof -
  obtain s' where s': "sw_copy h s = Some s'" "sw.balanced (h # handles t @ os, s')"
    using sw.balanced_share [OF assms(1,3,4)] by blast
  then have "sw.balanced (handles (t\<lparr>f_streams := f_streams t @ [(fd, h)]\<rparr>) @ os, s')"
    using sw.balanced_perm [of "h # handles t @ os" "handles t @ h # os" s'] by (simp add: handles_def)
  then show ?thesis using s' assms(2) by (simp add: fd_insert_def fd_at_None)
qed

text \<open>\<^verbatim>\<open>add_stream\<close> once the descriptor \<open>fd\<close> has been chosen and is free.\<close>

lemma fd_add_ok:
  assumes "sw.balanced (handles t @ os, s)" "fd \<notin> fds t" "a \<noteq> 0" "sw_count s a = 0" "length (handles t @ os) < 2 ^ 31 - 2"
  shows "\<exists>s1 s'. fd_insert fd a (t, sw_new a stream s) = Some (t\<lparr>f_streams := f_streams t @ [(fd, a)]\<rparr>, s1) \<and>
    sw_clear a s1 = Some s' \<and> sw_heap s' = (sw_heap s)(a \<mapsto> (stream, 1)) \<and>
    sw.balanced (handles (t\<lparr>f_streams := f_streams t @ [(fd, a)]\<rparr>) @ os, s')"
proof -
  let ?t = "t\<lparr>f_streams := f_streams t @ [(fd, a)]\<rparr>"
  have "sw.balanced (a # handles t @ os, sw_new a stream s)"
    using assms(1,3,4) by (intro sw.balanced_make)
  moreover have "mset (handles ?t @ os) = mset (a # handles t @ os)" by (simp add: handles_def)
  ultimately have b: "sw.balanced (handles ?t @ os, sw_new a stream s)" using sw.balanced_perm by blast
  have copy: "sw_copy a (sw_new a stream s) = Some (sw_new a stream s\<lparr>sw_heap := (sw_heap s)(a \<mapsto> (stream, 2))\<rparr>)"
    using assms(3) by (simp add: sw_copy_def sw_new_def)
  let ?s1 = "sw_new a stream s\<lparr>sw_heap := (sw_heap s)(a \<mapsto> (stream, 2))\<rparr>"
  have clear: "sw_clear a ?s1 = Some (sw_new a stream s)" using assms(3) by (simp add: sw_clear_def sw_new_def Let_def)
  show ?thesis
    using b copy clear assms(2) by (intro exI [of _ ?s1] exI [of _ "sw_new a stream s"]) (simp add: fd_insert_def fd_at_None sw_new_def)
qed

lemma fds_append: "fds (t\<lparr>f_streams := f_streams t @ [(fd, h)]\<rparr>) = insert fd (fds t)"
  by (simp add: fds_def)

lemma fds_filter: "f_streams t' = filter (\<lambda>e. fst e \<noteq> fd) (f_streams t) \<Longrightarrow> fds t' = fds t - {fd}"
  by (auto simp: fds_def)

lemma distinct_filter: "distinct (map fst es) \<Longrightarrow> distinct (map fst (filter P es))"
  by (induction es) auto

lemma fd_okD: "fd_ok t \<Longrightarrow> distinct (map fst (f_streams t))" "fd_ok t \<Longrightarrow> 0 \<le> f_next_fd t" "fd_ok t \<Longrightarrow> {0..<f_next_fd t} \<subseteq> fds t"
  "fd_ok t \<Longrightarrow> fds t \<subseteq> {0..}"
  by (simp_all add: fd_ok_def)

lemma add_stream_new:
  assumes "fd_inv (t, os, s)" "a \<noteq> 0" "sw_count s a = 0" "length (handles t @ os) < 2 ^ 31 - 2"
  shows "\<exists>fd t' s'. add_stream a stream (- 1) (t, s) = Some (fd, t', s') \<and> fd_inv (t', os, s') \<and>
    0 \<le> fd \<and> fd \<notin> fds t \<and> {0..<fd} \<subseteq> fds t \<and> f_streams t' = f_streams t @ [(fd, a)] \<and>
    sw_heap s' = (sw_heap s)(a \<mapsto> (stream, 1))"
proof -
  let ?fd = "next_free (f_next_fd t) t" and ?t = "\<lambda>fd. t\<lparr>f_streams := f_streams t @ [(fd, a)]\<rparr>"
  have ok: "fd_ok t" and bal: "sw.balanced (handles t @ os, s)" using assms(1) by (simp_all add: fd_inv_def)
  note nf = next_free_least [of "f_next_fd t" t]
  have low: "{0..<?fd} \<subseteq> fds t"
  proof
    fix k assume "k \<in> {0..<?fd}"
    then show "k \<in> fds t" using nf fd_okD(3) [OF ok] by (cases "k < f_next_fd t") auto
  qed
  obtain s1 s' where ins: "fd_insert ?fd a (t, sw_new a stream s) = Some (?t ?fd, s1)"
    and clear: "sw_clear a s1 = Some s'" and heap: "sw_heap s' = (sw_heap s)(a \<mapsto> (stream, 1))"
    and b: "sw.balanced (handles (?t ?fd) @ os, s')"
    using fd_add_ok [OF bal conjunct1 [OF conjunct2 [OF nf]] assms(2-4)] by blast
  let ?t' = "if ?fd = f_next_fd (?t ?fd) then (?t ?fd)\<lparr>f_next_fd := ?fd + 1\<rparr> else ?t ?fd"
  have s: "f_streams ?t' = f_streams t @ [(?fd, a)]" "fds ?t' = insert ?fd (fds t)" "handles ?t' = handles (?t ?fd)"
    by (simp_all add: fds_def handles_def)
  have "f_next_fd ?t' \<le> ?fd + 1" "0 \<le> f_next_fd ?t'" using nf fd_okD(2) [OF ok] by auto
  then have "{0..<f_next_fd ?t'} \<subseteq> insert ?fd {0..<?fd}" by auto
  then have "{0..<f_next_fd ?t'} \<subseteq> insert ?fd (fds t)" using low by blast
  then have "fd_ok ?t'"
    unfolding fd_ok_def s using fd_okD(1,2,4) [OF ok] nf \<open>0 \<le> f_next_fd ?t'\<close> by (simp add: fds_def)
  moreover have "add_stream a stream (- 1) (t, s) = Some (?fd, ?t', s')"
    using ins clear by (simp add: add_stream_def Let_def)
  ultimately show ?thesis
    using b s nf low heap fd_okD(2) [OF ok]
    by (intro exI [of _ ?fd] exI [of _ ?t'] exI [of _ s']) (simp add: fd_inv_def)
qed

lemma add_stream_at:
  assumes "fd_inv (t, os, s)" "0 \<le> hint" "a \<noteq> 0" "sw_count s a = 0" "length (handles t @ os) < 2 ^ 31 - 2"
    "add_stream a stream hint (t, s) = Some (fd, t', s')"
  shows "fd_inv (t', os, s')"
proof -
  have ok: "fd_ok t" and bal: "sw.balanced (handles t @ os, s)" using assms(1) by (simp_all add: fd_inv_def)
  obtain t1 s1 where e: "fd_erase hint (t, s) = Some (t1, s1)" "f_next_fd t1 = f_next_fd t"
    "f_streams t1 = filter (\<lambda>e. fst e \<noteq> hint) (f_streams t)" "sw.balanced (handles t1 @ os, s1)"
    using fd_erase_ok [OF fd_okD(1) [OF ok] bal] by blast
  have erase: "(if fd_at hint t \<noteq> None then fd_erase hint (t, s) else Some (t, s)) = fd_erase hint (t, s)"
    by (simp add: fd_erase_def)
  have "length (handles t1 @ os) < 2 ^ 31 - 2"
    using assms(5) length_filter_le [of "\<lambda>e. fst e \<noteq> hint" "f_streams t"]
    unfolding handles_def e(3) length_append length_map by linarith
  moreover have "hint \<notin> fds t1" using fds_filter [OF e(3)] by simp
  moreover have "sw_count s1 a = 0"
  proof -
    have "a \<notin> set (handles t @ os)" using sw.balanced_live [OF bal, of a] assms(4) by auto
    then have "a \<notin> set (handles t1 @ os)" by (auto simp: handles_def e(3))
    then show ?thesis using e(4) by (auto simp: sw.balanced_def count_eq_zero_iff)
  qed
  ultimately obtain s2 s3 where
    "fd_insert hint a (t1, sw_new a stream s1) = Some (t1\<lparr>f_streams := f_streams t1 @ [(hint, a)]\<rparr>, s2)"
    "sw_clear a s2 = Some s3" "sw.balanced (handles (t1\<lparr>f_streams := f_streams t1 @ [(hint, a)]\<rparr>) @ os, s3)"
    using fd_add_ok [OF e(4), of hint a stream] assms(3) by blast
  moreover have "hint \<noteq> - 1" using assms(2) by simp
  ultimately have t': "t' = t1\<lparr>f_streams := f_streams t1 @ [(hint, a)]\<rparr>" "sw.balanced (handles t' @ os, s')"
    using assms(6) erase e(1) by (auto simp: add_stream_def)
  have f: "fds t' = insert hint (fds t)" using t'(1) fds_append [of t1 hint a] fds_filter [OF e(3)] by auto
  have "fd_ok t'"
    unfolding fd_ok_def f using fd_okD [OF ok] t'(1) e(2,3) assms(2) by (auto intro: distinct_filter)
  then show ?thesis using t'(2) by (simp add: fd_inv_def)
qed

lemma close_stream_ok:
  assumes "fd_inv (t, os, s)"
  shows "\<exists>t' s'. close_stream fd (t, s) = Some (t', s') \<and> f_streams t' = filter (\<lambda>e. fst e \<noteq> fd) (f_streams t) \<and>
    f_next_fd t' = min fd (f_next_fd t) \<and> sw.balanced (handles t' @ os, s') \<and> (0 \<le> fd \<longrightarrow> fd_inv (t', os, s'))"
proof -
  have ok: "fd_ok t" and bal: "sw.balanced (handles t @ os, s)" using assms by (simp_all add: fd_inv_def)
  obtain t1 s1 where e: "fd_erase fd (t, s) = Some (t1, s1)" "f_next_fd t1 = f_next_fd t"
    "f_streams t1 = filter (\<lambda>e. fst e \<noteq> fd) (f_streams t)" "sw.balanced (handles t1 @ os, s1)"
    using fd_erase_ok [OF fd_okD(1) [OF ok] bal] by blast
  let ?t = "if fd < f_next_fd t1 then t1\<lparr>f_next_fd := fd\<rparr> else t1"
  have s: "f_streams ?t = filter (\<lambda>e. fst e \<noteq> fd) (f_streams t)" "f_next_fd ?t = min fd (f_next_fd t)" "handles ?t = handles t1"
    using e(2,3) by (simp_all add: handles_def)
  have "fd_ok ?t" if "0 \<le> fd"
    unfolding fd_ok_def s(2) using fd_okD [OF ok] that s(1) fds_filter [OF s(1)] by (auto intro: distinct_filter)
  then show ?thesis using e s by (intro exI [of _ ?t] exI [of _ s1]) (simp add: close_stream_def fd_inv_def)
qed

lemma dup_stream_ok:
  assumes "fd_inv (t, os, s)" "oldFd \<in> fds t" "oldFd \<noteq> newFd" "newFd = - 1 \<or> 0 \<le> newFd" "length (handles t @ os) < 2 ^ 31 - 2"
  shows "\<exists>fd h t' s'. dup_stream oldFd newFd (t, s) = Some (Inr fd, t', s') \<and> fd_inv (t', os, s') \<and> (newFd \<noteq> - 1 \<longrightarrow> fd = newFd) \<and>
    fd_at oldFd t = Some h \<and> f_streams t' = filter (\<lambda>e. fst e \<noteq> newFd) (f_streams t) @ [(fd, h)]"
proof -
  have ok: "fd_ok t" and bal: "sw.balanced (handles t @ os, s)" using assms(1) by (simp_all add: fd_inv_def)
  let ?fd = "if newFd \<noteq> - 1 then newFd else next_free (f_next_fd t) t"
  obtain h where h: "fd_at oldFd t = Some h" using assms(2) fd_at_None [of oldFd t] by auto
  obtain t1 s1 where e: "fd_erase newFd (t, s) = Some (t1, s1)" "f_next_fd t1 = f_next_fd t"
    "f_streams t1 = filter (\<lambda>e. fst e \<noteq> newFd) (f_streams t)" "sw.balanced (handles t1 @ os, s1)"
    using fd_erase_ok [OF fd_okD(1) [OF ok] bal] by blast
  have neg: "- 1 \<notin> fds t" using fd_okD(4) [OF ok] by auto
  then have erase: "(if newFd \<noteq> - 1 \<and> fd_at newFd t \<noteq> None then fd_erase newFd (t, s) else Some (t, s)) = Some (t1, s1)"
    using e(1) by (auto simp: fd_erase_def fd_at_None [symmetric])
  have h1: "fd_at oldFd t1 = Some h"
    using h assms(3) unfolding fd_at_def e(3) by (simp add: map_of_without)
  have new: "?fd \<notin> fds t1" "0 \<le> ?fd"
    using next_free_least [of "f_next_fd t" t] fds_filter [OF e(3)] assms(4) fd_okD(2) [OF ok] by auto
  have "length (handles t1 @ os) < 2 ^ 31 - 1"
    using assms(5) length_filter_le [of "\<lambda>e. fst e \<noteq> newFd" "f_streams t"]
    unfolding handles_def e(3) length_append length_map by linarith
  then obtain s2 where ins: "fd_insert ?fd h (t1, s1) = Some (t1\<lparr>f_streams := f_streams t1 @ [(?fd, h)]\<rparr>, s2)"
    "sw.balanced (handles (t1\<lparr>f_streams := f_streams t1 @ [(?fd, h)]\<rparr>) @ os, s2)"
    using fd_insert_ok [OF e(4) new(1)] handles_mem [OF h1] by auto
  let ?t = "t1\<lparr>f_streams := f_streams t1 @ [(?fd, h)]\<rparr>"
  have f: "fds ?t = insert ?fd (fds t - {newFd})" using fds_append fds_filter [OF e(3)] by simp
  have "newFd \<in> insert ?fd (fds t - {newFd}) \<or> newFd \<notin> fds t" using neg by auto
  then have "fd_ok ?t"
    unfolding fd_ok_def f using fd_okD [OF ok] e(2,3) new by (auto simp: fds_def intro: distinct_filter)
  then show ?thesis
    using ins h h1 erase e(3) by (intro exI [of _ ?fd] exI [of _ h] exI [of _ ?t] exI [of _ s2]) (auto simp: dup_stream_def fd_inv_def Let_def)
qed

text \<open>The table of a forked child holds a further handle for every entry.\<close>

lemma copy_streams_ok:
  assumes "sw.balanced (handles t @ os, s)" "set (map snd es) \<subseteq> set os" "distinct (map fst es)" "fst ` set es \<inter> fds t = {}"
    "length (handles t @ os) + length es < 2 ^ 31 - 1"
  shows "\<exists>s'. copy_streams es (t, s) = Some (t\<lparr>f_streams := f_streams t @ es\<rparr>, s') \<and>
    sw.balanced (handles (t\<lparr>f_streams := f_streams t @ es\<rparr>) @ os, s')"
  using assms
proof (induction es arbitrary: t s)
  case (Cons e es)
  obtain fd h where e: "e = (fd, h)" by (cases e)
  have "fd \<notin> fds t" "h \<in> set (handles t @ os)" "length (handles t @ os) < 2 ^ 31 - 1"
    using Cons.prems(2,4,5) e by auto
  then obtain s1 where s1: "fd_insert fd h (t, s) = Some (t\<lparr>f_streams := f_streams t @ [(fd, h)]\<rparr>, s1)"
    "sw.balanced (handles (t\<lparr>f_streams := f_streams t @ [(fd, h)]\<rparr>) @ os, s1)"
    using fd_insert_ok [OF Cons.prems(1)] by blast
  have "fst ` set es \<inter> fds (t\<lparr>f_streams := f_streams t @ [(fd, h)]\<rparr>) = {}"
    using Cons.prems(3,4) e unfolding fds_append by auto
  then show ?case
    using Cons.IH [OF s1(2)] Cons.prems(2,3,5) e s1(1) by (simp add: handles_def)
qed (simp add: handles_def)

section \<open>Runs\<close>

text \<open>The calls of a process on its table, the forks, and the other processes dropping the handles they hold.\<close>

inductive fd_step :: "fd_table \<times> nat list \<times> sw_state \<Rightarrow> fd_table \<times> nat list \<times> sw_state \<Rightarrow> bool" where
  step_add: "a \<noteq> 0 \<Longrightarrow> sw_count s a = 0 \<Longrightarrow> hint = - 1 \<or> 0 \<le> hint \<Longrightarrow> length (handles t @ os) < 2 ^ 31 - 2 \<Longrightarrow>
    add_stream a stream hint (t, s) = Some (fd, t', s') \<Longrightarrow> fd_step (t, os, s) (t', os, s')"
| step_close: "0 \<le> fd \<Longrightarrow> close_stream fd (t, s) = Some (t', s') \<Longrightarrow> fd_step (t, os, s) (t', os, s')"
| step_dup: "oldFd \<noteq> newFd \<Longrightarrow> newFd = - 1 \<or> 0 \<le> newFd \<Longrightarrow> length (handles t @ os) < 2 ^ 31 - 2 \<Longrightarrow>
    dup_stream oldFd newFd (t, s) = Some (r, t', s') \<Longrightarrow> fd_step (t, os, s) (t', os, s')"
| step_fork: "length (handles t @ os) + length (handles t) < 2 ^ 31 - 2 \<Longrightarrow>
    fork_streams (t, s) = Some (child, s') \<Longrightarrow> fd_step (t, os, s) (t, handles child @ os, s')"
| step_drop: "h \<in> set os \<Longrightarrow> sw_clear h s = Some s' \<Longrightarrow> fd_step (t, os, s) (t, remove1 h os, s')"

lemma fork_streams_ok:
  assumes "fd_inv (t, os, s)" "length (handles t @ os) + length (handles t) < 2 ^ 31 - 2"
  shows "\<exists>s'. fork_streams (t, s) = Some (t, s') \<and> fd_inv (t, handles t @ os, s')"
proof -
  let ?t0 = "fd_table_new\<lparr>f_next_fd := f_next_fd t\<rparr>"
  have ok: "fd_ok t" and bal: "sw.balanced (handles t @ os, s)" using assms(1) by (simp_all add: fd_inv_def)
  have t: "?t0\<lparr>f_streams := f_streams ?t0 @ f_streams t\<rparr> = t" by (simp add: fd_table_new_def)
  have "\<exists>s'. copy_streams (f_streams t) (?t0, s) = Some (t, s') \<and> sw.balanced (handles t @ (handles t @ os), s')"
    using copy_streams_ok [of ?t0 "handles t @ os" s "f_streams t"] bal fd_okD(1) [OF ok] assms(2)
    unfolding t by (simp add: handles_def fds_def fd_table_new_def)
  then show ?thesis using ok by (auto simp: fork_streams_def fd_inv_def)
qed

lemma fd_step_inv:
  assumes "fd_step st st'" "fd_inv st"
  shows "fd_inv st'"
  using assms
proof cases
  case (step_add a s hint t os stream fd t' s')
  show ?thesis
  proof (cases "hint = - 1")
    case True
    then show ?thesis using add_stream_new [of t os s a stream] step_add assms(2) by auto
  next
    case False
    then show ?thesis using add_stream_at [of t os s hint a stream fd t' s'] step_add assms(2) by auto
  qed
next
  case (step_close fd t s t' s' os)
  then show ?thesis using close_stream_ok [of t os s fd] assms(2) by auto
next
  case (step_dup oldFd newFd t os s r t' s')
  show ?thesis
  proof (cases "oldFd \<in> fds t")
    case True
    then show ?thesis using dup_stream_ok [of t os s oldFd newFd] step_dup assms(2) by auto
  next
    case False
    then show ?thesis using step_dup assms(2) by (auto simp: dup_stream_def fd_at_None [symmetric])
  qed
next
  case (step_fork t os s child s')
  then show ?thesis using fork_streams_ok [of t os s] assms(2) by auto
next
  case (step_drop h os s s' t)
  then have "sw.balanced (handles t @ os, s)" "h \<in> set (handles t @ os)" "fd_ok t" using assms(2) by (simp_all add: fd_inv_def)
  moreover have "sw.balanced (h # handles t @ remove1 h os, s)"
    using calculation(1) sw.balanced_perm [of "handles t @ os" "h # handles t @ remove1 h os" s] step_drop(3) by simp
  ultimately show ?thesis using sw.balanced_release [of "h # handles t @ remove1 h os" s h] step_drop by (auto simp: fd_inv_def)
qed

lemma fd_reachable_inv: "fd_step\<^sup>*\<^sup>* st st' \<Longrightarrow> fd_inv st \<Longrightarrow> fd_inv st'"
  by (induction rule: rtranclp_induct) (auto intro: fd_step_inv)

definition no_wrappers :: sw_state where
  "no_wrappers = \<lparr>sw_heap = (\<lambda>_. None), sw_deleted = [], sw_asserts = []\<rparr>"

lemma fd_inv_start: "fd_inv (fd_table_new, [], no_wrappers)"
  by (simp add: fd_inv_def fd_ok_def fd_table_new_def fds_def handles_def no_wrappers_def sw.balanced_def sw_count_def)

lemma fd_at_cases: "fd_ok t \<Longrightarrow> fd_at k t = Some h \<longleftrightarrow> (k, h) \<in> set (f_streams t)"
  using fd_okD(1) by (simp add: fd_at_def)

text \<open>Every descriptor of a reachable table names a live stream.\<close>

lemma fd_at_live:
  assumes "fd_inv (t, os, s)" "fd_at k t = Some h"
  shows "\<exists>b n. sw_heap s h = Some (b, n) \<and> h \<noteq> 0 \<and> n = int (count (mset (handles t @ os)) h)" "0 < sw_count s h"
proof -
  have bal: "sw.balanced (handles t @ os, s)" using assms(1) by (simp add: fd_inv_def)
  have live: "h \<noteq> 0" "0 < sw_count s h" using sw.balanced_live [OF bal] handles_mem [OF assms(2)] by auto
  then obtain b n where b: "sw_heap s h = Some (b, n)" "sw_count s h = nat n" by (auto simp: sw_count_def split: option.splits)
  moreover have "sw_count s h = count (mset (handles t @ os)) h" using bal by (simp add: sw.balanced_def)
  ultimately have "n = int (count (mset (handles t @ os)) h)" using live(2) by (metis int_nat_eq zero_less_nat_eq less_le)
  then show "\<exists>b n. sw_heap s h = Some (b, n) \<and> h \<noteq> 0 \<and> n = int (count (mset (handles t @ os)) h)" using b live(1) by blast
  show "0 < sw_count s h" by (rule live(2))
qed

section \<open>Properties\<close>




text \<open>A process with one open stream.\<close>

definition sample_fds :: "fd_table \<times> sw_state" where
  "sample_fds = (\<lparr>f_next_fd = 1, f_streams = [(0, 7)]\<rparr>, no_wrappers\<lparr>sw_heap := [7 \<mapsto> (42, 1)]\<rparr>)"

lemma sample_fds_add: "add_stream 7 42 (- 1) (fd_table_new, no_wrappers) = Some (0, sample_fds)"
  by (simp add: add_stream_def fd_insert_def fd_at_def sw_copy_def sw_clear_def sw_new_def sample_fds_def fd_table_new_def
      no_wrappers_def next_free.simps Let_def)


text \<open>Closing a negative number makes the next stream get that number, which the caller takes for an error.\<close>

lemma close_negative:
  assumes "close_stream (- 5) (fd_table_new, no_wrappers) = Some ts"
  shows "\<exists>ts'. add_stream 7 42 (- 1) ts = Some (- 5, ts')"
  using assms
  by (auto simp: close_stream_def add_stream_def fd_erase_def fd_insert_def fd_at_def sw_copy_def sw_clear_def sw_new_def fd_table_new_def
      no_wrappers_def next_free.simps Let_def)

text \<open>\<^verbatim>\<open>dup\<close> of a descriptor onto itself destroys the entry and then copies from it.\<close>

lemma dup_onto_itself:
  assumes "fd_at fd t = Some h" "fd \<noteq> - 1"
  shows "dup_stream fd fd (t, s) = None"
proof -
  have "fd_at fd (t\<lparr>f_streams := filter (\<lambda>e. fst e \<noteq> fd) (f_streams t)\<rparr>) = None" by (auto simp: fd_at_None fds_def)
  then show ?thesis using assms by (cases "sw_clear h s") (simp_all add: dup_stream_def fd_erase_def Let_def)
qed

end
