(* ===== verification/Dir_Stream.thy ===== *)
theory Dir_Stream
  imports Vnode
begin

text \<open>
  \<^verbatim>\<open>FileStream\<close> and \<^verbatim>\<open>DirectoryStream\<close> (\<^verbatim>\<open>kernel/src/streams/filestream.cpp\<close>, \<^verbatim>\<open>directorystream.cpp\<close>): the streams
  behind the descriptors of open files and directories. The operations of the file system that owns a
  file are parameters, as the code reaches them through virtual functions.
\<close>

section \<open>FileStream\<close>

record 'f fstream =
  fst_file :: 'f
  fst_open :: bool

definition fstream_new :: "'f \<Rightarrow> 'f fstream" where
  "fstream_new file = \<lparr>fst_file = file, fst_open = False\<rparr>"

definition fstream_open :: "('f \<Rightarrow> u32 \<Rightarrow> 's \<Rightarrow> unit value_or_error \<times> 's) \<Rightarrow> u32 \<Rightarrow> 'f fstream \<times> 's \<Rightarrow> unit value_or_error \<times> 'f fstream \<times> 's" where
  "fstream_open fs_open m st = (case st of (f, s) \<Rightarrow>
     (case fs_open (fst_file f) m s of
        (Inl e, s) \<Rightarrow> (Inl e, f, s)
      | (Inr u, s) \<Rightarrow> (Inr u, f\<lparr>fst_open := True\<rparr>, s)))"

text \<open>\<^verbatim>\<open>read\<close>, \<^verbatim>\<open>write\<close>, \<^verbatim>\<open>seek\<close> and \<^verbatim>\<open>ioctl\<close> test the flag and call the operation of the file system.\<close>

definition fstream_call :: "('f \<Rightarrow> 's \<Rightarrow> 'r value_or_error \<times> 's) \<Rightarrow> 'f fstream \<times> 's \<Rightarrow> 'r value_or_error \<times> 's" where
  "fstream_call op st = (case st of (f, s) \<Rightarrow> if \<not> fst_open f then (Inl EBADF, s) else op (fst_file f) s)"

definition fstream_delete :: "('f \<Rightarrow> 's \<Rightarrow> 's) \<Rightarrow> 'f fstream \<times> 's \<Rightarrow> 's" where
  "fstream_delete fs_close st = (case st of (f, s) \<Rightarrow> if fst_open f then fs_close (fst_file f) s else s)"

section \<open>DirectoryStream\<close>

type_synonym dir_entry = "vtype \<times> cstring"

text \<open>The entries are those from \<^verbatim>\<open>f_current_entry\<close> to the end of \<^verbatim>\<open>f_directories\<close>.\<close>

record dir_stream =
  ds_open :: bool
  ds_entries :: "dir_entry list"

definition dir_stream_new :: dir_stream where
  "dir_stream_new = \<lparr>ds_open = False, ds_entries = []\<rparr>"

definition dir_stream_open :: "dir_entry list value_or_error \<Rightarrow> dir_stream \<Rightarrow> unit value_or_error \<times> dir_stream" where
  "dir_stream_open files ds =
     (case files of Inl e \<Rightarrow> (Inl e, ds) | Inr es \<Rightarrow> (Inr (), ds\<lparr>ds_entries := es, ds_open := True\<rparr>))"

fun dirent_type :: "vtype \<Rightarrow> u8" where
  "dirent_type FILE = 8"
| "dirent_type MOUNT = 4"
| "dirent_type DIRECTORY = 4"
| "dirent_type BLOCK_DEVICE = 6"
| "dirent_type CHARACTER_DEVICE = 2"
| "dirent_type LINK = 10"

text \<open>\<^verbatim>\<open>node->name().length() + sizeof(dirent) + 1\<close>; the structure has 24 bytes, its name starts at byte 19.\<close>

definition rec_size :: "dir_entry \<Rightarrow> nat" where
  "rec_size e = length (snd e) + 24 + 1"

definition put_bytes :: "nat \<Rightarrow> u8 list \<Rightarrow> u8 list \<Rightarrow> u8 list" where
  "put_bytes off bs buf = take off buf @ bs @ drop (off + length bs) buf"

definition le_bytes2 :: "u16 \<Rightarrow> u8 list" where
  "le_bytes2 w = [ucast w, ucast (drop_bit 8 w)]"

definition write_dirent :: "nat \<Rightarrow> dir_entry \<Rightarrow> u8 list \<Rightarrow> u8 list" where
  "write_dirent off e buf =
     put_bytes (off + 19) (snd e @ [0])
       (put_bytes (off + 18) [dirent_type (fst e)]
         (put_bytes off (replicate 16 0)
           (put_bytes (off + 16) (le_bytes2 (of_nat (rec_size e))) buf)))"

fun dir_loop :: "nat \<Rightarrow> nat \<Rightarrow> dir_entry list \<Rightarrow> u8 list \<Rightarrow> nat \<times> dir_entry list \<times> u8 list" where
  "dir_loop len readBytes [] buf = (readBytes, [], buf)"
| "dir_loop len readBytes (e # es) buf =
     (if readBytes < len then
        if rec_size e > len - readBytes then (readBytes, es, buf)
        else dir_loop len (readBytes + rec_size e) es (write_dirent readBytes e buf)
      else (readBytes, e # es, buf))"

definition dir_read :: "nat \<Rightarrow> dir_stream \<times> u8 list \<Rightarrow> nat value_or_error \<times> dir_stream \<times> u8 list" where
  "dir_read len st = (case st of (ds, buf) \<Rightarrow>
     (if \<not> ds_open ds then (Inl EBADF, ds, buf)
      else (case dir_loop len 0 (ds_entries ds) buf of (n, es, buf) \<Rightarrow> (Inr n, ds\<lparr>ds_entries := es\<rparr>, buf))))"

definition dir_seek :: "nat value_or_error" where
  "dir_seek = Inl ESPIPE"

section \<open>What the reader finds\<close>

text \<open>The records of \<open>es\<close> lie one after the other from \<open>off\<close> on.\<close>

fun laid_out :: "nat \<Rightarrow> dir_entry list \<Rightarrow> u8 list \<Rightarrow> bool" where
  "laid_out off [] buf \<longleftrightarrow> True"
| "laid_out off (e # es) buf \<longleftrightarrow>
     take 2 (drop (off + 16) buf) = le_bytes2 (of_nat (rec_size e)) \<and> buf ! (off + 18) = dirent_type (fst e) \<and>
     take (length (snd e) + 1) (drop (off + 19) buf) = snd e @ [0] \<and> laid_out (off + rec_size e) es buf"

definition total_size :: "dir_entry list \<Rightarrow> nat" where
  "total_size es = sum_list (map rec_size es)"

lemma length_put_bytes [simp]: "off + length bs \<le> length buf \<Longrightarrow> length (put_bytes off bs buf) = length buf"
  by (simp add: put_bytes_def)

lemma put_bytes_before:
  assumes "i + n \<le> off" "off + length bs \<le> length buf"
  shows "take n (drop i (put_bytes off bs buf)) = take n (drop i buf)"
proof -
  have "take n (drop i (put_bytes off bs buf)) = take n (drop i (take off buf))"
    using assms by (simp add: put_bytes_def)
  also have "\<dots> = take n (drop i buf)" using assms(1) by (simp add: drop_take)
  finally show ?thesis .
qed

lemma put_bytes_after: "off + length bs \<le> i \<Longrightarrow> off + length bs \<le> length buf \<Longrightarrow> drop i (put_bytes off bs buf) = drop i buf"
  by (simp add: put_bytes_def)

lemma put_bytes_inside: "off + length bs \<le> length buf \<Longrightarrow> take (length bs) (drop off (put_bytes off bs buf)) = bs"
  by (simp add: put_bytes_def)

lemma write_dirent_length [simp]: "off + rec_size e \<le> length buf \<Longrightarrow> length (write_dirent off e buf) = length buf"
  by (simp add: write_dirent_def rec_size_def le_bytes2_def)

lemma write_dirent_before: "off + rec_size e \<le> length buf \<Longrightarrow> take off (write_dirent off e buf) = take off buf"
  using put_bytes_before [of 0 off] by (simp add: write_dirent_def rec_size_def le_bytes2_def)

lemma write_dirent_after: "off + rec_size e \<le> length buf \<Longrightarrow> off + rec_size e \<le> i \<Longrightarrow> drop i (write_dirent off e buf) = drop i buf"
  by (simp add: write_dirent_def rec_size_def le_bytes2_def put_bytes_after)

text \<open>Only the bytes up to \<open>n\<close> matter for records that end before \<open>n\<close>.\<close>

lemma laid_out_take: "off + total_size es \<le> n \<Longrightarrow> n \<le> length b \<Longrightarrow> laid_out off es (take n b) = laid_out off es b"
proof (induction es arbitrary: off)
  case (Cons e es)
  have "take 2 (drop (off + 16) (take n b)) = take 2 (drop (off + 16) b)"
    "take (length (snd e) + 1) (drop (off + 19) (take n b)) = take (length (snd e) + 1) (drop (off + 19) b)"
    "take n b ! (off + 18) = b ! (off + 18)"
    using Cons.prems by (simp_all add: drop_take total_size_def rec_size_def)
  then show ?case using Cons by (simp add: total_size_def)
qed simp

lemma laid_out_cong:
  assumes "off + total_size es \<le> n" "take n b = take n c" "n \<le> length b" "n \<le> length c"
  shows "laid_out off es b = laid_out off es c"
  using laid_out_take [OF assms(1,3)] laid_out_take [OF assms(1,4)] assms(2) by simp

lemma write_dirent_laid_out:
  assumes "off + rec_size e \<le> length buf"
  shows "laid_out off [e] (write_dirent off e buf)"
proof -
  let ?b1 = "put_bytes (off + 16) (le_bytes2 (of_nat (rec_size e))) buf"
  let ?b2 = "put_bytes off (replicate 16 0) ?b1"
  let ?b3 = "put_bytes (off + 18) [dirent_type (fst e)] ?b2"
  have len: "off + 19 + length (snd e) + 6 \<le> length buf" using assms by (simp add: rec_size_def)
  have l: "length ?b1 = length buf" "length ?b2 = length buf" "length ?b3 = length buf"
    using len by (simp_all add: le_bytes2_def)
  have "take 2 (drop (off + 16) (put_bytes (off + 19) (snd e @ [0]) ?b3)) = take 2 (drop (off + 16) ?b3)"
    using len l by (intro put_bytes_before) simp_all
  also have "\<dots> = take 2 (drop (off + 16) ?b2)" using len l by (intro put_bytes_before) simp_all
  also have "drop (off + 16) ?b2 = drop (off + 16) ?b1" using len l by (intro put_bytes_after) simp_all
  also have "take 2 (drop (off + 16) ?b1) = le_bytes2 (of_nat (rec_size e))"
    using put_bytes_inside [of "off + 16" "le_bytes2 (of_nat (rec_size e))" buf] len by (simp add: le_bytes2_def numeral_2_eq_2)
  finally have r: "take 2 (drop (off + 16) (put_bytes (off + 19) (snd e @ [0]) ?b3)) = le_bytes2 (of_nat (rec_size e))" .
  have "take 1 (drop (off + 18) (put_bytes (off + 19) (snd e @ [0]) ?b3)) = take 1 (drop (off + 18) ?b3)"
    using len l by (intro put_bytes_before) simp_all
  also have "\<dots> = [dirent_type (fst e)]"
    using put_bytes_inside [of "off + 18" "[dirent_type (fst e)]" ?b2] len l by simp
  finally have "put_bytes (off + 19) (snd e @ [0]) ?b3 ! (off + 18) = dirent_type (fst e)"
    using len l by (simp add: take_Suc hd_drop_conv_nth)
  moreover have "take (length (snd e) + 1) (drop (off + 19) (put_bytes (off + 19) (snd e @ [0]) ?b3)) = snd e @ [0]"
    using put_bytes_inside [of "off + 19" "snd e @ [0]" ?b3] len l by simp
  ultimately show ?thesis using r by (simp add: write_dirent_def)
qed

lemma dir_loop_correct:
  assumes "readBytes \<le> len" "len \<le> length buf" "dir_loop len readBytes es buf = (n, rest, buf')"
  shows "\<exists>k\<le>length es. n = readBytes + total_size (take k es) \<and> n \<le> len \<and> length buf' = length buf \<and>
    take readBytes buf' = take readBytes buf \<and> drop len buf' = drop len buf \<and> laid_out readBytes (take k es) buf' \<and>
    (k < length es \<longrightarrow> len < n + rec_size (es ! k)) \<and>
    rest = (if k < length es \<and> n < len then drop (Suc k) es else drop k es)"
  using assms
proof (induction es arbitrary: readBytes buf)
  case Nil
  then show ?case by (simp add: total_size_def)
next
  case (Cons e es)
  have pos: "0 < rec_size e" by (simp add: rec_size_def)
  show ?case
  proof (cases "readBytes < len \<and> rec_size e \<le> len - readBytes")
    case False
    then show ?thesis using Cons.prems pos by (intro exI [of _ 0]) (auto simp: total_size_def split: if_splits)
  next
    case True
    let ?b = "write_dirent readBytes e buf"
    have fit: "readBytes + rec_size e \<le> len" "readBytes + rec_size e \<le> length buf" using True Cons.prems(2) by auto
    have run: "dir_loop len (readBytes + rec_size e) es ?b = (n, rest, buf')" using Cons.prems(3) True by simp
    have len: "len \<le> length ?b" using Cons.prems(2) fit(2) by simp
    obtain k where k: "k \<le> length es" "n = readBytes + rec_size e + total_size (take k es)" "n \<le> len" "length buf' = length ?b"
      "take (readBytes + rec_size e) buf' = take (readBytes + rec_size e) ?b" "drop len buf' = drop len ?b"
      "laid_out (readBytes + rec_size e) (take k es) buf'"
      "k < length es \<longrightarrow> len < n + rec_size (es ! k)" "rest = (if k < length es \<and> n < len then drop (Suc k) es else drop k es)"
      using Cons.IH [OF fit(1) len run] by blast
    have "take readBytes buf' = take readBytes ?b"
      using arg_cong [OF k(5), of "take readBytes"] by simp
    then have before: "take readBytes buf' = take readBytes buf" using write_dirent_before [OF fit(2)] by simp
    have "laid_out readBytes [e] ?b" by (rule write_dirent_laid_out [OF fit(2)])
    then have "laid_out readBytes [e] buf'"
      using laid_out_cong [of readBytes "[e]" "readBytes + rec_size e" buf' ?b] k(4,5) fit(2) by (simp add: total_size_def)
    then have "laid_out readBytes (e # take k es) buf'" using k(7) by simp
    moreover have "drop len buf' = drop len buf" using k(6) write_dirent_after [OF fit(2,1)] by simp
    ultimately show ?thesis
      using k before fit(2) by (intro exI [of _ "Suc k"]) (simp add: total_size_def)
  qed
qed

section \<open>Properties\<close>

text \<open>C22: a read from an open directory fills in the records of the first \<open>k\<close> entries, as many as fit, one after the
  other and nothing beyond the \<open>len\<close> bytes of the caller, and returns their size. When there is a further entry and
  bytes are left, that entry is consumed although it was not returned: the next read goes on after it.\<close>
theorem dir_read_records:
  assumes "ds_open ds" "len \<le> length buf"
  shows "\<exists>k n ds' buf'. dir_read len (ds, buf) = (Inr n, ds', buf') \<and> k \<le> length (ds_entries ds) \<and>
    n = total_size (take k (ds_entries ds)) \<and> n \<le> len \<and> laid_out 0 (take k (ds_entries ds)) buf' \<and>
    length buf' = length buf \<and> drop len buf' = drop len buf \<and>
    (k < length (ds_entries ds) \<longrightarrow> len < n + rec_size (ds_entries ds ! k)) \<and>
    ds_entries ds' = (if k < length (ds_entries ds) \<and> n < len then drop (Suc k) (ds_entries ds) else drop k (ds_entries ds))"
proof -
  obtain n es buf' where r: "dir_loop len 0 (ds_entries ds) buf = (n, es, buf')" by (metis prod_cases3)
  obtain k where "k \<le> length (ds_entries ds)" "n = total_size (take k (ds_entries ds))" "n \<le> len" "length buf' = length buf"
    "drop len buf' = drop len buf" "laid_out 0 (take k (ds_entries ds)) buf'"
    "k < length (ds_entries ds) \<longrightarrow> len < n + rec_size (ds_entries ds ! k)"
    "es = (if k < length (ds_entries ds) \<and> n < len then drop (Suc k) (ds_entries ds) else drop k (ds_entries ds))"
    using dir_loop_correct [OF _ assms(2) r] by auto
  then show ?thesis
    using assms(1) r by (intro exI [of _ k] exI [of _ n] exI [of _ "ds\<lparr>ds_entries := es\<rparr>"] exI [of _ buf']) (simp add: dir_read_def)
qed

text \<open>A directory of two entries read with room for one and a half: the second is lost.\<close>

definition sample_dir :: dir_stream where
  "sample_dir = \<lparr>ds_open = True, ds_entries = [(FILE, [0x61]), (DIRECTORY, [0x62])]\<rparr>"

theorem dir_read_records_witness:
  "\<exists>ds' buf'. dir_read 40 (sample_dir, replicate 64 0) = (Inr 26, ds', buf') \<and> laid_out 0 [(FILE, [0x61])] buf' \<and> ds_entries ds' = []"
proof -
  have o: "ds_open sample_dir" and two: "length (ds_entries sample_dir) = 2" and l: "40 \<le> length (replicate 64 (0::u8))"
    by (simp_all add: sample_dir_def)
  obtain k n ds' buf' where r: "dir_read 40 (sample_dir, replicate 64 0) = (Inr n, ds', buf')" "k \<le> 2"
    "n = total_size (take k (ds_entries sample_dir))" "n \<le> 40" "laid_out 0 (take k (ds_entries sample_dir)) buf'"
    "k < 2 \<longrightarrow> 40 < n + rec_size (ds_entries sample_dir ! k)"
    "ds_entries ds' = (if k < 2 \<and> n < 40 then drop (Suc k) (ds_entries sample_dir) else drop k (ds_entries sample_dir))"
    using dir_read_records [OF o l, unfolded two] by blast
  moreover have "k = 1"
  proof -
    have False if "k = 0" using r(3,6) that by (simp add: sample_dir_def total_size_def rec_size_def)
    moreover have False if "k = 2" using r(3,4) that by (simp add: sample_dir_def total_size_def rec_size_def)
    ultimately show ?thesis using r(2) by (cases "k = 0"; cases "k = 2") auto
  qed
  ultimately show ?thesis by (simp add: sample_dir_def total_size_def rec_size_def)
qed

end
