(* ===== verification/Process_Memory.thy ===== *)
theory Process_Memory
  imports Ppage Pager_Walk Refcount
begin

unbundle bit_operations_syntax

text \<open>
  The memory of a process (\<^verbatim>\<open>kernel/src/tasking/process.cpp\<close>, the address-space part of \<^verbatim>\<open>Process::fork\<close> and the
  \<^verbatim>\<open>mmap\<close> and \<^verbatim>\<open>munmap\<close> system calls). \<^verbatim>\<open>f_memorymap\<close> is the list of its entries, a virtual address and the
  \<^verbatim>\<open>SharedPtr\<close> to a \<^verbatim>\<open>MemoryEntry\<close>; its \<^verbatim>\<open>insert\<close> keeps an entry that is already there. Objects made by \<^verbatim>\<open>new\<close>
  get increasing addresses. \<open>None\<close> stands for an access through a null or dangling pointer, a fault of the
  kernel itself, or a call of the pager or the page allocator that does not return.
\<close>

section \<open>State\<close>

record file_page =
  fp_file :: nat
  fp_start_addr :: virtaddr_t
  fp_offset :: size_t
  fp_shared :: bool
  fp_write :: bool
  fp_execute :: bool

record memory_file_page =
  mf_file :: nat
  mf_page :: nat
  mf_offset :: size_t
  mf_copy_on_write :: bool
  mf_dirty :: bool
  mf_flags :: page_flags

text \<open>What the \<^verbatim>\<open>page\<close> pointer of an entry refers to; the constructor is the entry's \<^verbatim>\<open>type\<close>. A page handle is an address
  of the heap of \<^verbatim>\<open>PhysicalPage\<close>, and \<open>ANONYMOUS_SHARED\<close> is a \<^verbatim>\<open>SharedAnonymousPage\<close> with its \<^verbatim>\<open>f_page\<close>.\<close>

datatype page_ref =
    MEMORY nat
  | ANONYMOUS anonymous_page
  | ANONYMOUS_SHARED anonymous_page nat
  | FILE_PAGES file_page
  | FILE_MEMORY memory_file_page
  | EMPTY

record memory_entry =
  me_page :: page_ref
  me_shared :: bool

record mstate =
  ms_vm :: vmem
  ms_pages :: "nat \<Rightarrow> pp_data option"
  ms_asserts :: "string list"
  ms_entries :: "memory_entry sp_state"
  ms_content :: "physaddr_t \<Rightarrow> u8 list"
  ms_shared_pages :: "nat \<Rightarrow> size_t \<Rightarrow> nat option"
  ms_next :: nat

record proc_mem =
  p_pager :: pager
  p_lock :: recursive_mutex
  p_first_free :: virtaddr_t
  p_memorymap :: "(virtaddr_t \<times> nat) list"

type_synonym mproc = "proc_mem \<times> mstate"

text \<open>The operations of the file system that owns a file: \<^verbatim>\<open>resolve_mapping\<close>, which returns the handle of a page
  (0 for none), and \<^verbatim>\<open>sync_mapping\<close>.\<close>

record fs_ops =
  fs_resolve :: "file_page \<Rightarrow> virtaddr_t \<Rightarrow> mstate \<Rightarrow> (nat \<times> mstate) option"
  fs_sync :: "memory_file_page \<Rightarrow> mstate \<Rightarrow> mstate option"

definition MMAP_MIN_ADDR :: virtaddr_t where "MMAP_MIN_ADDR = 0x100000"
definition MMAP_PROT_WRITE :: u32 where "MMAP_PROT_WRITE = 2"
definition MMAP_PROT_EXEC :: u32 where "MMAP_PROT_EXEC = 4"
definition MMAP_FLAG_SHARED :: u32 where "MMAP_FLAG_SHARED = 1"
definition MMAP_FLAG_ANONYMOUS :: u32 where "MMAP_FLAG_ANONYMOUS = 2"
definition MMAP_FLAG_ZERO :: u32 where "MMAP_FLAG_ZERO = 8"

text \<open>\<^verbatim>\<open>addr & ~0xFFF\<close>\<close>

definition page_base :: "virtaddr_t \<Rightarrow> virtaddr_t" where
  "page_base addr = addr AND NOT 0xFFF"

definition page_at :: "virtaddr_t \<Rightarrow> nat \<Rightarrow> virtaddr_t" where
  "page_at addr i = addr + push_bit 12 (of_nat i)"

section \<open>Access to the components\<close>

definition on_pages :: "(pp_state \<Rightarrow> ('a \<times> pp_state) option) \<Rightarrow> mstate \<Rightarrow> ('a \<times> mstate) option" where
  "on_pages f s =
     map_option (\<lambda>(x, q). (x, s\<lparr>ms_vm := (ms_vm s)\<lparr>vm_pmm := pp_pmm q\<rparr>, ms_pages := pp_heap q, ms_asserts := pp_asserts q\<rparr>))
       (f \<lparr>pp_pmm = vm_pmm (ms_vm s), pp_heap = ms_pages s, pp_asserts = ms_asserts s\<rparr>)"

definition upd_pages :: "(pp_state \<Rightarrow> pp_state option) \<Rightarrow> mstate \<Rightarrow> mstate option" where
  "upd_pages f s = map_option snd (on_pages (\<lambda>q. map_option (Pair ()) (f q)) s)"

definition on_pager :: "(pstate \<Rightarrow> ('a \<times> pstate) option) \<Rightarrow> mproc \<Rightarrow> ('a \<times> mproc) option" where
  "on_pager f st = (case st of (p, s) \<Rightarrow>
     map_option (\<lambda>(x, pg, v). (x, p\<lparr>p_pager := pg\<rparr>, s\<lparr>ms_vm := v\<rparr>)) (f (p_pager p, ms_vm s)))"

definition upd_pager :: "(pstate \<Rightarrow> pstate option) \<Rightarrow> mproc \<Rightarrow> mproc option" where
  "upd_pager f st = map_option snd (on_pager (\<lambda>q. map_option (Pair ()) (f q)) st)"

definition on_mem :: "(mstate \<Rightarrow> ('a \<times> mstate) option) \<Rightarrow> mproc \<Rightarrow> ('a \<times> mproc) option" where
  "on_mem f st = (case st of (p, s) \<Rightarrow> map_option (\<lambda>(x, s). (x, p, s)) (f s))"

definition upd_mem :: "(mstate \<Rightarrow> mstate option) \<Rightarrow> mproc \<Rightarrow> mproc option" where
  "upd_mem f st = (case st of (p, s) \<Rightarrow> map_option (Pair p) (f s))"

text \<open>\<^verbatim>\<open>Locker lock(f_lock)\<close>\<close>

definition with_lock :: "(mproc \<Rightarrow> ('a \<times> mproc) option) \<Rightarrow> mproc \<Rightarrow> ('a \<times> mproc) option" where
  "with_lock f st = (case st of (p, s) \<Rightarrow> do {
     m \<leftarrow> rm_lock (running (ms_vm s)) (p_lock p);
     (x, p, s) \<leftarrow> f (p\<lparr>p_lock := m\<rparr>, s);
     (case rm_unlock (running (ms_vm s)) (p_lock p) of (ok, m) \<Rightarrow>
        Some (x, p\<lparr>p_lock := m\<rparr>, s\<lparr>ms_vm := assert_f ok ''You are not the owner of this lock'' (ms_vm s)\<rparr>)) })"

definition locked :: "(mproc \<Rightarrow> mproc option) \<Rightarrow> mproc \<Rightarrow> mproc option" where
  "locked f st = map_option snd (with_lock (\<lambda>st. map_option (Pair ()) (f st)) st)"

section \<open>Entries\<close>

text \<open>\<^verbatim>\<open>std::make_shared<MemoryEntry>()\<close>\<close>

definition new_entry :: "memory_entry \<Rightarrow> mstate \<Rightarrow> nat \<times> mstate" where
  "new_entry x s = (ms_next s, s\<lparr>ms_entries := make_shared (ms_next s) x (ms_entries s), ms_next := ms_next s + 1\<rparr>)"

definition new_page :: "mstate \<Rightarrow> (nat \<times> mstate) option" where
  "new_page s = on_pages (pp_new (ms_next s)) (s\<lparr>ms_next := ms_next s + 1\<rparr>)"

text \<open>\<^verbatim>\<open>~MemoryEntry\<close>; \<^verbatim>\<open>~MemoryFilePage\<close> first calls \<^verbatim>\<open>unref\<close>.\<close>

definition entry_destroy :: "memory_entry \<Rightarrow> mstate \<Rightarrow> mstate option" where
  "entry_destroy x s = (case me_page x of
     MEMORY h \<Rightarrow> upd_pages (\<lambda>q. map_option snd (pp_delete h q)) s
   | ANONYMOUS ap \<Rightarrow> Some s
   | ANONYMOUS_SHARED ap h \<Rightarrow> upd_pages (\<lambda>q. map_option snd (pp_delete h q)) s
   | FILE_PAGES fp \<Rightarrow> Some s
   | FILE_MEMORY mf \<Rightarrow> do {
       s \<leftarrow> upd_pages (pp_unref (mf_page mf)) s;
       upd_pages (\<lambda>q. map_option snd (pp_delete (mf_page mf) q)) s }
   | EMPTY \<Rightarrow> Some s)"

text \<open>\<^verbatim>\<open>~SharedPtr<MemoryEntry>\<close>\<close>

definition drop_entry :: "nat \<Rightarrow> mstate \<Rightarrow> mstate option" where
  "drop_entry e s = do {
     (x, n) \<leftarrow> sp_heap (ms_entries s) e;
     es \<leftarrow> sp_clear e (ms_entries s);
     (if n = 1 then entry_destroy x (s\<lparr>ms_entries := es\<rparr>) else Some (s\<lparr>ms_entries := es\<rparr>)) }"

definition mm_at :: "virtaddr_t \<Rightarrow> proc_mem \<Rightarrow> nat option" where
  "mm_at addr p = map_of (p_memorymap p) addr"

definition mm_insert :: "virtaddr_t \<Rightarrow> nat \<Rightarrow> mproc \<Rightarrow> mproc option" where
  "mm_insert addr e st = (case st of (p, s) \<Rightarrow>
     if mm_at addr p \<noteq> None then Some (p, s)
     else map_option (\<lambda>es. (p\<lparr>p_memorymap := p_memorymap p @ [(addr, e)]\<rparr>, s\<lparr>ms_entries := es\<rparr>)) (sp_copy e (ms_entries s)))"

definition mm_erase :: "virtaddr_t \<Rightarrow> mproc \<Rightarrow> mproc option" where
  "mm_erase addr st = (case st of (p, s) \<Rightarrow>
     (case mm_at addr p of
        None \<Rightarrow> Some (p, s)
      | Some e \<Rightarrow> map_option (Pair (p\<lparr>p_memorymap := filter (\<lambda>x. fst x \<noteq> addr) (p_memorymap p)\<rparr>)) (drop_entry e s)))"

section \<open>Mapping and unmapping\<close>

definition unmap_one :: "fs_ops \<Rightarrow> virtaddr_t \<Rightarrow> mproc \<Rightarrow> mproc option" where
  "unmap_one fs key st = (case mm_at key (fst st) of
     None \<Rightarrow> Some st
   | Some e \<Rightarrow> do {
       x \<leftarrow> sp_value e (ms_entries (snd st));
       st \<leftarrow> (case me_page x of
           MEMORY h \<Rightarrow> do {
             (_, st) \<leftarrow> on_pager (pager_unmap key 1) st;
             upd_mem (upd_pages (pp_unref h)) st }
         | FILE_MEMORY mf \<Rightarrow> do {
             (_, st) \<leftarrow> on_pager (pager_unmap key 1) st;
             (if me_shared x then upd_mem (fs_sync fs mf) st else Some st) }
         | _ \<Rightarrow> Some st);
       mm_erase key st })"

definition unmap_pages :: "fs_ops \<Rightarrow> virtaddr_t \<Rightarrow> size_t \<Rightarrow> mproc \<Rightarrow> mproc option" where
  "unmap_pages fs addr len = locked (\<lambda>st. do {
     st \<leftarrow> upd_pager pager_lock st;
     st \<leftarrow> foldM (\<lambda>i. unmap_one fs (page_at addr i)) [0..<unat len] st;
     upd_pager (\<lambda>q. Some (pager_unlock q)) st })"

definition set_page_mapping :: "fs_ops \<Rightarrow> virtaddr_t \<Rightarrow> nat \<Rightarrow> mproc \<Rightarrow> mproc option" where
  "set_page_mapping fs addr e = locked (\<lambda>st. do {
     st \<leftarrow> (if mm_at addr (fst st) \<noteq> None then unmap_pages fs addr 1 st else Some st);
     mm_insert addr e st })"

text \<open>\<^verbatim>\<open>if(f_first_free == addr) f_first_free = addr + ...\<close>\<close>

definition bump_first_free :: "virtaddr_t \<Rightarrow> virtaddr_t \<Rightarrow> mproc \<Rightarrow> mproc" where
  "bump_first_free addr sz st = (case st of (p, s) \<Rightarrow>
     (if p_first_free p = addr then p\<lparr>p_first_free := addr + sz\<rparr> else p, s))"

definition map_page :: "fs_ops \<Rightarrow> virtaddr_t \<Rightarrow> nat \<Rightarrow> bool \<Rightarrow> mproc \<Rightarrow> mproc option" where
  "map_page fs addr page shared = locked (\<lambda>st. do {
     st \<leftarrow> upd_pager pager_lock st;
     st \<leftarrow> upd_mem (upd_pages (pp_ref page)) st;
     d \<leftarrow> ms_pages (snd st) page;
     st \<leftarrow> upd_pager (pager_map (d_addr d) addr 1 (d_flags d)) st;
     (h, st) \<leftarrow> on_mem (on_pages (pp_copy page)) st;
     (ptr, st) \<leftarrow> on_mem (\<lambda>s. Some (new_entry \<lparr>me_page = MEMORY h, me_shared = shared\<rparr> s)) st;
     st \<leftarrow> upd_pager (\<lambda>q. Some (pager_unlock q)) st;
     st \<leftarrow> set_page_mapping fs addr ptr st;
     st \<leftarrow> upd_mem (drop_entry ptr) (bump_first_free addr 4096 st);
     Some st })"

text \<open>\<^verbatim>\<open>PageFlags(1, prot & MMAP_PROT_WRITE, 1, prot & MMAP_PROT_EXEC, 0, 0)\<close>\<close>

definition prot_flags :: "u32 \<Rightarrow> page_flags" where
  "prot_flags prot = \<lparr>present = True, writable = (prot AND MMAP_PROT_WRITE \<noteq> 0), user_accesible = True,
     executable = (prot AND MMAP_PROT_EXEC \<noteq> 0), global = False, cache_disable = False, dirty = False\<rparr>"

text \<open>One entry shared by all the pages of a range, which the local \<^verbatim>\<open>ptr\<close> gives up at the end.\<close>

definition map_entry_range :: "fs_ops \<Rightarrow> memory_entry \<Rightarrow> virtaddr_t \<Rightarrow> size_t \<Rightarrow> mproc \<Rightarrow> mproc option" where
  "map_entry_range fs x addr len st = do {
     (ptr, st) \<leftarrow> on_mem (\<lambda>s. Some (new_entry x s)) st;
     st \<leftarrow> foldM (\<lambda>i. set_page_mapping fs (page_at addr i) ptr) [0..<unat len] st;
     upd_mem (drop_entry ptr) (bump_first_free addr (push_bit 12 len) st) }"

definition alloc_shared_page :: "fs_ops \<Rightarrow> anonymous_page \<Rightarrow> virtaddr_t \<Rightarrow> mproc \<Rightarrow> mproc option" where
  "alloc_shared_page fs ap key st = do {
     (ptr, st) \<leftarrow> on_mem (\<lambda>s. Some (new_entry \<lparr>me_page = ANONYMOUS_SHARED ap 0, me_shared = True\<rparr> s)) st;
     st \<leftarrow> set_page_mapping fs key ptr st;
     upd_mem (drop_entry ptr) st }"

definition alloc_pages :: "fs_ops \<Rightarrow> virtaddr_t \<Rightarrow> size_t \<Rightarrow> u32 \<Rightarrow> u32 \<Rightarrow> mproc \<Rightarrow> mproc option" where
  "alloc_pages fs addr len flags prot = locked (\<lambda>st.
     let ap = \<lparr>ap_flags = prot_flags prot, ap_zero = (flags AND MMAP_FLAG_ZERO \<noteq> 0)\<rparr>
     in if flags AND MMAP_FLAG_SHARED \<noteq> 0 \<and> prot \<noteq> 0 then
          map_option (bump_first_free addr (push_bit 12 len)) (foldM (\<lambda>i. alloc_shared_page fs ap (page_at addr i)) [0..<unat len] st)
        else map_entry_range fs \<lparr>me_page = ANONYMOUS ap, me_shared = False\<rparr> addr len st)"

definition null_pages :: "fs_ops \<Rightarrow> virtaddr_t \<Rightarrow> size_t \<Rightarrow> mproc \<Rightarrow> mproc option" where
  "null_pages fs addr len = locked (map_entry_range fs \<lparr>me_page = EMPTY, me_shared = False\<rparr> addr len)"

definition file_pages :: "fs_ops \<Rightarrow> virtaddr_t \<Rightarrow> size_t \<Rightarrow> file_page \<Rightarrow> mproc \<Rightarrow> mproc option" where
  "file_pages fs addr len fp = locked (map_entry_range fs \<lparr>me_page = FILE_PAGES fp, me_shared = fp_shared fp\<rparr> addr len)"

text \<open>\<^verbatim>\<open>get_free_addr\<close>: the search from \<open>addr\<close> on.\<close>

partial_function (option) free_addr_from :: "virtaddr_t \<Rightarrow> size_t \<Rightarrow> proc_mem \<Rightarrow> virtaddr_t option" where
  "free_addr_from addr len p =
     (if addr < KERNEL_START then
        (case find (\<lambda>i. mm_at (page_at addr i) p \<noteq> None) [0..<unat len] of
           None \<Rightarrow> Some addr
         | Some i \<Rightarrow> free_addr_from (addr + 4096 * (of_nat i + 1)) len p)
      else Some 0)"

definition get_free_addr :: "virtaddr_t \<Rightarrow> size_t \<Rightarrow> mproc \<Rightarrow> (virtaddr_t \<times> mproc) option" where
  "get_free_addr hint len = with_lock (\<lambda>(p, s).
     map_option (\<lambda>a. (a, p, s)) (free_addr_from (if hint \<noteq> 0 then hint else p_first_free p) len p))"

section \<open>Page faults\<close>

text \<open>The frame behind a virtual address, and the accesses of the kernel through the page tables of the process.\<close>

definition frame_at :: "virtaddr_t \<Rightarrow> mproc \<Rightarrow> physaddr_t option" where
  "frame_at addr st =
     (let e = space (p_pager (fst st)) (ms_vm (snd st)) (vpage_of (drop_bit 12 addr))
      in if e_present e then Some (table_addr e) else None)"

definition copy_page :: "virtaddr_t \<Rightarrow> virtaddr_t \<Rightarrow> mproc \<Rightarrow> mproc option" where
  "copy_page dst src st = do {
     d \<leftarrow> frame_at dst st;
     a \<leftarrow> frame_at src st;
     Some (fst st, (snd st)\<lparr>ms_content := (ms_content (snd st))(d := ms_content (snd st) a)\<rparr>) }"

definition zero_page :: "virtaddr_t \<Rightarrow> mproc \<Rightarrow> mproc option" where
  "zero_page dst st = do {
     d \<leftarrow> frame_at dst st;
     Some (fst st, (snd st)\<lparr>ms_content := (ms_content (snd st))(d := replicate 4096 0)\<rparr>) }"

definition set_entry :: "nat \<Rightarrow> memory_entry \<Rightarrow> mstate \<Rightarrow> mstate option" where
  "set_entry e x s =
     map_option (\<lambda>(_, n). s\<lparr>ms_entries := (ms_entries s)\<lparr>sp_heap := (sp_heap (ms_entries s))(e \<mapsto> (x, n))\<rparr>\<rparr>) (sp_heap (ms_entries s) e)"

definition set_copy_on_write :: "nat \<Rightarrow> bool \<Rightarrow> pp_state \<Rightarrow> pp_state option" where
  "set_copy_on_write h b q = pp_upd h (\<lambda>d. d\<lparr>d_copy_on_write := b\<rparr>) q"

text \<open>\<^verbatim>\<open>PageFlags(1, 1, 0, 0, 1, 0)\<close>\<close>

definition kernel_flags :: page_flags where
  "kernel_flags = flags_default\<lparr>writable := True, global := True\<rparr>"

text \<open>The page that replaces a shared one: a new page filled from the virtual address \<open>src\<close>, mapped at \<open>key\<close> with the
  flags \<open>fl\<close>. The new page is held by the caller.\<close>

definition copy_on_write :: "virtaddr_t \<Rightarrow> virtaddr_t \<Rightarrow> (nat \<Rightarrow> mproc \<Rightarrow> (page_flags \<times> mproc) option) \<Rightarrow> mproc \<Rightarrow> (nat \<times> mproc) option" where
  "copy_on_write src key flags_of st = do {
     (n, st) \<leftarrow> on_mem new_page st;
     st \<leftarrow> upd_pager pager_lock st;
     nd \<leftarrow> ms_pages (snd st) n;
     (vaddr, st) \<leftarrow> on_pager (kmap (d_addr nd) 1 kernel_flags) st;
     st \<leftarrow> copy_page vaddr src st;
     st \<leftarrow> upd_mem (upd_pages (pp_ref n)) st;
     (fl, st) \<leftarrow> flags_of n st;
     st \<leftarrow> upd_pager (pager_map (d_addr nd) key 1 fl) st;
     (_, st) \<leftarrow> on_pager (pager_unmap vaddr 1) st;
     st \<leftarrow> upd_pager (\<lambda>q. Some (pager_unlock q)) st;
     Some (n, st) }"

definition drop_page :: "nat \<Rightarrow> mproc \<Rightarrow> mproc option" where
  "drop_page h st = upd_mem (upd_pages (\<lambda>q. map_option snd (pp_delete h q))) st"

definition fault_memory :: "virtaddr_t \<Rightarrow> u32 \<Rightarrow> nat \<Rightarrow> memory_entry \<Rightarrow> nat \<Rightarrow> mproc \<Rightarrow> (bool \<times> mproc) option" where
  "fault_memory key code e x h st = do {
     d \<leftarrow> ms_pages (snd st) h;
     (if code AND 2 \<noteq> 0 \<and> d_copy_on_write d then
        if d_ref_count d > 1 then do {
          (n, st) \<leftarrow> copy_on_write key key (\<lambda>n st. do {
            st \<leftarrow> upd_mem (upd_pages (pp_set_flags n ((d_flags d)\<lparr>writable := True\<rparr>))) st;
            Some ((d_flags d)\<lparr>writable := True\<rparr>, st) }) st;
          st \<leftarrow> upd_mem (upd_pages (pp_unref h)) st;
          st \<leftarrow> drop_page h st;
          (h', st) \<leftarrow> on_mem (on_pages (pp_copy n)) st;
          st \<leftarrow> upd_mem (set_entry e (x\<lparr>me_page := MEMORY h'\<rparr>)) st;
          st \<leftarrow> drop_page n st;
          Some (True, st) }
        else do {
          st \<leftarrow> upd_pager pager_lock st;
          st \<leftarrow> upd_mem (upd_pages (set_copy_on_write h False)) st;
          st \<leftarrow> upd_mem (upd_pages (pp_set_flags h ((d_flags d)\<lparr>writable := True\<rparr>))) st;
          st \<leftarrow> upd_pager (pager_map (d_addr d) key 1 ((d_flags d)\<lparr>writable := True\<rparr>)) st;
          st \<leftarrow> upd_pager (\<lambda>q. Some (pager_unlock q)) st;
          Some (True, st) }
      else Some (code AND 1 = 0, st)) }"

text \<open>\<^verbatim>\<open>AnonymousPage::resolve\<close>: the filling with zeros goes through the page tables of the faulting process, which are
  the active ones.\<close>

definition resolve_anonymous :: "anonymous_page \<Rightarrow> mproc \<Rightarrow> (nat \<times> mproc) option" where
  "resolve_anonymous ap st = do {
     (h, st) \<leftarrow> on_mem (\<lambda>s. on_pages (anonymous_resolve (\<lambda>_. Some) (ms_next s) (ap\<lparr>ap_zero := False\<rparr>)) (s\<lparr>ms_next := ms_next s + 1\<rparr>)) st;
     (if ap_zero ap then do {
        st \<leftarrow> upd_pager pager_lock st;
        d \<leftarrow> ms_pages (snd st) h;
        (vaddr, st) \<leftarrow> on_pager (kmap (d_addr d) 1 (flags_default\<lparr>writable := True\<rparr>)) st;
        st \<leftarrow> zero_page vaddr st;
        (_, st) \<leftarrow> on_pager (pager_unmap vaddr 1) st;
        st \<leftarrow> upd_pager (\<lambda>q. Some (pager_unlock q)) st;
        Some (h, st) }
      else Some (h, st)) }"

definition resolve_shared :: "nat \<Rightarrow> memory_entry \<Rightarrow> anonymous_page \<Rightarrow> nat \<Rightarrow> mproc \<Rightarrow> (nat \<times> mproc) option" where
  "resolve_shared e x ap f st = do {
     (null, st) \<leftarrow> on_mem (on_pages (\<lambda>q. map_option (\<lambda>b. (b, q)) (pp_is_null f q))) st;
     (f, st) \<leftarrow> (if null then do {
         (page, st) \<leftarrow> resolve_anonymous ap st;
         (f, st) \<leftarrow> on_mem (on_pages (pp_assign f page)) st;
         st \<leftarrow> drop_page page st;
         st \<leftarrow> upd_mem (set_entry e (x\<lparr>me_page := ANONYMOUS_SHARED ap f\<rparr>)) st;
         Some (f, st) }
       else Some (f, st));
     on_mem (on_pages (pp_copy f)) st }"

text \<open>The page found for an anonymous mapping replaces its entry and is cleared.\<close>

definition fault_anonymous :: "fs_ops \<Rightarrow> virtaddr_t \<Rightarrow> bool \<Rightarrow> nat \<times> mproc \<Rightarrow> (bool \<times> mproc) option" where
  "fault_anonymous fs key shared hst = (case hst of (h, st) \<Rightarrow> do {
     (null, st) \<leftarrow> on_mem (on_pages (\<lambda>q. map_option (\<lambda>b. (b, q)) (pp_is_null h q))) st;
     (if null then do { st \<leftarrow> drop_page h st; Some (False, st) }
      else do {
        st \<leftarrow> map_page fs key h shared st;
        st \<leftarrow> zero_page key st;
        st \<leftarrow> drop_page h st;
        Some (True, st) }) })"

definition file_page_flags :: "file_page \<Rightarrow> page_flags" where
  "file_page_flags fp = \<lparr>present = True, writable = fp_write fp, user_accesible = True, executable = fp_execute fp,
     global = False, cache_disable = False, dirty = False\<rparr>"

definition fault_file :: "fs_ops \<Rightarrow> virtaddr_t \<Rightarrow> file_page \<Rightarrow> mproc \<Rightarrow> (bool \<times> mproc) option" where
  "fault_file fs fault fp st = do {
     (h, st) \<leftarrow> on_mem (fs_resolve fs fp fault) st;
     (null, st) \<leftarrow> on_mem (on_pages (\<lambda>q. map_option (\<lambda>b. (b, q)) (pp_is_null h q))) st;
     (if null then do { st \<leftarrow> drop_page h st; Some (False, st) }
      else do {
        d \<leftarrow> ms_pages (snd st) h;
        (h', st) \<leftarrow> on_mem (on_pages (pp_copy h)) st;
        let cow = (d_ref_count d \<noteq> 0 \<and> \<not> fp_shared fp \<and> fp_write fp);
        let fl = (if cow then (file_page_flags fp)\<lparr>writable := False\<rparr> else file_page_flags fp);
        let mf = \<lparr>mf_file = fp_file fp, mf_page = h', mf_offset = page_base (fault - fp_start_addr fp),
                  mf_copy_on_write = cow, mf_dirty = False, mf_flags = fl\<rparr>;
        (ptr, st) \<leftarrow> on_mem (\<lambda>s. Some (new_entry \<lparr>me_page = FILE_MEMORY mf, me_shared = fp_shared fp\<rparr> s)) st;
        st \<leftarrow> upd_pager pager_lock st;
        st \<leftarrow> upd_mem (upd_pages (pp_ref h)) st;
        st \<leftarrow> upd_pager (pager_map (d_addr d) (page_base fault) 1 fl) st;
        st \<leftarrow> upd_pager (\<lambda>q. Some (pager_unlock q)) st;
        st \<leftarrow> set_page_mapping fs (page_base fault) ptr st;
        st \<leftarrow> upd_mem (drop_entry ptr) st;
        st \<leftarrow> drop_page h st;
        Some (True, st) }) }"

text \<open>\<^verbatim>\<open>vnode->f_shared_pages.erase(...)\<close>\<close>

definition steal_page :: "memory_file_page \<Rightarrow> mstate \<Rightarrow> mstate option" where
  "steal_page mf s = (case ms_shared_pages s (mf_file mf) (mf_offset mf) of
     None \<Rightarrow> Some s
   | Some h \<Rightarrow> upd_pages (\<lambda>q. map_option snd (pp_delete h q))
       (s\<lparr>ms_shared_pages := (ms_shared_pages s)(mf_file mf := (ms_shared_pages s (mf_file mf))(mf_offset mf := None))\<rparr>))"

text \<open>The copy of a file page is filled from \<^verbatim>\<open>fault_address & !0xFFF\<close>, which is address 0.\<close>

definition fault_file_memory :: "virtaddr_t \<Rightarrow> u32 \<Rightarrow> nat \<Rightarrow> memory_entry \<Rightarrow> memory_file_page \<Rightarrow> mproc \<Rightarrow> (bool \<times> mproc) option" where
  "fault_file_memory key code e x mf st =
     (if code AND 2 \<noteq> 0 \<and> mf_copy_on_write mf then do {
        d \<leftarrow> ms_pages (snd st) (mf_page mf);
        let fl = (mf_flags mf)\<lparr>writable := True\<rparr>;
        (if d_ref_count d > 1 then do {
           (n, st) \<leftarrow> copy_on_write 0 key (\<lambda>_ st. Some (fl, st)) st;
           st \<leftarrow> upd_mem (upd_pages (pp_unref (mf_page mf))) st;
           (h, st) \<leftarrow> on_mem (on_pages (pp_assign (mf_page mf) n)) st;
           st \<leftarrow> upd_mem (set_entry e (x\<lparr>me_page := FILE_MEMORY (mf\<lparr>mf_page := h, mf_flags := fl, mf_copy_on_write := False\<rparr>)\<rparr>)) st;
           st \<leftarrow> drop_page n st;
           Some (True, st) }
         else do {
           st \<leftarrow> upd_mem (steal_page mf) st;
           st \<leftarrow> upd_pager pager_lock st;
           st \<leftarrow> upd_mem (set_entry e (x\<lparr>me_page := FILE_MEMORY (mf\<lparr>mf_flags := fl, mf_copy_on_write := False\<rparr>)\<rparr>)) st;
           st \<leftarrow> upd_pager (pager_map (d_addr d) key 1 fl) st;
           st \<leftarrow> upd_pager (\<lambda>q. Some (pager_unlock q)) st;
           Some (True, st) }) }
      else Some (False, st))"

definition handle_page_fault :: "fs_ops \<Rightarrow> virtaddr_t \<Rightarrow> u32 \<Rightarrow> mproc \<Rightarrow> (bool \<times> mproc) option" where
  "handle_page_fault fs fault code st =
     (if fault \<ge> KERNEL_START \<or> fault = 0 then Some (False, st)
      else with_lock (\<lambda>st.
        case mm_at (page_base fault) (fst st) of
          None \<Rightarrow> Some (False, st)
        | Some e \<Rightarrow> do {
            x \<leftarrow> sp_value e (ms_entries (snd st));
            (case me_page x of
               MEMORY h \<Rightarrow> fault_memory (page_base fault) code e x h st
             | EMPTY \<Rightarrow> Some (False, st)
             | ANONYMOUS ap \<Rightarrow> do {
                 hst \<leftarrow> resolve_anonymous ap st;
                 fault_anonymous fs (page_base fault) (me_shared x) hst }
             | ANONYMOUS_SHARED ap f \<Rightarrow> do {
                 hst \<leftarrow> resolve_shared e x ap f st;
                 fault_anonymous fs (page_base fault) (me_shared x) hst }
             | FILE_PAGES fp \<Rightarrow> fault_file fs fault fp st
             | FILE_MEMORY mf \<Rightarrow> fault_file_memory (page_base fault) code e x mf st) }) st)"

section \<open>Fork, exit and the system calls\<close>

definition proc_mem_new :: "pager \<Rightarrow> proc_mem" where
  "proc_mem_new pg = \<lparr>p_pager = pg, p_lock = rm_new, p_first_free = MMAP_MIN_ADDR, p_memorymap = []\<rparr>"

text \<open>One entry of the parent's map: the parent's and the child's memory share the state of the machine.\<close>

definition fork_entry :: "fs_ops \<Rightarrow> virtaddr_t \<times> nat \<Rightarrow> proc_mem \<times> mproc \<Rightarrow> (proc_mem \<times> mproc) option" where
  "fork_entry fs ke pcs = (case (ke, pcs) of ((key, e), p, c, s) \<Rightarrow> do {
     x \<leftarrow> sp_value e (ms_entries s);
     (case me_page x of
        MEMORY h \<Rightarrow> do {
          d \<leftarrow> ms_pages s h;
          (p, s) \<leftarrow> (if writable (d_flags d) \<and> \<not> me_shared x then do {
              s \<leftarrow> upd_pages (pp_set_flags h ((d_flags d)\<lparr>writable := False\<rparr>)) s;
              s \<leftarrow> upd_pages (set_copy_on_write h True) s;
              upd_pager (pager_map (d_addr d) key 1 ((d_flags d)\<lparr>writable := False\<rparr>)) (p, s) }
            else Some (p, s));
          (c, s) \<leftarrow> map_page fs key h (me_shared x) (c, s);
          Some (p, c, s) }
      | FILE_MEMORY mf \<Rightarrow> do {
          d \<leftarrow> ms_pages s (mf_page mf);
          let cow = (writable (mf_flags mf) \<and> \<not> me_shared x);
          let mf = (if cow then mf\<lparr>mf_copy_on_write := True, mf_flags := (mf_flags mf)\<lparr>writable := False\<rparr>\<rparr> else mf);
          s \<leftarrow> set_entry e (x\<lparr>me_page := FILE_MEMORY mf\<rparr>) s;
          (p, s) \<leftarrow> (if cow then upd_pager (pager_map (d_addr d) key 1 (mf_flags mf)) (p, s) else Some (p, s));
          (h, s) \<leftarrow> on_pages (pp_copy (mf_page mf)) s;
          let (ptr, s) = new_entry \<lparr>me_page = FILE_MEMORY (mf\<lparr>mf_page := h\<rparr>), me_shared = me_shared x\<rparr> s;
          (c, s) \<leftarrow> mm_insert key ptr (c, s);
          (c, s) \<leftarrow> upd_pager pager_lock (c, s);
          (c, s) \<leftarrow> upd_pager (pager_map (d_addr d) key 1 (mf_flags mf)) (c, s);
          (c, s) \<leftarrow> upd_pager (\<lambda>q. Some (pager_unlock q)) (c, s);
          s \<leftarrow> upd_pages (pp_ref (mf_page mf)) s;
          s \<leftarrow> drop_entry ptr s;
          Some (p, c, s) }
      | _ \<Rightarrow> map_option (Pair p) (mm_insert key e (c, s))) })"

definition fork_memory :: "fs_ops \<Rightarrow> proc_mem \<times> mproc \<Rightarrow> (proc_mem \<times> mproc) option" where
  "fork_memory fs pcs = (case pcs of (p, c, s) \<Rightarrow> do {
     (p, s) \<leftarrow> upd_pager pager_lock (p, s);
     (p, c, s) \<leftarrow> foldM (fork_entry fs) (p_memorymap p) (p, c, s);
     (p, s) \<leftarrow> upd_pager (\<lambda>q. Some (pager_unlock q)) (p, s);
     Some (p, c, s) })"

text \<open>The memory part of \<^verbatim>\<open>Process::minimize\<close>: flushing the shared file mappings, then \<^verbatim>\<open>f_memorymap.clear()\<close>.\<close>

definition flush_entry :: "fs_ops \<Rightarrow> virtaddr_t \<times> nat \<Rightarrow> mproc \<Rightarrow> mproc option" where
  "flush_entry fs ke st = (case ke of (key, e) \<Rightarrow> do {
     x \<leftarrow> sp_value e (ms_entries (snd st));
     (case me_page x of
        FILE_MEMORY mf \<Rightarrow>
          (if me_shared x then do {
             (fl, st) \<leftarrow> on_pager (getFlags key) st;
             st \<leftarrow> upd_mem (set_entry e (x\<lparr>me_page := FILE_MEMORY (mf\<lparr>mf_dirty := dirty fl\<rparr>)\<rparr>)) st;
             upd_mem (fs_sync fs (mf\<lparr>mf_dirty := dirty fl\<rparr>)) st }
           else Some st)
      | _ \<Rightarrow> Some st) })"

definition mm_clear :: "mproc \<Rightarrow> mproc option" where
  "mm_clear st = (case st of (p, s) \<Rightarrow>
     map_option (Pair (p\<lparr>p_memorymap := []\<rparr>)) (foldM (\<lambda>ke. drop_entry (snd ke)) (p_memorymap p) s))"

definition release_memory :: "fs_ops \<Rightarrow> mproc \<Rightarrow> mproc option" where
  "release_memory fs st = do {
     st \<leftarrow> upd_pager pager_lock st;
     st \<leftarrow> foldM (flush_entry fs) (p_memorymap (fst st)) st;
     st \<leftarrow> upd_pager (\<lambda>q. Some (pager_unlock q)) st;
     mm_clear st }"

definition page_count :: "u64 \<Rightarrow> size_t" where
  "page_count len = drop_bit 12 len + (if len AND 0xFFF = 0 then 0 else 1)"

definition bad_range :: "virtaddr_t \<Rightarrow> size_t \<Rightarrow> bool" where
  "bad_range ptr page_len \<longleftrightarrow> ptr < MMAP_MIN_ADDR \<or> ptr \<ge> KERNEL_START \<or>
     ptr + push_bit 12 page_len > KERNEL_START \<or> ptr + push_bit 12 page_len < ptr"

text \<open>The descriptor argument is the result of \<^verbatim>\<open>get_stream\<close>: no stream, a stream that is not a file, or a file.\<close>

definition sys_mmap :: "fs_ops \<Rightarrow> u64 \<Rightarrow> u64 \<Rightarrow> u64 \<Rightarrow> u64 \<Rightarrow> nat option option \<Rightarrow> u64 \<Rightarrow> mproc \<Rightarrow> (u64 value_or_error \<times> mproc) option" where
  "sys_mmap fs ptr0 len prot flags stream offset st =
     (let page_len = page_count len; ptr = page_base ptr0
      in if ptr \<noteq> 0 \<and> bad_range ptr page_len then Some (Inl EINVAL, st)
         else do {
           (addr, st) \<leftarrow> get_free_addr ptr page_len st;
           (if prot = 0 then map_option (Pair (Inr addr)) (null_pages fs addr page_len st)
            else if flags AND 2 \<noteq> 0 then map_option (Pair (Inr addr)) (alloc_pages fs addr page_len (ucast flags) (ucast prot) st)
            else (case stream of
                None \<Rightarrow> None
              | Some None \<Rightarrow> Some (Inl EBADF, st)
              | Some (Some vnode) \<Rightarrow>
                  (if offset AND 0xFFF \<noteq> 0 then Some (Inl EINVAL, st)
                   else map_option (Pair (Inr addr)) (file_pages fs addr page_len
                     \<lparr>fp_file = vnode, fp_start_addr = addr, fp_offset = offset, fp_shared = (flags AND 1 \<noteq> 0),
                      fp_write = (prot AND 2 \<noteq> 0), fp_execute = (prot AND 4 \<noteq> 0)\<rparr> st)))) })"

definition sys_munmap :: "fs_ops \<Rightarrow> u64 \<Rightarrow> u64 \<Rightarrow> mproc \<Rightarrow> (u64 value_or_error \<times> mproc) option" where
  "sys_munmap fs ptr0 len st =
     (let page_len = page_count len; ptr = page_base ptr0
      in if bad_range ptr page_len then Some (Inl EINVAL, st)
         else map_option (Pair (Inr 0)) (unmap_pages fs ptr page_len st))"

end
