(* ===== verification/Process_Mmap.thy ===== *)
theory Process_Mmap
  imports Process_Memory
begin

unbundle bit_operations_syntax

text \<open>
  What the memory operations of \<^verbatim>\<open>Process\<close> guarantee: the search for a free range, \<^verbatim>\<open>mmap\<close> and \<^verbatim>\<open>munmap\<close> of anonymous
  memory, page faults on such memory, and what a process leaves behind when it exits.
\<close>

section \<open>Addresses\<close>

lemma page_at_of_nat: "page_at addr i = addr + of_nat (4096 * i)"
  by (simp add: page_at_def push_bit_eq_mult)

lemma page_at_add: "page_at (page_at addr i) j = page_at addr (i + j)"
  by (simp add: page_at_of_nat add_mult_distrib2)

lemma page_at_0 [simp]: "page_at addr 0 = addr"
  by (simp add: page_at_of_nat)

lemma unat_KERNEL_START: "unat KERNEL_START = 2 ^ 64 - 2 ^ 31"
  by (simp add: KERNEL_START_def)

lemma unat_page_at: "unat addr + 4096 * i < 2 ^ 64 \<Longrightarrow> unat (page_at addr i) = unat addr + 4096 * i"
proof -
  assume "unat addr + 4096 * i < 2 ^ 64"
  moreover from this have "unat (of_nat (4096 * i) :: u64) = 4096 * i" by (intro unat_of_nat_less) simp
  ultimately show ?thesis unfolding page_at_of_nat by (simp only: unat_word_ariths len_of_numeral_defs) (simp add: mod_less)
qed

section \<open>get_free_addr\<close>

definition free_run :: "proc_mem \<Rightarrow> size_t \<Rightarrow> virtaddr_t \<Rightarrow> bool" where
  "free_run p len addr \<longleftrightarrow> (\<forall>i<unat len. mm_at (page_at addr i) p = None)"

text \<open>The first free range at a multiple of the page size above \<open>start\<close>, or 0 when there is none.\<close>

definition first_free_run :: "proc_mem \<Rightarrow> size_t \<Rightarrow> virtaddr_t \<Rightarrow> virtaddr_t \<Rightarrow> bool" where
  "first_free_run p len start r \<longleftrightarrow>
     (\<exists>k. unat start + 4096 * k < unat KERNEL_START \<and> r = page_at start k \<and> free_run p len r \<and>
        (\<forall>j<k. \<not> free_run p len (page_at start j))) \<or>
     r = 0 \<and> (\<forall>k. unat start + 4096 * k < unat KERNEL_START \<longrightarrow> \<not> free_run p len (page_at start k))"

definition user_keys :: "proc_mem \<Rightarrow> bool" where
  "user_keys p \<longleftrightarrow> (\<forall>key. mm_at key p \<noteq> None \<longrightarrow> key < KERNEL_START)"

lemma free_addr_from_step:
  assumes "user_keys p" "unat len \<le> 2 ^ 19" "addr < KERNEL_START"
    and "find (\<lambda>i. mm_at (page_at addr i) p \<noteq> None) [0..<unat len] = Some i"
  shows "unat (page_at addr (i + 1)) = unat addr + 4096 * (i + 1)"
    and "\<forall>j\<le>i. \<not> free_run p len (page_at addr j)"
proof -
  have i: "i < unat len" "mm_at (page_at addr i) p \<noteq> None" using assms(4) by (auto simp: find_Some_iff)
  have a: "unat addr < 2 ^ 64 - 2 ^ 31" using assms(3) unat_KERNEL_START by (simp add: word_less_nat_alt)
  have "4096 * i < 2 ^ 31" using i(1) assms(2) by simp
  then have "unat (page_at addr i) = unat addr + 4096 * i" using a by (intro unat_page_at) simp
  moreover have "page_at addr i < KERNEL_START" using assms(1) i(2) by (simp add: user_keys_def)
  ultimately have "unat addr + 4096 * i < 2 ^ 64 - 2 ^ 31" using unat_KERNEL_START by (simp add: word_less_nat_alt)
  then show "unat (page_at addr (i + 1)) = unat addr + 4096 * (i + 1)" by (intro unat_page_at) simp
  show "\<forall>j\<le>i. \<not> free_run p len (page_at addr j)"
  proof (intro allI impI)
    fix j assume "j \<le> i"
    then have "page_at (page_at addr j) (i - j) = page_at addr i" by (simp add: page_at_add)
    then show "\<not> free_run p len (page_at addr j)"
      using i \<open>j \<le> i\<close> unfolding free_run_def by (intro notI) (erule allE [of _ "i - j"], simp)
  qed
qed

lemma first_free_run_skip:
  assumes "\<forall>j\<le>i. \<not> free_run p len (page_at addr j)" "unat (page_at addr (i + 1)) = unat addr + 4096 * (i + 1)"
    and "first_free_run p len (page_at addr (i + 1)) r"
  shows "first_free_run p len addr r"
proof -
  have shift: "\<not> free_run p len (page_at addr j)" if "\<forall>k'<k. \<not> free_run p len (page_at (page_at addr (i + 1)) k')" "j < i + 1 + k" for j k
  proof (cases "j \<le> i")
    case False
    then have "page_at (page_at addr (i + 1)) (j - (i + 1)) = page_at addr j" by (simp add: page_at_add)
    moreover have "j - (i + 1) < k" using False that(2) by linarith
    ultimately show ?thesis using that(1) by metis
  qed (use assms(1) in blast)
  from assms(3) show ?thesis
    unfolding first_free_run_def
  proof (elim disjE exE conjE)
    fix k assume k: "unat (page_at addr (i + 1)) + 4096 * k < unat KERNEL_START" "r = page_at (page_at addr (i + 1)) k" "free_run p len r"
      "\<forall>j<k. \<not> free_run p len (page_at (page_at addr (i + 1)) j)"
    have "unat addr + 4096 * (i + 1 + k) < unat KERNEL_START" using k(1) unfolding assms(2) by simp
    moreover have "r = page_at addr (i + 1 + k)" using k(2) by (simp add: page_at_add)
    ultimately show "(\<exists>k. unat addr + 4096 * k < unat KERNEL_START \<and> r = page_at addr k \<and> free_run p len r \<and>
        (\<forall>j<k. \<not> free_run p len (page_at addr j))) \<or>
      r = 0 \<and> (\<forall>k. unat addr + 4096 * k < unat KERNEL_START \<longrightarrow> \<not> free_run p len (page_at addr k))"
      using k(3) shift [OF k(4)] by blast
  next
    assume none: "r = 0" "\<forall>k. unat (page_at addr (i + 1)) + 4096 * k < unat KERNEL_START \<longrightarrow> \<not> free_run p len (page_at (page_at addr (i + 1)) k)"
    have "\<not> free_run p len (page_at addr k)" if "unat addr + 4096 * k < unat KERNEL_START" for k
    proof (cases "k \<le> i")
      case False
      then have "page_at (page_at addr (i + 1)) (k - (i + 1)) = page_at addr k" by (simp add: page_at_add)
      moreover have "unat (page_at addr (i + 1)) + 4096 * (k - (i + 1)) < unat KERNEL_START" using that False unfolding assms(2) by simp
      ultimately show ?thesis using none(2) by metis
    qed (use assms(1) in blast)
    then show "(\<exists>k. unat addr + 4096 * k < unat KERNEL_START \<and> r = page_at addr k \<and> free_run p len r \<and>
        (\<forall>j<k. \<not> free_run p len (page_at addr j))) \<or>
      r = 0 \<and> (\<forall>k. unat addr + 4096 * k < unat KERNEL_START \<longrightarrow> \<not> free_run p len (page_at addr k))" using none(1) by blast
  qed
qed

lemma free_addr_from_correct:
  assumes "user_keys p" "unat len \<le> 2 ^ 19"
  shows "\<exists>r. free_addr_from addr len p = Some r \<and> first_free_run p len addr r"
proof (induction "2 ^ 64 - unat addr" arbitrary: addr rule: less_induct)
  case less
  consider (above) "\<not> addr < KERNEL_START"
    | (found) "addr < KERNEL_START" "find (\<lambda>i. mm_at (page_at addr i) p \<noteq> None) [0..<unat len] = None"
    | (mapped) i where "addr < KERNEL_START" "find (\<lambda>i. mm_at (page_at addr i) p \<noteq> None) [0..<unat len] = Some i"
    by (cases "find (\<lambda>i. mm_at (page_at addr i) p \<noteq> None) [0..<unat len]") auto
  then show ?case
  proof cases
    case above
    then have "unat KERNEL_START \<le> unat addr" by (simp add: word_le_nat_alt not_less)
    then show ?thesis using above by (subst free_addr_from.simps) (simp add: first_free_run_def)
  next
    case found
    then have "free_run p len addr" by (simp add: free_run_def find_None_iff)
    moreover have "unat addr < unat KERNEL_START" using found(1) by (simp add: word_less_nat_alt)
    ultimately have "first_free_run p len addr addr" unfolding first_free_run_def by (intro disjI1 exI [of _ 0]) simp
    then show ?thesis using found by (subst free_addr_from.simps) simp
  next
    case mapped
    note step = free_addr_from_step [OF assms mapped]
    have next_addr: "addr + 4096 * (of_nat i + 1) = page_at addr (i + 1)" by (simp add: page_at_of_nat algebra_simps)
    have "unat addr < 2 ^ 64" using unsigned_less [of addr] by simp
    then have "2 ^ 64 - unat (page_at addr (i + 1)) < 2 ^ 64 - unat addr" unfolding step(1) by (intro diff_less_mono2) simp_all
    from less [OF this] obtain r where "free_addr_from (page_at addr (i + 1)) len p = Some r" "first_free_run p len (page_at addr (i + 1)) r"
      by blast
    moreover from this(2) have "first_free_run p len addr r" by (rule first_free_run_skip [OF step(2,1)])
    ultimately show ?thesis using mapped by (subst free_addr_from.simps) (simp only: if_True option.case next_addr, blast)
  qed
qed

section \<open>The process lock\<close>

definition lock_held :: "mproc \<Rightarrow> recursive_mutex" where
  "lock_held st = (p_lock (fst st))\<lparr>f_counter := f_counter (p_lock (fst st)) + 1, f_owner := running (ms_vm (snd st)),
     f_recursion := Suc (f_recursion (p_lock (fst st)))\<rparr>"

definition lock_ok :: "mproc \<Rightarrow> bool" where
  "lock_ok st \<longleftrightarrow> rm_available (running (ms_vm (snd st))) (p_lock (fst st))"

lemma with_lock_ok:
  assumes "lock_ok (p, s)" "f (p\<lparr>p_lock := lock_held (p, s)\<rparr>, s) = Some (x, p', s')"
    and "p_lock p' = lock_held (p, s)" "running (ms_vm s') = running (ms_vm s)"
  shows "with_lock f (p, s) = Some (x, p'\<lparr>p_lock := p_lock p\<rparr>, s')"
proof -
  have "rm_lock (running (ms_vm s)) (p_lock p) = Some (lock_held (p, s))"
    using rm_lock_available(1) assms(1) by (simp add: lock_ok_def lock_held_def)
  moreover have "rm_unlock (running (ms_vm s)) (lock_held (p, s)) = (True, p_lock p)"
    using rm_lock_unlock assms(1) by (simp add: lock_ok_def lock_held_def)
  ultimately show ?thesis using assms by (simp add: with_lock_def assert_f_def)
qed

lemma locked_ok:
  assumes "lock_ok (p, s)" "f (p\<lparr>p_lock := lock_held (p, s)\<rparr>, s) = Some (p', s')"
    and "p_lock p' = lock_held (p, s)" "running (ms_vm s') = running (ms_vm s)"
  shows "locked f (p, s) = Some (p'\<lparr>p_lock := p_lock p\<rparr>, s')"
  using with_lock_ok [OF assms(1), of "\<lambda>st. map_option (Pair ()) (f st)" "()" p' s'] assms(2-4) by (simp add: locked_def)

lemma lock_ok_held: "lock_ok (p, s) \<Longrightarrow> lock_ok (p\<lparr>p_lock := lock_held (p, s)\<rparr>, s)"
  using rm_lock_available(2) by (simp add: lock_ok_def lock_held_def)

lemma get_free_addr_ok:
  assumes "lock_ok (p, s)" "user_keys p" "unat len \<le> 2 ^ 19"
  shows "\<exists>r. get_free_addr hint len (p, s) = Some (r, p, s) \<and>
    first_free_run p len (if hint \<noteq> 0 then hint else p_first_free p) r"
proof -
  let ?p = "p\<lparr>p_lock := lock_held (p, s)\<rparr>" and ?a = "if hint \<noteq> 0 then hint else p_first_free p"
  have same: "user_keys ?p = user_keys p" "first_free_run ?p len a r = first_free_run p len a r" for a r
    by (simp_all add: user_keys_def first_free_run_def free_run_def mm_at_def)
  obtain r where r: "free_addr_from ?a len ?p = Some r" "first_free_run p len ?a r"
    using free_addr_from_correct [of ?p len ?a] assms(2,3) unfolding same by blast
  have "get_free_addr hint len (p, s) = Some (r, ?p\<lparr>p_lock := p_lock p\<rparr>, s)"
    unfolding get_free_addr_def by (rule with_lock_ok [OF assms(1)]) (use r(1) in \<open>simp_all split: if_splits\<close>)
  then show ?thesis using r(2) by simp
qed

section \<open>Mapping a free range\<close>

lemma foldM_snoc: "foldM f (xs @ [x]) s = Option.bind (foldM f xs s) (f x)"
  by (cases "foldM f xs s") (simp_all add: foldM_append foldM_Nil)

lemma page_at_inj: "page_at addr i = page_at addr j \<Longrightarrow> i < 2 ^ 52 \<Longrightarrow> j < 2 ^ 52 \<Longrightarrow> i = j"
proof -
  assume "page_at addr i = page_at addr j" and b: "i < 2 ^ 52" "j < 2 ^ 52"
  then have "(of_nat (4096 * i) :: u64) = of_nat (4096 * j)" by (simp add: page_at_of_nat)
  moreover have "unat (of_nat (4096 * i) :: u64) = 4096 * i" "unat (of_nat (4096 * j) :: u64) = 4096 * j"
    using b by (intro unat_of_nat_less, simp)+
  ultimately show ?thesis by (metis mult_cancel1 zero_neq_numeral)
qed

definition with_count :: "nat \<Rightarrow> memory_entry \<Rightarrow> size_t \<Rightarrow> mstate \<Rightarrow> mstate" where
  "with_count e x n s = s\<lparr>ms_entries := (ms_entries s)\<lparr>sp_heap := (sp_heap (ms_entries s))(e \<mapsto> (x, n))\<rparr>\<rparr>"

lemma with_count_simps [simp]:
  "ms_vm (with_count e x n s) = ms_vm s" "ms_pages (with_count e x n s) = ms_pages s" "ms_next (with_count e x n s) = ms_next s"
  "ms_asserts (with_count e x n s) = ms_asserts s" "ms_content (with_count e x n s) = ms_content s"
  "sp_heap (ms_entries (with_count e x n s)) = (sp_heap (ms_entries s))(e \<mapsto> (x, n))"
  "sp_destroyed (ms_entries (with_count e x n s)) = sp_destroyed (ms_entries s)"
  "with_count e x m (with_count e x n s) = with_count e x m s"
  by (simp_all add: with_count_def)

lemma set_page_mapping_free:
  assumes "lock_ok (p, s)" "mm_at addr p = None" "sp_heap (ms_entries s) e = Some (x, n)" "e \<noteq> 0"
  shows "set_page_mapping fs addr e (p, s) = Some (p\<lparr>p_memorymap := p_memorymap p @ [(addr, e)]\<rparr>, with_count e x (n + 1) s)"
proof -
  have "set_page_mapping fs addr e (p, s) =
      Some (p\<lparr>p_lock := lock_held (p, s), p_memorymap := p_memorymap p @ [(addr, e)]\<rparr>\<lparr>p_lock := p_lock p\<rparr>, with_count e x (n + 1) s)"
    unfolding set_page_mapping_def
    by (rule locked_ok [OF assms(1)]) (use assms(2-4) in \<open>simp_all add: mm_at_def mm_insert_def sp_copy_def with_count_def\<close>)
  then show ?thesis by simp
qed

lemma map_range_free:
  assumes "lock_ok (p, s)" "sp_heap (ms_entries s) e = Some (x, n)" "e \<noteq> 0" "k \<le> 2 ^ 52"
    and "\<forall>i<k. mm_at (page_at addr i) p = None"
  shows "foldM (\<lambda>i. set_page_mapping fs (page_at addr i) e) [0..<k] (p, s) =
    Some (p\<lparr>p_memorymap := p_memorymap p @ map (\<lambda>i. (page_at addr i, e)) [0..<k]\<rparr>, with_count e x (n + of_nat k) s)"
  using assms(4,5)
proof (induction k)
  case 0
  have "with_count e x n s = s" using assms(2) by (simp add: with_count_def map_upd_triv)
  then show ?case by simp
next
  case (Suc k)
  let ?p = "p\<lparr>p_memorymap := p_memorymap p @ map (\<lambda>i. (page_at addr i, e)) [0..<k]\<rparr>" and ?s = "with_count e x (n + of_nat k) s"
  have "page_at addr k \<noteq> page_at addr i" if "i < k" for i using page_at_inj [of addr k i] that Suc.prems(1) by auto
  then have "page_at addr k \<notin> page_at addr ` {0..<k}" by (metis atLeastLessThan_iff imageE)
  then have "mm_at (page_at addr k) ?p = None"
    using Suc.prems(2) by (simp add: mm_at_def map_of_eq_None_iff image_image)
  moreover have "lock_ok (?p, ?s)" using assms(1) by (simp add: lock_ok_def)
  ultimately have "set_page_mapping fs (page_at addr k) e (?p, ?s) =
      Some (?p\<lparr>p_memorymap := p_memorymap ?p @ [(page_at addr k, e)]\<rparr>, with_count e x (n + of_nat k + 1) ?s)"
    using assms(3) by (intro set_page_mapping_free) simp_all
  then show ?case using Suc by (simp add: foldM_snoc ac_simps)
qed

definition fresh_entry :: "mstate \<Rightarrow> bool" where
  "fresh_entry s \<longleftrightarrow> 0 < ms_next s \<and> sp_heap (ms_entries s) (ms_next s) = None"

text \<open>The state after \<open>len\<close> pages have been given the new entry \<open>x\<close>.\<close>

definition mapped_proc :: "virtaddr_t \<Rightarrow> size_t \<Rightarrow> mproc \<Rightarrow> proc_mem" where
  "mapped_proc addr len st = fst (bump_first_free addr (push_bit 12 len)
     ((fst st)\<lparr>p_memorymap := p_memorymap (fst st) @ map (\<lambda>i. (page_at addr i, ms_next (snd st))) [0..<unat len]\<rparr>, snd st))"

definition mapped_state :: "memory_entry \<Rightarrow> size_t \<Rightarrow> mstate \<Rightarrow> mstate" where
  "mapped_state x len s = (with_count (ms_next s) x len s)\<lparr>ms_next := ms_next s + 1\<rparr>"

lemma map_entry_range_free:
  assumes "lock_ok (p, s)" "fresh_entry s" "free_run p len addr" "0 < unat len" "unat len \<le> 2 ^ 52"
  shows "map_entry_range fs x addr len (p, s) = Some (mapped_proc addr len (p, s), mapped_state x len s)"
proof -
  let ?e = "ms_next s" and ?s1 = "snd (new_entry x s)"
  have s1: "ms_vm ?s1 = ms_vm s" "sp_heap (ms_entries ?s1) ?e = Some (x, 1)" by (simp_all add: new_entry_def make_shared_def)
  have l: "lock_ok (p, ?s1)" using assms(1) by (simp add: lock_ok_def s1(1))
  have m: "foldM (\<lambda>i. set_page_mapping fs (page_at addr i) ?e) [0..<unat len] (p, ?s1) =
      Some (p\<lparr>p_memorymap := p_memorymap p @ map (\<lambda>i. (page_at addr i, ?e)) [0..<unat len]\<rparr>, with_count ?e x (1 + len) ?s1)"
    using map_range_free [OF l s1(2), of "unat len" addr fs] assms(2,3,5) by (simp add: fresh_entry_def free_run_def)
  have n: "1 + len \<noteq> 1" using assms(4) by auto
  have e0: "0 < ?e" using assms(2) by (simp add: fresh_entry_def)
  have d: "drop_entry ?e (with_count ?e x (1 + len) ?s1) = Some (mapped_state x len s)"
    using n e0 by (simp add: drop_entry_def sp_clear_def mapped_state_def with_count_def new_entry_def make_shared_def)
  show ?thesis
    using m d by (simp add: map_entry_range_def on_mem_def upd_mem_def mapped_proc_def bump_first_free_def new_entry_def)
qed

section \<open>mmap and munmap\<close>

lemma map_of_range: "map_of (map (\<lambda>i. (f i, e)) [0..<k]) key = (if \<exists>i<k. key = f i then Some e else None)"
proof (induction k)
  case (Suc k)
  have "(\<exists>i<Suc k. key = f i) \<longleftrightarrow> key = f k \<or> (\<exists>i<k. key = f i)" using less_Suc_eq by auto
  then show ?case using Suc by (simp add: map_add_def)
qed simp

lemma mm_at_mapped:
  assumes "unat len \<le> 2 ^ 52" "free_run p len addr"
  shows "mm_at key (mapped_proc addr len (p, s)) = (if \<exists>i<unat len. key = page_at addr i then Some (ms_next s) else mm_at key p)"
proof -
  have "map_of (p_memorymap p @ map (\<lambda>i. (page_at addr i, e)) [0..<k]) key =
      (if \<exists>i<k. key = page_at addr i then Some e else map_of (p_memorymap p) key)"
    if "\<forall>i<k. map_of (p_memorymap p) (page_at addr i) = None" for e k
    using that by (auto simp: map_add_def map_of_range split: option.splits)
  from this [of "unat len" "ms_next s"] show ?thesis
    using assms(2) by (auto simp: mapped_proc_def bump_first_free_def mm_at_def free_run_def simp del: map_of_append)
qed

lemma alloc_pages_private:
  assumes "lock_ok (p, s)" "fresh_entry s" "free_run p len addr" "0 < unat len" "unat len \<le> 2 ^ 52" "flags AND MMAP_FLAG_SHARED = 0"
  shows "alloc_pages fs addr len flags prot (p, s) = Some (mapped_proc addr len (p, s),
    mapped_state \<lparr>me_page = ANONYMOUS \<lparr>ap_flags = prot_flags prot, ap_zero = (flags AND MMAP_FLAG_ZERO \<noteq> 0)\<rparr>, me_shared = False\<rparr> len s)"
proof -
  let ?x = "\<lparr>me_page = ANONYMOUS \<lparr>ap_flags = prot_flags prot, ap_zero = (flags AND MMAP_FLAG_ZERO \<noteq> 0)\<rparr>, me_shared = False\<rparr>"
  let ?p = "p\<lparr>p_lock := lock_held (p, s)\<rparr>"
  have "map_entry_range fs ?x addr len (?p, s) = Some (mapped_proc addr len (?p, s), mapped_state ?x len s)"
    using assms lock_ok_held by (intro map_entry_range_free) (auto simp: free_run_def mm_at_def)
  then have "alloc_pages fs addr len flags prot (p, s) = Some ((mapped_proc addr len (?p, s))\<lparr>p_lock := p_lock p\<rparr>, mapped_state ?x len s)"
    unfolding alloc_pages_def
    by (intro locked_ok [OF assms(1)]) (use assms(6) in \<open>simp_all add: Let_def mapped_proc_def bump_first_free_def mapped_state_def\<close>)
  then show ?thesis by (simp add: mapped_proc_def bump_first_free_def)
qed

text \<open>The mapping of a private anonymous range by \<^verbatim>\<open>mmap\<close>.\<close>

definition mmap_entry :: "u64 \<Rightarrow> u64 \<Rightarrow> memory_entry" where
  "mmap_entry prot flags = \<lparr>me_page = ANONYMOUS \<lparr>ap_flags = prot_flags (ucast prot), ap_zero = (ucast flags AND MMAP_FLAG_ZERO \<noteq> (0::u32))\<rparr>, me_shared = False\<rparr>"

lemma low_bit_ucast: "(flags :: u64) AND 1 = 0 \<Longrightarrow> (ucast flags :: u32) AND 1 = 0"
proof -
  assume "flags AND 1 = 0"
  moreover have "bit (flags AND 1) 0 \<longleftrightarrow> bit flags 0" by (simp only: bit_and_iff bit_1_iff) simp
  ultimately have "\<not> bit flags 0" by (metis bit_0_eq bot_apply bot_bool_def)
  then have "\<not> (bit flags n \<and> n = 0)" for n by (cases "n = 0") simp_all
  then show ?thesis by (intro bit_word_eqI) (simp add: bit_and_iff bit_1_iff bit_ucast_iff del: bit_0)
qed

lemma sys_mmap_private:
  assumes "lock_ok (p, s)" "fresh_entry s" "user_keys p" "0 < unat (page_count len)" "unat (page_count len) \<le> 2 ^ 19"
    and "page_base ptr = 0 \<or> \<not> bad_range (page_base ptr) (page_count len)" "prot \<noteq> 0" "flags AND 2 \<noteq> 0" "flags AND 1 = 0"
    and "start = (if page_base ptr \<noteq> 0 then page_base ptr else p_first_free p)" "start \<noteq> 0"
    and "unat start + 4096 * j < unat KERNEL_START" "free_run p (page_count len) (page_at start j)"
  shows "\<exists>r. r \<noteq> 0 \<and> first_free_run p (page_count len) start r \<and> free_run p (page_count len) r \<and>
    sys_mmap fs ptr len prot flags stream offset (p, s) =
      Some (Inr r, mapped_proc r (page_count len) (p, s), mapped_state (mmap_entry prot flags) (page_count len) s)"
proof -
  let ?n = "page_count len"
  obtain r where r: "get_free_addr (page_base ptr) ?n (p, s) = Some (r, p, s)" "first_free_run p ?n start r"
    using get_free_addr_ok [OF assms(1,3,5), of "page_base ptr"] unfolding assms(10) by blast
  have run: "r \<noteq> 0 \<and> free_run p ?n r"
  proof -
    from r(2) consider k where "unat start + 4096 * k < unat KERNEL_START" "r = page_at start k" "free_run p ?n r"
      | "\<forall>k. unat start + 4096 * k < unat KERNEL_START \<longrightarrow> \<not> free_run p ?n (page_at start k)"
      unfolding first_free_run_def by blast
    then show ?thesis
    proof cases
      case (1 k)
      then have "unat r = unat start + 4096 * k" using unat_KERNEL_START by (simp add: unat_page_at)
      moreover have "unat start \<noteq> 0" using assms(11) by (simp add: unat_eq_0)
      ultimately show ?thesis using 1(3) by (metis add_is_0 unat_0)
    qed (use assms(12,13) in blast)
  qed
  have "ucast flags AND MMAP_FLAG_SHARED = (0 :: u32)" using low_bit_ucast [OF assms(9)] by (simp add: MMAP_FLAG_SHARED_def)
  then have "alloc_pages fs r ?n (ucast flags) (ucast prot) (p, s) =
      Some (mapped_proc r ?n (p, s), mapped_state (mmap_entry prot flags) ?n s)"
    unfolding mmap_entry_def using assms(1,2,4,5) run by (intro alloc_pages_private) auto
  moreover have "\<not> (page_base ptr \<noteq> 0 \<and> bad_range (page_base ptr) ?n)" using assms(6) by blast
  ultimately have "sys_mmap fs ptr len prot flags stream offset (p, s) =
      Some (Inr r, mapped_proc r ?n (p, s), mapped_state (mmap_entry prot flags) ?n s)"
    using r(1) assms(7,8) unfolding sys_mmap_def Let_def by (simp only: if_False if_True bind.bind_lunit prod.case option.map not_False_eq_True)
  then show ?thesis using r(2) run by blast
qed

text \<open>The state once the last page of an entry is unmapped.\<close>

definition without_entry :: "nat \<Rightarrow> memory_entry \<Rightarrow> mstate \<Rightarrow> mstate" where
  "without_entry e x s = s\<lparr>ms_entries := (ms_entries s)\<lparr>sp_heap := (sp_heap (ms_entries s))(e := None),
     sp_destroyed := sp_destroyed (ms_entries s) @ [x]\<rparr>\<rparr>"

lemma unmap_one_anonymous:
  assumes "mm_at key p = Some e" "sp_heap (ms_entries s) e = Some (x, n)" "e \<noteq> 0" "me_page x = ANONYMOUS ap"
  shows "unmap_one fs key (p, s) = Some (p\<lparr>p_memorymap := filter (\<lambda>x. fst x \<noteq> key) (p_memorymap p)\<rparr>,
    if n = 1 then without_entry e x s else with_count e x (n - 1) s)"
  using assms
  by (auto simp: unmap_one_def sp_value_def mm_erase_def drop_entry_def sp_clear_def entry_destroy_def without_entry_def with_count_def)

lemma filter_first_page:
  assumes "\<forall>i<n. page_at addr i \<notin> fst ` set base" "k < n" "n \<le> 2 ^ 52"
  shows "filter (\<lambda>x. fst x \<noteq> page_at addr k) (base @ map (\<lambda>i. (page_at addr i, e)) [k..<n]) =
    base @ map (\<lambda>i. (page_at addr i, e)) [Suc k..<n]"
proof -
  have "filter (\<lambda>x. fst x \<noteq> page_at addr k) base = base"
    using assms(1,2) by (intro filter_True) force
  moreover have "page_at addr i \<noteq> page_at addr k" if "i \<in> set [Suc k..<n]" for i
    using page_at_inj [of addr i k] that assms(3) by auto
  then have "filter (\<lambda>x. fst x \<noteq> page_at addr k) (map (\<lambda>i. (page_at addr i, e)) [Suc k..<n]) = map (\<lambda>i. (page_at addr i, e)) [Suc k..<n]"
    by (intro filter_True) auto
  moreover have "[k..<n] = k # [Suc k..<n]" using assms(2) by (rule upt_conv_Cons)
  ultimately show ?thesis by simp
qed

lemma unmap_range:
  assumes "\<forall>i<n. page_at addr i \<notin> fst ` set base" "n \<le> 2 ^ 52" "e \<noteq> 0" "me_page x = ANONYMOUS ap" "k < n"
  shows "foldM (\<lambda>i. unmap_one fs (page_at addr i)) [k..<n]
      (p\<lparr>p_memorymap := base @ map (\<lambda>i. (page_at addr i, e)) [k..<n]\<rparr>, with_count e x (of_nat (n - k)) s) =
    Some (p\<lparr>p_memorymap := base\<rparr>, without_entry e x s)"
  using assms(5)
proof (induction "n - k" arbitrary: k)
  case (Suc m)
  let ?p = "\<lambda>k. p\<lparr>p_memorymap := base @ map (\<lambda>i. (page_at addr i, e)) [k..<n]\<rparr>"
  have list: "[k..<n] = k # [Suc k..<n]" using Suc.prems by (rule upt_conv_Cons)
  have "map_of base (page_at addr k) = None" using assms(1) Suc.prems by (simp add: map_of_eq_None_iff)
  then have at: "mm_at (page_at addr k) (?p k) = Some e"
    unfolding mm_at_def list by (simp add: map_add_def)
  have small: "(of_nat (n - k) :: size_t) = 1 \<longleftrightarrow> n - k = 1"
  proof -
    have "unat (of_nat (n - k) :: size_t) = n - k" using assms(2) by (intro unat_of_nat_less) simp
    then show ?thesis by (metis of_nat_1 unat_1)
  qed
  have one: "unmap_one fs (page_at addr k) (?p k, with_count e x (of_nat (n - k)) s) =
      Some (?p (Suc k), if n - k = 1 then without_entry e x s else with_count e x (of_nat (n - Suc k)) s)"
  proof -
    have "(of_nat (n - k) :: size_t) - 1 = of_nat (n - Suc k)" using Suc.prems by (simp add: of_nat_diff)
    then show ?thesis
      using unmap_one_anonymous [OF at _ assms(3,4), where s = "with_count e x (of_nat (n - k)) s" and n = "of_nat (n - k)" and fs = fs]
        filter_first_page [OF assms(1) Suc.prems assms(2), of e]
      by (simp add: small without_entry_def with_count_def)
  qed
  show ?case
  proof (cases "n - k = 1")
    case True
    then show ?thesis using one by (simp add: list foldM_Nil)
  next
    case False
    then have "foldM (\<lambda>i. unmap_one fs (page_at addr i)) [Suc k..<n] (?p (Suc k), with_count e x (of_nat (n - Suc k)) s) =
        Some (p\<lparr>p_memorymap := base\<rparr>, without_entry e x s)"
      using Suc.hyps(2) Suc.prems by (intro Suc.hyps(1)) auto
    then show ?thesis using one False by (simp add: list)
  qed
qed simp

lemma unlock_running: "running (snd (fold release_slot ks st)) = running (snd st)"
  by (induction ks arbitrary: st) (auto simp: release_slot_def releaseWorkpageIndex_def write_entry_def split: option.splits prod.splits)

lemma pager_unlock_running: "running (snd (pager_unlock st)) = running (snd st)"
  using unlock_running [of "[0..<4]" st] by (auto simp: pager_unlock_def assert_f_def split: prod.splits)

lemma pager_lock_available:
  "rm_available (running v) (pager_locker pg) \<Longrightarrow> \<exists>pg'. pager_lock (pg, v) = Some (pg', v)"
  using rm_lock_available(1) by (simp add: pager_lock_def)

lemma upd_pager_eval: "f (p_pager p, ms_vm s) = Some (pg, v) \<Longrightarrow> upd_pager f (p, s) = Some (p\<lparr>p_pager := pg\<rparr>, s\<lparr>ms_vm := v\<rparr>)"
  by (simp add: upd_pager_def on_pager_def)

lemma unmap_pages_anonymous:
  assumes "lock_ok (p, s)" "rm_available (running (ms_vm s)) (pager_locker (p_pager p))"
    and "\<forall>i<unat len. page_at addr i \<notin> fst ` set base" "unat len \<le> 2 ^ 52" "0 < unat len" "e \<noteq> 0" "me_page x = ANONYMOUS ap"
    and "p_memorymap p = base @ map (\<lambda>i. (page_at addr i, e)) [0..<unat len]" "s = with_count e x len s0"
  shows "\<exists>pg v. unmap_pages fs addr len (p, s) = Some (p\<lparr>p_memorymap := base, p_pager := pg\<rparr>, (without_entry e x s0)\<lparr>ms_vm := v\<rparr>) \<and>
    running v = running (ms_vm s)"
proof -
  let ?p1 = "p\<lparr>p_lock := lock_held (p, s)\<rparr>"
  obtain pg where pg: "pager_lock (p_pager p, ms_vm s) = Some (pg, ms_vm s)" using pager_lock_available [OF assms(2)] by blast
  let ?p2 = "?p1\<lparr>p_pager := pg\<rparr>"
  have lock: "upd_pager pager_lock (?p1, s) = Some (?p2, s)" using pg upd_pager_eval [of pager_lock ?p1 s] by simp
  have p2: "?p2 = ?p2\<lparr>p_memorymap := base @ map (\<lambda>i. (page_at addr i, e)) [0..<unat len]\<rparr>" using assms(8) by simp
  have "foldM (\<lambda>i. unmap_one fs (page_at addr i)) [0..<unat len] (?p2, s) = Some (?p2\<lparr>p_memorymap := base\<rparr>, without_entry e x s0)"
    using unmap_range [OF assms(3,4,6,7,5), where p = ?p2 and s = s0 and fs = fs] assms(9) by (subst p2) simp
  moreover obtain pg' v' where u: "pager_unlock (pg, ms_vm s) = (pg', v')" by (cases "pager_unlock (pg, ms_vm s)")
  moreover have "ms_vm (without_entry e x s0) = ms_vm s" using assms(9) by (simp add: without_entry_def)
  ultimately have run: "(do {
     st \<leftarrow> upd_pager pager_lock (?p1, s);
     st \<leftarrow> foldM (\<lambda>i. unmap_one fs (page_at addr i)) [0..<unat len] st;
     upd_pager (\<lambda>q. Some (pager_unlock q)) st }) = Some (?p2\<lparr>p_memorymap := base, p_pager := pg'\<rparr>, (without_entry e x s0)\<lparr>ms_vm := v'\<rparr>)"
    using lock by (simp add: upd_pager_eval [of _ "?p2\<lparr>p_memorymap := base\<rparr>" "without_entry e x s0" pg' v'])
  have "running v' = running (ms_vm s)" using pager_unlock_running [of "(pg, ms_vm s)"] u by simp
  then have "unmap_pages fs addr len (p, s) =
      Some (?p2\<lparr>p_memorymap := base, p_pager := pg'\<rparr>\<lparr>p_lock := p_lock p\<rparr>, (without_entry e x s0)\<lparr>ms_vm := v'\<rparr>)"
    unfolding unmap_pages_def by (intro locked_ok [OF assms(1)]) (use run in simp_all)
  then show ?thesis using \<open>running v' = running (ms_vm s)\<close> by (intro exI [of _ pg'] exI [of _ v']) simp
qed

lemma page_base_iff: "page_base w = w \<longleftrightarrow> take_bit 12 w = 0"
proof -
  have b: "bit (page_base w) n \<longleftrightarrow> bit w n \<and> 12 \<le> n" for n
  proof -
    have m: "(0xFFF :: u64) = mask 12" by (simp add: mask_eq_exp_minus_1)
    show ?thesis unfolding page_base_def m bit_and_iff bit_not_iff bit_mask_iff
      using bit_imp_le_length [of w n] by auto
  qed
  have t: "bit (take_bit 12 w) n \<longleftrightarrow> bit w n \<and> n < 12" for n by (auto simp: bit_take_bit_iff)
  show ?thesis
  proof
    assume "page_base w = w"
    then have "\<not> bit (take_bit 12 w) n" for n using b [of n] t [of n] by (metis not_le)
    then show "take_bit 12 w = 0" by (intro bit_word_eqI) simp
  next
    assume "take_bit 12 w = 0"
    then have "\<not> (bit w n \<and> n < 12)" for n using t [of n] by simp
    then show "page_base w = w" by (intro bit_word_eqI) (metis b not_le)
  qed
qed

lemma page_base_idem: "page_base (page_base w) = page_base w"
  by (simp add: page_base_def)

lemma page_at_aligned:
  assumes "page_base a = a"
  shows "page_base (page_at a k) = page_at a k"
proof -
  have low: "take_bit 12 w = 0 \<longleftrightarrow> unat w mod 2 ^ 12 = 0" for w :: u64
    using unat_take_mod [of 12 w] by (metis unat_eq_0)
  have "unat (page_at a k) mod 2 ^ 12 = (unat a + 4096 * k) mod 2 ^ 64 mod 2 ^ 12"
    by (simp add: page_at_of_nat unat_word_ariths unat_of_nat mod_simps del: of_nat_mult)
  also have "\<dots> = (unat a + 4096 * k) mod 2 ^ 12" by (rule mod_mod_cancel) (simp add: le_imp_power_dvd)
  also have "\<dots> = unat a mod 2 ^ 12" by simp
  finally show ?thesis using assms by (simp add: page_base_iff low)
qed

section \<open>Exit\<close>

text \<open>An entry that maps a physical page which no other entry or handle shares.\<close>

definition page_of_entry :: "mstate \<Rightarrow> nat \<Rightarrow> nat" where
  "page_of_entry s e = (case sp_heap (ms_entries s) e of Some (x, n) \<Rightarrow> (case me_page x of MEMORY h \<Rightarrow> h | _ \<Rightarrow> 0) | None \<Rightarrow> 0)"

definition sole_page :: "mstate \<Rightarrow> nat \<Rightarrow> bool" where
  "sole_page s e \<longleftrightarrow> e \<noteq> 0 \<and> (\<exists>x h d. sp_heap (ms_entries s) e = Some (x, 1) \<and> me_page x = MEMORY h \<and> h \<noteq> 0 \<and>
     ms_pages s h = Some d \<and> d_obj_ref_count d = 1 \<and> d_ref_count d \<noteq> 0)"

definition sole_pages :: "mproc \<Rightarrow> bool" where
  "sole_pages st \<longleftrightarrow> (case st of (p, s) \<Rightarrow> (\<forall>e\<in>snd ` set (p_memorymap p). sole_page s e) \<and>
     distinct (map snd (p_memorymap p)) \<and> distinct (map (page_of_entry s \<circ> snd) (p_memorymap p)))"

lemma drop_sole_page:
  assumes "sole_page s e"
  shows "\<exists>s'. drop_entry e s = Some s' \<and> ms_vm s' = ms_vm s \<and> sp_heap (ms_entries s') = (sp_heap (ms_entries s))(e := None) \<and>
    ms_pages s' = (ms_pages s)(page_of_entry s e := None)"
proof -
  obtain x h d where e: "sp_heap (ms_entries s) e = Some (x, 1)" "me_page x = MEMORY h" "h \<noteq> 0" "ms_pages s h = Some d"
      "d_obj_ref_count d = 1" "d_ref_count d \<noteq> 0" "e \<noteq> 0"
    using assms unfolding sole_page_def by blast
  then have "page_of_entry s e = h" by (simp add: page_of_entry_def)
  then show ?thesis
    using e by (simp add: drop_entry_def sp_clear_def entry_destroy_def upd_pages_def on_pages_def pp_delete_def)
qed

lemma drop_sole_pages:
  assumes "\<forall>e\<in>set es. sole_page s e" "distinct es" "distinct (map (page_of_entry s) es)"
  shows "\<exists>s'. foldM drop_entry es s = Some s' \<and> ms_vm s' = ms_vm s \<and> (\<forall>e\<in>set es. ms_pages s' (page_of_entry s e) = None) \<and>
    (\<forall>h. h \<notin> page_of_entry s ` set es \<longrightarrow> ms_pages s' h = ms_pages s h)"
  using assms
proof (induction es arbitrary: s)
  case (Cons e es)
  obtain s1 where s1: "drop_entry e s = Some s1" "ms_vm s1 = ms_vm s" "sp_heap (ms_entries s1) = (sp_heap (ms_entries s))(e := None)"
    "ms_pages s1 = (ms_pages s)(page_of_entry s e := None)"
    using drop_sole_page [of s e] Cons.prems(1) by auto
  have keep: "page_of_entry s1 f = page_of_entry s f \<and> sole_page s1 f" if "f \<in> set es" for f
  proof -
    have "page_of_entry s f \<in> page_of_entry s ` set es" using that by (rule imageI)
    moreover have "page_of_entry s e \<notin> page_of_entry s ` set es" using Cons.prems(3) by simp
    ultimately have f: "f \<noteq> e" "page_of_entry s f \<noteq> page_of_entry s e" by metis+
    have sole: "sole_page s f" using that Cons.prems(1) by simp
    have "page_of_entry s1 f = page_of_entry s f" using f(1) s1(3) by (simp add: page_of_entry_def)
    moreover have "sole_page s1 f"
    proof -
      obtain x h d where x: "sp_heap (ms_entries s) f = Some (x, 1)" "me_page x = MEMORY h" "h \<noteq> 0" "ms_pages s h = Some d"
          "d_obj_ref_count d = 1" "d_ref_count d \<noteq> 0" "f \<noteq> 0"
        using sole unfolding sole_page_def by blast
      have "h \<noteq> page_of_entry s e" using f(2) x(1,2) by (simp add: page_of_entry_def)
      then show ?thesis using x f(1) s1(3,4) by (auto simp: sole_page_def)
    qed
    ultimately show ?thesis by blast
  qed
  have m: "map (page_of_entry s1) es = map (page_of_entry s) es" using keep by simp
  obtain s' where s': "foldM drop_entry es s1 = Some s'" "ms_vm s' = ms_vm s1" "\<forall>e\<in>set es. ms_pages s' (page_of_entry s1 e) = None"
    "\<forall>h. h \<notin> page_of_entry s1 ` set es \<longrightarrow> ms_pages s' h = ms_pages s1 h"
    using Cons.IH [of s1] Cons.prems(2,3) keep m by auto
  have "page_of_entry s1 ` set es = page_of_entry s ` set es" using keep by (intro image_cong) auto
  then have "page_of_entry s e \<notin> page_of_entry s1 ` set es" using Cons.prems(3) by auto
  then have "ms_pages s' (page_of_entry s e) = None" using s'(4) s1(4) by simp
  then show ?case using s1 s' keep \<open>page_of_entry s1 ` set es = page_of_entry s ` set es\<close> by auto
qed simp

lemma foldM_map: "foldM (\<lambda>x. f (g x)) xs s = foldM f (map g xs) s"
  by (induction xs arbitrary: s) (auto split: bind_splits)

lemma unlock_pmm: "vm_pmm (snd (pager_unlock st)) = vm_pmm (snd st)"
proof -
  have "vm_pmm (snd (fold release_slot ks st)) = vm_pmm (snd st)" for ks
    by (induction ks arbitrary: st) (auto simp: release_slot_def releaseWorkpageIndex_def write_entry_def split: option.splits prod.splits)
  from this [of "[0..<4]"] show ?thesis by (auto simp: pager_unlock_def assert_f_def split: prod.splits)
qed

lemma flush_memory: "\<forall>e\<in>snd ` set kes. sole_page (snd st) e \<Longrightarrow> foldM (flush_entry fs) kes st = Some st"
proof (induction kes)
  case (Cons ke kes)
  then have "sole_page (snd st) (snd ke)" by simp
  then have "flush_entry fs ke st = Some st" by (auto simp: flush_entry_def sole_page_def sp_value_def split: prod.splits)
  then show ?case using Cons by simp
qed simp

section \<open>A sample process\<close>

text \<open>One physical page is mapped at \<open>0x101000\<close>.\<close>

definition sample_proc :: proc_mem where
  "sample_proc = \<lparr>p_pager = sample_pager, p_lock = rm_new, p_first_free = MMAP_MIN_ADDR, p_memorymap = [(0x101000, 3)]\<rparr>"

definition sample_mstate :: mstate where
  "sample_mstate = \<lparr>ms_vm = sample_vmem,
     ms_pages = [9 \<mapsto> \<lparr>d_addr = page_addr 9, d_ref_count = 1, d_obj_ref_count = 1, d_flags = flags_default, d_copy_on_write = False\<rparr>],
     ms_asserts = [], ms_entries = \<lparr>sp_heap = [3 \<mapsto> (\<lparr>me_page = MEMORY 9, me_shared = False\<rparr>, 1)], sp_destroyed = []\<rparr>,
     ms_content = (\<lambda>_. replicate 4096 0), ms_shared_pages = (\<lambda>_ _. None), ms_next = 10\<rparr>"

definition sample_fs :: fs_ops where
  "sample_fs = \<lparr>fs_resolve = (\<lambda>_ _ s. Some (0, s)), fs_sync = (\<lambda>_ s. Some s)\<rparr>"

lemma sample_lock: "lock_ok (sample_proc, sample_mstate)" "rm_available (running (ms_vm sample_mstate)) (pager_locker (p_pager sample_proc))"
  by (simp_all add: lock_ok_def sample_proc_def sample_mstate_def sample_vmem_def sample_pager_def rm_available_def rm_new_def)

lemma sample_keys: "user_keys sample_proc" "mm_at key sample_proc = (if key = 0x101000 then Some 3 else None)"
  by (auto simp: user_keys_def mm_at_def sample_proc_def KERNEL_START_def)

lemma sample_fresh: "fresh_entry sample_mstate"
  by (simp add: fresh_entry_def sample_mstate_def)

lemma sample_run: "free_run sample_proc 2 (page_at MMAP_MIN_ADDR 2)" "unat MMAP_MIN_ADDR + 4096 * 2 < unat KERNEL_START" "page_count 0x2000 = 2"
  by (auto simp: free_run_def sample_keys page_at_of_nat MMAP_MIN_ADDR_def less_2_cases_iff KERNEL_START_def page_count_def)

lemma sample_busy: "k < 2 \<Longrightarrow> \<not> free_run sample_proc 2 (page_at MMAP_MIN_ADDR k)"
proof -
  assume "k < 2"
  then have "page_at (page_at MMAP_MIN_ADDR k) (1 - k) = 0x101000" "1 - k < unat (2 :: size_t)"
    by (auto simp: page_at_of_nat MMAP_MIN_ADDR_def less_2_cases_iff)
  then show ?thesis unfolding free_run_def sample_keys by auto
qed

lemma sample_first: "first_free_run sample_proc 2 MMAP_MIN_ADDR r \<Longrightarrow> r = 0x102000"
proof -
  assume f: "first_free_run sample_proc 2 MMAP_MIN_ADDR r"
  then obtain k where k: "r = page_at MMAP_MIN_ADDR k" "free_run sample_proc 2 r" "\<forall>j<k. \<not> free_run sample_proc 2 (page_at MMAP_MIN_ADDR j)"
    using sample_run(1,2) unfolding first_free_run_def by blast
  then have "k = 2" using sample_run(1) sample_busy [of k] by (metis linorder_neqE_nat)
  then show ?thesis using k(1) by (simp add: page_at_of_nat MMAP_MIN_ADDR_def)
qed

section \<open>Properties\<close>

text \<open>C19: \<^verbatim>\<open>get_free_addr\<close> terminates and returns the first free range: the lowest address that lies a multiple of the page
  size above the hint (or \<^verbatim>\<open>f_first_free\<close>), is below the kernel and has all its pages unmapped, or 0 if there is none.\<close>
theorem get_free_addr_first_fit:
  assumes "lock_ok (p, s)" "user_keys p" "unat len \<le> 2 ^ 19" "start = (if hint \<noteq> 0 then hint else p_first_free p)"
  shows "\<exists>r. get_free_addr hint len (p, s) = Some (r, p, s) \<and>
    ((\<exists>k. unat start + 4096 * k < unat KERNEL_START \<and> r = page_at start k \<and> (\<forall>i<unat len. mm_at (page_at r i) p = None) \<and>
       (\<forall>j<k. \<exists>i<unat len. mm_at (page_at (page_at start j) i) p \<noteq> None)) \<or>
     r = 0 \<and> (\<forall>k. unat start + 4096 * k < unat KERNEL_START \<longrightarrow> (\<exists>i<unat len. mm_at (page_at (page_at start k) i) p \<noteq> None)))"
  using get_free_addr_ok [OF assms(1-3), of hint] unfolding assms(4) first_free_run_def free_run_def not_all not_imp by auto

theorem get_free_addr_first_fit_witness: "get_free_addr 0 2 (sample_proc, sample_mstate) = Some (0x102000, sample_proc, sample_mstate)"
proof -
  have "\<exists>r. get_free_addr 0 2 (sample_proc, sample_mstate) = Some (r, sample_proc, sample_mstate) \<and> first_free_run sample_proc 2 MMAP_MIN_ADDR r"
    unfolding first_free_run_def free_run_def not_all not_imp
    by (rule get_free_addr_first_fit [OF sample_lock(1) sample_keys(1)]) (simp_all add: sample_proc_def)
  then show ?thesis using sample_first by blast
qed

text \<open>C18: \<^verbatim>\<open>mmap\<close> of private anonymous memory, when a free range is left: it returns the first one, gives exactly its pages a
  new entry with the requested flags, held once by each page, and changes no other mapping, page table or page.\<close>
theorem mmap_fresh_range:
  assumes "lock_ok (p, s)" "fresh_entry s" "user_keys p" "0 < unat (page_count len)" "unat (page_count len) \<le> 2 ^ 19"
    and "page_base ptr = 0 \<or> \<not> bad_range (page_base ptr) (page_count len)" "prot \<noteq> 0" "flags AND 2 \<noteq> 0" "flags AND 1 = 0"
    and "start = (if page_base ptr \<noteq> 0 then page_base ptr else p_first_free p)" "start \<noteq> 0"
    and "unat start + 4096 * j < unat KERNEL_START" "free_run p (page_count len) (page_at start j)"
  shows "\<exists>r p' s'. sys_mmap fs ptr len prot flags stream offset (p, s) = Some (Inr r, p', s') \<and>
    r \<noteq> 0 \<and> first_free_run p (page_count len) start r \<and>
    (\<forall>key. mm_at key p' = (if \<exists>i<unat (page_count len). key = page_at r i then Some (ms_next s) else mm_at key p)) \<and>
    sp_heap (ms_entries s') = (sp_heap (ms_entries s))(ms_next s \<mapsto> (mmap_entry prot flags, page_count len)) \<and>
    p_pager p' = p_pager p \<and> p_lock p' = p_lock p \<and> ms_vm s' = ms_vm s \<and> ms_pages s' = ms_pages s"
proof -
  obtain r where r: "r \<noteq> 0" "first_free_run p (page_count len) start r" "free_run p (page_count len) r"
    "sys_mmap fs ptr len prot flags stream offset (p, s) =
      Some (Inr r, mapped_proc r (page_count len) (p, s), mapped_state (mmap_entry prot flags) (page_count len) s)"
    using sys_mmap_private [OF assms] by blast
  have "unat (page_count len) \<le> 2 ^ 52" using assms(5) by simp
  note at = mm_at_mapped [OF this r(3), where s = s]
  show ?thesis
    by (intro exI [of _ r] exI [of _ "mapped_proc r (page_count len) (p, s)"] exI [of _ "mapped_state (mmap_entry prot flags) (page_count len) s"])
      (simp add: r at mapped_state_def, simp add: mapped_proc_def bump_first_free_def)
qed

theorem mmap_fresh_range_witness:
  "\<exists>p' s'. sys_mmap sample_fs 0 0x2000 3 2 None 0 (sample_proc, sample_mstate) = Some (Inr 0x102000, p', s') \<and>
    mm_at 0x103000 p' = Some 10 \<and> mm_at 0x101000 p' = Some 3"
proof -
  have z: "page_base 0 = 0" "p_first_free sample_proc = MMAP_MIN_ADDR" "MMAP_MIN_ADDR \<noteq> 0" "ms_next sample_mstate = 10"
    by (simp_all add: page_base_def sample_proc_def MMAP_MIN_ADDR_def sample_mstate_def)
  obtain r p' s' where r: "sys_mmap sample_fs 0 0x2000 3 2 None 0 (sample_proc, sample_mstate) = Some (Inr r, p', s')"
    "first_free_run sample_proc 2 MMAP_MIN_ADDR r"
    "\<forall>key. mm_at key p' = (if \<exists>i<2. key = page_at r i then Some (ms_next sample_mstate) else mm_at key sample_proc)"
    using mmap_fresh_range [OF sample_lock(1) sample_fresh sample_keys(1), where len = "0x2000" and ptr = 0 and prot = 3 and flags = 2
        and start = MMAP_MIN_ADDR and j = 2 and fs = sample_fs and stream = None and offset = 0] sample_run z by auto
  have "r = 0x102000" using sample_first r(2) by blast
  moreover have "\<exists>i<2. page_at 0x102000 i = 0x103000"
    by (intro exI [of _ 1]) (simp add: page_at_of_nat)
  moreover have "\<forall>i<2. page_at 0x102000 i \<noteq> 0x101000" by (auto simp: page_at_of_nat less_2_cases_iff)
  ultimately show ?thesis using r z(4) by (intro exI [of _ p'] exI [of _ s']) (auto simp: sample_keys eq_commute [of _ "page_at _ _"])
qed

text \<open>C17: \<^verbatim>\<open>munmap\<close> of the range that \<^verbatim>\<open>mmap\<close> returned for private anonymous memory restores the memory map and the entries,
  with the entry of the range destroyed, provided the range does not reach into the kernel.\<close>
theorem mmap_munmap_restores:
  assumes "lock_ok (p, s)" "fresh_entry s" "user_keys p" "0 < unat (page_count len)" "unat (page_count len) \<le> 2 ^ 19"
    and "page_base ptr = 0 \<or> \<not> bad_range (page_base ptr) (page_count len)" "prot \<noteq> 0" "flags AND 2 \<noteq> 0" "flags AND 1 = 0"
    and "start = (if page_base ptr \<noteq> 0 then page_base ptr else p_first_free p)" "start \<noteq> 0"
    and "unat start + 4096 * j < unat KERNEL_START" "free_run p (page_count len) (page_at start j)"
    and "page_base (p_first_free p) = p_first_free p" "rm_available (running (ms_vm s)) (pager_locker (p_pager p))"
  shows "\<exists>r p' s'. sys_mmap fs ptr len prot flags stream offset (p, s) = Some (Inr r, p', s') \<and>
    (\<not> bad_range r (page_count len) \<longrightarrow>
      (\<exists>p'' s''. sys_munmap fs r len (p', s') = Some (Inr 0, p'', s'') \<and> p_memorymap p'' = p_memorymap p \<and>
        sp_heap (ms_entries s'') = sp_heap (ms_entries s) \<and> sp_destroyed (ms_entries s'') = sp_destroyed (ms_entries s) @ [mmap_entry prot flags]))"
proof -
  let ?n = "page_count len" and ?x = "mmap_entry prot flags" and ?e = "ms_next s"
  obtain r where r: "r \<noteq> 0" "first_free_run p ?n start r" "free_run p ?n r"
    "sys_mmap fs ptr len prot flags stream offset (p, s) = Some (Inr r, mapped_proc r ?n (p, s), mapped_state ?x ?n s)"
    using sys_mmap_private [OF assms(1-13)] by blast
  let ?p = "mapped_proc r ?n (p, s)" and ?s = "mapped_state ?x ?n s"
  have n: "unat ?n \<le> 2 ^ 52" using assms(5) by simp
  have l: "lock_ok (?p, ?s)" "rm_available (running (ms_vm ?s)) (pager_locker (p_pager ?p))"
    using assms(1,15) by (simp_all add: lock_ok_def mapped_proc_def mapped_state_def bump_first_free_def)
  have base: "\<forall>i<unat ?n. page_at r i \<notin> fst ` set (p_memorymap p)"
    using r(3) by (simp add: free_run_def mm_at_def map_of_eq_None_iff)
  have mm: "p_memorymap ?p = p_memorymap p @ map (\<lambda>i. (page_at r i, ?e)) [0..<unat ?n]"
    by (simp add: mapped_proc_def bump_first_free_def)
  have st: "?s = with_count ?e ?x ?n (s\<lparr>ms_next := ?e + 1\<rparr>)" by (simp add: mapped_state_def with_count_def)
  have e0: "?e \<noteq> 0" using assms(2) by (simp add: fresh_entry_def)
  obtain ap where ap: "me_page ?x = ANONYMOUS ap" by (simp add: mmap_entry_def)
  obtain pg v where u: "unmap_pages fs r ?n (?p, ?s) =
      Some (?p\<lparr>p_memorymap := p_memorymap p, p_pager := pg\<rparr>, (without_entry ?e ?x (s\<lparr>ms_next := ?e + 1\<rparr>))\<lparr>ms_vm := v\<rparr>)"
    using unmap_pages_anonymous [OF l base n assms(4) e0 ap mm st] by blast
  have "page_base start = start" using assms(10,14) page_base_idem by auto
  moreover have "\<exists>k. r = page_at start k" using r(1,2) unfolding first_free_run_def by blast
  ultimately have "page_base r = r" using page_at_aligned by blast
  moreover have "(sp_heap (ms_entries s))(?e := None) = sp_heap (ms_entries s)" using assms(2) by (simp add: fresh_entry_def fun_upd_idem)
  ultimately show ?thesis
    using r(4) u by (intro exI [of _ r] exI [of _ ?p] exI [of _ ?s]) (simp add: sys_munmap_def Let_def without_entry_def)
qed

theorem mmap_munmap_restores_witness:
  "\<exists>p' s' p'' s''. sys_mmap sample_fs 0 0x2000 3 2 None 0 (sample_proc, sample_mstate) = Some (Inr 0x102000, p', s') \<and>
    sys_munmap sample_fs 0x102000 0x2000 (p', s') = Some (Inr 0, p'', s'') \<and> p_memorymap p'' = [(0x101000, 3)]"
proof -
  have z: "page_base 0 = 0" "p_first_free sample_proc = MMAP_MIN_ADDR" "MMAP_MIN_ADDR \<noteq> 0" "p_memorymap sample_proc = [(0x101000, 3)]"
    "page_base MMAP_MIN_ADDR = MMAP_MIN_ADDR" "\<not> bad_range 0x102000 2"
    by (simp_all add: page_base_def sample_proc_def MMAP_MIN_ADDR_def bad_range_def KERNEL_START_def)
  obtain r q where r: "sys_mmap sample_fs 0 0x2000 3 2 None 0 (sample_proc, sample_mstate) = Some (Inr r, q)"
    "first_free_run sample_proc 2 MMAP_MIN_ADDR r"
    using sys_mmap_private [OF sample_lock(1) sample_fresh sample_keys(1), where len = "0x2000" and ptr = 0 and prot = 3 and flags = 2
        and start = MMAP_MIN_ADDR and j = 2 and fs = sample_fs and stream = None and offset = 0] sample_run z by auto
  have "r = 0x102000" using sample_first r(2) by blast
  then show ?thesis
    using mmap_munmap_restores [OF sample_lock(1) sample_fresh sample_keys(1), where len = "0x2000" and ptr = 0 and prot = 3 and flags = 2
        and start = MMAP_MIN_ADDR and j = 2 and fs = sample_fs and stream = None and offset = 0] sample_run z sample_lock(2) r(1) by auto
qed

text \<open>When a process exits, the memory map is emptied and the objects of its physical pages are deleted, but no page is
  returned to the allocator: their reference counts are never decremented, so every resident page of the process stays
  marked used with no handle left to free it.\<close>
theorem exit_leaks_pages:
  assumes "sole_pages (p, s)" "rm_available (running (ms_vm s)) (pager_locker (p_pager p))"
  shows "\<exists>p' s'. release_memory fs (p, s) = Some (p', s') \<and> p_memorymap p' = [] \<and> vm_pmm (ms_vm s') = vm_pmm (ms_vm s) \<and>
    (\<forall>e\<in>snd ` set (p_memorymap p). ms_pages s' (page_of_entry s e) = None)"
proof -
  obtain pg where pg: "pager_lock (p_pager p, ms_vm s) = Some (pg, ms_vm s)" using pager_lock_available [OF assms(2)] by blast
  let ?p1 = "p\<lparr>p_pager := pg\<rparr>"
  have lock: "upd_pager pager_lock (p, s) = Some (?p1, s)" using upd_pager_eval [of pager_lock p s] pg by simp
  have flush: "foldM (flush_entry fs) (p_memorymap ?p1) (?p1, s) = Some (?p1, s)"
    using assms(1) by (intro flush_memory) (simp add: sole_pages_def)
  obtain pg' v where u: "pager_unlock (pg, ms_vm s) = (pg', v)" by (cases "pager_unlock (pg, ms_vm s)")
  let ?s = "s\<lparr>ms_vm := v\<rparr>"
  have unlock: "upd_pager (\<lambda>q. Some (pager_unlock q)) (?p1, s) = Some (?p1\<lparr>p_pager := pg'\<rparr>, ?s)"
    using u by (intro upd_pager_eval) simp
  have v: "vm_pmm v = vm_pmm (ms_vm s)" using unlock_pmm [of "(pg, ms_vm s)"] u by simp
  have same: "page_of_entry ?s = page_of_entry s" "sole_page ?s = sole_page s" by (auto simp: page_of_entry_def sole_page_def fun_eq_iff)
  obtain s' where s': "foldM drop_entry (map snd (p_memorymap p)) ?s = Some s'" "ms_vm s' = v"
    "\<forall>e\<in>set (map snd (p_memorymap p)). ms_pages s' (page_of_entry s e) = None"
    using drop_sole_pages [of "map snd (p_memorymap p)" ?s] assms(1) unfolding same by (auto simp: sole_pages_def)
  have "release_memory fs (p, s) = Some (p\<lparr>p_pager := pg', p_memorymap := []\<rparr>, s')"
    using lock flush unlock s'(1) by (simp add: release_memory_def mm_clear_def foldM_map [of drop_entry snd])
  then show ?thesis using s' v by (intro exI [of _ "p\<lparr>p_pager := pg', p_memorymap := []\<rparr>"] exI [of _ s']) simp
qed

theorem exit_leaks_pages_witness:
  "\<exists>p' s'. release_memory sample_fs (sample_proc, sample_mstate) = Some (p', s') \<and> p_memorymap p' = [] \<and>
    page_used (vm_pmm (ms_vm s')) 9 \<and> ms_pages s' 9 = None"
proof -
  have "sole_pages (sample_proc, sample_mstate)" "page_of_entry sample_mstate 3 = 9" "page_used (vm_pmm (ms_vm sample_mstate)) 9"
    by (simp_all add: sole_pages_def sole_page_def sample_proc_def sample_mstate_def page_of_entry_def sample_vmem_def sample_pmm_used)
  moreover have "3 \<in> snd ` set (p_memorymap sample_proc)" by (simp add: sample_proc_def)
  ultimately show ?thesis using exit_leaks_pages [of sample_proc sample_mstate sample_fs] sample_lock(2) by metis
qed

end
