(* ===== verification/Ext2.thy ===== *)
theory Ext2
  imports Vfs Gpt "HOL-Library.Monad_Syntax"
begin

unbundle bit_operations_syntax

text \<open>
  The ext2 file system module (\<^verbatim>\<open>kernel/modules/ext2\<close>): mounting, the block cache, inodes and the block map,
  directories, and reading and seeking in files. The block device and the contents of pages that the kernel
  allocates are parameters (\<open>ext2_env\<close>). Cache blocks are named by their block address, since the cache holds one per
  address and never drops it. \<open>None\<close> is a failed assertion, a panic, a division by zero, an access outside a buffer or
  through a null pointer, or a loop that does not end.
\<close>

section \<open>Structures on the disk\<close>

record superblock =
  total_blocks :: u32
  blocks_size :: u32
  group_block_count :: u32
  group_inode_count :: u32
  signature :: u16
  version_major :: u32
  ext_inode_size :: u16

definition superblock_of :: "u8 list \<Rightarrow> superblock" where
  "superblock_of b =
     \<lparr>total_blocks = le_field 4 4 b, blocks_size = le_field 24 4 b, group_block_count = le_field 32 4 b,
      group_inode_count = le_field 40 4 b, signature = le_field 56 2 b, version_major = le_field 76 4 b,
      ext_inode_size = le_field 88 2 b\<rparr>"

record inode =
  type_and_perm :: u16
  ino_user_id :: u16
  ino_size :: u32
  ino_access_time :: u32
  ino_create_time :: u32
  ino_modify_time :: u32
  ino_group_id :: u16

definition inode_of :: "nat \<Rightarrow> u8 list \<Rightarrow> inode" where
  "inode_of off b =
     \<lparr>type_and_perm = le_field off 2 b, ino_user_id = le_field (off + 2) 2 b, ino_size = le_field (off + 4) 4 b,
      ino_access_time = le_field (off + 8) 4 b, ino_create_time = le_field (off + 12) 4 b,
      ino_modify_time = le_field (off + 16) 4 b, ino_group_id = le_field (off + 24) 2 b\<rparr>"

text \<open>The offsets of \<^verbatim>\<open>direct\<close>, \<^verbatim>\<open>singly_indirect\<close>, \<^verbatim>\<open>doubly_indirect\<close>, \<^verbatim>\<open>triply_indirect\<close> in an inode, and of
  \<^verbatim>\<open>inode_table\<close> in a block group, whose size is 32 bytes.\<close>

definition direct_off :: nat where "direct_off = 40"
definition singly_off :: nat where "singly_off = 88"
definition doubly_off :: nat where "doubly_off = 92"
definition triply_off :: nat where "triply_off = 96"
definition INODE_SIZE :: nat where "INODE_SIZE = 128"
definition GROUP_SIZE :: nat where "GROUP_SIZE = 32"
definition inode_table_off :: nat where "inode_table_off = 8"

section \<open>Mounted file systems\<close>

record cache_block =
  cb_base :: "u8 list option"
  cb_ref_count :: u32
  cb_dirty :: bool

record inode_ptr =
  ip_block :: u32
  ip_offset :: u32

record mount_info =
  mi_superblock :: superblock
  block_group_count :: u32
  block_size :: u32
  sb_ext :: bool
  mi_filesystem :: "fsid option"
  block_groups :: "u8 list"
  cache_block_table :: "u32 \<Rightarrow> cache_block option"
  mi_root :: "vid option"
  mi_data :: "inode_ptr list"

record ext2_module =
  minor_num :: u16
  mounted_filesystems :: "u16 \<Rightarrow> mount_info option"

text \<open>\<open>block_read\<close> gives the bytes that the device stores for a number of sectors at an address, \<open>new_pages\<close> what pages
  given out by the allocator happen to hold.\<close>

record ext2_env =
  block_read :: "u64 \<Rightarrow> u32 \<Rightarrow> u8 list value_or_error"
  new_pages :: "nat \<Rightarrow> u8 list"

text \<open>A device that stores its bytes in a buffer; the caller may ignore the error.\<close>

definition read_into :: "ext2_env \<Rightarrow> u64 \<Rightarrow> u32 \<Rightarrow> u8 list \<Rightarrow> (unit value_or_error \<times> u8 list) option" where
  "read_into env lba n buf = (case block_read env lba n of
     Inl e \<Rightarrow> Some (Inl e, buf)
   | Inr bs \<Rightarrow> if length bs \<le> length buf then Some (Inr (), bs @ drop (length bs) buf) else None)"

text \<open>The number of pages of a buffer.\<close>

definition page_len :: "nat \<Rightarrow> nat" where
  "page_len n = n div 4096 + (if n mod 4096 = 0 then 0 else 1)"

definition get_lba :: "u32 \<Rightarrow> mount_info \<Rightarrow> u64" where
  "get_lba block mi = ucast (block * block_size mi div 512)"

definition get_group_descriptor_block :: "u32 \<Rightarrow> mount_info \<Rightarrow> u32" where
  "get_group_descriptor_block group_index mi =
     group_block_count (mi_superblock mi) * group_index + (if blocks_size (mi_superblock mi) = 0 then 2 else 1)"

definition get_inode_group :: "u32 \<Rightarrow> mount_info \<Rightarrow> u32" where
  "get_inode_group inode_index mi = (inode_index - 1) div group_inode_count (mi_superblock mi)"

definition get_inode_local_index :: "u32 \<Rightarrow> mount_info \<Rightarrow> u32" where
  "get_inode_local_index inode_index mi = (inode_index - 1) mod group_inode_count (mi_superblock mi)"

definition inode_table_block :: "u32 \<Rightarrow> mount_info \<Rightarrow> u32" where
  "inode_table_block inode_index mi =
     get_inode_local_index inode_index mi * ucast (ext_inode_size (mi_superblock mi)) div block_size mi"

definition mount :: "ext2_env \<Rightarrow> ext2_module \<Rightarrow> (u16 value_or_error \<times> ext2_module) option" where
  "mount env m = do {
     (_, sb) \<leftarrow> read_into env 2 2 (new_pages env 1);
     let s = superblock_of sb;
     if signature s \<noteq> 0xEF53 then Some (Inl EINVAL, m)
     else if group_block_count s = 0 \<or> push_bit (unat (blocks_size s)) 1024 = (0 :: u32) then None
     else do {
       let groups = total_blocks s div group_block_count s + (if total_blocks s mod group_block_count s = 0 then 0 else 1);
       let size = push_bit (unat (blocks_size s)) 1024;
       let mi = \<lparr>mi_superblock = s, block_group_count = groups, block_size = size, sb_ext = version_major s \<ge> 1, mi_filesystem = None,
         block_groups = [], cache_block_table = (\<lambda>_. None), mi_root = None, mi_data = []\<rparr>;
       let byte_size = unat groups * GROUP_SIZE;
       let table_blocks = byte_size div unat size + (if byte_size mod unat size = 0 then 0 else 1);
       (_, bg) \<leftarrow> read_into env (get_lba (get_group_descriptor_block 0 mi) mi) (size div 512)
         (new_pages env (page_len (table_blocks * unat size div GROUP_SIZE * GROUP_SIZE)));
       Some (Inr (minor_num m), m\<lparr>minor_num := minor_num m + 1,
         mounted_filesystems := (mounted_filesystems m)(minor_num m \<mapsto> mi\<lparr>block_groups := bg\<rparr>)\<rparr>) } }"

section \<open>The block cache\<close>

definition read_cache_block :: "u32 \<Rightarrow> mount_info \<Rightarrow> mount_info" where
  "read_cache_block blk mi = (case cache_block_table mi blk of
     Some _ \<Rightarrow> mi
   | None \<Rightarrow> mi\<lparr>cache_block_table := (cache_block_table mi)(blk \<mapsto> \<lparr>cb_base = None, cb_ref_count = 0, cb_dirty = False\<rparr>)\<rparr>)"

definition cache_ptr :: "ext2_env \<Rightarrow> u32 \<Rightarrow> mount_info \<Rightarrow> (u8 list \<times> mount_info) option" where
  "cache_ptr env blk mi = do {
     cb \<leftarrow> cache_block_table mi blk;
     (case cb_base cb of
        Some base \<Rightarrow> Some (base, mi)
      | None \<Rightarrow> do {
          (_, base) \<leftarrow> read_into env (get_lba blk mi) (block_size mi div 512) (new_pages env (page_len (unat (block_size mi))));
          Some (base, mi\<lparr>cache_block_table := (cache_block_table mi)(blk \<mapsto> cb\<lparr>cb_base := Some base\<rparr>)\<rparr>) }) }"

definition cache_ref :: "u32 \<Rightarrow> mount_info \<Rightarrow> mount_info option" where
  "cache_ref blk mi = map_option (\<lambda>cb. mi\<lparr>cache_block_table := (cache_block_table mi)(blk \<mapsto> cb\<lparr>cb_ref_count := cb_ref_count cb + 1\<rparr>)\<rparr>)
     (cache_block_table mi blk)"

definition cache_unref :: "u32 \<Rightarrow> mount_info \<Rightarrow> mount_info option" where
  "cache_unref blk mi = map_option (\<lambda>cb. mi\<lparr>cache_block_table := (cache_block_table mi)(blk \<mapsto> cb\<lparr>cb_ref_count := cb_ref_count cb - 1\<rparr>)\<rparr>)
     (cache_block_table mi blk)"

text \<open>A field of a buffer, which must lie inside it.\<close>

definition field_at :: "nat \<Rightarrow> nat \<Rightarrow> u8 list \<Rightarrow> 'a::len word option" where
  "field_at off n b = (if off + n \<le> length b then Some (le_field off n b) else None)"

text \<open>\<^verbatim>\<open>((u32_t*)cb->ptr())[i]\<close> and a 32-bit field of \<^verbatim>\<open>inode->\<close>.\<close>

definition table_entry :: "ext2_env \<Rightarrow> u32 \<Rightarrow> u32 \<Rightarrow> mount_info \<Rightarrow> (u32 \<times> mount_info) option" where
  "table_entry env blk i mi = do {
     (base, mi) \<leftarrow> cache_ptr env blk (read_cache_block blk mi);
     v \<leftarrow> field_at (4 * unat i) 4 base;
     Some (v, mi) }"

definition inode_field :: "ext2_env \<Rightarrow> inode_ptr \<Rightarrow> nat \<Rightarrow> mount_info \<Rightarrow> (u32 \<times> mount_info) option" where
  "inode_field env ip off mi = do {
     (base, mi) \<leftarrow> cache_ptr env (ip_block ip) mi;
     v \<leftarrow> field_at (unat (ip_offset ip) + off) 4 base;
     Some (v, mi) }"

section \<open>Inodes\<close>

definition inode_ptr_new :: "u32 \<Rightarrow> u32 \<Rightarrow> mount_info \<Rightarrow> (inode_ptr \<times> mount_info) option" where
  "inode_ptr_new blk off mi = map_option (Pair \<lparr>ip_block = blk, ip_offset = off\<rparr>) (cache_ref blk mi)"

definition inode_ptr_copy :: "inode_ptr \<Rightarrow> mount_info \<Rightarrow> (inode_ptr \<times> mount_info) option" where
  "inode_ptr_copy ip mi = map_option (Pair ip) (cache_ref (ip_block ip) mi)"

definition inode_ptr_delete :: "inode_ptr \<Rightarrow> mount_info \<Rightarrow> mount_info option" where
  "inode_ptr_delete ip mi = cache_unref (ip_block ip) mi"

definition read_inode :: "ext2_env \<Rightarrow> u32 \<Rightarrow> mount_info \<Rightarrow> (inode_ptr \<times> mount_info) option" where
  "read_inode env inode_idx mi =
     (let sb = mi_superblock mi; per_block = block_size mi div ucast (ext_inode_size sb)
      in if group_inode_count sb = 0 \<or> block_size mi = 0 \<or> ext_inode_size sb = 0 \<or> per_block = 0 then None
         else do {
           table \<leftarrow> field_at (unat (get_inode_group inode_idx mi) * GROUP_SIZE + inode_table_off) 4 (block_groups mi);
           let blk = inode_table_block inode_idx mi + table;
           let mi = read_cache_block blk mi;
           let off = (inode_idx - 1) mod per_block * ucast (ext_inode_size sb);
           inode_ptr_new blk off mi })"

definition get_inode_block :: "ext2_env \<Rightarrow> inode_ptr \<Rightarrow> u32 \<Rightarrow> mount_info \<Rightarrow> (u32 \<times> mount_info) option" where
  "get_inode_block env ip i mi =
     (let n = block_size mi div 4
      in if i < 12 then inode_field env ip (direct_off + 4 * unat i) mi
         else if i < 12 + n then do {
           (singly, mi) \<leftarrow> inode_field env ip singly_off mi;
           table_entry env singly (i - 12) mi }
         else if i < 12 + n + n * n then do {
           (doubly, mi) \<leftarrow> inode_field env ip doubly_off mi;
           let j = i - 12 - n;
           (singly, mi) \<leftarrow> table_entry env doubly (j div n) mi;
           table_entry env singly (j mod n) mi }
         else do {
           (triply, mi) \<leftarrow> inode_field env ip triply_off mi;
           let j = i - 12 - n - n * n;
           (doubly, mi) \<leftarrow> table_entry env triply (j div (n * n)) mi;
           (singly, mi) \<leftarrow> table_entry env doubly (j div n mod n) mi;
           table_entry env singly (j mod n) mi })"

definition inode_at :: "ext2_env \<Rightarrow> inode_ptr \<Rightarrow> mount_info \<Rightarrow> (inode \<times> mount_info) option" where
  "inode_at env ip mi = do {
     (base, mi) \<leftarrow> cache_ptr env (ip_block ip) mi;
     if unat (ip_offset ip) + 26 \<le> length base then Some (inode_of (unat (ip_offset ip)) base, mi) else None }"

text \<open>An unknown type is a panic.\<close>

definition inode_to_vnode_type :: "u16 \<Rightarrow> vtype option" where
  "inode_to_vnode_type t =
     (if t = 0x2000 then Some CHARACTER_DEVICE else if t = 0x6000 then Some BLOCK_DEVICE
      else if t = 0x4000 then Some DIRECTORY else if t = 0x8000 then Some FILE else if t = 0xA000 then Some LINK else None)"

definition inode_vnode :: "inode \<Rightarrow> cstring \<Rightarrow> vtype \<Rightarrow> fsid \<Rightarrow> vnode" where
  "inode_vnode ino name vt fs =
     (VNode_new (type_and_perm ino AND 0xFFF) (ucast (ino_size ino)) name vt fs)
       \<lparr>f_user_id := ino_user_id ino, f_group_id := ino_group_id ino, f_create_time := ucast (ino_create_time ino),
        f_access_time := ucast (ino_access_time ino), f_modify_time := ucast (ino_modify_time ino)\<rparr>"

text \<open>\<^verbatim>\<open>fs_data = new Ext2VNodeDataStorage(inode)\<close>, which copies the pointer; the data of a node is its index in \<open>mi_data\<close>.\<close>

definition set_node_data :: "vid \<Rightarrow> inode_ptr \<Rightarrow> vfs_state \<times> mount_info \<Rightarrow> (vfs_state \<times> mount_info) option" where
  "set_node_data i ip sm = (case sm of (st, mi) \<Rightarrow> do {
     (ip, mi) \<leftarrow> inode_ptr_copy ip mi;
     st \<leftarrow> update_node i (\<lambda>v. v\<lparr>fs_data := ModuleData (length (mi_data mi))\<rparr>) st;
     Some (st, mi\<lparr>mi_data := mi_data mi @ [ip]\<rparr>) })"

definition node_inode :: "vnode \<Rightarrow> mount_info \<Rightarrow> inode_ptr option" where
  "node_inode v mi = (case fs_data v of
     ModuleData k \<Rightarrow> if k < length (mi_data mi) then Some (mi_data mi ! k) else None
   | _ \<Rightarrow> None)"

definition set_fs_object :: "ext2_env \<Rightarrow> u16 \<Rightarrow> fsid \<Rightarrow> vfs_state \<times> ext2_module \<Rightarrow> (vfs_state \<times> ext2_module) option" where
  "set_fs_object env minor fs sm = (case sm of (st, m) \<Rightarrow> do {
     mi \<leftarrow> mounted_filesystems m minor;
     (ip, mi) \<leftarrow> read_inode env 2 (mi\<lparr>mi_filesystem := Some fs\<rparr>);
     (ino, mi) \<leftarrow> inode_at env ip mi;
     let (st, i) = make_node (inode_vnode ino [] DIRECTORY fs) st;
     (st, mi) \<leftarrow> set_node_data i ip (st, mi\<lparr>mi_root := Some i\<rparr>);
     mi \<leftarrow> inode_ptr_delete ip mi;
     Some (st, m\<lparr>mounted_filesystems := (mounted_filesystems m)(minor \<mapsto> mi)\<rparr>) })"

section \<open>Directories\<close>

text \<open>\<^verbatim>\<open>strncmp(filename, dir_ent->name, n) == 0\<close> for a name of \<open>n\<close> characters\<close>

fun same_name :: "cstring \<Rightarrow> nat \<Rightarrow> u8 list \<Rightarrow> bool option" where
  "same_name [] off b = Some True"
| "same_name (c # cs) off b = (if off < length b then if c \<noteq> b ! off then Some False else same_name cs (off + 1) b else None)"

definition entry_matches :: "cstring \<Rightarrow> nat \<Rightarrow> u8 list \<Rightarrow> bool option" where
  "entry_matches name off b = do {
     n \<leftarrow> field_at (off + 6) 1 b;
     if length name \<noteq> unat (n :: u8) then Some False else same_name name (off + 8) b }"

partial_function (option) find_entry :: "ext2_env \<Rightarrow> cstring \<Rightarrow> u32 \<Rightarrow> size_t \<Rightarrow> mount_info \<Rightarrow> (u32 option \<times> mount_info) option" where
  "find_entry env name blk off mi =
     (if off < ucast (block_size mi) then do {
        (base, mi) \<leftarrow> cache_ptr env blk mi;
        ino \<leftarrow> field_at (unat off) 4 base;
        hit \<leftarrow> (if ino = 0 then Some False else entry_matches name (unat off) base);
        if hit then Some (Some ino, mi)
        else do {
          n \<leftarrow> field_at (unat off + 4) 2 base;
          find_entry env name blk (off + ucast (n :: u16)) mi } }
      else Some (None, mi))"

text \<open>The number of whole blocks of a directory\<close>

definition dir_blocks :: "ext2_env \<Rightarrow> inode_ptr \<Rightarrow> mount_info \<Rightarrow> (u32 \<times> mount_info) option" where
  "dir_blocks env ip mi = do {
     (n, mi) \<leftarrow> inode_field env ip 4 mi;
     Some (drop_bit (unat (10 + blocks_size (mi_superblock mi))) n, mi) }"

partial_function (option) find_in_dir :: "ext2_env \<Rightarrow> cstring \<Rightarrow> inode_ptr \<Rightarrow> size_t \<Rightarrow> mount_info \<Rightarrow> (u32 option \<times> mount_info) option" where
  "find_in_dir env name ip blk_idx mi = do {
     (n, mi) \<leftarrow> dir_blocks env ip mi;
     if blk_idx < ucast n then do {
       (blk, mi) \<leftarrow> get_inode_block env ip (ucast blk_idx) mi;
       (r, mi) \<leftarrow> find_entry env name blk 0 (read_cache_block blk mi);
       if r \<noteq> None then Some (r, mi) else find_in_dir env name ip (blk_idx + 1) mi }
     else Some (None, mi) }"

text \<open>A node for an inode, below \<open>root\<close>. The last step is the destruction of the local \<^verbatim>\<open>inode\<close>.\<close>

definition attach_inode :: "ext2_env \<Rightarrow> cstring \<Rightarrow> vid \<Rightarrow> u32 \<Rightarrow> vfs_state \<times> mount_info \<Rightarrow> (vid \<times> vfs_state \<times> mount_info) option" where
  "attach_inode env name root n sm = (case sm of (st, mi) \<Rightarrow> do {
     (ip, mi) \<leftarrow> read_inode env n mi;
     (ino, mi) \<leftarrow> inode_at env ip mi;
     vt \<leftarrow> inode_to_vnode_type (type_and_perm ino AND 0xF000);
     fs \<leftarrow> mi_filesystem mi;
     let (st, i) = make_node (inode_vnode ino name vt fs) st;
     st \<leftarrow> set_parent i (Some root) st;
     (st, mi) \<leftarrow> set_node_data i ip (st, mi);
     st \<leftarrow> add_child root i st;
     mi \<leftarrow> inode_ptr_delete ip mi;
     Some (i, st, mi) })"

text \<open>The prologue of the operations: the mounted file system of a minor number, and the node of the call, which has
  to belong to it.\<close>

definition ext2_root :: "vid option \<Rightarrow> vfs_state \<Rightarrow> mount_info \<Rightarrow> (vid \<times> vnode \<times> inode_ptr) option" where
  "ext2_root root st mi = do {
     r \<leftarrow> (case root of Some r \<Rightarrow> Some r | None \<Rightarrow> mi_root mi);
     v \<leftarrow> nodes st r;
     ip \<leftarrow> node_inode v mi;
     if mi_filesystem mi = Some (f_filesystem v) then Some (r, v, ip) else None }"

definition ext2_get_file :: "ext2_env \<Rightarrow> u16 \<Rightarrow> vid option \<Rightarrow> cstring \<Rightarrow> vfs_state \<times> ext2_module \<Rightarrow>
    (vid value_or_error \<times> vfs_state \<times> ext2_module) option" where
  "ext2_get_file env minor root filename sm = (case sm of (st, m) \<Rightarrow> do {
     mi \<leftarrow> mounted_filesystems m minor;
     (r, v, ip) \<leftarrow> ext2_root root st mi;
     (hit, mi) \<leftarrow> find_in_dir env filename ip 0 mi;
     (case hit of
        None \<Rightarrow> Some (Inl ENOENT, st, m\<lparr>mounted_filesystems := (mounted_filesystems m)(minor \<mapsto> mi)\<rparr>)
      | Some n \<Rightarrow> do {
          (i, st, mi) \<leftarrow> attach_inode env filename r n (st, mi);
          Some (Inr i, st, m\<lparr>mounted_filesystems := (mounted_filesystems m)(minor \<mapsto> mi)\<rparr>) }) })"

text \<open>\<^verbatim>\<open>name_cp\<close> as a C string\<close>

definition entry_name :: "nat \<Rightarrow> u8 list \<Rightarrow> cstring option" where
  "entry_name off b = do {
     n \<leftarrow> field_at (off + 6) 1 b;
     if off + 8 + unat (n :: u8) \<le> length b then Some (takeWhile (\<lambda>c. c \<noteq> 0) (take (unat n) (drop (off + 8) b))) else None }"

partial_function (option) list_entries :: "ext2_env \<Rightarrow> vid \<Rightarrow> u32 \<Rightarrow> size_t \<Rightarrow> vid list \<Rightarrow> vfs_state \<Rightarrow> mount_info \<Rightarrow>
    (vid list \<times> vfs_state \<times> mount_info) option" where
  "list_entries env root blk off found st mi =
     (if off < ucast (block_size mi) then do {
        (base, mi) \<leftarrow> cache_ptr env blk mi;
        ino \<leftarrow> field_at (unat off) 4 base;
        n \<leftarrow> field_at (unat off + 4) 2 base;
        (found, st, mi) \<leftarrow>
          (if ino = 0 then Some (found, st, mi)
           else do {
             name \<leftarrow> entry_name (unat off) base;
             if name = [0x2E] \<or> name = [0x2E, 0x2E] then Some (found, st, mi)
             else do {
               child \<leftarrow> get_child root name st;
               if child \<noteq> None then Some (found, st, mi)
               else map_option (\<lambda>(i, st, mi). (found @ [i], st, mi)) (attach_inode env name root ino (st, mi)) } });
        list_entries env root blk (off + ucast (n :: u16)) found st mi }
      else Some (found, st, mi))"

partial_function (option) list_dir :: "ext2_env \<Rightarrow> vid \<Rightarrow> inode_ptr \<Rightarrow> size_t \<Rightarrow> vid list \<Rightarrow> vfs_state \<Rightarrow> mount_info \<Rightarrow>
    (vid list \<times> vfs_state \<times> mount_info) option" where
  "list_dir env root ip blk_idx found st mi = do {
     (n, mi) \<leftarrow> dir_blocks env ip mi;
     if blk_idx < ucast n then do {
       (blk, mi) \<leftarrow> get_inode_block env ip (ucast blk_idx) mi;
       (found, st, mi) \<leftarrow> list_entries env root blk 0 found st (read_cache_block blk mi);
       list_dir env root ip (blk_idx + 1) found st mi }
     else Some (found, st, mi) }"

definition ext2_get_files :: "ext2_env \<Rightarrow> u16 \<Rightarrow> vid option \<Rightarrow> vfs_state \<times> ext2_module \<Rightarrow>
    (vid list value_or_error \<times> vfs_state \<times> ext2_module) option" where
  "ext2_get_files env minor root sm = (case sm of (st, m) \<Rightarrow> do {
     mi \<leftarrow> mounted_filesystems m minor;
     (r, v, ip) \<leftarrow> ext2_root root st mi;
     found \<leftarrow> child_list (f_children v);
     (found, st, mi) \<leftarrow> list_dir env r ip 0 found st mi;
     Some (Inr found, st, m\<lparr>mounted_filesystems := (mounted_filesystems m)(minor \<mapsto> mi)\<rparr>) })"

section \<open>Files\<close>

text \<open>\<^verbatim>\<open>Ext2StreamDataStorage\<close> of an open file, with the node of the stream\<close>

record ext2_stream =
  es_node :: vid
  es_position :: u64
  es_buffer :: "u8 list"

definition ext2_open :: "ext2_env \<Rightarrow> u16 \<Rightarrow> vid \<Rightarrow> vfs_state \<times> ext2_module \<Rightarrow> ext2_stream option" where
  "ext2_open env minor node sm = (case sm of (st, m) \<Rightarrow> do {
     mi \<leftarrow> mounted_filesystems m minor;
     v \<leftarrow> nodes st node;
     if mi_filesystem mi = Some (f_filesystem v)
     then Some \<lparr>es_node = node, es_position = 0, es_buffer = new_pages env (page_len (unat (block_size mi)))\<rparr> else None })"

definition block_shift :: "mount_info \<Rightarrow> nat" where
  "block_shift mi = unat (blocks_size (mi_superblock mi) + 10)"

text \<open>How many blocks from \<open>start\<close> on follow each other on the disk. The block after the last one is looked up too.\<close>

partial_function (option) run_length :: "ext2_env \<Rightarrow> inode_ptr \<Rightarrow> u32 \<Rightarrow> u32 \<Rightarrow> size_t \<Rightarrow> size_t \<Rightarrow> mount_info \<Rightarrow> (size_t \<times> mount_info) option" where
  "run_length env ip start blk limit cnt mi = do {
     (b, mi) \<leftarrow> get_inode_block env ip (ucast (ucast start + cnt)) mi;
     if ucast b = ucast blk + cnt \<and> cnt < limit then run_length env ip start blk limit (cnt + 1) mi else Some (cnt, mi) }"

text \<open>The loop over the aligned blocks: what is left to read, the bytes stored so far and the position.\<close>

partial_function (option) read_blocks :: "ext2_env \<Rightarrow> inode_ptr \<Rightarrow> size_t \<Rightarrow> size_t \<Rightarrow> u8 list \<Rightarrow> u64 \<Rightarrow> mount_info \<Rightarrow>
    (errno option \<times> size_t \<times> u8 list \<times> u64 \<times> mount_info) option" where
  "read_blocks env ip blocks left out pos mi =
     (if blocks = 0 then Some (None, left, out, pos, mi)
      else do {
        let start = ucast (drop_bit (block_shift mi) pos);
        (blk, mi) \<leftarrow> get_inode_block env ip start mi;
        (cnt, mi) \<leftarrow> run_length env ip start blk blocks 0 mi;
        (case block_read env (get_lba blk mi) (ucast (ucast (block_size mi div 512) * cnt)) of
           Inl e \<Rightarrow> Some (Some e, left, out, pos, mi)
         | Inr bs \<Rightarrow> read_blocks env ip (blocks - cnt) (left - cnt * ucast (block_size mi)) (out @ bs) (pos + cnt * ucast (block_size mi)) mi) })"

definition bytes_at :: "nat \<Rightarrow> nat \<Rightarrow> u8 list \<Rightarrow> u8 list option" where
  "bytes_at off n b = (if off + n \<le> length b then Some (take n (drop off b)) else None)"

text \<open>The result, the bytes stored in the caller's buffer, and the new position and buffer of the stream. First the part of
  \<^verbatim>\<open>read\<close> at a block boundary: the aligned blocks, and the last one through the buffer of the stream.\<close>

definition read_aligned :: "ext2_env \<Rightarrow> inode_ptr \<Rightarrow> size_t \<Rightarrow> size_t \<Rightarrow> u8 list \<Rightarrow> u64 \<times> u8 list \<Rightarrow> mount_info \<Rightarrow>
    (size_t value_or_error \<times> u8 list \<times> (u64 \<times> u8 list) \<times> mount_info) option" where
  "read_aligned env ip len left out pb mi = (case pb of (pos, buf) \<Rightarrow> do {
     (err, left, out, pos, mi) \<leftarrow> read_blocks env ip (drop_bit (block_shift mi) left) left out pos mi;
     (case err of
        Some e \<Rightarrow> Some (Inl e, out, (pos, buf), mi)
      | None \<Rightarrow>
          if left = 0 then Some (Inr len, out, (pos, buf), mi)
          else do {
            (blk, mi) \<leftarrow> get_inode_block env ip (ucast (drop_bit (block_shift mi) pos)) mi;
            (r, buf) \<leftarrow> read_into env (get_lba blk mi) (block_size mi div 512) buf;
            (case r of
               Inl e \<Rightarrow> Some (Inl e, out, (pos, buf), mi)
             | Inr _ \<Rightarrow> do {
                 tail \<leftarrow> bytes_at 0 (unat left) buf;
                 Some (Inr len, out @ tail, (pos + left, buf), mi) }) }) })"

definition read_file :: "ext2_env \<Rightarrow> inode_ptr \<Rightarrow> u64 \<Rightarrow> size_t \<Rightarrow> u64 \<times> u8 list \<Rightarrow> mount_info \<Rightarrow>
    (size_t value_or_error \<times> u8 list \<times> (u64 \<times> u8 list) \<times> mount_info) option" where
  "read_file env ip file_size len0 pb mi = (case pb of (pos, buf) \<Rightarrow> do {
     let len = (if file_size - pos < len0 then file_size - pos else len0);
     let in_block = pos AND ucast (block_size mi - 1);
     let n = ucast (block_size mi) - in_block;
     let n = (if n = ucast (block_size mi) then 0 else n);
     let n = (if n > len then len else n);
     out \<leftarrow> (if n > 0 then bytes_at (unat in_block) (unat n) buf else Some []);
     if len - n = 0 then Some (Inr len, out, (pos + n, buf), mi)
     else read_aligned env ip len (len - n) out (pos + n, buf) mi })"

definition ext2_read :: "ext2_env \<Rightarrow> u16 \<Rightarrow> size_t \<Rightarrow> ext2_stream \<Rightarrow> vfs_state \<times> ext2_module \<Rightarrow>
    (size_t value_or_error \<times> u8 list \<times> ext2_stream \<times> ext2_module) option" where
  "ext2_read env minor len es sm = (case sm of (st, m) \<Rightarrow> do {
     mi \<leftarrow> mounted_filesystems m minor;
     (_, v, ip) \<leftarrow> ext2_root (Some (es_node es)) st mi;
     (r, out, (pos, buf), mi) \<leftarrow> read_file env ip (vn_size v) len (es_position es, es_buffer es) mi;
     Some (r, out, es\<lparr>es_position := pos, es_buffer := buf\<rparr>, m\<lparr>mounted_filesystems := (mounted_filesystems m)(minor \<mapsto> mi)\<rparr>) })"

datatype seek_mode = SEEK_MODE_CUR | SEEK_MODE_BEG | SEEK_MODE_END

text \<open>The comparison shifts by \<^verbatim>\<open>block_size + 10\<close>, of which the processor uses the low six bits.\<close>

definition seek_chunk :: "u64 \<Rightarrow> mount_info \<Rightarrow> u64" where
  "seek_chunk pos mi = drop_bit (unat ((block_size mi + 10) AND 63)) pos"

definition seek_file :: "ext2_env \<Rightarrow> inode_ptr \<Rightarrow> u64 \<Rightarrow> size_t \<Rightarrow> seek_mode \<Rightarrow> u64 \<times> u8 list \<Rightarrow> mount_info \<Rightarrow>
    (size_t value_or_error \<times> (u64 \<times> u8 list) \<times> mount_info) option" where
  "seek_file env ip file_size position mode pb mi = (case pb of (old, buf) \<Rightarrow> do {
     let pos = (case mode of SEEK_MODE_CUR \<Rightarrow> old + position | SEEK_MODE_BEG \<Rightarrow> position | SEEK_MODE_END \<Rightarrow> file_size + position);
     if pos AND ucast (block_size mi - 1) \<noteq> 0 \<and> seek_chunk old mi \<noteq> seek_chunk pos mi then do {
       (blk, mi) \<leftarrow> get_inode_block env ip (ucast (drop_bit (block_shift mi) pos)) mi;
       (r, buf) \<leftarrow> read_into env (get_lba blk mi) (drop_bit 9 (block_size mi)) buf;
       Some (case r of Inl e \<Rightarrow> Inl e | Inr _ \<Rightarrow> Inr old, (pos, buf), mi) }
     else Some (Inr old, (pos, buf), mi) })"

definition ext2_seek :: "ext2_env \<Rightarrow> u16 \<Rightarrow> size_t \<Rightarrow> seek_mode \<Rightarrow> ext2_stream \<Rightarrow> vfs_state \<times> ext2_module \<Rightarrow>
    (size_t value_or_error \<times> ext2_stream \<times> ext2_module) option" where
  "ext2_seek env minor position mode es sm = (case sm of (st, m) \<Rightarrow> do {
     mi \<leftarrow> mounted_filesystems m minor;
     (_, v, ip) \<leftarrow> ext2_root (Some (es_node es)) st mi;
     (r, (pos, buf), mi) \<leftarrow> seek_file env ip (vn_size v) position mode (es_position es, es_buffer es) mi;
     Some (r, es\<lparr>es_position := pos, es_buffer := buf\<rparr>, m\<lparr>mounted_filesystems := (mounted_filesystems m)(minor \<mapsto> mi)\<rparr>) })"

end
