(* ===== verification/Ext2_Blocks.thy ===== *)
theory Ext2_Blocks
  imports Ext2
begin

unbundle bit_operations_syntax

text \<open>
  The block map of ext2. A locale states what the readers of blocks rely on: a fetched block holds its bytes on the disk
  and fetching disturbs nothing. It is interpreted twice, on the access to blocks that the cache already knows (inodes)
  and on the access that enters new blocks in the cache (tables of block numbers). From it follow the
  lookup of the blocks of a file and the location of inodes.
\<close>

section \<open>Access to blocks\<close>

locale block_layer =
  fixes fetch :: "'b \<Rightarrow> 's \<Rightarrow> (u8 list \<times> 's) option"
    and inv :: "'s \<Rightarrow> bool"
    and good :: "'s \<Rightarrow> 'b \<Rightarrow> bool"
    and content :: "'s \<Rightarrow> 'b \<Rightarrow> u8 list"
    and ext :: "'s \<Rightarrow> 's \<Rightarrow> bool"
  assumes fetch_ok: "inv s \<Longrightarrow> good s b \<Longrightarrow>
      \<exists>base s'. fetch b s = Some (base, s') \<and> take (length (content s b)) base = content s b \<and> inv s' \<and> ext s s'"
begin

lemma field_ok:
  assumes "inv s" "good s b" "off + n \<le> length (content s b)"
  shows "\<exists>s'. Option.bind (fetch b s) (\<lambda>(base, s). Option.bind (field_at off n base) (\<lambda>v. Some (v, s))) =
    Some (le_field off n (content s b) :: 'w::len word, s') \<and> inv s' \<and> ext s s'"
proof -
  obtain base s' where f: "fetch b s = Some (base, s')" "take (length (content s b)) base = content s b" "inv s'" "ext s s'"
    using fetch_ok [OF assms(1,2)] by blast
  have l: "length (content s b) \<le> length base" using arg_cong [OF f(2), of length] by simp
  have "le_field off n (content s b) = (le_field off n base :: 'w word)"
    using assms(3) by (subst f(2) [symmetric]) (simp add: le_field_def drop_take min_def)
  moreover have "field_at off n base = Some (le_field off n base :: 'w word)" using assms(3) l by (simp add: field_at_def)
  ultimately show ?thesis using f by simp
qed

end

section \<open>The disk and the cache\<close>

text \<open>The device holds the bytes \<open>d\<close>, and the page allocator gives out pages of 4096 bytes.\<close>

definition on_disk :: "ext2_env \<Rightarrow> u8 list \<Rightarrow> bool" where
  "on_disk env d \<longleftrightarrow>
     (\<forall>lba n. 512 * (unat lba + unat n) \<le> length d \<longrightarrow>
        block_read env lba n = Inr (take (512 * unat n) (drop (512 * unat lba) d))) \<and>
     (\<forall>n. length (new_pages env n) = 4096 * n)"

abbreviation bsize :: "mount_info \<Rightarrow> nat" where
  "bsize mi \<equiv> unat (block_size mi)"

definition disk_block :: "u8 list \<Rightarrow> nat \<Rightarrow> nat \<Rightarrow> u8 list" where
  "disk_block d bs b = take bs (drop (bs * b) d)"

text \<open>A block inside the disk, within the first 4 GiB, beyond which \<^verbatim>\<open>get_lba\<close> wraps.\<close>

definition good_block :: "u8 list \<Rightarrow> nat \<Rightarrow> nat \<Rightarrow> bool" where
  "good_block d bs b \<longleftrightarrow> bs * (b + 1) \<le> length d \<and> bs * (b + 1) \<le> 2 ^ 32"

text \<open>The block size is that of the superblock, 1 to 64 KiB.\<close>

definition geometry :: "mount_info \<Rightarrow> bool" where
  "geometry mi \<longleftrightarrow> unat (blocks_size (mi_superblock mi)) \<le> 6 \<and> bsize mi = 2 ^ (10 + unat (blocks_size (mi_superblock mi)))"

definition cache_ok :: "u8 list \<Rightarrow> mount_info \<Rightarrow> bool" where
  "cache_ok d mi \<longleftrightarrow> (\<forall>b cb base. cache_block_table mi b = Some cb \<longrightarrow> cb_base cb = Some base \<longrightarrow> good_block d (bsize mi) (unat b) \<longrightarrow>
     take (bsize mi) base = disk_block d (bsize mi) (unat b))"

definition layer_inv :: "ext2_env \<Rightarrow> u8 list \<Rightarrow> mount_info \<Rightarrow> bool" where
  "layer_inv env d mi \<longleftrightarrow> on_disk env d \<and> geometry mi \<and> cache_ok d mi"

text \<open>What reading changes: blocks are entered in the cache.\<close>

definition reads :: "mount_info \<Rightarrow> mount_info \<Rightarrow> bool" where
  "reads mi mi' \<longleftrightarrow> mi' = mi\<lparr>cache_block_table := cache_block_table mi'\<rparr> \<and> dom (cache_block_table mi) \<subseteq> dom (cache_block_table mi')"

lemma readsD:
  assumes "reads mi mi'"
  shows "block_size mi' = block_size mi" "mi_superblock mi' = mi_superblock mi" "block_groups mi' = block_groups mi"
    "mi_filesystem mi' = mi_filesystem mi" "mi_root mi' = mi_root mi" "mi_data mi' = mi_data mi"
    "cache_block_table mi b \<noteq> None \<Longrightarrow> cache_block_table mi' b \<noteq> None"
proof -
  have e: "mi' = mi\<lparr>cache_block_table := cache_block_table mi'\<rparr>" and s: "dom (cache_block_table mi) \<subseteq> dom (cache_block_table mi')"
    using assms by (simp_all add: reads_def)
  show "block_size mi' = block_size mi" "mi_superblock mi' = mi_superblock mi" "block_groups mi' = block_groups mi"
    "mi_filesystem mi' = mi_filesystem mi" "mi_root mi' = mi_root mi" "mi_data mi' = mi_data mi" by (subst e, simp)+
  show "cache_block_table mi' b \<noteq> None" if "cache_block_table mi b \<noteq> None" using s that by (auto simp: dom_def)
qed

lemma reads_refl [simp]: "reads mi mi" by (simp add: reads_def)

lemma reads_trans [trans]: "reads mi mi' \<Longrightarrow> reads mi' mi'' \<Longrightarrow> reads mi mi''"
  by (cases mi; cases mi'; cases mi'') (auto simp: reads_def)

lemma reads_read_cache_block: "reads mi (read_cache_block b mi)"
  by (auto simp: reads_def read_cache_block_def split: option.splits)

lemma geometryD:
  assumes "geometry mi"
  obtains k where "k \<le> 6" "bsize mi = 2 ^ (10 + k)" "block_shift mi = 10 + k" "k = unat (blocks_size (mi_superblock mi))"
proof
  let ?k = "unat (blocks_size (mi_superblock mi))"
  show k: "?k \<le> 6" "bsize mi = 2 ^ (10 + ?k)" using assms by (simp_all add: geometry_def)
  show "block_shift mi = 10 + ?k" using k(1) by (simp add: block_shift_def unat_word_ariths)
qed simp

lemma bsize_bounds:
  assumes "geometry mi"
  shows "1024 \<le> bsize mi" "bsize mi \<le> 65536" "bsize mi mod 512 = 0" "512 * (bsize mi div 512) = bsize mi" "0 < bsize mi"
proof -
  obtain k where k: "k \<le> 6" "bsize mi = 2 ^ (10 + k)" using geometryD [OF assms] by blast
  show "1024 \<le> bsize mi" using k(2) by (simp add: power_add)
  show "bsize mi \<le> 65536" using k power_increasing [of "10 + k" 16 "2 :: nat"] by simp
  have "bsize mi = 512 * (2 * 2 ^ k)" using k(2) by (simp add: power_add)
  then show "bsize mi mod 512 = 0" "512 * (bsize mi div 512) = bsize mi" "0 < bsize mi" by simp_all
qed

lemma length_disk_block: "good_block d bs b \<Longrightarrow> length (disk_block d bs b) = bs"
  by (auto simp: good_block_def disk_block_def min_def)

lemma le_field_block:
  "good_block d bs b \<Longrightarrow> off + n \<le> bs \<Longrightarrow> le_field off n (disk_block d bs b) = le_field (bs * b + off) n d"
  by (simp add: le_field_def disk_block_def drop_take add.commute)

lemma page_len_covers: "n \<le> 4096 * page_len n"
proof (cases "n mod 4096 = 0")
  case True
  then have "n = 4096 * (n div 4096)" by auto
  then show ?thesis by (simp add: page_len_def)
next
  case False
  have "n < 4096 * (n div 4096) + 4096" using mod_less_divisor [of 4096 n] mult_div_mod_eq [of 4096 n] by linarith
  then show ?thesis using False by (simp add: page_len_def)
qed

lemma unat_ucast_64 [simp]: "unat (ucast (w :: u32) :: u64) = unat w" "unat (ucast (v :: u16) :: u64) = unat v" "unat (ucast (v :: u16) :: u32) = unat v"
proof -
  have "unat w < 2 ^ 32" "unat v < 2 ^ 16" using unsigned_less [of w] unsigned_less [of v] by simp_all
  then show "unat (ucast w :: u64) = unat w" "unat (ucast v :: u64) = unat v" "unat (ucast v :: u32) = unat v"
    by (simp_all add: unsigned_ucast_eq take_bit_nat_eq_self)
qed

lemma get_lba_nat:
  assumes "geometry mi" "good_block d (bsize mi) (unat b)"
  shows "512 * unat (get_lba b mi) = bsize mi * unat b"
proof -
  have lt: "unat b * bsize mi < 2 ^ 32"
    using assms(2) bsize_bounds(5) [OF assms(1)] by (simp add: good_block_def algebra_simps)
  then have m: "unat (b * block_size mi) = unat b * bsize mi" by (subst unat_mult_lem [symmetric]) simp
  have "unat (get_lba b mi) = unat b * bsize mi div 512" unfolding get_lba_def unat_ucast_64 unat_div m by simp
  moreover have "unat b * bsize mi = 512 * (unat b * (bsize mi div 512))" using bsize_bounds(4) [OF assms(1)] by (metis mult.left_commute)
  ultimately show ?thesis by (metis mult.commute nonzero_mult_div_cancel_left zero_neq_numeral)
qed

lemma read_block_ok:
  assumes "on_disk env d" "geometry mi" "good_block d (bsize mi) (unat b)"
  shows "block_read env (get_lba b mi) (block_size mi div 512) = Inr (disk_block d (bsize mi) (unat b))"
proof -
  note a = get_lba_nat [OF assms(2,3)]
  have n: "512 * unat (block_size mi div 512) = bsize mi" using bsize_bounds(4) [OF assms(2)] by (simp add: unat_div)
  have "512 * (unat (get_lba b mi) + unat (block_size mi div 512)) \<le> length d"
    using a n assms(3) by (simp add: distrib_left good_block_def)
  then show ?thesis using assms(1) by (simp add: on_disk_def a n disk_block_def)
qed

lemma cache_ptr_ok:
  assumes "layer_inv env d mi" "good_block d (bsize mi) (unat b)" "cache_block_table mi b \<noteq> None"
  shows "\<exists>base mi'. cache_ptr env b mi = Some (base, mi') \<and> take (bsize mi) base = disk_block d (bsize mi) (unat b) \<and>
    layer_inv env d mi' \<and> reads mi mi'"
proof -
  have i: "on_disk env d" "geometry mi" "cache_ok d mi" using assms(1) by (simp_all add: layer_inv_def)
  obtain cb where cb: "cache_block_table mi b = Some cb" using assms(3) by blast
  show ?thesis
  proof (cases "cb_base cb")
    case (Some base)
    then show ?thesis using cb assms i by (auto simp: cache_ptr_def cache_ok_def)
  next
    case None
    let ?new = "new_pages env (page_len (bsize mi))" and ?db = "disk_block d (bsize mi) (unat b)"
    have len: "length ?db = bsize mi" by (rule length_disk_block [OF assms(2)])
    have "length ?db \<le> length ?new" using i(1) page_len_covers by (simp add: on_disk_def len)
    then have r: "read_into env (get_lba b mi) (block_size mi div 512) ?new = Some (Inr (), ?db @ drop (bsize mi) ?new)"
      using read_block_ok [OF i(1,2) assms(2)] by (simp add: read_into_def len)
    let ?mi = "mi\<lparr>cache_block_table := (cache_block_table mi)(b \<mapsto> cb\<lparr>cb_base := Some (?db @ drop (bsize mi) ?new)\<rparr>)\<rparr>"
    have "cache_ok d ?mi" using i(3) len by (auto simp: cache_ok_def)
    moreover have "reads mi ?mi" by (auto simp: reads_def)
    moreover have "geometry ?mi" using i(2) by (simp add: geometry_def)
    ultimately show ?thesis using cb None r i(1) len by (simp add: cache_ptr_def layer_inv_def)
  qed
qed

lemma layer_read_cache_block: "layer_inv env d mi \<Longrightarrow> layer_inv env d (read_cache_block b mi)"
  by (auto simp: layer_inv_def geometry_def cache_ok_def read_cache_block_def split: option.splits)

lemma read_cache_block_known: "cache_block_table (read_cache_block b mi) b \<noteq> None"
  by (auto simp: read_cache_block_def split: option.splits)

text \<open>Blocks that are in the cache, and blocks of any address.\<close>

interpretation known: block_layer "cache_ptr env" "layer_inv env d" "\<lambda>mi b. good_block d (bsize mi) (unat b) \<and> cache_block_table mi b \<noteq> None"
  "\<lambda>mi b. disk_block d (bsize mi) (unat b)" reads
  using cache_ptr_ok by unfold_locales (auto simp: length_disk_block)

interpretation any: block_layer "\<lambda>b mi. cache_ptr env b (read_cache_block b mi)" "layer_inv env d" "\<lambda>mi b. good_block d (bsize mi) (unat b)"
  "\<lambda>mi b. disk_block d (bsize mi) (unat b)" reads
proof unfold_locales
  fix mi :: mount_info and b :: u32
  assume a: "layer_inv env d mi" "good_block d (bsize mi) (unat b)"
  let ?m = "read_cache_block b mi"
  have bs: "block_size ?m = block_size mi" by (rule readsD(1) [OF reads_read_cache_block])
  obtain base mi' where c: "cache_ptr env b ?m = Some (base, mi')" "take (bsize mi) base = disk_block d (bsize mi) (unat b)"
    "layer_inv env d mi'" "reads ?m mi'"
    using cache_ptr_ok [OF layer_read_cache_block [OF a(1)], of b b] a(2) read_cache_block_known bs by auto
  show "\<exists>base s'. cache_ptr env b ?m = Some (base, s') \<and>
      take (length (disk_block d (bsize mi) (unat b))) base = disk_block d (bsize mi) (unat b) \<and> layer_inv env d s' \<and> reads mi s'"
    using c reads_trans [OF reads_read_cache_block c(4)] length_disk_block [OF a(2)] by auto
qed

section \<open>The blocks of a file\<close>

text \<open>The 32-bit number at a byte of the disk, and entry \<open>i\<close> of a table of block numbers.\<close>

definition disk_u32 :: "u8 list \<Rightarrow> nat \<Rightarrow> nat" where
  "disk_u32 d off = unat (le_field off 4 d :: u32)"

definition table_at :: "u8 list \<Rightarrow> nat \<Rightarrow> nat \<Rightarrow> nat \<Rightarrow> nat" where
  "table_at d bs b i = disk_u32 d (bs * b + 4 * i)"

text \<open>The tables that lead to block \<open>i\<close> of the file whose inode is at byte \<open>ino\<close> of the disk, the first one by its
  block, the others by the entries that lead to them.\<close>

definition block_path :: "u8 list \<Rightarrow> nat \<Rightarrow> nat \<Rightarrow> nat \<Rightarrow> nat \<times> nat list" where
  "block_path d bs ino i =
     (let n = bs div 4
      in if i < 12 then (disk_u32 d (ino + 40 + 4 * i), [])
         else if i < 12 + n then (disk_u32 d (ino + 88), [i - 12])
         else if i < 12 + n + n ^ 2 then (disk_u32 d (ino + 92), [(i - 12 - n) div n, (i - 12 - n) mod n])
         else (disk_u32 d (ino + 96), [(i - 12 - n - n ^ 2) div n ^ 2, (i - 12 - n - n ^ 2) div n mod n, (i - 12 - n - n ^ 2) mod n]))"

fun follow :: "u8 list \<Rightarrow> nat \<Rightarrow> nat \<Rightarrow> nat list \<Rightarrow> nat" where
  "follow d bs b [] = b"
| "follow d bs b (i # is) = follow d bs (table_at d bs b i) is"

fun path_good :: "u8 list \<Rightarrow> nat \<Rightarrow> nat \<Rightarrow> nat list \<Rightarrow> bool" where
  "path_good d bs b [] = True"
| "path_good d bs b (i # is) \<longleftrightarrow> good_block d bs b \<and> 4 * i + 4 \<le> bs \<and> path_good d bs (table_at d bs b i) is"

definition file_block :: "u8 list \<Rightarrow> nat \<Rightarrow> nat \<Rightarrow> nat \<Rightarrow> nat" where
  "file_block d bs ino i = (case block_path d bs ino i of (b, is) \<Rightarrow> follow d bs b is)"

text \<open>The tables on the way to block \<open>i\<close> are inside the disk.\<close>

definition mapped :: "u8 list \<Rightarrow> nat \<Rightarrow> nat \<Rightarrow> nat \<Rightarrow> bool" where
  "mapped d bs ino i \<longleftrightarrow> (case block_path d bs ino i of (b, is) \<Rightarrow> path_good d bs b is)"

text \<open>A pointer to an inode in a cached block, with the byte of the disk it stands for.\<close>

definition inode_ok :: "u8 list \<Rightarrow> inode_ptr \<Rightarrow> nat \<Rightarrow> mount_info \<Rightarrow> bool" where
  "inode_ok d ip ino mi \<longleftrightarrow> good_block d (bsize mi) (unat (ip_block ip)) \<and> cache_block_table mi (ip_block ip) \<noteq> None \<and>
     unat (ip_offset ip) + INODE_SIZE \<le> bsize mi \<and> ino = bsize mi * unat (ip_block ip) + unat (ip_offset ip)"

lemma inode_ok_reads: "inode_ok d ip ino mi \<Longrightarrow> reads mi mi' \<Longrightarrow> inode_ok d ip ino mi'"
  using readsD(1) [of mi mi'] readsD(7) [of mi mi' "ip_block ip"] by (simp add: inode_ok_def)

lemma table_entry_ok:
  assumes "layer_inv env d mi" "good_block d (bsize mi) (unat b)" "4 * unat i + 4 \<le> bsize mi"
  shows "\<exists>v mi'. table_entry env b i mi = Some (v, mi') \<and> unat v = table_at d (bsize mi) (unat b) (unat i) \<and> layer_inv env d mi' \<and> reads mi mi'"
proof -
  have "4 * unat i + 4 \<le> length (disk_block d (bsize mi) (unat b))" using assms(3) length_disk_block [OF assms(2)] by simp
  then obtain mi' where m: "table_entry env b i mi = Some (le_field (4 * unat i) 4 (disk_block d (bsize mi) (unat b)), mi')" "layer_inv env d mi'" "reads mi mi'"
    using any.field_ok [OF assms(1,2), where ?'w = 32] by (auto simp: table_entry_def)
  moreover have "(le_field (4 * unat i) 4 (disk_block d (bsize mi) (unat b)) :: u32) = le_field (bsize mi * unat b + 4 * unat i) 4 d"
    using le_field_block assms(2,3) by blast
  ultimately show ?thesis by (simp add: table_at_def disk_u32_def)
qed

lemma inode_field_ok:
  assumes "layer_inv env d mi" "inode_ok d ip ino mi" "off + 4 \<le> INODE_SIZE"
  shows "\<exists>v mi'. inode_field env ip off mi = Some (v, mi') \<and> unat v = disk_u32 d (ino + off) \<and> layer_inv env d mi' \<and> reads mi mi'"
proof -
  let ?b = "unat (ip_block ip)" and ?o = "unat (ip_offset ip) + off"
  have g: "good_block d (bsize mi) ?b \<and> cache_block_table mi (ip_block ip) \<noteq> None"
    and o: "?o + 4 \<le> bsize mi" "bsize mi * ?b + ?o = ino + off"
    using assms(2,3) by (simp_all add: inode_ok_def)
  have "?o + 4 \<le> length (disk_block d (bsize mi) ?b)" using o(1) length_disk_block g by simp
  then obtain mi' where m: "inode_field env ip off mi = Some (le_field ?o 4 (disk_block d (bsize mi) ?b), mi')" "layer_inv env d mi'" "reads mi mi'"
    using known.field_ok [OF assms(1) g, where ?'w = 32, folded inode_field_def] by (auto simp: inode_field_def)
  moreover have "(le_field ?o 4 (disk_block d (bsize mi) ?b) :: u32) = le_field (ino + off) 4 d"
    using le_field_block [of d "bsize mi" ?b ?o 4] g o(1) unfolding o(2) by blast
  ultimately show ?thesis by (simp add: disk_u32_def)
qed

text \<open>The sizes of the parts of the block map as machine numbers.\<close>

lemma table_size:
  assumes "geometry mi"
  shows "unat (block_size mi div 4) = bsize mi div 4" "256 \<le> bsize mi div 4" "bsize mi div 4 \<le> 16384"
    "unat (12 + block_size mi div 4) = 12 + bsize mi div 4"
    "unat (block_size mi div 4 * (block_size mi div 4)) = (bsize mi div 4) ^ 2"
    "unat (12 + block_size mi div 4 + block_size mi div 4 * (block_size mi div 4)) = 12 + bsize mi div 4 + (bsize mi div 4) ^ 2"
proof -
  let ?w = "block_size mi div 4" and ?n = "bsize mi div 4"
  show n: "unat ?w = ?n" by (simp add: unat_div)
  show b: "256 \<le> ?n" "?n \<le> 16384" using bsize_bounds(1,2) [OF assms] by simp_all
  have sq: "?n * ?n \<le> 16384 * 16384" using b(2) by (intro mult_mono) simp_all
  then show q: "unat (?w * ?w) = ?n ^ 2" using n by (subst unat_mult_lem [THEN iffD1]) (simp_all add: power2_eq_square)
  show s: "unat (12 + ?w) = 12 + ?n" using b(2) by (simp add: unat_word_ariths n)
  show "unat (12 + ?w + ?w * ?w) = 12 + ?n + ?n ^ 2"
    using b(2) sq by (subst unat_word_ariths) (simp add: s q power2_eq_square)
qed

lemma follow_step:
  assumes "layer_inv env d mi" "path_good d (bsize mi) (unat b) (unat i # is)"
  shows "\<exists>v mi'. table_entry env b i mi = Some (v, mi') \<and> layer_inv env d mi' \<and> reads mi mi' \<and>
    path_good d (bsize mi') (unat v) is \<and> follow d (bsize mi') (unat v) is = follow d (bsize mi) (unat b) (unat i # is)"
proof -
  have "good_block d (bsize mi) (unat b)" "4 * unat i + 4 \<le> bsize mi" using assms(2) by simp_all
  from table_entry_ok [OF assms(1) this] obtain v mi' where v: "table_entry env b i mi = Some (v, mi')"
      "unat v = table_at d (bsize mi) (unat b) (unat i)" "layer_inv env d mi'" "reads mi mi'" by blast
  then show ?thesis using readsD(1) [OF v(4)] assms(2) by simp
qed

text \<open>A chain of lookups; the lookups of \<^verbatim>\<open>get_inode_block\<close> are chains of length one to three.\<close>

fun chase :: "ext2_env \<Rightarrow> u32 \<Rightarrow> u32 list \<Rightarrow> mount_info \<Rightarrow> (u32 \<times> mount_info) option" where
  "chase env b [] mi = Some (b, mi)"
| "chase env b (i # is) mi = Option.bind (table_entry env b i mi) (\<lambda>(b, mi). chase env b is mi)"

lemma chase_last [simp]: "Option.bind x (\<lambda>(b, mi). chase env b [] mi) = x"
  by (cases x) auto

lemma chase_ok:
  assumes "layer_inv env d mi" "path_good d (bsize mi) (unat b) (map unat is)"
  shows "\<exists>v mi'. chase env b is mi = Some (v, mi') \<and> unat v = follow d (bsize mi) (unat b) (map unat is) \<and> layer_inv env d mi' \<and> reads mi mi'"
  using assms
proof (induction "is" arbitrary: b mi)
  case (Cons i "is")
  obtain c mi1 where c: "table_entry env b i mi = Some (c, mi1)" "layer_inv env d mi1" "reads mi mi1"
    "path_good d (bsize mi1) (unat c) (map unat is)" "follow d (bsize mi1) (unat c) (map unat is) = follow d (bsize mi) (unat b) (unat i # map unat is)"
    using follow_step [OF Cons.prems(1), of b i "map unat is"] Cons.prems(2) by auto
  from Cons.IH [OF c(2,4)] show ?case using c reads_trans [OF c(3)] by auto
qed simp

lemma inode_chase_ok:
  assumes "layer_inv env d mi" "inode_ok d ip ino mi" "off + 4 \<le> INODE_SIZE" "path_good d (bsize mi) (disk_u32 d (ino + off)) (map unat is)"
  shows "\<exists>v mi'. Option.bind (inode_field env ip off mi) (\<lambda>(b, mi). chase env b is mi) = Some (v, mi') \<and>
    unat v = follow d (bsize mi) (disk_u32 d (ino + off)) (map unat is) \<and> layer_inv env d mi' \<and> reads mi mi'"
proof -
  obtain b mi1 where b: "inode_field env ip off mi = Some (b, mi1)" "unat b = disk_u32 d (ino + off)" "layer_inv env d mi1" "reads mi mi1"
    using inode_field_ok [OF assms(1-3)] by blast
  have "path_good d (bsize mi1) (unat b) (map unat is)" using assms(4) b(2) readsD(1) [OF b(4)] by simp
  from chase_ok [OF b(3) this] show ?thesis using b reads_trans [OF b(4)] readsD(1) [OF b(4)] by auto
qed

lemma get_inode_block_chase:
  assumes "geometry mi"
  shows "\<exists>off is. get_inode_block env ip i mi = Option.bind (inode_field env ip off mi) (\<lambda>(b, mi). chase env b is mi) \<and>
    off + 4 \<le> INODE_SIZE \<and> block_path d (bsize mi) ino (unat i) = (disk_u32 d (ino + off), map unat is)"
proof -
  let ?w = "block_size mi div 4" and ?n = "bsize mi div 4"
  note n = table_size [OF assms]
  have lt: "i < 12 \<longleftrightarrow> unat i < 12" "i < 12 + ?w \<longleftrightarrow> unat i < 12 + ?n" "i < 12 + ?w + ?w * ?w \<longleftrightarrow> unat i < 12 + ?n + ?n ^ 2"
    by (simp_all only: word_less_nat_alt n) simp
  have one: "unat (i - 12) = unat i - 12" if "\<not> unat i < 12"
    using that by (subst unat_sub) (simp_all add: word_le_nat_alt)
  have two: "unat (i - 12 - ?w) = unat i - 12 - ?n" if "\<not> unat i < 12 + ?n"
    using that one n(1) by (subst unat_sub) (simp_all add: word_le_nat_alt)
  have three: "unat (i - 12 - ?w - ?w * ?w) = unat i - 12 - ?n - ?n ^ 2" if "\<not> unat i < 12 + ?n + ?n ^ 2"
    using that two n(5) by (subst unat_sub) (simp_all add: word_le_nat_alt)
  consider "unat i < 12" | "\<not> unat i < 12" "unat i < 12 + ?n" | "\<not> unat i < 12 + ?n" "unat i < 12 + ?n + ?n ^ 2" | "\<not> unat i < 12 + ?n + ?n ^ 2"
    by linarith
  then show ?thesis
  proof cases
    case 1
    then show ?thesis
      by (intro exI [of _ "direct_off + 4 * unat i"] exI [of _ "[]"])
        (auto simp: get_inode_block_def lt block_path_def direct_off_def INODE_SIZE_def add.assoc)
  next
    case 2
    then show ?thesis
      by (intro exI [of _ singly_off] exI [of _ "[i - 12]"])
        (simp add: get_inode_block_def lt block_path_def singly_off_def INODE_SIZE_def one)
  next
    case 3
    then show ?thesis
      by (intro exI [of _ doubly_off] exI [of _ "[(i - 12 - ?w) div ?w, (i - 12 - ?w) mod ?w]"])
        (simp add: get_inode_block_def lt block_path_def doubly_off_def INODE_SIZE_def two unat_div unat_mod n Let_def split: bind_splits)
  next
    case 4
    then show ?thesis
      by (intro exI [of _ triply_off] exI [of _ "[(i - 12 - ?w - ?w * ?w) div (?w * ?w), (i - 12 - ?w - ?w * ?w) div ?w mod ?w, (i - 12 - ?w - ?w * ?w) mod ?w]"])
        (simp add: get_inode_block_def lt block_path_def triply_off_def INODE_SIZE_def three unat_div unat_mod n Let_def split: bind_splits)
  qed
qed

lemma get_inode_block_ok:
  assumes "layer_inv env d mi" "inode_ok d ip ino mi" "mapped d (bsize mi) ino (unat i)"
  shows "\<exists>v mi'. get_inode_block env ip i mi = Some (v, mi') \<and> unat v = file_block d (bsize mi) ino (unat i) \<and> layer_inv env d mi' \<and> reads mi mi'"
proof -
  have g: "geometry mi" using assms(1) by (simp add: layer_inv_def)
  obtain off "is" where c: "get_inode_block env ip i mi = Option.bind (inode_field env ip off mi) (\<lambda>(b, mi). chase env b is mi)"
      "off + 4 \<le> INODE_SIZE" "block_path d (bsize mi) ino (unat i) = (disk_u32 d (ino + off), map unat is)"
    using get_inode_block_chase [OF g] by blast
  have "path_good d (bsize mi) (disk_u32 d (ino + off)) (map unat is)" using assms(3) c(3) by (simp add: mapped_def)
  from inode_chase_ok [OF assms(1,2) c(2) this] show ?thesis by (simp add: c file_block_def)
qed

end
