(* ===== verification/Ext2_Read.thy ===== *)
theory Ext2_Read
  imports Ext2_Blocks
begin

unbundle bit_operations_syntax

text \<open>
  Reading files of ext2. The contents of a file are its bytes on the disk, block by block, and \<^verbatim>\<open>read\<close> returns them,
  whatever mixture of buffered, aligned and trailing pieces it uses, provided the buffer of the stream holds the
  block of an unaligned position. Opening, reading and seeking to another block establish that; seeking within a
  block does not.
\<close>

section \<open>The contents of a file\<close>

definition file_byte :: "u8 list \<Rightarrow> nat \<Rightarrow> nat \<Rightarrow> nat \<Rightarrow> u8" where
  "file_byte d bs ino p = d ! (bs * file_block d bs ino (p div bs) + p mod bs)"

definition ext2_bytes :: "u8 list \<Rightarrow> nat \<Rightarrow> nat \<Rightarrow> nat \<Rightarrow> nat \<Rightarrow> u8 list" where
  "ext2_bytes d bs ino pos n = map (file_byte d bs ino) [pos..<pos + n]"

text \<open>The blocks of a file of \<open>n\<close> bytes are on the disk, and so are the tables that lead to them.\<close>

definition file_ok :: "u8 list \<Rightarrow> nat \<Rightarrow> nat \<Rightarrow> nat \<Rightarrow> bool" where
  "file_ok d bs ino n \<longleftrightarrow> n < 2 ^ 32 \<and> (\<forall>i\<le>n div bs. mapped d bs ino i) \<and> (\<forall>i. i * bs < n \<longrightarrow> good_block d bs (file_block d bs ino i))"

lemma ext2_bytes_length [simp]: "length (ext2_bytes d bs ino pos n) = n"
  by (simp add: ext2_bytes_def)

lemma ext2_bytes_nth: "j < n \<Longrightarrow> ext2_bytes d bs ino pos n ! j = file_byte d bs ino (pos + j)"
  by (simp add: ext2_bytes_def)

lemma ext2_bytes_append: "ext2_bytes d bs ino pos m @ ext2_bytes d bs ino (pos + m) n = ext2_bytes d bs ino pos (m + n)"
  unfolding ext2_bytes_def map_append [symmetric] add.assoc [symmetric]
  by (intro arg_cong [of _ _ "map _"] upt_add_eq_append [symmetric]) simp

lemma ext2_bytes_0 [simp]: "ext2_bytes d bs ino pos 0 = []"
  by (simp add: ext2_bytes_def)

lemma disk_block_nth: "good_block d bs b \<Longrightarrow> j < bs \<Longrightarrow> disk_block d bs b ! j = d ! (bs * b + j)"
  by (simp add: good_block_def disk_block_def)

lemma ext2_bytes_block:
  assumes "good_block d bs (file_block d bs ino (pos div bs))" "pos mod bs + n \<le> bs" "0 < bs"
  shows "ext2_bytes d bs ino pos n = take n (drop (pos mod bs) (disk_block d bs (file_block d bs ino (pos div bs))))"
proof (rule nth_equalityI)
  let ?b = "file_block d bs ino (pos div bs)"
  show "length (ext2_bytes d bs ino pos n) = length (take n (drop (pos mod bs) (disk_block d bs ?b)))"
    using assms(2) length_disk_block [OF assms(1)] by simp
  fix j assume "j < length (ext2_bytes d bs ino pos n)"
  then have j: "j < n" "pos mod bs + j < bs" using assms(2) by simp_all
  have "pos + j = pos div bs * bs + (pos mod bs + j)" by simp
  then have "(pos + j) div bs = pos div bs" "(pos + j) mod bs = pos mod bs + j"
    using j(2) assms(3) by (metis div_mult_self3 div_less add.right_neutral nat_less_le, metis mod_mult_self3 mod_less)
  then have "file_byte d bs ino (pos + j) = d ! (bs * ?b + (pos mod bs + j))" by (simp add: file_byte_def)
  then show "ext2_bytes d bs ino pos n ! j = take n (drop (pos mod bs) (disk_block d bs ?b)) ! j"
    using j length_disk_block [OF assms(1)] disk_block_nth [OF assms(1) j(2)] by (simp add: ext2_bytes_nth)
qed

lemma ext2_bytes_run:
  assumes "\<forall>k<c. file_block d bs ino (s + k) = b + k" "bs * (b + c) \<le> length d" "0 < bs"
  shows "ext2_bytes d bs ino (s * bs) (c * bs) = take (c * bs) (drop (bs * b) d)"
proof (rule nth_equalityI)
  show "length (ext2_bytes d bs ino (s * bs) (c * bs)) = length (take (c * bs) (drop (bs * b) d))"
    using assms(2) by (simp add: algebra_simps)
  fix j assume "j < length (ext2_bytes d bs ino (s * bs) (c * bs))"
  then have j: "j < c * bs" by simp
  then have "j div bs < c" using assms(3) by (simp add: div_less_iff_less_mult)
  then have "file_block d bs ino (s + j div bs) = b + j div bs" using assms(1) by blast
  moreover have "(s * bs + j) div bs = s + j div bs" "(s * bs + j) mod bs = j mod bs" using assms(3) by simp_all
  ultimately have "file_byte d bs ino (s * bs + j) = d ! (bs * b + (bs * (j div bs) + j mod bs))"
    by (simp add: file_byte_def algebra_simps)
  then have "file_byte d bs ino (s * bs + j) = d ! (bs * b + j)" by simp
  then show "ext2_bytes d bs ino (s * bs) (c * bs) ! j = take (c * bs) (drop (bs * b) d) ! j"
    using j assms(2) by (simp add: ext2_bytes_nth algebra_simps)
qed

section \<open>Positions in words\<close>

lemma in_block_nat:
  assumes "geometry mi"
  shows "unat (pos AND ucast (block_size mi - 1) :: u64) = unat pos mod bsize mi"
proof -
  obtain k where k: "k \<le> 6" "bsize mi = 2 ^ (10 + k)" using geometryD [OF assms] by blast
  have "block_size mi = of_nat (bsize mi)" by simp
  then have "block_size mi = 2 ^ (10 + k)" unfolding k(2) by simp
  then have "block_size mi - 1 = mask (10 + k)" by (simp add: mask_eq_exp_minus_1)
  moreover have "ucast (mask (10 + k) :: u32) = (mask (10 + k) :: u64)"
    using k(1) by (intro bit_word_eqI) (auto simp: bit_ucast_iff bit_mask_iff)
  ultimately show ?thesis by (simp add: take_bit_eq_mask [symmetric] unat_take_mod k(2))
qed

lemma block_shift_nat:
  assumes "geometry mi"
  shows "unat (drop_bit (block_shift mi) (pos :: u64)) = unat pos div bsize mi"
proof -
  obtain k where "bsize mi = 2 ^ (10 + k)" "block_shift mi = 10 + k" using geometryD [OF assms] by blast
  then show ?thesis by (simp add: unat_drop_div)
qed

lemma ucast_down_nat: "unat (w :: u64) < 2 ^ 32 \<Longrightarrow> unat (ucast w :: u32) = unat w"
  by (simp add: unsigned_ucast_eq take_bit_nat_eq_self)

lemma block_index_nat:
  assumes "geometry mi" "unat pos < 2 ^ 32"
  shows "unat (ucast (drop_bit (block_shift mi) (pos :: u64)) :: u32) = unat pos div bsize mi"
proof -
  have "unat pos div bsize mi < 2 ^ 32" using assms(2) div_le_dividend [of "unat pos" "bsize mi"] by linarith
  then show ?thesis using block_shift_nat [OF assms(1), of pos] by (simp add: ucast_down_nat)
qed

section \<open>The loops of read\<close>

lemma run_length_ok:
  assumes "layer_inv env d mi" "inode_ok d ip ino mi" "unat start + unat limit < 2 ^ 32"
    and "\<forall>i. i \<le> unat start + unat limit \<longrightarrow> mapped d (bsize mi) ino i"
    and "unat cnt \<le> unat limit" "\<forall>k<unat cnt. file_block d (bsize mi) ino (unat start + k) = unat blk + k"
  shows "\<exists>c mi'. run_length env ip start blk limit cnt mi = Some (c, mi') \<and> unat cnt \<le> unat c \<and> unat c \<le> unat limit \<and>
    (\<forall>k<unat c. file_block d (bsize mi) ino (unat start + k) = unat blk + k) \<and>
    (unat cnt < unat limit \<longrightarrow> file_block d (bsize mi) ino (unat start + unat cnt) = unat blk + unat cnt \<longrightarrow> unat cnt < unat c) \<and>
    layer_inv env d mi' \<and> reads mi mi'"
  using assms
proof (induction "unat limit - unat cnt" arbitrary: cnt mi rule: less_induct)
  case less
  let ?i = "ucast (ucast start + cnt) :: u32"
  have s: "unat (ucast start + cnt :: u64) = unat start + unat cnt" using less.prems(3,5) by (simp add: unat_word_ariths)
  then have i: "unat ?i = unat start + unat cnt" using less.prems(3,5) by (simp add: ucast_down_nat)
  obtain b mi1 where b: "get_inode_block env ip ?i mi = Some (b, mi1)" "unat b = file_block d (bsize mi) ino (unat start + unat cnt)"
      "layer_inv env d mi1" "reads mi mi1"
    using get_inode_block_ok [OF less.prems(1,2), of ?i] less.prems(4,5) i by auto
  have bs: "block_size mi1 = block_size mi" by (rule readsD(1) [OF b(4)])
  have "unat b < 2 ^ 32" "unat blk < 2 ^ 32" using unsigned_less [of b] unsigned_less [of blk] by simp_all
  then have "unat (ucast blk + cnt :: u64) = unat blk + unat cnt" using less.prems(3,5) by (simp add: unat_word_ariths)
  then have eq: "(ucast b :: u64) = ucast blk + cnt \<longleftrightarrow> unat b = unat blk + unat cnt" by (simp add: word_unat_eq_iff)
  show ?case
  proof (cases "unat b = unat blk + unat cnt \<and> unat cnt < unat limit")
    case False
    then have "run_length env ip start blk limit cnt mi = Some (cnt, mi1)"
      using b(1) eq by (subst run_length.simps) (auto simp: word_less_nat_alt)
    then show ?thesis using False b less.prems(5,6) by auto
  next
    case True
    have c: "unat (cnt + 1) = unat cnt + 1" using True less.prems(3) by (simp add: unat_word_ariths)
    have r: "run_length env ip start blk limit cnt mi = run_length env ip start blk limit (cnt + 1) mi1"
      using b(1) eq True by (subst run_length.simps) (simp add: word_less_nat_alt)
    have ih: "\<exists>c mi'. run_length env ip start blk limit (cnt + 1) mi1 = Some (c, mi') \<and> unat (cnt + 1) \<le> unat c \<and> unat c \<le> unat limit \<and>
      (\<forall>k<unat c. file_block d (bsize mi1) ino (unat start + k) = unat blk + k) \<and>
      (unat (cnt + 1) < unat limit \<longrightarrow> file_block d (bsize mi1) ino (unat start + unat (cnt + 1)) = unat blk + unat (cnt + 1) \<longrightarrow> unat (cnt + 1) < unat c) \<and>
      layer_inv env d mi' \<and> reads mi1 mi'"
      using True c less.prems(3-6) b(2,3) inode_ok_reads [OF less.prems(2) b(4)]
      by (intro less.hyps) (auto simp: bs less_Suc_eq)
    then show ?thesis unfolding r using reads_trans [OF b(4)] c bs by (metis Suc_eq_plus1 Suc_le_lessD Suc_leD)
  qed
qed

text \<open>One run of blocks, read by one request to the device.\<close>

lemma read_run_ok:
  fixes c :: size_t
  assumes "on_disk env d" "geometry mi" "0 < unat c" "unat c * bsize mi < 2 ^ 32"
    and "\<forall>k<unat c. file_block d (bsize mi) ino (s + k) = unat blk + k \<and> good_block d (bsize mi) (unat blk + k)"
  shows "block_read env (get_lba blk mi) (ucast (ucast (block_size mi div 512) * c)) = Inr (ext2_bytes d (bsize mi) ino (s * bsize mi) (unat c * bsize mi))"
proof -
  let ?bs = "bsize mi" and ?n = "ucast (ucast (block_size mi div 512) * c) :: u32"
  note bs = bsize_bounds [OF assms(2)]
  have q: "unat (block_size mi div 512) = ?bs div 512" by (simp add: unat_div)
  have le: "?bs div 512 * unat c < 2 ^ 32"
    using assms(4) mult_le_mono1 [OF div_le_dividend [of ?bs 512], of "unat c"] unfolding mult.commute [of _ ?bs] by (rule le_less_trans [rotated])
  then have "unat (ucast (block_size mi div 512) * c :: u64) = ?bs div 512 * unat c" by (subst unat_mult_lem [THEN iffD1]) (simp_all add: q)
  then have "unat ?n = ?bs div 512 * unat c" using le by (simp add: ucast_down_nat)
  then have n: "512 * unat ?n = unat c * ?bs" using bs(4) by (metis mult.assoc mult.commute)
  have "good_block d ?bs (unat blk)" using assms(3,5) by force
  note a = get_lba_nat [OF assms(2) this]
  have "good_block d ?bs (unat blk + (unat c - 1))" using assms(5) [rule_format, of "unat c - 1"] diff_less [OF zero_less_one assms(3)] by blast
  moreover have "unat blk + (unat c - 1) + 1 = unat blk + unat c" using assms(3) by simp
  ultimately have last: "?bs * (unat blk + unat c) \<le> length d" unfolding good_block_def by metis
  then have "512 * (unat (get_lba blk mi) + unat ?n) \<le> length d" using a n by (simp add: distrib_left mult.commute)
  then have "block_read env (get_lba blk mi) ?n = Inr (take (unat c * ?bs) (drop (?bs * unat blk) d))"
    using assms(1) by (simp add: on_disk_def a n)
  then show ?thesis using ext2_bytes_run [OF _ last bs(5)] assms(5) by simp
qed

lemma read_blocks_ok:
  assumes "layer_inv env d mi" "inode_ok d ip ino mi" "file_ok d (bsize mi) ino sz"
    and "unat pos mod bsize mi = 0" "unat pos + unat blocks * bsize mi \<le> sz" "unat blocks * bsize mi \<le> unat left"
  shows "\<exists>left' pos' mi'. read_blocks env ip blocks left out pos mi =
      Some (None, left', out @ ext2_bytes d (bsize mi) ino (unat pos) (unat blocks * bsize mi), pos', mi') \<and>
    unat left' = unat left - unat blocks * bsize mi \<and> unat pos' = unat pos + unat blocks * bsize mi \<and> layer_inv env d mi' \<and> reads mi mi'"
  using assms
proof (induction "unat blocks" arbitrary: blocks left out pos mi rule: less_induct)
  case less
  let ?bs = "bsize mi"
  have g: "geometry mi" "on_disk env d" using less.prems(1) by (simp_all add: layer_inv_def)
  note bs = bsize_bounds [OF g(1)]
  have sz: "sz < 2 ^ 32" "\<forall>i. i \<le> sz div ?bs \<longrightarrow> mapped d ?bs ino i" "\<forall>i. i * ?bs < sz \<longrightarrow> good_block d ?bs (file_block d ?bs ino i)"
    using less.prems(3) by (simp_all add: file_ok_def)
  show ?case
  proof (cases "blocks = 0")
    case True
    then show ?thesis using less.prems(1) by (subst read_blocks.simps) simp
  next
    case False
    then have pos: "0 < unat blocks" by (simp add: unat_gt_0)
    let ?start = "ucast (drop_bit (block_shift mi) pos) :: u32"
    have st: "unat ?start = unat pos div ?bs" using less.prems(5) sz(1) by (intro block_index_nat [OF g(1)]) linarith
    have al: "unat pos = unat ?start * ?bs" using less.prems(4) st by (metis div_mult_mod_eq add.right_neutral)
    have "(unat ?start + unat blocks) * ?bs \<le> sz" using less.prems(5) al by (simp add: distrib_right)
    then have in_sz: "unat ?start + unat blocks \<le> sz div ?bs" using bs(5) by (simp add: less_eq_div_iff_mult_less_eq)
    then have lim: "unat ?start + unat blocks < 2 ^ 32" using sz(1) div_le_dividend [of sz ?bs] by linarith
    obtain blk mi1 where b: "get_inode_block env ip ?start mi = Some (blk, mi1)" "unat blk = file_block d ?bs ino (unat ?start)"
        "layer_inv env d mi1" "reads mi mi1"
      using get_inode_block_ok [OF less.prems(1,2), of ?start] sz(2) in_sz by auto
    have bs1: "block_size mi1 = block_size mi" by (rule readsD(1) [OF b(4)])
    obtain c mi2 where c: "run_length env ip ?start blk blocks 0 mi1 = Some (c, mi2)" "0 < unat c" "unat c \<le> unat blocks"
        "\<forall>k<unat c. file_block d ?bs ino (unat ?start + k) = unat blk + k" "layer_inv env d mi2" "reads mi1 mi2"
      using run_length_ok [OF b(3) inode_ok_reads [OF less.prems(2) b(4)] lim, of 0 blk] sz(2) in_sz pos b(2) unfolding bs1 by auto
    have bs2: "block_size mi2 = block_size mi" using readsD(1) [OF c(6)] bs1 by simp
    have cb: "unat c * ?bs \<le> unat blocks * ?bs" using c(3) by simp
    have small: "unat c * ?bs < 2 ^ 32" using cb less.prems(5) sz(1) by linarith
    have runs: "\<forall>k<unat c. file_block d ?bs ino (unat ?start + k) = unat blk + k \<and> good_block d ?bs (unat blk + k)"
    proof (intro allI impI conjI)
      fix k assume k: "k < unat c"
      show e: "file_block d ?bs ino (unat ?start + k) = unat blk + k" using c(4) k by blast
      have "(unat ?start + k + 1) * ?bs \<le> (unat ?start + unat blocks) * ?bs" using k c(3) by (intro mult_le_mono1) simp
      then have "(unat ?start + k) * ?bs < sz" using \<open>(unat ?start + unat blocks) * ?bs \<le> sz\<close> bs(5) by (simp add: distrib_right)
      then show "good_block d ?bs (unat blk + k)" using sz(3) e by metis
    qed
    have g2: "geometry mi2" using c(5) by (simp add: layer_inv_def)
    have rd: "block_read env (get_lba blk mi2) (ucast (ucast (block_size mi2 div 512) * c)) = Inr (ext2_bytes d ?bs ino (unat pos) (unat c * ?bs))"
      using read_run_ok [OF g(2) g2 c(2), unfolded bs2, OF small runs] unfolding al bs2 .
    let ?w = "c * ucast (block_size mi) :: u64"
    have w: "unat ?w = unat c * ?bs" using small by (subst unat_mult_lem [THEN iffD1]) simp_all
    have "unat ?w \<le> unat left" "unat pos + unat ?w < 18446744073709551616" unfolding w using cb less.prems(5,6) sz(1) [simplified] by linarith+
    moreover from this(2) have "unat (pos + ?w) = unat pos + unat ?w" by (subst unat_add_lem [symmetric]) simp
    ultimately have u: "unat (blocks - c) = unat blocks - unat c" "unat (left - ?w) = unat left - unat c * ?bs" "unat (pos + ?w) = unat pos + unat c * ?bs"
      using c(3) unat_sub [of ?w left] unat_sub [of c blocks] w by (simp_all only: word_le_nat_alt)
    have r: "read_blocks env ip blocks left out pos mi =
        read_blocks env ip (blocks - c) (left - ?w) (out @ ext2_bytes d ?bs ino (unat pos) (unat c * ?bs)) (pos + ?w) mi2"
      using False b(1) c(1) rd by (subst read_blocks.simps) (simp add: Let_def bs2)
    have rest: "(unat blocks - unat c) * ?bs + unat c * ?bs = unat blocks * ?bs" using c(3) by (simp flip: add_mult_distrib)
    have less: "unat (blocks - c) < unat blocks" using u(1) c(2,3) by linarith
    have prems: "(unat pos + unat c * ?bs) mod ?bs = 0" "unat pos + unat c * ?bs + (unat blocks - unat c) * ?bs \<le> sz"
        "(unat blocks - unat c) * ?bs \<le> unat left - unat c * ?bs"
      using less.prems(4-6) rest by simp_all
    obtain left' pos' mi' where ih: "read_blocks env ip (blocks - c) (left - ?w) (out @ ext2_bytes d ?bs ino (unat pos) (unat c * ?bs)) (pos + ?w) mi2 =
        Some (None, left', (out @ ext2_bytes d ?bs ino (unat pos) (unat c * ?bs)) @ ext2_bytes d ?bs ino (unat pos + unat c * ?bs) ((unat blocks - unat c) * ?bs), pos', mi')"
      "unat left' = unat left - unat c * ?bs - (unat blocks - unat c) * ?bs" "unat pos' = unat pos + unat c * ?bs + (unat blocks - unat c) * ?bs"
      "layer_inv env d mi'" "reads mi2 mi'"
      using less.hyps [OF less c(5) inode_ok_reads [OF less.prems(2) reads_trans [OF b(4) c(6)]], of "pos + ?w" "left - ?w", unfolded bs2 u,
          OF less.prems(3) prems] by blast
    show ?thesis unfolding r ih(1)
      using ih(2-5) rest reads_trans [OF reads_trans [OF b(4) c(6)]] by (simp add: ext2_bytes_append add.commute)
  qed
qed

section \<open>Reading\<close>

text \<open>The buffer of a stream at an unaligned position holds the block of that position.\<close>

definition buffer_ok :: "u8 list \<Rightarrow> nat \<Rightarrow> nat \<Rightarrow> nat \<Rightarrow> u8 list \<Rightarrow> bool" where
  "buffer_ok d bs ino pos buf \<longleftrightarrow> bs \<le> length buf \<and> (pos mod bs \<noteq> 0 \<longrightarrow> take bs buf = disk_block d bs (file_block d bs ino (pos div bs)))"

lemma read_into_buffer:
  assumes "layer_inv env d mi" "good_block d (bsize mi) (unat blk)" "bsize mi \<le> length buf"
  shows "read_into env (get_lba blk mi) (block_size mi div 512) buf = Some (Inr (), disk_block d (bsize mi) (unat blk) @ drop (bsize mi) buf)"
  using read_block_ok [of env d mi blk] length_disk_block [OF assms(2)] assms by (simp add: read_into_def layer_inv_def)

lemma read_aligned_ok:
  assumes "layer_inv env d mi" "inode_ok d ip ino mi" "file_ok d (bsize mi) ino sz"
    and "unat pos mod bsize mi = 0" "unat pos + unat left \<le> sz" "bsize mi \<le> length buf"
  shows "\<exists>pos' buf' mi'. read_aligned env ip len left out (pos, buf) mi =
      Some (Inr len, out @ ext2_bytes d (bsize mi) ino (unat pos) (unat left), (pos', buf'), mi') \<and>
    unat pos' = unat pos + unat left \<and> buffer_ok d (bsize mi) ino (unat pos') buf' \<and> layer_inv env d mi' \<and> reads mi mi'"
proof -
  let ?bs = "bsize mi"
  have g: "geometry mi" using assms(1) by (simp add: layer_inv_def)
  note bs = bsize_bounds [OF g]
  let ?k = "drop_bit (block_shift mi) left"
  have k: "unat ?k * ?bs = unat left - unat left mod ?bs" by (simp add: block_shift_nat [OF g] minus_mod_eq_div_mult)
  then have le: "unat ?k * ?bs \<le> unat left" "unat pos + unat ?k * ?bs \<le> sz" using assms(5) by simp_all
  obtain left' pos' mi1 where r: "read_blocks env ip ?k left out pos mi =
      Some (None, left', out @ ext2_bytes d ?bs ino (unat pos) (unat ?k * ?bs), pos', mi1)"
    "unat left' = unat left mod ?bs" "unat pos' = unat pos + unat ?k * ?bs" "layer_inv env d mi1" "reads mi mi1"
    using read_blocks_ok [OF assms(1-4) le(2,1), of out] k by auto
  have al: "unat pos' mod ?bs = 0" using r(3) assms(4) by simp
  show ?thesis
  proof (cases "unat left' = 0")
    case True
    then have "left' = 0" "unat ?k * ?bs = unat left" using r(2) k by (simp_all add: unat_eq_zero)
    then show ?thesis using r al assms(6) by (auto simp: read_aligned_def buffer_ok_def)
  next
    case False
    have sz: "sz < 2 ^ 32" "\<forall>i. i \<le> sz div ?bs \<longrightarrow> mapped d ?bs ino i" "\<forall>i. i * ?bs < sz \<longrightarrow> good_block d ?bs (file_block d ?bs ino i)"
      using assms(3) by (simp_all add: file_ok_def)
    have tot: "unat ?k * ?bs + unat left' = unat left" using r(2) k by simp
    then have lt: "unat pos' < sz" "unat pos' + unat left' \<le> sz" using r(3) False assms(5) by linarith+
    have bs1: "block_size mi1 = block_size mi" and sh: "block_shift mi1 = block_shift mi"
      using readsD(1,2) [OF r(5)] by (simp_all add: block_shift_def)
    let ?i = "ucast (drop_bit (block_shift mi) pos') :: u32"
    have i: "unat ?i = unat pos' div ?bs" using lt sz(1) by (intro block_index_nat [OF g]) linarith
    then have at: "unat ?i * ?bs = unat pos'" using al by auto
    have "unat ?i \<le> sz div ?bs" using lt(1) i by (simp add: div_le_mono)
    then obtain blk mi2 where b: "get_inode_block env ip ?i mi1 = Some (blk, mi2)" "unat blk = file_block d ?bs ino (unat ?i)"
        "layer_inv env d mi2" "reads mi1 mi2"
      using get_inode_block_ok [OF r(4) inode_ok_reads [OF assms(2) r(5)], of ?i] sz(2) bs1 by auto
    have good: "good_block d ?bs (unat blk)" using sz(3) lt(1) at b(2) by metis
    have bs2: "block_size mi2 = block_size mi" using readsD(1) [OF b(4)] bs1 by simp
    let ?db = "disk_block d ?bs (unat blk)"
    have len: "length ?db = ?bs" by (rule length_disk_block [OF good])
    have rd: "read_into env (get_lba blk mi2) (block_size mi div 512) buf = Some (Inr (), ?db @ drop ?bs buf)"
      using read_into_buffer [OF b(3), unfolded bs2, OF good assms(6)] .
    have small: "unat left' < ?bs" using r(2) bs(5) by simp
    have tail: "take (unat left') ?db = ext2_bytes d ?bs ino (unat pos') (unat left')"
      using ext2_bytes_block [of d ?bs ino "unat pos'" "unat left'"] good b(2) i al small bs(5) by simp
    have p: "unat (pos' + left') = unat pos' + unat left'" using lt(2) sz(1) by (simp add: unat_word_ariths)
    have same: "(unat pos' + unat left') div ?bs = unat ?i" unfolding at [symmetric] using small bs(5) by simp
    have "read_aligned env ip len left out (pos, buf) mi =
        Some (Inr len, (out @ ext2_bytes d ?bs ino (unat pos) (unat ?k * ?bs)) @ ext2_bytes d ?bs ino (unat pos') (unat left'), (pos' + left', ?db @ drop ?bs buf), mi2)"
      using False r(1) b(1) rd small len tail
      by (simp add: read_aligned_def bs1 bs2 sh bytes_at_def unat_eq_zero [symmetric])
    moreover have "(out @ ext2_bytes d ?bs ino (unat pos) (unat ?k * ?bs)) @ ext2_bytes d ?bs ino (unat pos') (unat left') =
        out @ ext2_bytes d ?bs ino (unat pos) (unat left)"
      using ext2_bytes_append [of d ?bs ino "unat pos" "unat ?k * ?bs" "unat left'"] tot r(3) by simp
    moreover have "buffer_ok d ?bs ino (unat pos' + unat left') (?db @ drop ?bs buf)"
      using len b(2) assms(6) same by (simp add: buffer_ok_def)
    moreover have "unat pos' + unat left' = unat pos + unat left" using tot r(3) by simp
    ultimately show ?thesis using p b(3) reads_trans [OF r(5) b(4)] by auto
  qed
qed

lemma div_inside: "(p :: nat) mod b + h < b \<Longrightarrow> (p + h) div b = p div b"
proof -
  assume "p mod b + h < b"
  moreover have "p + h = p div b * b + (p mod b + h)" by simp
  ultimately show ?thesis by (metis add.right_neutral div_less div_mult_self3 less_nat_zero_code)
qed

lemma read_file_ok:
  assumes "layer_inv env d mi" "inode_ok d ip ino mi" "file_ok d (bsize mi) ino (unat sz)" "unat pos \<le> unat sz"
    and "buffer_ok d (bsize mi) ino (unat pos) buf"
  shows "\<exists>n pos' buf' mi'. read_file env ip sz len (pos, buf) mi =
      Some (Inr n, ext2_bytes d (bsize mi) ino (unat pos) (unat n), (pos', buf'), mi') \<and>
    unat n = min (unat len) (unat sz - unat pos) \<and> unat pos' = unat pos + unat n \<and>
    buffer_ok d (bsize mi) ino (unat pos') buf' \<and> layer_inv env d mi' \<and> reads mi mi'"
proof -
  let ?bs = "bsize mi" and ?r = "unat pos mod bsize mi"
  have g: "geometry mi" using assms(1) by (simp add: layer_inv_def)
  note bs = bsize_bounds [OF g]
  have sz: "unat sz < 2 ^ 32" "\<forall>i. i * ?bs < unat sz \<longrightarrow> good_block d ?bs (file_block d ?bs ino i)"
    using assms(3) by (simp_all add: file_ok_def)
  define n where "n = (if sz - pos < len then sz - pos else len)"
  have "unat (sz - pos) = unat sz - unat pos" using assms(4) by (simp add: unat_sub word_le_nat_alt)
  then have n: "unat n = min (unat len) (unat sz - unat pos)" by (simp add: n_def word_less_nat_alt)
  define r where "r = (pos AND ucast (block_size mi - 1) :: u64)"
  have r: "unat r = ?r" unfolding r_def by (rule in_block_nat [OF g])
  have rb: "?r < ?bs" using bs(5) by simp
  define h0 where "h0 = (ucast (block_size mi) - r :: u64)"
  have h0: "unat h0 = ?bs - ?r" using r rb unfolding h0_def by (subst unat_sub) (simp_all add: word_le_nat_alt)
  then have eq: "h0 = ucast (block_size mi) \<longleftrightarrow> ?r = 0" using rb by (auto simp: word_unat_eq_iff)
  define h1 where "h1 = (if h0 = ucast (block_size mi) then 0 else h0)"
  define h where "h = (if h1 > n then n else h1)"
  have h: "unat h = min (unat n) (if ?r = 0 then 0 else ?bs - ?r)"
    using h0 eq by (auto simp: h_def h1_def word_less_nat_alt)
  have hn: "unat (n - h) = unat n - unat h" using h by (simp add: unat_sub word_le_nat_alt)
  have tot: "unat pos + unat n \<le> unat sz" using n assms(4) by simp
  have hp: "unat (pos + h) = unat pos + unat h" using tot h sz(1) by (simp add: unat_word_ariths)
  have out: "(if h > 0 then bytes_at (unat r) (unat h) buf else Some []) = Some (ext2_bytes d ?bs ino (unat pos) (unat h))"
  proof (cases "unat h = 0")
    case True
    then show ?thesis by (simp add: word_less_nat_alt)
  next
    case False
    then have r0: "?r \<noteq> 0" "?r + unat h \<le> ?bs" using h rb by (auto split: if_splits)
    have "unat pos div ?bs * ?bs < unat sz" using tot False h div_times_less_eq_dividend [of "unat pos" ?bs] by linarith
    then have "good_block d ?bs (file_block d ?bs ino (unat pos div ?bs))" using sz(2) by blast
    then have e: "ext2_bytes d ?bs ino (unat pos) (unat h) = take (unat h) (drop ?r (take ?bs buf))"
      using ext2_bytes_block [OF _ r0(2) bs(5)] assms(5) r0(1) by (simp add: buffer_ok_def)
    have "take (unat h) (drop ?r (take ?bs buf)) = take (unat h) (drop ?r buf)" using r0(2) by (simp add: drop_take min_def)
    then show ?thesis using False r0(2) assms(5) e r by (simp add: bytes_at_def buffer_ok_def word_less_nat_alt)
  qed
  have step: "read_file env ip sz len (pos, buf) mi =
      (if n - h = 0 then Some (Inr n, ext2_bytes d ?bs ino (unat pos) (unat h), (pos + h, buf), mi)
       else read_aligned env ip n (n - h) (ext2_bytes d ?bs ino (unat pos) (unat h)) (pos + h, buf) mi)"
    using out unfolding read_file_def Let_def prod.case n_def [symmetric] r_def [symmetric] h0_def [symmetric] h1_def [symmetric] h_def [symmetric] by simp
  have pos_end: "(unat pos + (?bs - ?r)) mod ?bs = 0"
  proof -
    have "unat pos = unat pos div ?bs * ?bs + ?r" by simp
    then have "unat pos + (?bs - ?r) = unat pos div ?bs * ?bs + ?bs" using rb by linarith
    then show ?thesis by simp
  qed
  show ?thesis
  proof (cases "unat n = unat h")
    case True
    then have "n - h = 0" by (simp add: word_unat_eq_iff [of n h])
    moreover have "buffer_ok d ?bs ino (unat pos + unat h) buf"
    proof (cases "(unat pos + unat h) mod ?bs = 0")
      case True
      then show ?thesis using assms(5) by (simp add: buffer_ok_def)
    next
      case False
      have r0: "?r \<noteq> 0"
      proof
        assume "?r = 0"
        then have "unat h = 0" using h by simp
        then show False using False \<open>?r = 0\<close> by simp
      qed
      then have "unat h \<le> ?bs - ?r" using h by simp
      moreover have "unat h \<noteq> ?bs - ?r" using False pos_end rb by force
      ultimately have "?r + unat h < ?bs" using rb by linarith
      then have "(unat pos + unat h) div ?bs = unat pos div ?bs" by (rule div_inside)
      then show ?thesis using assms(5) r0 by (simp add: buffer_ok_def)
    qed
    ultimately show ?thesis using step True n hp assms(1) by (auto intro!: exI [of _ n] exI [of _ "pos + h"])
  next
    case False
    then have lt: "unat h < unat n" using h by simp
    then have "unat h = (if ?r = 0 then 0 else ?bs - ?r)" using h by (simp add: min_def split: if_splits)
    then have al: "unat (pos + h) mod ?bs = 0" unfolding hp using pos_end by simp
    have ne: "n - h \<noteq> 0" using False hn lt by auto
    have le: "unat (pos + h) + unat (n - h) \<le> unat sz" using hp hn lt tot by simp
    have len: "?bs \<le> length buf" using assms(5) by (simp add: buffer_ok_def)
    obtain pos' buf' mi' where r: "read_aligned env ip n (n - h) (ext2_bytes d ?bs ino (unat pos) (unat h)) (pos + h, buf) mi =
        Some (Inr n, ext2_bytes d ?bs ino (unat pos) (unat h) @ ext2_bytes d ?bs ino (unat (pos + h)) (unat (n - h)), (pos', buf'), mi')"
      "unat pos' = unat (pos + h) + unat (n - h)" "buffer_ok d ?bs ino (unat pos') buf'" "layer_inv env d mi'" "reads mi mi'"
      using read_aligned_ok [OF assms(1-3) al le len] by blast
    have "ext2_bytes d ?bs ino (unat pos) (unat h) @ ext2_bytes d ?bs ino (unat (pos + h)) (unat (n - h)) = ext2_bytes d ?bs ino (unat pos) (unat n)"
      using ext2_bytes_append [of d ?bs ino "unat pos" "unat h" "unat n - unat h"] hp hn lt by simp
    moreover have "unat pos' = unat pos + unat n" using r(2) hp hn lt by simp
    ultimately show ?thesis using r ne step n by (intro exI [of _ n] exI [of _ pos'] exI [of _ buf'] exI [of _ mi']) simp
  qed
qed

section \<open>Seeking\<close>

lemma seek_chunk_nat:
  assumes "geometry mi"
  shows "seek_chunk pos mi = drop_bit 10 pos"
proof -
  obtain k where k: "k \<le> 6" "bsize mi = 2 ^ (10 + k)" using geometryD [OF assms] by blast
  have "block_size mi = of_nat (bsize mi)" by simp
  then have b: "block_size mi = 2 ^ (10 + k)" unfolding k(2) by simp
  have "k = 0 \<or> k = 1 \<or> k = 2 \<or> k = 3 \<or> k = 4 \<or> k = 5 \<or> k = 6" using k(1) by linarith
  then have "(block_size mi + 10) AND 63 = 10" unfolding b by (elim disjE) simp_all
  then show ?thesis by (simp add: seek_chunk_def)
qed

text \<open>A seek from the start of the file to an unaligned position of the first KiB does not load the block, so the next
  read returns what the buffer held before, for a file just opened the contents of fresh pages.\<close>

lemma seek_in_block_stale:
  assumes "geometry mi" "0 < unat position" "unat position + unat len \<le> 1024" "0 < unat len" "unat position + unat len \<le> unat sz" "bsize mi \<le> length buf"
  shows "seek_file env ip sz position SEEK_MODE_BEG (0, buf) mi = Some (Inr 0, (position, buf), mi)"
    "read_file env ip sz len (position, buf) mi = Some (Inr len, take (unat len) (drop (unat position) buf), (position + len, buf), mi)"
proof -
  note bs = bsize_bounds [OF assms(1)]
  have small: "unat position < 1024" "unat position < bsize mi" using assms(3,4) bs(1) by linarith+
  have "unat (drop_bit 10 position) = 0" using small(1) by (simp add: unat_drop_div)
  then have "drop_bit 10 position = 0" by (simp add: unat_eq_zero)
  then show "seek_file env ip sz position SEEK_MODE_BEG (0, buf) mi = Some (Inr 0, (position, buf), mi)"
    by (simp add: seek_file_def Let_def seek_chunk_nat [OF assms(1)])
  define r where "r = (position AND ucast (block_size mi - 1) :: u64)"
  have r: "unat r = unat position" unfolding r_def using in_block_nat [OF assms(1)] small(2) by simp
  have s: "unat (sz - position) = unat sz - unat position" using assms(5) by (simp add: unat_sub word_le_nat_alt)
  then have n: "(if sz - position < len then sz - position else len) = len" using assms(5) by (auto simp: word_less_nat_alt)
  have h: "unat (ucast (block_size mi) - r) = bsize mi - unat position"
    using r small(2) by (subst unat_sub) (simp_all add: word_le_nat_alt)
  have ne: "ucast (block_size mi) - r \<noteq> ucast (block_size mi)" using h assms(2) small(2) by (auto simp: word_unat_eq_iff)
  have m: "(if ucast (block_size mi) - r > len then len else ucast (block_size mi) - r) = len"
    using h assms(3) bs(1) by (auto simp: word_less_nat_alt word_unat_eq_iff)
  show "read_file env ip sz len (position, buf) mi = Some (Inr len, take (unat len) (drop (unat position) buf), (position + len, buf), mi)"
    using r assms(3,4,6) bs(1) unfolding read_file_def Let_def prod.case n r_def [symmetric] if_not_P [OF ne] m
    by (simp add: bytes_at_def word_less_nat_alt)
qed

section \<open>A sample disk\<close>

text \<open>Four blocks of 1 KiB: an inode at the start of the second one, whose file has the other two.\<close>

definition sample_inode_block :: "u8 list" where
  "sample_inode_block = replicate 40 0 @ [2, 0, 0, 0, 3, 0, 0, 0] @ replicate 976 0"

definition sample_disk2 :: "u8 list" where
  "sample_disk2 = replicate 1024 0 @ sample_inode_block @ replicate 1024 0x61 @ replicate 1024 0x62"

definition sample_env :: ext2_env where
  "sample_env = \<lparr>block_read = (\<lambda>lba n. Inr (take (512 * unat n) (drop (512 * unat lba) sample_disk2))), new_pages = (\<lambda>n. replicate (4096 * n) 0)\<rparr>"

definition sample_mi :: mount_info where
  "sample_mi = \<lparr>mi_superblock = \<lparr>total_blocks = 4, blocks_size = 0, group_block_count = 4, group_inode_count = 8, signature = 0xEF53,
       version_major = 1, ext_inode_size = 128\<rparr>, block_group_count = 1, block_size = 1024, sb_ext = True, mi_filesystem = Some 7,
     block_groups = [0, 0, 0, 0, 0, 0, 0, 0, 1, 0, 0, 0] @ replicate 4084 0,
     cache_block_table = [1 \<mapsto> \<lparr>cb_base = None, cb_ref_count = 1, cb_dirty = False\<rparr>], mi_root = Some 0,
     mi_data = [\<lparr>ip_block = 1, ip_offset = 0\<rparr>]\<rparr>"

lemma sample_layer: "layer_inv sample_env sample_disk2 sample_mi" "inode_ok sample_disk2 \<lparr>ip_block = 1, ip_offset = 0\<rparr> 1024 sample_mi"
  by (simp_all add: layer_inv_def on_disk_def geometry_def cache_ok_def sample_env_def sample_mi_def inode_ok_def good_block_def
      sample_disk2_def sample_inode_block_def INODE_SIZE_def)

lemma sample_file_block: "i < 2 \<Longrightarrow> file_block sample_disk2 1024 1024 i = i + 2"
  by (auto simp: less_2_cases_iff file_block_def block_path_def disk_u32_def le_field_def sample_disk2_def sample_inode_block_def)

lemma sample_file: "file_ok sample_disk2 1024 1024 1500"
proof -
  have "\<forall>i\<le>1. mapped sample_disk2 1024 1024 i" by (auto simp: mapped_def block_path_def)
  moreover have "good_block sample_disk2 1024 (file_block sample_disk2 1024 1024 i)" if "i * 1024 < 1500" for i
  proof -
    have "i < 2" using that by simp
    then show ?thesis using sample_file_block [of i] by (simp add: good_block_def sample_disk2_def sample_inode_block_def)
  qed
  ultimately show ?thesis by (simp add: file_ok_def)
qed

definition sample_file_store :: vfs_state where
  "sample_file_store = \<lparr>nodes = [0 \<mapsto> (VNode_new 0 1500 [0x66] FILE 7)\<lparr>fs_data := ModuleData 0\<rparr>], next_vid = 1, fs_kind_of = (\<lambda>_. ModuleFs),
     fs_root = (\<lambda>_. None), f_rootNode = Some 0\<rparr>"

definition sample_stream :: ext2_stream where
  "sample_stream = \<lparr>es_node = 0, es_position = 0, es_buffer = replicate 4096 0\<rparr>"

definition sample_module :: ext2_module where
  "sample_module = \<lparr>minor_num = 1, mounted_filesystems = [0 \<mapsto> sample_mi]\<rparr>"

section \<open>Properties\<close>

text \<open>C15: \<^verbatim>\<open>read\<close> of a file on a well-formed ext2 disk returns exactly the bytes of the file that its inode maps, from the
  position of the stream on, as many as were asked for or as are left, however they are spread over blocks, and advances
  the position by that number. It relies on the buffer holding the block of an unaligned position, and reestablishes that; the
  cache stays a copy of the disk.\<close>
theorem ext2_read_correct:
  assumes "mounted_filesystems m minor = Some mi" "layer_inv env d mi" "ext2_root (Some (es_node es)) st mi = Some (r, v, ip)"
    and "inode_ok d ip ino mi" "file_ok d (bsize mi) ino (unat (vn_size v))" "unat (es_position es) \<le> unat (vn_size v)"
    and "buffer_ok d (bsize mi) ino (unat (es_position es)) (es_buffer es)"
  shows "\<exists>n es' mi'. ext2_read env minor len es (st, m) =
      Some (Inr n, ext2_bytes d (bsize mi) ino (unat (es_position es)) (unat n), es', m\<lparr>mounted_filesystems := (mounted_filesystems m)(minor \<mapsto> mi')\<rparr>) \<and>
    unat n = min (unat len) (unat (vn_size v) - unat (es_position es)) \<and>
    es_node es' = es_node es \<and> unat (es_position es') = unat (es_position es) + unat n \<and>
    buffer_ok d (bsize mi) ino (unat (es_position es')) (es_buffer es') \<and> layer_inv env d mi' \<and> reads mi mi'"
proof -
  obtain n pos' buf' mi' where r: "read_file env ip (vn_size v) len (es_position es, es_buffer es) mi =
      Some (Inr n, ext2_bytes d (bsize mi) ino (unat (es_position es)) (unat n), (pos', buf'), mi')"
    "unat n = min (unat len) (unat (vn_size v) - unat (es_position es))" "unat pos' = unat (es_position es) + unat n"
    "buffer_ok d (bsize mi) ino (unat pos') buf'" "layer_inv env d mi'" "reads mi mi'"
    using read_file_ok [OF assms(2,4,5,6,7)] by blast
  show ?thesis
    using assms(1,3) r by (intro exI [of _ n] exI [of _ "es\<lparr>es_position := pos', es_buffer := buf'\<rparr>"] exI [of _ mi']) (simp add: ext2_read_def)
qed

theorem ext2_read_correct_witness:
  "\<exists>out es' m'. ext2_read sample_env 0 2000 sample_stream (sample_file_store, sample_module) = Some (Inr 1500, out, es', m') \<and>
    length out = 1500 \<and> out ! 0 = 0x61 \<and> out ! 1024 = 0x62 \<and> es_position es' = 1500"
proof -
  let ?v = "(VNode_new 0 1500 [0x66] FILE 7)\<lparr>fs_data := ModuleData 0\<rparr>" and ?ip = "\<lparr>ip_block = 1, ip_offset = 0\<rparr>"
  have h: "mounted_filesystems sample_module 0 = Some sample_mi" "ext2_root (Some (es_node sample_stream)) sample_file_store sample_mi = Some (0, ?v, ?ip)"
    "bsize sample_mi = 1024" "unat (vn_size ?v) = 1500" "es_position sample_stream = 0" "buffer_ok sample_disk2 1024 1024 0 (es_buffer sample_stream)"
    by (simp_all add: sample_module_def ext2_root_def sample_stream_def sample_file_store_def sample_mi_def node_inode_def VNode_new_def buffer_ok_def)
  obtain n es' mi' where r: "ext2_read sample_env 0 2000 sample_stream (sample_file_store, sample_module) =
      Some (Inr n, ext2_bytes sample_disk2 1024 1024 0 (unat n), es', sample_module\<lparr>mounted_filesystems := (mounted_filesystems sample_module)(0 \<mapsto> mi')\<rparr>)"
    "unat n = 1500" "unat (es_position es') = 1500"
    using ext2_read_correct [OF h(1) sample_layer(1) h(2) sample_layer(2), unfolded h(3,4,5), of 2000] sample_file h(6) by auto
  have "n = 1500" "es_position es' = 1500" using r(2,3) by (simp_all add: word_unat_eq_iff)
  moreover have "file_byte sample_disk2 1024 1024 0 = 0x61" "file_byte sample_disk2 1024 1024 1024 = 0x62"
    using sample_file_block [of 0] sample_file_block [of 1] by (simp_all add: file_byte_def sample_disk2_def sample_inode_block_def nth_append)
  ultimately show ?thesis using r(1,2) by (auto simp: ext2_bytes_nth)
qed

end
