(* ===== verification/Ext2_Dir.thy ===== *)
theory Ext2_Dir
  imports Ext2_Read
begin

unbundle bit_operations_syntax

text \<open>
  Inodes and directories of ext2: \<^verbatim>\<open>read_inode\<close> finds the place of an inode in the table of its group, and \<^verbatim>\<open>get_file\<close>
  finds a name among the entries that the blocks of a directory hold and makes a node for its inode.
\<close>

section \<open>The place of an inode\<close>

definition group_table :: "mount_info \<Rightarrow> nat \<Rightarrow> nat" where
  "group_table mi g = unat (le_field (g * GROUP_SIZE + inode_table_off) 4 (block_groups mi) :: u32)"

text \<open>The byte of the disk at which inode \<open>k\<close> of the file system (counting from 0) starts.\<close>

definition inode_place :: "mount_info \<Rightarrow> nat \<Rightarrow> nat" where
  "inode_place mi k = (let g = unat (group_inode_count (mi_superblock mi)) in
     bsize mi * group_table mi (k div g) + k mod g * unat (ext_inode_size (mi_superblock mi)))"

text \<open>Inodes of at least 128 bytes fill blocks, and blocks of inodes fill the table of a group.\<close>

definition inode_layout :: "mount_info \<Rightarrow> bool" where
  "inode_layout mi \<longleftrightarrow> (let s = unat (ext_inode_size (mi_superblock mi)); g = unat (group_inode_count (mi_superblock mi)) in
     INODE_SIZE \<le> s \<and> s dvd bsize mi \<and> 0 < g \<and> bsize mi div s dvd g \<and> g * s < 2 ^ 32)"

definition inode_on_disk :: "u8 list \<Rightarrow> mount_info \<Rightarrow> nat \<Rightarrow> bool" where
  "inode_on_disk d mi k \<longleftrightarrow> k div unat (group_inode_count (mi_superblock mi)) * GROUP_SIZE + GROUP_SIZE \<le> length (block_groups mi) \<and>
     good_block d (bsize mi) (inode_place mi k div bsize mi)"

lemma read_inode_ok:
  assumes "layer_inv env d mi" "inode_layout mi" "idx \<noteq> 0" "inode_on_disk d mi (unat idx - 1)"
  shows "\<exists>ip mi'. read_inode env idx mi = Some (ip, mi') \<and> inode_ok d ip (inode_place mi (unat idx - 1)) mi' \<and> layer_inv env d mi' \<and> reads mi mi'"
proof -
  let ?sb = "mi_superblock mi" and ?bs = "bsize mi" and ?k = "unat idx - 1"
  define s g p L where "s = unat (ext_inode_size ?sb)" "g = unat (group_inode_count ?sb)" "p = ?bs div s" "L = ?k mod g"
  note defs = this
  have lay: "INODE_SIZE \<le> s" "s dvd ?bs" "0 < g" "p dvd g" "g * s < 2 ^ 32" using assms(2) by (simp_all add: inode_layout_def Let_def defs)
  note bs = bsize_bounds [of mi]
  have geo: "geometry mi" using assms(1) by (simp add: layer_inv_def)
  have s0: "0 < s" using lay(1) by (simp add: INODE_SIZE_def)
  have ps: "p * s = ?bs" using lay(2) by (simp add: defs(3))
  then have p0: "0 < p" using bs(5) [OF geo] by (cases "p = 0") simp_all
  have k: "unat (idx - 1) = ?k" using assms(3) by (simp add: unat_minus_one)
  have Lg: "L < g" using lay(3) by (simp add: defs(4))
  have Ls: "L * s < 2 ^ 32" using Lg lay(5) mult_le_mono1 [of L g s] by linarith
  have w: "unat (get_inode_local_index idx mi) = L" "unat (get_inode_group idx mi) = ?k div g"
    by (simp_all add: get_inode_local_index_def get_inode_group_def unat_mod unat_div k defs)
  have "unat (get_inode_local_index idx mi * ucast (ext_inode_size ?sb)) = L * s"
    using Ls by (subst unat_mult_lem [THEN iffD1]) (simp_all add: w defs(1) [symmetric])
  then have tb: "unat (inode_table_block idx mi) = L * s div ?bs" by (simp add: inode_table_block_def unat_div)
  define T where "T = group_table mi (?k div g)"
  have place: "inode_place mi ?k = ?bs * T + L * s" by (simp add: inode_place_def Let_def T_def defs)
  have "inode_place mi ?k div ?bs = T + L * s div ?bs" unfolding place using bs(5) [OF geo] by simp
  then have good: "good_block d ?bs (T + L * s div ?bs)" using assms(4) unfolding inode_on_disk_def by simp
  have tbl: "field_at (unat (get_inode_group idx mi) * GROUP_SIZE + inode_table_off) 4 (block_groups mi) =
      Some (le_field (?k div g * GROUP_SIZE + inode_table_off) 4 (block_groups mi) :: u32)"
    using assms(4) by (simp add: field_at_def w inode_on_disk_def defs(2) [symmetric] GROUP_SIZE_def inode_table_off_def)
  define tw where "tw = (le_field (?k div g * GROUP_SIZE + inode_table_off) 4 (block_groups mi) :: u32)"
  have tw: "unat tw = T" by (simp add: tw_def T_def group_table_def)
  have "?bs * (T + L * s div ?bs + 1) \<le> 2 ^ 32" using good by (simp add: good_block_def)
  moreover have "1 * (T + L * s div ?bs + 1) \<le> ?bs * (T + L * s div ?bs + 1)" using bs(1) [OF geo] by (intro mult_le_mono1) linarith
  ultimately have "1 * (T + L * s div ?bs + 1) \<le> 2 ^ 32" by (rule le_trans [rotated])
  then have "T + L * s div ?bs < 2 ^ 32" by simp
  then have "unat (inode_table_block idx mi) + unat tw < 2 ^ 32" by (simp add: tb tw)
  then have "unat (inode_table_block idx mi + tw) = unat (inode_table_block idx mi) + unat tw" by (subst unat_add_lem [symmetric]) simp
  then have blk: "unat (inode_table_block idx mi + tw) = T + L * s div ?bs" by (simp add: tb tw)
  let ?per = "block_size mi div ucast (ext_inode_size ?sb)"
  have per: "unat ?per = p" by (simp add: unat_div defs)
  define off where "off = (idx - 1) mod ?per * ucast (ext_inode_size ?sb)"
  have km: "unat ((idx - 1) mod ?per) = L mod p" unfolding unat_mod per k using lay(4) by (simp add: defs(4) mod_mod_cancel)
  have "(L mod p) * s < ?bs" using ps p0 s0 by (metis mod_less_divisor mult_less_mono1)
  then have off: "unat off = (L mod p) * s" unfolding off_def using bs(2) [OF geo]
    by (subst unat_mult_lem [THEN iffD1]) (simp_all add: km defs(1) [symmetric])
  have div: "L * s div ?bs = L div p" using s0 by (simp add: ps [symmetric])
  have "L mod p + 1 \<le> p" using p0 by (simp add: Suc_leI)
  then have "(L mod p + 1) * s \<le> p * s" by (rule mult_le_mono1)
  then have fit: "(L mod p) * s + s \<le> ?bs" by (simp add: ps)
  have "?bs * (L div p) + (L mod p) * s = (p * (L div p) + L mod p) * s" unfolding ps [symmetric] by (simp only: add_mult_distrib add_mult_distrib2 mult_ac)
  then have sum: "?bs * (L div p) + (L mod p) * s = L * s" by simp
  let ?mi = "read_cache_block (inode_table_block idx mi + tw) mi" and ?b = "inode_table_block idx mi + tw"
  obtain cb where cb: "cache_block_table ?mi ?b = Some cb" using read_cache_block_known [of ?b mi] by blast
  let ?mi' = "?mi\<lparr>cache_block_table := (cache_block_table ?mi)(?b \<mapsto> cb\<lparr>cb_ref_count := cb_ref_count cb + 1\<rparr>)\<rparr>"
  have r: "read_inode env idx mi = Some (\<lparr>ip_block = ?b, ip_offset = off\<rparr>, ?mi')"
  proof -
    have "group_inode_count ?sb \<noteq> 0" "block_size mi \<noteq> 0" "ext_inode_size ?sb \<noteq> 0" using lay(3) s0 bs(5) [OF geo] by (auto simp: defs)
    moreover have "?per \<noteq> 0" using p0 per by auto
    ultimately show ?thesis using tbl [folded tw_def] cb
      by (simp add: read_inode_def Let_def off_def inode_ptr_new_def cache_ref_def)
  qed
  have rd: "reads ?mi ?mi'" using cb by (auto simp: reads_def)
  have "layer_inv env d ?mi'" using layer_read_cache_block [OF assms(1), of ?b] cb by (auto simp: layer_inv_def geometry_def cache_ok_def)
  moreover have "block_size ?mi' = block_size mi" using readsD(1) [OF reads_read_cache_block] by simp
  moreover have "inode_place mi ?k = ?bs * unat ?b + unat off" unfolding place by (simp add: blk off div distrib_left sum)
  ultimately have "inode_ok d \<lparr>ip_block = ?b, ip_offset = off\<rparr> (inode_place mi ?k) ?mi'"
    using good fit lay(1) by (simp add: inode_ok_def blk off)
  then show ?thesis using r \<open>layer_inv env d ?mi'\<close> reads_trans [OF reads_read_cache_block rd] by blast
qed

section \<open>The entries of a directory\<close>

text \<open>An entry: the number of its inode (0 for an unused one), its size in the block, and its name. \<open>dir_block\<close> says that
  the bytes of a block from an offset to its end are a list of entries.\<close>

type_synonym dirent = "u32 \<times> nat \<times> cstring"

fun dir_block :: "nat \<Rightarrow> dirent list \<Rightarrow> u8 list \<Rightarrow> bool" where
  "dir_block off [] b \<longleftrightarrow> off = length b"
| "dir_block off ((ino, n, name) # es) b \<longleftrightarrow>
     8 + length name \<le> n \<and> n < 2 ^ 16 \<and> off + n \<le> length b \<and> length name < 256 \<and>
     le_field off 4 b = ino \<and> le_field (off + 4) 2 b = (of_nat n :: u16) \<and> le_field (off + 6) 1 b = (of_nat (length name) :: u8) \<and>
     take (length name) (drop (off + 8) b) = name \<and> dir_block (off + n) es b"

definition is_name :: "cstring \<Rightarrow> dirent \<Rightarrow> bool" where
  "is_name name e \<longleftrightarrow> fst e \<noteq> 0 \<and> snd (snd e) = name"

text \<open>The inode of a name: that of its first entry in use.\<close>

definition lookup_name :: "cstring \<Rightarrow> dirent list \<Rightarrow> u32 option" where
  "lookup_name name es = map_option fst (find (is_name name) es)"

text \<open>The blocks of a directory hold the entries \<open>ess\<close>, block by block.\<close>

definition dir_ok :: "u8 list \<Rightarrow> nat \<Rightarrow> nat \<Rightarrow> dirent list list \<Rightarrow> bool" where
  "dir_ok d bs ino ess \<longleftrightarrow> disk_u32 d (ino + 4) div bs = length ess \<and>
     (\<forall>i<length ess. mapped d bs ino i \<and> good_block d bs (file_block d bs ino i) \<and>
        dir_block 0 (ess ! i) (disk_block d bs (file_block d bs ino i)))"

lemma same_name_ok: "off + length name \<le> length b \<Longrightarrow> same_name name off b = Some (take (length name) (drop off b) = name)"
proof (induction name arbitrary: off)
  case (Cons c cs)
  then have "drop off b = b ! off # drop (Suc off) b" by (simp add: Cons_nth_drop_Suc)
  then show ?case using Cons by auto
qed simp

lemma lookup_Cons: "lookup_name name (e # es) = (if is_name name e then Some (fst e) else lookup_name name es)"
  by (simp add: lookup_name_def)

lemma lookup_append: "lookup_name name (xs @ ys) = (case lookup_name name xs of None \<Rightarrow> lookup_name name ys | Some i \<Rightarrow> Some i)"
  by (induction xs) (auto simp: lookup_Cons, simp add: lookup_name_def)

lemma lookup_nonzero: "lookup_name name es = Some n \<Longrightarrow> n \<noteq> 0"
  by (induction es) (auto simp: lookup_Cons is_name_def split: if_splits, simp add: lookup_name_def)

text \<open>The fields of an entry in a buffer that starts with the block.\<close>

lemma prefix_field:
  assumes "take n base = b" "length b = n" "off + k \<le> n"
  shows "field_at off k base = Some (le_field off k b :: 'w::len word)"
proof -
  have "length base \<ge> n" using arg_cong [OF assms(1), of length] assms(2) by simp
  then show ?thesis using assms(3) by (simp add: field_at_def le_field_def drop_take min_def flip: assms(1))
qed

lemma entry_matches_ok:
  assumes "take n base = b" "length b = n" "dir_block off ((ino, k, nm) # es) b"
  shows "entry_matches name off base = Some (nm = name)"
proof -
  have l: "off + 8 + length nm \<le> n" "length nm < 256" "take (length nm) (drop (off + 8) b) = nm" "le_field (off + 6) 1 b = (of_nat (length nm) :: u8)"
    using assms(2,3) by auto
  have f: "field_at (off + 6) 1 base = Some (of_nat (length nm) :: u8)"
    using prefix_field [OF assms(1,2), of "off + 6" 1, where ?'w = 8] l by simp
  have u: "unat (of_nat (length nm) :: u8) = length nm" using l(2) by (simp add: unat_of_nat)
  show ?thesis
  proof (cases "length name = length nm")
    case True
    have "n \<le> length base" using arg_cong [OF assms(1), of length] assms(2) by simp
    then have "same_name name (off + 8) base = Some (take (length name) (drop (off + 8) base) = name)"
      using l(1) True by (intro same_name_ok) simp
    moreover have "take (length nm) (drop (off + 8) base) = nm"
    proof -
      have "take (length nm) (drop (off + 8) (take n base)) = take (length nm) (drop (off + 8) base)"
        using l(1) by (simp add: drop_take min_def)
      then show ?thesis using l(3) unfolding assms(1) by simp
    qed
    ultimately show ?thesis using f u True by (simp add: entry_matches_def)
  next
    case False
    then show ?thesis using f u by (auto simp: entry_matches_def)
  qed
qed

lemma find_entry_ok:
  assumes "layer_inv env d mi" "good_block d (bsize mi) (unat blk)" "cache_block_table mi blk \<noteq> None"
    and "dir_block (unat off) es (disk_block d (bsize mi) (unat blk))"
  shows "\<exists>mi'. find_entry env name blk off mi = Some (lookup_name name es, mi') \<and> layer_inv env d mi' \<and> reads mi mi'"
  using assms
proof (induction es arbitrary: off mi)
  case Nil
  have "\<not> off < ucast (block_size mi)" using Nil.prems(4) length_disk_block [OF Nil.prems(2)] by (simp add: word_less_nat_alt)
  then show ?case using Nil.prems(1) by (subst find_entry.simps) (simp add: lookup_name_def)
next
  case (Cons e es)
  obtain ino n nm where e: "e = (ino, n, nm)" by (cases e)
  let ?b = "disk_block d (bsize mi) (unat blk)"
  have len: "length ?b = bsize mi" by (rule length_disk_block [OF Cons.prems(2)])
  have db: "8 + length nm \<le> n" "n < 2 ^ 16" "unat off + n \<le> bsize mi" "le_field (unat off) 4 ?b = ino" "le_field (unat off + 4) 2 ?b = (of_nat n :: u16)"
      "dir_block (unat off + n) es ?b"
    using Cons.prems(4) by (auto simp: e len)
  have lt: "off < ucast (block_size mi)" using db(1,3) by (simp add: word_less_nat_alt)
  obtain base mi1 where c: "cache_ptr env blk mi = Some (base, mi1)" "take (bsize mi) base = ?b" "layer_inv env d mi1" "reads mi mi1"
    using cache_ptr_ok [OF Cons.prems(1-3)] by blast
  have f: "field_at (unat off) 4 base = Some ino" "field_at (unat off + 4) 2 base = Some (of_nat n :: u16)"
    using prefix_field [OF c(2) len, of "unat off" 4, where ?'w = 32] prefix_field [OF c(2) len, of "unat off + 4" 2, where ?'w = 16] db by auto
  have m: "entry_matches name (unat off) base = Some (nm = name)"
    by (rule entry_matches_ok [OF c(2) len Cons.prems(4) [unfolded e]])
  have bs1: "block_size mi1 = block_size mi" by (rule readsD(1) [OF c(4)])
  show ?case
  proof (cases "is_name name e")
    case True
    then show ?thesis using lt c(1,3,4) f m by (subst find_entry.simps) (simp add: e is_name_def lookup_Cons)
  next
    case False
    have u: "unat (ucast (of_nat n :: u16) :: u64) = n" using db(2) by (simp add: unat_of_nat)
    have "unat (off + ucast (of_nat n :: u16)) = unat off + n"
      using db(3) bsize_bounds(2) [of mi] Cons.prems(1) u by (subst unat_add_lem [THEN iffD1]) (simp_all add: layer_inv_def)
    then have "\<exists>mi'. find_entry env name blk (off + ucast (of_nat n :: u16)) mi1 = Some (lookup_name name es, mi') \<and> layer_inv env d mi' \<and> reads mi1 mi'"
      using Cons.IH [OF c(3), of "off + ucast (of_nat n :: u16)"] Cons.prems(2) readsD(7) [OF c(4) Cons.prems(3)] db(6) bs1 by simp
    moreover have "find_entry env name blk off mi = find_entry env name blk (off + ucast (of_nat n :: u16)) mi1"
      using False lt c(1) f m by (subst find_entry.simps) (auto simp: e is_name_def)
    ultimately show ?thesis using False reads_trans [OF c(4)] by (auto simp: lookup_Cons)
  qed
qed

lemma dir_blocks_ok:
  assumes "layer_inv env d mi" "inode_ok d ip ino mi"
  shows "\<exists>n mi'. dir_blocks env ip mi = Some (n, mi') \<and> unat n = disk_u32 d (ino + 4) div bsize mi \<and> layer_inv env d mi' \<and> reads mi mi'"
proof -
  obtain v mi1 where v: "inode_field env ip 4 mi = Some (v, mi1)" "unat v = disk_u32 d (ino + 4)" "layer_inv env d mi1" "reads mi mi1"
    using inode_field_ok [OF assms, of 4] by (auto simp: INODE_SIZE_def)
  have "geometry mi" using assms(1) by (simp add: layer_inv_def)
  then obtain k where "bsize mi = 2 ^ (10 + k)" "block_shift mi = 10 + k" using geometryD by blast
  then have "unat (drop_bit (block_shift mi) v) = disk_u32 d (ino + 4) div bsize mi" by (simp add: unat_drop_div v(2))
  moreover have "block_shift mi = unat (10 + blocks_size (mi_superblock mi1))" using readsD(2) [OF v(4)] by (simp add: block_shift_def add.commute)
  ultimately show ?thesis using v by (simp add: dir_blocks_def)
qed

lemma find_in_dir_ok:
  assumes "layer_inv env d mi" "inode_ok d ip ino mi" "dir_ok d (bsize mi) ino ess" "unat k \<le> length ess"
  shows "\<exists>mi'. find_in_dir env name ip k mi = Some (lookup_name name (concat (drop (unat k) ess)), mi') \<and> layer_inv env d mi' \<and> reads mi mi'"
  using assms
proof (induction "length ess - unat k" arbitrary: k mi)
  case 0
  obtain n mi1 where n: "dir_blocks env ip mi = Some (n, mi1)" "unat n = length ess" "layer_inv env d mi1" "reads mi mi1"
    using dir_blocks_ok [OF 0(2,3)] 0(4) by (auto simp: dir_ok_def)
  then have "\<not> k < ucast n" using 0(1,5) by (simp add: word_less_nat_alt)
  then show ?case using n 0(1) by (subst find_in_dir.simps) (simp add: lookup_name_def)
next
  case (Suc j)
  let ?bs = "bsize mi" and ?i = "ucast k :: u32"
  have k: "unat k < length ess" using Suc.hyps(2) by simp
  obtain n mi1 where n: "dir_blocks env ip mi = Some (n, mi1)" "unat n = length ess" "layer_inv env d mi1" "reads mi mi1"
    using dir_blocks_ok [OF Suc.prems(1,2)] Suc.prems(3) by (auto simp: dir_ok_def)
  have "length ess < 2 ^ 32" using n(2) unsigned_less [of n, where ?'a = nat] by simp
  then have i: "unat ?i = unat k" using k by (intro ucast_down_nat) simp
  have bs1: "block_size mi1 = block_size mi" by (rule readsD(1) [OF n(4)])
  have d: "mapped d ?bs ino (unat k)" "good_block d ?bs (file_block d ?bs ino (unat k))"
      "dir_block 0 (ess ! unat k) (disk_block d ?bs (file_block d ?bs ino (unat k)))"
    using Suc.prems(3) k by (simp_all add: dir_ok_def)
  obtain blk mi2 where b: "get_inode_block env ip ?i mi1 = Some (blk, mi2)" "unat blk = file_block d ?bs ino (unat k)" "layer_inv env d mi2" "reads mi1 mi2"
    using get_inode_block_ok [OF n(3) inode_ok_reads [OF Suc.prems(2) n(4)], of ?i] d(1) i bs1 by auto
  have bs2: "block_size mi2 = block_size mi" using readsD(1) [OF b(4)] bs1 by simp
  let ?mi3 = "read_cache_block blk mi2"
  have bs3: "block_size ?mi3 = block_size mi" using readsD(1) [OF reads_read_cache_block] bs2 by simp
  obtain mi4 where f: "find_entry env name blk 0 ?mi3 = Some (lookup_name name (ess ! unat k), mi4)" "layer_inv env d mi4" "reads ?mi3 mi4"
    using find_entry_ok [OF layer_read_cache_block [OF b(3)], of blk blk 0 "ess ! unat k" name] read_cache_block_known d(2,3) b(2) bs3 by auto
  have r4: "reads mi mi4" using n(4) b(4) reads_read_cache_block f(3) by (blast intro: reads_trans)
  have bs4: "block_size mi4 = block_size mi" by (rule readsD(1) [OF r4])
  have split: "concat (drop (unat k) ess) = ess ! unat k @ concat (drop (Suc (unat k)) ess)"
    using Cons_nth_drop_Suc [OF k, symmetric] by simp
  have lt: "k < ucast n" using k n(2) by (simp add: word_less_nat_alt)
  show ?case
  proof (cases "lookup_name name (ess ! unat k)")
    case (Some x)
    then show ?thesis using n(1) lt b(1) f r4 by (subst find_in_dir.simps) (simp add: split lookup_append)
  next
    case None
    have k1: "unat (k + 1) = Suc (unat k)" using k \<open>length ess < 2 ^ 32\<close> by (simp add: unat_word_ariths)
    have "\<exists>mi'. find_in_dir env name ip (k + 1) mi4 = Some (lookup_name name (concat (drop (unat (k + 1)) ess)), mi') \<and> layer_inv env d mi' \<and> reads mi4 mi'"
      using Suc.hyps(2) k k1 f(2) inode_ok_reads [OF Suc.prems(2) r4] Suc.prems(3) bs4 by (intro Suc.hyps(1)) simp_all
    moreover have "find_in_dir env name ip k mi = find_in_dir env name ip (k + 1) mi4"
      using n(1) lt b(1) f(1) None by (subst find_in_dir.simps) simp
    ultimately show ?thesis using None reads_trans [OF r4] by (auto simp: k1 split lookup_append)
  qed
qed

section \<open>The node of an inode\<close>

lemma block_prefix_field:
  assumes "take bs base = disk_block d bs b" "good_block d bs b" "off + n \<le> bs"
  shows "le_field off n base = (le_field (bs * b + off) n d :: 'w::len word)"
proof -
  have "le_field off n base = (le_field off n (take bs base) :: 'w word)" using assms(3) by (simp add: le_field_def drop_take min_def)
  then show ?thesis unfolding assms(1) using le_field_block [OF assms(2,3)] by simp
qed

lemma inode_at_ok:
  assumes "layer_inv env d mi" "inode_ok d ip ino mi"
  shows "\<exists>mi'. inode_at env ip mi = Some (inode_of ino d, mi') \<and> layer_inv env d mi' \<and> reads mi mi'"
proof -
  let ?b = "unat (ip_block ip)" and ?o = "unat (ip_offset ip)" and ?bs = "bsize mi"
  have g: "good_block d ?bs ?b" "cache_block_table mi (ip_block ip) \<noteq> None" "?o + 128 \<le> ?bs" "ino = ?bs * ?b + ?o"
    using assms(2) by (simp_all add: inode_ok_def INODE_SIZE_def)
  obtain base mi' where c: "cache_ptr env (ip_block ip) mi = Some (base, mi')" "take ?bs base = disk_block d ?bs ?b" "layer_inv env d mi'" "reads mi mi'"
    using cache_ptr_ok [OF assms(1) g(1,2)] by blast
  have len: "?bs \<le> length base" using arg_cong [OF c(2), of length] length_disk_block [OF g(1)] by simp
  note f = block_prefix_field [OF c(2) g(1)]
  have "inode_of ?o base = inode_of ino d"
    using g(3) unfolding inode_of_def g(4) add.assoc by (intro inode.equality) (simp_all add: f)
  then show ?thesis using c g(3) len by (simp add: inode_at_def)
qed

text \<open>The order of \<^verbatim>\<open>f_parent\<close>, \<^verbatim>\<open>fs_data\<close> and \<^verbatim>\<open>add_child\<close> does not matter.\<close>

lemma attach_node:
  assumes "store_wf st" "nodes st root = Some v" "f_children c = um_empty" "children v (f_name c) = None" "um_count (f_children v) < um_limit"
    and "make_node c st = (st1, i)"
  shows "\<exists>st2 st3 st' v'. set_parent i (Some root) st1 = Some st2 \<and> update_node i (\<lambda>w. w\<lparr>fs_data := x\<rparr>) st2 = Some st3 \<and>
    add_child root i st3 = Some st' \<and> i = next_vid st \<and> store_wf st' \<and> nodes st' i = Some (c\<lparr>f_parent := Some root, fs_data := x\<rparr>) \<and>
    nodes st' = (nodes st)(root \<mapsto> v', i \<mapsto> c\<lparr>f_parent := Some root, fs_data := x\<rparr>) \<and> children v' = (children v)(f_name c \<mapsto> i)"
proof -
  let ?c = "c\<lparr>fs_data := x\<rparr>" and ?n = "next_vid st"
  have c: "f_children ?c = um_empty" "children v (f_name ?c) = None" using assms(3,4) by simp_all
  obtain st' v' where a: "attach_new root ?c st = Some (st', ?n)"
      "nodes st' = (nodes st)(root \<mapsto> v', ?n \<mapsto> ?c\<lparr>f_parent := Some root\<rparr>)" "store_wf st'" "children v' = (children v)(f_name ?c \<mapsto> ?n)"
    using attach_new_spec [OF assms(1,2) c assms(5)] by blast
  have ne: "root \<noteq> ?n" using fresh_node [OF assms(1)] assms(2) by auto
  have i: "i = ?n" "st1 = st\<lparr>nodes := (nodes st)(?n \<mapsto> c), next_vid := Suc ?n\<rparr>" using assms(6) by (auto simp: make_node_def)
  obtain m ins where m: "um_insert hash_str (f_name c) ?n (f_children v) = Some (m, ins)"
    using a(1) ne assms(2) by (auto simp: attach_new_def make_node_def add_child_def split: option.splits)
  have s': "st' = st\<lparr>nodes := (nodes st)(root \<mapsto> v\<lparr>f_children := m\<rparr>, ?n \<mapsto> ?c\<lparr>f_parent := Some root\<rparr>), next_vid := Suc ?n\<rparr>"
    using a(1) ne assms(2) m
    by (cases st) (simp add: attach_new_def make_node_def add_child_def set_children_def update_node_def set_parent_def fun_upd_twist [OF ne])
  let ?c1 = "c\<lparr>f_parent := Some root\<rparr>" and ?c2 = "c\<lparr>f_parent := Some root, fs_data := x\<rparr>"
  let ?s = "\<lambda>w. st\<lparr>nodes := (nodes st)(?n \<mapsto> w), next_vid := Suc ?n\<rparr>"
  have swap: "?c\<lparr>f_parent := Some root\<rparr> = ?c2" by simp
  have "set_parent i (Some root) st1 = Some (?s ?c1)" "update_node i (\<lambda>w. w\<lparr>fs_data := x\<rparr>) (?s ?c1) = Some (?s ?c2)"
    by (simp_all add: i set_parent_def update_node_def)
  moreover have "add_child root i (?s ?c2) = Some st'"
    unfolding s' swap using ne m assms(2) by (simp add: i add_child_def set_children_def update_node_def fun_upd_twist [OF ne])
  moreover have "nodes st' = (nodes st)(root \<mapsto> v', i \<mapsto> ?c2)" unfolding a(2) i(1) swap ..
  moreover have "children v' = (children v)(f_name c \<mapsto> i)" using a(4) i(1) by simp
  ultimately show ?thesis using a(3) i(1) by (intro exI [of _ "?s ?c1"] exI [of _ "?s ?c2"] exI [of _ st'] exI [of _ v']) simp
qed

lemma inode_vnode_fields [simp]: "f_children (inode_vnode ino name vt fs) = um_empty" "f_name (inode_vnode ino name vt fs) = name"
  by (simp_all add: inode_vnode_def)

text \<open>What \<^verbatim>\<open>attach_inode\<close> leaves of the mount: a counted pointer for the new node.\<close>

lemma attach_inode_ok:
  assumes "layer_inv env d mi" "inode_layout mi" "n \<noteq> 0" "inode_on_disk d mi (unat n - 1)"
    and "inode_to_vnode_type (type_and_perm (inode_of (inode_place mi (unat n - 1)) d) AND 0xF000) = Some vt" "mi_filesystem mi = Some fs"
    and "store_wf st" "nodes st root = Some v" "children v name = None" "um_count (f_children v) < um_limit"
  shows "\<exists>st' mi' w v' ip'. attach_inode env name root n (st, mi) = Some (next_vid st, st', mi') \<and> layer_inv env d mi' \<and> store_wf st' \<and>
    nodes st' = (nodes st)(root \<mapsto> v', next_vid st \<mapsto> w) \<and> children v' = (children v)(name \<mapsto> next_vid st) \<and>
    w = (inode_vnode (inode_of (inode_place mi (unat n - 1)) d) name vt fs)\<lparr>f_parent := Some root, fs_data := ModuleData (length (mi_data mi))\<rparr> \<and>
    mi_data mi' = mi_data mi @ [ip'] \<and> inode_ok d ip' (inode_place mi (unat n - 1)) mi'"
proof -
  let ?p = "inode_place mi (unat n - 1)"
  obtain ip mi1 where r: "read_inode env n mi = Some (ip, mi1)" "inode_ok d ip ?p mi1" "layer_inv env d mi1" "reads mi mi1"
    using read_inode_ok [OF assms(1-4)] by blast
  obtain mi2 where a: "inode_at env ip mi1 = Some (inode_of ?p d, mi2)" "layer_inv env d mi2" "reads mi1 mi2"
    using inode_at_ok [OF r(3,2)] by blast
  have ip2: "inode_ok d ip ?p mi2" by (rule inode_ok_reads [OF r(2) a(3)])
  have data: "mi_filesystem mi2 = Some fs" "mi_data mi2 = mi_data mi" using readsD(4,6) [OF r(4)] readsD(4,6) [OF a(3)] assms(6) by simp_all
  obtain cb where cb: "cache_block_table mi2 (ip_block ip) = Some cb" using ip2 by (auto simp: inode_ok_def)
  let ?c = "inode_vnode (inode_of ?p d) name vt fs" and ?x = "ModuleData (length (mi_data mi))"
  obtain st1 i where mk: "make_node ?c st = (st1, i)" by (cases "make_node ?c st")
  obtain st2 st3 st' v' where s: "set_parent i (Some root) st1 = Some st2" "update_node i (\<lambda>w. w\<lparr>fs_data := ?x\<rparr>) st2 = Some st3"
      "add_child root i st3 = Some st'" "i = next_vid st" "store_wf st'"
      "nodes st' = (nodes st)(root \<mapsto> v', i \<mapsto> ?c\<lparr>f_parent := Some root, fs_data := ?x\<rparr>)" "children v' = (children v)(name \<mapsto> i)"
    using attach_node [OF assms(7,8) _ _ assms(10) mk, of ?x] assms(9) by auto
  let ?mi = "\<lambda>k. mi2\<lparr>cache_block_table := (cache_block_table mi2)(ip_block ip \<mapsto> cb\<lparr>cb_ref_count := k\<rparr>), mi_data := mi_data mi @ [ip]\<rparr>"
  have e: "attach_inode env name root n (st, mi) = Some (i, st', ?mi (cb_ref_count cb))"
    using r(1) a(1) assms(5) data cb mk s(1-3)
    by (simp add: attach_inode_def Let_def set_node_data_def inode_ptr_copy_def inode_ptr_delete_def cache_ref_def cache_unref_def)
  have "layer_inv env d (?mi (cb_ref_count cb))" using a(2) cb by (auto simp: layer_inv_def geometry_def cache_ok_def)
  moreover have "inode_ok d ip ?p (?mi (cb_ref_count cb))" using ip2 by (simp add: inode_ok_def)
  ultimately show ?thesis using e s by auto
qed

text \<open>An unused entry of size 0, such as a block of zeros has, is never passed: the search of the block does not end.\<close>

definition stuck_entry :: "u32 \<Rightarrow> size_t \<Rightarrow> mount_info \<Rightarrow> bool" where
  "stuck_entry blk off mi \<longleftrightarrow> off < ucast (block_size mi) \<and> (\<exists>cb base. cache_block_table mi blk = Some cb \<and> cb_base cb = Some base \<and>
     field_at (unat off) 4 base = Some (0 :: u32) \<and> field_at (unat off + 4) 2 base = Some (0 :: u16))"

lemma zero_entry_loops: "stuck_entry blk off mi \<Longrightarrow> find_entry env name blk off mi = None"
proof (rule ccontr)
  assume s: "stuck_entry blk off mi" and "find_entry env name blk off mi \<noteq> None"
  then obtain y where y: "find_entry env name blk off mi = Some y" by blast
  have "\<not> stuck_entry blk off mi"
  proof (rule find_entry.raw_induct [OF _ y, where P = "\<lambda>env name blk off mi y. \<not> stuck_entry blk off mi"])
    fix f env name blk off mi and y :: "u32 option \<times> mount_info"
    assume ih: "\<And>env name blk off mi y. f env name blk off mi = Some y \<Longrightarrow> \<not> stuck_entry blk off mi"
      and step: "(if off < ucast (block_size mi) then do {
        (base, mi) \<leftarrow> cache_ptr env blk mi;
        ino \<leftarrow> field_at (unat off) 4 base;
        hit \<leftarrow> (if ino = 0 then Some False else entry_matches name (unat off) base);
        if hit then Some (Some ino, mi)
        else do {
          n \<leftarrow> field_at (unat off + 4) 2 base;
          f env name blk (off + ucast (n :: u16)) mi } }
      else Some (None, mi)) = Some y"
    show "\<not> stuck_entry blk off mi"
    proof
      assume "stuck_entry blk off mi"
      moreover from this step have "f env name blk off mi = Some y" by (auto simp: stuck_entry_def cache_ptr_def)
      ultimately show False using ih by blast
    qed
  qed
  then show False using s by contradiction
qed

section \<open>A sample directory\<close>

text \<open>Three blocks of 1 KiB: nothing, a table of eight inodes, and the block of the root directory (inode 2) with one entry,
  \<^verbatim>\<open>f\<close>, for the file of inode 3.\<close>

definition sample_inodes :: "u8 list" where
  "sample_inodes = replicate 128 0 @ ([0, 0x40, 0, 0, 0, 4, 0, 0] @ replicate 32 0 @ [2, 0, 0, 0] @ replicate 84 0) @
     ([0xA4, 0x81, 0, 0, 5, 0, 0, 0] @ replicate 120 0) @ replicate 640 0"

definition sample_root_block :: "u8 list" where
  "sample_root_block = [3, 0, 0, 0, 0, 4, 1, 1, 0x66] @ replicate 1015 0"

definition sample_dir_disk :: "u8 list" where
  "sample_dir_disk = replicate 1024 0 @ sample_inodes @ sample_root_block"

definition sample_dir_env :: ext2_env where
  "sample_dir_env = \<lparr>block_read = (\<lambda>lba n. Inr (take (512 * unat n) (drop (512 * unat lba) sample_dir_disk))), new_pages = (\<lambda>n. replicate (4096 * n) 0)\<rparr>"

definition sample_dir_mi :: mount_info where
  "sample_dir_mi = sample_mi\<lparr>mi_data := [\<lparr>ip_block = 1, ip_offset = 128\<rparr>]\<rparr>"

definition sample_dir_store :: vfs_state where
  "sample_dir_store = \<lparr>nodes = [0 \<mapsto> (VNode_new 0 1024 [] DIRECTORY 7)\<lparr>fs_data := ModuleData 0\<rparr>], next_vid = 1, fs_kind_of = (\<lambda>_. ModuleFs),
     fs_root = (\<lambda>_. None), f_rootNode = Some 0\<rparr>"

definition sample_dir_module :: ext2_module where
  "sample_dir_module = \<lparr>minor_num = 1, mounted_filesystems = [0 \<mapsto> sample_dir_mi]\<rparr>"

lemmas sample_dir_defs = sample_dir_disk_def sample_inodes_def sample_root_block_def

lemma sample_dir_layer: "layer_inv sample_dir_env sample_dir_disk sample_dir_mi" "inode_ok sample_dir_disk \<lparr>ip_block = 1, ip_offset = 128\<rparr> 1152 sample_dir_mi"
    "inode_layout sample_dir_mi" "bsize sample_dir_mi = 1024"
  by (simp_all add: layer_inv_def on_disk_def geometry_def cache_ok_def sample_dir_env_def sample_dir_mi_def sample_mi_def inode_ok_def good_block_def
      sample_dir_defs INODE_SIZE_def inode_layout_def)

lemma sample_place: "inode_place sample_dir_mi 2 = 1280" "inode_on_disk sample_dir_disk sample_dir_mi 2"
proof -
  have t: "group_table sample_dir_mi 0 = 1"
    by (simp add: group_table_def sample_dir_mi_def sample_mi_def le_field_def GROUP_SIZE_def inode_table_off_def)
  then show p: "inode_place sample_dir_mi 2 = 1280"
    by (simp add: inode_place_def sample_dir_mi_def sample_mi_def)
  show "inode_on_disk sample_dir_disk sample_dir_mi 2" unfolding inode_on_disk_def p
    by (simp add: sample_dir_mi_def sample_mi_def GROUP_SIZE_def good_block_def sample_dir_defs)
qed

lemma sample_dir_inode: "type_and_perm (inode_of 1280 sample_dir_disk) = 0x81A4" "ino_size (inode_of 1280 sample_dir_disk) = 5"
  by (simp_all add: inode_of_def le_field_def sample_dir_defs)

lemma sample_dir_ok: "dir_ok sample_dir_disk 1024 1152 [[(3, 1024, [0x66])]]"
proof -
  have b: "disk_u32 sample_dir_disk (1152 + 4) = 1024" "file_block sample_dir_disk 1024 1152 0 = 2"
    by (simp_all add: disk_u32_def le_field_def sample_dir_defs file_block_def block_path_def)
  have "disk_block sample_dir_disk 1024 2 = sample_root_block" by (simp add: disk_block_def sample_dir_defs)
  moreover have "dir_block 0 [(3, 1024, [0x66])] sample_root_block" by (simp add: le_field_def sample_root_block_def)
  ultimately show ?thesis using b by (simp add: dir_ok_def mapped_def block_path_def good_block_def sample_dir_defs)
qed

section \<open>Properties\<close>

text \<open>When inodes fill blocks and the table of each group fills whole blocks, \<^verbatim>\<open>read_inode\<close> returns a pointer to exactly the
  bytes of the inode, the inode table of its group plus its index in the group times the size of an inode,
  although the block and the offset are computed apart, one from the index in the group and the other from the
  global index.\<close>
theorem read_inode_location:
  assumes "layer_inv env d mi" "inode_layout mi" "idx \<noteq> 0" "inode_on_disk d mi (unat idx - 1)"
  shows "\<exists>ip mi'. read_inode env idx mi = Some (ip, mi') \<and>
    bsize mi * unat (ip_block ip) + unat (ip_offset ip) = inode_place mi (unat idx - 1) \<and> unat (ip_offset ip) + INODE_SIZE \<le> bsize mi \<and>
    cache_block_table mi' (ip_block ip) \<noteq> None \<and> layer_inv env d mi' \<and> reads mi mi'"
proof -
  obtain ip mi' where r: "read_inode env idx mi = Some (ip, mi')" "inode_ok d ip (inode_place mi (unat idx - 1)) mi'" "layer_inv env d mi'" "reads mi mi'"
    using read_inode_ok [OF assms] by blast
  then show ?thesis using readsD(1) [OF r(4)] by (simp add: inode_ok_def)
qed

theorem read_inode_location_witness:
  "\<exists>ip mi'. read_inode sample_dir_env 3 sample_dir_mi = Some (ip, mi') \<and> 1024 * unat (ip_block ip) + unat (ip_offset ip) = 1280"
  using read_inode_location [OF sample_dir_layer(1,3), of 3] sample_place sample_dir_layer(4) by auto

text \<open>C16: \<^verbatim>\<open>get_file\<close> searches the entries of all blocks of a directory in order. It returns \<^verbatim>\<open>ENOENT\<close>, and changes no node, exactly
  when no entry in use has the name; otherwise it makes one new node with the attributes of the inode of the first such
  entry, enters it below the directory under the name, and the new node refers to that inode.\<close>
theorem ext2_get_file_correct:
  assumes "mounted_filesystems m minor = Some mi" "layer_inv env d mi" "inode_layout mi" "ext2_root root st mi = Some (r, v, ip)"
    and "inode_ok d ip ino mi" "dir_ok d (bsize mi) ino ess" "store_wf st" "children v name = None" "um_count (f_children v) < um_limit"
  shows "case lookup_name name (concat ess) of
      None \<Rightarrow> \<exists>mi'. ext2_get_file env minor root name (st, m) = Some (Inl ENOENT, st, m\<lparr>mounted_filesystems := (mounted_filesystems m)(minor \<mapsto> mi')\<rparr>) \<and>
        layer_inv env d mi' \<and> reads mi mi'
    | Some n \<Rightarrow> \<forall>vt. inode_on_disk d mi (unat n - 1) \<and>
        inode_to_vnode_type (type_and_perm (inode_of (inode_place mi (unat n - 1)) d) AND 0xF000) = Some vt \<longrightarrow>
        (\<exists>st' mi' w v' ip'. ext2_get_file env minor root name (st, m) =
            Some (Inr (next_vid st), st', m\<lparr>mounted_filesystems := (mounted_filesystems m)(minor \<mapsto> mi')\<rparr>) \<and>
          layer_inv env d mi' \<and> store_wf st' \<and> nodes st' = (nodes st)(r \<mapsto> v', next_vid st \<mapsto> w) \<and> children v' = (children v)(name \<mapsto> next_vid st) \<and>
          w = (inode_vnode (inode_of (inode_place mi (unat n - 1)) d) name vt (f_filesystem v))\<lparr>f_parent := Some r, fs_data := ModuleData (length (mi_data mi))\<rparr> \<and>
          mi_data mi' = mi_data mi @ [ip'] \<and> inode_ok d ip' (inode_place mi (unat n - 1)) mi')"
proof -
  have root: "nodes st r = Some v" "mi_filesystem mi = Some (f_filesystem v)"
    using assms(4) by (auto simp: ext2_root_def bind_eq_Some_conv split: if_splits)
  obtain mi1 where f: "find_in_dir env name ip 0 mi = Some (lookup_name name (concat ess), mi1)" "layer_inv env d mi1" "reads mi mi1"
    using find_in_dir_ok [OF assms(2,5,6), of 0] by auto
  note same = readsD(1-6) [OF f(3)]
  show ?thesis
  proof (cases "lookup_name name (concat ess)")
    case None
    then show ?thesis using assms(1,4) f by (auto simp: ext2_get_file_def)
  next
    case (Some n)
    then have "n \<noteq> 0" by (rule lookup_nonzero)
    have place: "inode_place mi1 = inode_place mi" "inode_layout mi1 = inode_layout mi" "inode_on_disk d mi1 = inode_on_disk d mi"
      by (simp_all add: fun_eq_iff inode_place_def inode_layout_def inode_on_disk_def group_table_def same)
    have fs1: "mi_filesystem mi1 = Some (f_filesystem v)" using root(2) same by simp
    show ?thesis unfolding Some option.case
    proof (intro allI impI, elim conjE)
      fix vt assume n: "inode_on_disk d mi (unat n - 1)" "inode_to_vnode_type (type_and_perm (inode_of (inode_place mi (unat n - 1)) d) AND 0xF000) = Some vt"
      note a = attach_inode_ok [OF f(2) _ \<open>n \<noteq> 0\<close> _ _ fs1 assms(7) root(1) assms(8,9), unfolded place same, OF assms(3) n]
      have "ext2_get_file env minor root name (st, m) = Option.bind (attach_inode env name r n (st, mi1))
          (\<lambda>(i, st, mi). Some (Inr i, st, m\<lparr>mounted_filesystems := (mounted_filesystems m)(minor \<mapsto> mi)\<rparr>))"
        using assms(1,4) f(1) Some by (simp add: ext2_get_file_def)
      then show "\<exists>st' mi' w v' ip'. ext2_get_file env minor root name (st, m) =
            Some (Inr (next_vid st), st', m\<lparr>mounted_filesystems := (mounted_filesystems m)(minor \<mapsto> mi')\<rparr>) \<and>
          layer_inv env d mi' \<and> store_wf st' \<and> nodes st' = (nodes st)(r \<mapsto> v', next_vid st \<mapsto> w) \<and> children v' = (children v)(name \<mapsto> next_vid st) \<and>
          w = (inode_vnode (inode_of (inode_place mi (unat n - 1)) d) name vt (f_filesystem v))\<lparr>f_parent := Some r, fs_data := ModuleData (length (mi_data mi))\<rparr> \<and>
          mi_data mi' = mi_data mi @ [ip'] \<and> inode_ok d ip' (inode_place mi (unat n - 1)) mi'"
        using a by (elim exE conjE) (intro exI conjI, simp, assumption+)
    qed
  qed
qed

theorem ext2_get_file_correct_witness:
  "\<exists>st' m'. ext2_get_file sample_dir_env 0 None [0x66] (sample_dir_store, sample_dir_module) = Some (Inr 1, st', m') \<and>
    (\<exists>w. nodes st' 1 = Some w \<and> f_type w = FILE \<and> vn_size w = 5 \<and> f_permissions w = 0x1A4 \<and> f_parent w = Some 0)"
proof -
  let ?v = "(VNode_new 0 1024 [] DIRECTORY 7)\<lparr>fs_data := ModuleData 0\<rparr>"
  have h: "mounted_filesystems sample_dir_module 0 = Some sample_dir_mi"
    "ext2_root None sample_dir_store sample_dir_mi = Some (0, ?v, \<lparr>ip_block = 1, ip_offset = 128\<rparr>)"
    "children ?v [0x66] = None" "um_count (f_children ?v) < um_limit"
    by (simp_all add: sample_dir_module_def ext2_root_def sample_dir_store_def sample_dir_mi_def sample_mi_def node_inode_def children_def um_empty_wf)
      (simp_all add: VNode_new_def um_limit_def)
  have wf: "store_wf sample_dir_store"
    by (auto simp: store_wf_def sample_dir_store_def children_def um_empty_wf um_inv_empty)
  have l: "lookup_name [0x66] (concat [[(3, 1024, [0x66])]]) = Some 3" by (simp add: lookup_name_def is_name_def)
  have vt: "inode_to_vnode_type (type_and_perm (inode_of (inode_place sample_dir_mi (unat (3 :: u32) - 1)) sample_dir_disk) AND 0xF000) = Some FILE"
    using sample_place(1) sample_dir_inode(1) by (simp add: inode_to_vnode_type_def)
  from ext2_get_file_correct [OF h(1) sample_dir_layer(1,3) h(2) sample_dir_layer(2) _ wf h(3,4), unfolded sample_dir_layer(4), OF sample_dir_ok, unfolded l option.case]
  show ?thesis using vt sample_place(2) sample_place(1) sample_dir_inode
    by (fastforce simp: inode_vnode_def VNode_new_def sample_dir_store_def)
qed

end
