(* ===== verification/Modprobe.thy ===== *)
theory Modprobe
  imports Prelude "HOL-Library.Monad_Syntax"
begin

text \<open>
  \<^verbatim>\<open>modprobe\<close> (\<^verbatim>\<open>userspace/programs/system/modprobe/main.cpp\<close>): the files \<^verbatim>\<open>modules.dep\<close> and \<^verbatim>\<open>modules.alias\<close>, wildcard
  matching, the resolution of names and aliases and the order in which modules are loaded. Strings are lists of bytes; the
  pointer to an entry of \<^verbatim>\<open>module_map\<close> is its key. \<open>None\<close> is a computation that does not end, or the use of a list
  iterator after its element was erased.
\<close>

section \<open>Strings\<close>

type_synonym chars = "u8 list"

definition npos :: nat where "npos = 2 ^ 64 - 1"

fun find_char :: "u8 \<Rightarrow> chars \<Rightarrow> nat option" where
  "find_char c [] = None"
| "find_char c (x # xs) = (if x = c then Some 0 else map_option Suc (find_char c xs))"

text \<open>\<^verbatim>\<open>rfind\<close>, with \<^verbatim>\<open>npos\<close> for no occurrence\<close>

definition rfind :: "u8 \<Rightarrow> chars \<Rightarrow> nat" where
  "rfind c s = (case find_char c (rev s) of None \<Rightarrow> npos | Some i \<Rightarrow> length s - 1 - i)"

text \<open>The strings that successive calls of \<^verbatim>\<open>std::getline\<close> with a delimiter read.\<close>

function getlines :: "u8 \<Rightarrow> chars \<Rightarrow> chars list" where
  "getlines c s = (if s = [] then [] else takeWhile (\<lambda>x. x \<noteq> c) s # getlines c (drop 1 (dropWhile (\<lambda>x. x \<noteq> c) s)))"
  by pat_completeness auto
termination
proof (relation "measure (\<lambda>(c, s). length s)")
  fix c :: u8 and s :: chars
  assume "s \<noteq> []"
  then have "0 < length s" "length (dropWhile (\<lambda>x. x \<noteq> c) s) \<le> length s" by (simp_all add: length_dropWhile_le)
  then show "((c, drop 1 (dropWhile (\<lambda>x. x \<noteq> c) s)), c, s) \<in> measure (\<lambda>(c, s). length s)"
    unfolding in_measure prod.case length_drop by linarith
qed simp

declare getlines.simps [simp del]

text \<open>\<^verbatim>\<open>getModName\<close>: \<^verbatim>\<open>substr(lastSeparator + 1, lastDot - lastSeparator - 1)\<close> in unsigned arithmetic\<close>

definition mod_name :: "chars \<Rightarrow> chars" where
  "mod_name f = (let s = rfind 0x2F f; p = rfind 0x2E f
     in take ((p + 2 * 2 ^ 64 - s - 1) mod 2 ^ 64) (drop ((s + 1) mod 2 ^ 64) f))"

section \<open>The module files\<close>

record module =
  f_moduleName :: chars
  f_moduleFile :: chars
  f_dependencies :: "chars list"

record modules =
  module_map :: "chars \<Rightarrow> module option"
  hashed_aliases :: "chars \<Rightarrow> chars option"
  pattern_aliases :: "(chars \<times> chars) list"

text \<open>\<^verbatim>\<open>line[0]\<close> of an empty string is the terminating zero.\<close>

definition is_comment :: "chars \<Rightarrow> bool" where
  "is_comment line \<longleftrightarrow> line \<noteq> [] \<and> hd line = 0x23"

definition dep_line :: "chars \<Rightarrow> chars \<Rightarrow> (chars \<times> module) option" where
  "dep_line module_directory line =
     (if is_comment line then None
      else case find_char 0x3A line of
        None \<Rightarrow> None
      | Some separator \<Rightarrow>
          let modFile = module_directory @ [0x2F] @ take separator line;
              deps = drop (separator + 1) line;
              dependencies = map mod_name (filter (\<lambda>dep. dep \<noteq> []) (getlines 0x20 deps));
              modName = mod_name modFile
          in Some (modName, \<lparr>f_moduleName = modName, f_moduleFile = modFile, f_dependencies = dependencies\<rparr>))"

text \<open>\<^verbatim>\<open>insert\<close> keeps the entry of a key that is there.\<close>

definition map_insert :: "'k \<times> 'v \<Rightarrow> ('k \<Rightarrow> 'v option) \<Rightarrow> 'k \<Rightarrow> 'v option" where
  "map_insert kv m = (if m (fst kv) = None then m(fst kv \<mapsto> snd kv) else m)"

definition load_module_deps :: "chars \<Rightarrow> chars \<Rightarrow> modules \<Rightarrow> modules" where
  "load_module_deps module_directory file ms =
     fold (\<lambda>line ms. case dep_line module_directory line of
         None \<Rightarrow> ms
       | Some kv \<Rightarrow> ms\<lparr>module_map := map_insert kv (module_map ms)\<rparr>) (getlines 0x0A file) ms"

definition alias_line :: "chars \<Rightarrow> (chars \<times> chars) option" where
  "alias_line line =
     (if is_comment line then None
      else map_option (\<lambda>separator. (take separator line, drop (separator + 1) line)) (find_char 0x20 line))"

definition load_module_aliases :: "chars \<Rightarrow> modules \<Rightarrow> modules" where
  "load_module_aliases file ms =
     fold (\<lambda>line ms. case alias_line line of
         None \<Rightarrow> ms
       | Some kv \<Rightarrow>
           if 0x2A \<in> set (fst kv) \<or> 0x3F \<in> set (fst kv) then ms\<lparr>pattern_aliases := pattern_aliases ms @ [kv]\<rparr>
           else ms\<lparr>hashed_aliases := map_insert kv (hashed_aliases ms)\<rparr>) (getlines 0x0A file) ms"

section \<open>Wildcards\<close>

text \<open>The loop of \<^verbatim>\<open>strmatch\<close>: the rest of the pattern and of the text, and the two backup pointers once a star was seen.
  The pointer \<^verbatim>\<open>wildcard\<close> at the end of the pattern reads the terminating zero, which differs from every character.\<close>

partial_function (option) match_loop :: "chars \<Rightarrow> chars \<Rightarrow> (chars \<times> chars) option \<Rightarrow> bool option" where
  "match_loop w s backup =
     (case s of
        [] \<Rightarrow> Some (dropWhile (\<lambda>c. c = 0x2A) w = [])
      | c # cs \<Rightarrow>
          (if w \<noteq> [] \<and> hd w = 0x2A then match_loop (tl w) s (Some (tl w, s))
           else if w \<noteq> [] \<and> (hd w = 0x3F \<or> hd w = c) then match_loop (tl w) cs backup
           else case backup of
             None \<Rightarrow> Some False
           | Some (wb, tb) \<Rightarrow> match_loop wb (tl tb) (Some (wb, tl tb))))"

definition strmatch :: "chars \<Rightarrow> chars \<Rightarrow> bool option" where
  "strmatch wildcard str = match_loop wildcard str None"

section \<open>Resolution and order\<close>

text \<open>The first pattern that matches\<close>

fun pattern_hit :: "(chars \<times> chars) list \<Rightarrow> chars \<Rightarrow> chars option option" where
  "pattern_hit [] name = Some None"
| "pattern_hit ((pat, m) # ps) name = do {
     hit \<leftarrow> strmatch pat name;
     if hit then Some (Some m) else pattern_hit ps name }"

partial_function (option) probe :: "modules \<Rightarrow> chars \<Rightarrow> chars option option" where
  "probe ms name =
     (if module_map ms name \<noteq> None then Some (Some name)
      else case hashed_aliases ms name of
        Some target \<Rightarrow> probe ms target
      | None \<Rightarrow> do {
          hit \<leftarrow> pattern_hit (pattern_aliases ms) name;
          (case hit of Some target \<Rightarrow> probe ms target | None \<Rightarrow> Some None) })"

definition dependencies :: "modules \<Rightarrow> chars \<Rightarrow> chars list" where
  "dependencies ms m = (case module_map ms m of None \<Rightarrow> [] | Some M \<Rightarrow> f_dependencies M)"

text \<open>
  \<^verbatim>\<open>handle_dependencies\<close> at the element \<open>m\<close> of the list \<open>pre @ m # anc @ post\<close>, for the rest of its dependencies. A module
  is inserted right before the one that needs it, so the elements of the calls that are under way, \<open>anc\<close>, follow \<open>m\<close>.
  Erasing one of them leaves a caller with an iterator to it. \<open>Inl\<close> is the exit with the name of a dependency that is not found.
\<close>

partial_function (option) handle_dependencies :: "modules \<Rightarrow> chars list \<Rightarrow> chars \<Rightarrow> chars list \<Rightarrow> chars list \<Rightarrow> chars list \<Rightarrow>
    (chars + chars list \<times> chars list) option" where
  "handle_dependencies ms deps m pre anc post =
     (case deps of
        [] \<Rightarrow> Some (Inr (pre, post))
      | dep # deps \<Rightarrow> do {
          modDep \<leftarrow> probe ms dep;
          (case modDep of
             None \<Rightarrow> Some (Inl dep)
           | Some d \<Rightarrow>
               if d \<in> set pre then handle_dependencies ms deps m pre anc post
               else if d \<in> set anc then None
               else do {
                 r \<leftarrow> handle_dependencies ms (dependencies ms d) d pre (m # anc) (remove1 d post);
                 (case r of
                    Inl e \<Rightarrow> Some (Inl e)
                  | Inr (pre, post) \<Rightarrow> handle_dependencies ms deps m (pre @ [d]) anc post) }) })"

text \<open>The two loops of \<^verbatim>\<open>main\<close>\<close>

fun resolve_modules :: "modules \<Rightarrow> chars list \<Rightarrow> (chars + chars list) option" where
  "resolve_modules ms [] = Some (Inr [])"
| "resolve_modules ms (name # names) = do {
     m \<leftarrow> probe ms name;
     (case m of
        None \<Rightarrow> Some (Inl name)
      | Some m \<Rightarrow> map_option (map_sum id (Cons m)) (resolve_modules ms names)) }"

partial_function (option) order_modules :: "modules \<Rightarrow> chars list \<Rightarrow> chars list \<Rightarrow> (chars + chars list) option" where
  "order_modules ms pre rest =
     (case rest of
        [] \<Rightarrow> Some (Inr pre)
      | m # post \<Rightarrow> do {
          r \<leftarrow> handle_dependencies ms (dependencies ms m) m pre [] post;
          (case r of Inl e \<Rightarrow> Some (Inl e) | Inr (pre, post) \<Rightarrow> order_modules ms (pre @ [m]) post) })"

definition modprobe :: "modules \<Rightarrow> chars list \<Rightarrow> (chars + chars list) option" where
  "modprobe ms modList = do {
     r \<leftarrow> resolve_modules ms modList;
     (case r of Inl e \<Rightarrow> Some (Inl e) | Inr ordered \<Rightarrow> order_modules ms [] ordered) }"

section \<open>Wildcard matching\<close>

text \<open>What a pattern means: a star stands for any characters, a question mark for one, any other character for itself.\<close>

fun glob :: "chars \<Rightarrow> chars \<Rightarrow> bool" where
  "glob [] s \<longleftrightarrow> s = []"
| "glob (p # ps) [] \<longleftrightarrow> p = 0x2A \<and> glob ps []"
| "glob (p # ps) (c # cs) \<longleftrightarrow> (if p = 0x2A then glob ps (c # cs) \<or> glob (p # ps) cs else (p = 0x3F \<or> p = c) \<and> glob ps cs)"

text \<open>Patterns without a star match character by character.\<close>

definition literal :: "u8 \<Rightarrow> u8 \<Rightarrow> bool" where
  "literal p c \<longleftrightarrow> p \<noteq> 0x2A \<and> (p = 0x3F \<or> p = c)"

lemma glob_empty: "glob w [] \<longleftrightarrow> dropWhile (\<lambda>c. c = 0x2A) w = []"
  by (induction w) auto

lemma glob_star: "glob (0x2A # w) s \<longleftrightarrow> (\<exists>k\<le>length s. glob w (drop k s))"
proof (induction s)
  case (Cons c s)
  have "(\<exists>k\<le>length (c # s). glob w (drop k (c # s))) \<longleftrightarrow> glob w (c # s) \<or> (\<exists>k\<le>length s. glob w (drop k s))"
    by (metis Suc_le_mono drop0 drop_Suc_Cons le0 length_Cons not0_implies_Suc)
  then show ?case using Cons by simp
qed simp

lemma glob_star_drop: "glob (0x2A # w) (drop k s) \<Longrightarrow> glob (0x2A # w) s"
proof -
  assume "glob (0x2A # w) (drop k s)"
  then obtain j where "j \<le> length (drop k s)" "glob w (drop j (drop k s))" unfolding glob_star by blast
  then show ?thesis unfolding glob_star by (cases "k \<le> length s") (auto intro: exI [of _ "k + j"] exI [of _ "length s"] simp: add.commute)
qed

text \<open>A part without stars matches as many characters, and the rest what follows.\<close>

lemma glob_literal: "list_all2 literal u v \<Longrightarrow> glob (u @ w) (v @ s) \<longleftrightarrow> glob w s"
  by (induction rule: list_all2_induct) (auto simp: literal_def)

lemma glob_prefix: "\<forall>p\<in>set u. p \<noteq> 0x2A \<Longrightarrow> glob (u @ w) t \<Longrightarrow> length u \<le> length t \<and> glob w (drop (length u) t)"
proof (induction u arbitrary: t)
  case (Cons p u)
  then show ?case by (cases t) (auto split: if_splits)
qed simp

lemma literal_no_star: "list_all2 literal u v \<Longrightarrow> \<forall>p\<in>set u. p \<noteq> 0x2A"
  by (induction rule: list_all2_induct) (auto simp: literal_def)

text \<open>The state of the loop after a star: \<open>wb = u @ w\<close> and \<open>tb = v @ s\<close>, where \<open>u\<close> has matched \<open>v\<close>.\<close>

lemma match_end:
  assumes "list_all2 literal u v"
  shows "glob (0x2A # u @ w) v \<longleftrightarrow> glob w []"
proof
  assume "glob (0x2A # u @ w) v"
  then obtain k where k: "k \<le> length v" "glob (u @ w) (drop k v)" unfolding glob_star by blast
  then have "length u \<le> length v - k" "glob w (drop (length u) (drop k v))" using glob_prefix [OF literal_no_star [OF assms]] by fastforce+
  then show "glob w []" using list_all2_lengthD [OF assms] by simp
next
  assume "glob w []"
  then have "glob (u @ w) v" using glob_literal [OF assms, of w "[]"] by simp
  then show "glob (0x2A # u @ w) v" unfolding glob_star by (intro exI [of _ 0]) simp
qed

lemma match_star:
  assumes "list_all2 literal u v"
  shows "glob (0x2A # u @ 0x2A # w) (v @ s) \<longleftrightarrow> glob (0x2A # w) s"
proof
  assume "glob (0x2A # u @ 0x2A # w) (v @ s)"
  then obtain k where k: "glob (u @ 0x2A # w) (drop k (v @ s))" unfolding glob_star [of "u @ 0x2A # w"] by blast
  then have "glob (0x2A # w) (drop (length u) (drop k (v @ s)))" using glob_prefix [OF literal_no_star [OF assms]] by blast
  moreover have "drop (length u) (drop k (v @ s)) = drop k s" unfolding drop_drop using list_all2_lengthD [OF assms] by simp
  ultimately have "glob (0x2A # w) (drop k s)" by simp
  then show "glob (0x2A # w) s" by (rule glob_star_drop)
next
  assume "glob (0x2A # w) s"
  then have "glob (u @ 0x2A # w) (v @ s)" using glob_literal [OF assms] by blast
  then show "glob (0x2A # u @ 0x2A # w) (v @ s)" unfolding glob_star [of "u @ 0x2A # w"] by (intro exI [of _ 0]) simp
qed

lemma match_fail:
  assumes "list_all2 literal u v" "\<not> (w \<noteq> [] \<and> (hd w = 0x2A \<or> hd w = 0x3F \<or> hd w = c))"
  shows "glob (0x2A # u @ w) (v @ c # cs) \<longleftrightarrow> glob (0x2A # u @ w) (tl (v @ c # cs))"
proof -
  have "\<not> glob w (c # cs)" using assms(2) by (cases w) auto
  then have "\<not> glob (u @ w) (v @ c # cs)" using glob_literal [OF assms(1)] by blast
  then show ?thesis by (cases v) auto
qed

lemma match_loop_backup:
  assumes "list_all2 literal u v"
  shows "match_loop w s (Some (u @ w, v @ s)) = Some (glob (0x2A # u @ w) (v @ s))"
  using assms
proof (induction "(length (v @ s), length w)" arbitrary: u v w s rule: wf_induct_rule [OF wf_lex_prod [OF wf_less_than wf_less_than]])
  case (1 v w s u)
  show ?case
  proof (cases s)
    case Nil
    then show ?thesis using match_end [OF 1(2)] by (subst match_loop.simps) (simp add: glob_empty)
  next
    case (Cons c cs)
    consider "w \<noteq> []" "hd w = 0x2A" | "w \<noteq> []" "hd w \<noteq> 0x2A" "hd w = 0x3F \<or> hd w = c" | "\<not> (w \<noteq> [] \<and> (hd w = 0x2A \<or> hd w = 0x3F \<or> hd w = c))"
      by blast
    then show ?thesis
    proof cases
      case a: 1
      then obtain w' where w: "w = 0x2A # w'" by (cases w) auto
      have "match_loop w s (Some (u @ w, v @ s)) = match_loop w' s (Some ([] @ w', [] @ s))"
        by (subst match_loop.simps) (simp add: w Cons)
      moreover have "match_loop w' s (Some ([] @ w', [] @ s)) = Some (glob (0x2A # [] @ w') ([] @ s))"
        by (rule 1(1)) (auto simp: w)
      ultimately show ?thesis using match_star [OF 1(2), of w' s] by (simp add: w)
    next
      case a: 2
      then obtain p w' where w: "w = p # w'" by (cases w) auto
      have l: "list_all2 literal (u @ [p]) (v @ [c])" using 1(2) a by (intro list_all2_appendI) (auto simp: w literal_def)
      have "match_loop w s (Some (u @ w, v @ s)) = match_loop w' cs (Some ((u @ [p]) @ w', (v @ [c]) @ cs))"
        using a by (subst match_loop.simps) (auto simp: w Cons)
      moreover have "match_loop w' cs (Some ((u @ [p]) @ w', (v @ [c]) @ cs)) = Some (glob (0x2A # (u @ [p]) @ w') ((v @ [c]) @ cs))"
        by (rule 1(1) [OF _ l]) (auto simp: w Cons)
      ultimately show ?thesis by (simp add: w Cons)
    next
      case a: 3
      let ?t = "tl (v @ s)"
      have "match_loop w s (Some (u @ w, v @ s)) = match_loop (u @ w) ?t (Some ([] @ (u @ w), [] @ ?t))"
        using a by (subst match_loop.simps) (auto simp: Cons)
      moreover have "match_loop (u @ w) ?t (Some ([] @ (u @ w), [] @ ?t)) = Some (glob (0x2A # [] @ (u @ w)) ([] @ ?t))"
        by (rule 1(1)) (auto simp: Cons)
      ultimately show ?thesis using match_fail [OF 1(2) a, of cs] by (simp add: Cons)
    qed
  qed
qed

lemma match_loop_glob: "match_loop w s None = Some (glob w s)"
proof (induction s arbitrary: w)
  case Nil
  show ?case by (subst match_loop.simps) (simp add: glob_empty)
next
  case (Cons c cs)
  show ?case
  proof (cases w)
    case Nil
    then show ?thesis by (subst match_loop.simps) simp
  next
    case w: (Cons p ps)
    show ?thesis
    proof (cases "p = 0x2A")
      case True
      have "match_loop w (c # cs) None = match_loop ps (c # cs) (Some ([] @ ps, [] @ c # cs))"
        by (subst match_loop.simps) (simp add: w True)
      then show ?thesis using match_loop_backup [of "[]" "[]" ps "c # cs"] by (simp add: w True)
    next
      case False
      then show ?thesis using Cons.IH [of ps] by (subst match_loop.simps) (simp add: w)
    qed
  qed
qed

section \<open>The order of the modules\<close>

text \<open>The modules that a module needs, and lists in which every module follows those it needs.\<close>

definition needs :: "modules \<Rightarrow> chars \<Rightarrow> chars set" where
  "needs ms m = {d. \<exists>dep\<in>set (dependencies ms m). probe ms dep = Some (Some d)}"

definition in_order :: "modules \<Rightarrow> chars list \<Rightarrow> bool" where
  "in_order ms xs \<longleftrightarrow> (\<forall>ys x zs. xs = ys @ x # zs \<longrightarrow> needs ms x \<subseteq> set ys)"

lemma in_order_Nil [simp]: "in_order ms []"
  by (simp add: in_order_def)

lemma in_order_snoc: "in_order ms (xs @ [x]) \<longleftrightarrow> in_order ms xs \<and> needs ms x \<subseteq> set xs"
proof
  assume a: "in_order ms (xs @ [x])"
  have "needs ms y \<subseteq> set ys" if "xs = ys @ y # zs" for ys y zs
    using a that unfolding in_order_def by (metis append.assoc append_Cons)
  moreover have "needs ms x \<subseteq> set xs" using a unfolding in_order_def by blast
  ultimately show "in_order ms xs \<and> needs ms x \<subseteq> set xs" unfolding in_order_def by blast
next
  assume a: "in_order ms xs \<and> needs ms x \<subseteq> set xs"
  show "in_order ms (xs @ [x])" unfolding in_order_def
  proof (intro allI impI)
    fix ys y zs assume e: "xs @ [x] = ys @ y # zs"
    show "needs ms y \<subseteq> set ys"
    proof (cases zs rule: rev_cases)
      case Nil
      then show ?thesis using a e by simp
    next
      case (snoc zs' z)
      then have "xs = ys @ y # zs'" using e by simp
      then show ?thesis using a unfolding in_order_def by blast
    qed
  qed
qed

text \<open>All dependencies are found, and none is circular: a rank decreases along them.\<close>

definition resolvable :: "modules \<Rightarrow> (chars \<Rightarrow> nat) \<Rightarrow> bool" where
  "resolvable ms rank \<longleftrightarrow>
     (\<forall>m. \<forall>dep\<in>set (dependencies ms m). \<exists>d. probe ms dep = Some (Some d) \<and> rank d < rank m)"

text \<open>What a call does to the list: it extends the part before \<open>m\<close> by modules of smaller rank and takes those
  away from the part behind.\<close>

definition pulled :: "(chars \<Rightarrow> nat) \<Rightarrow> nat \<Rightarrow> chars list \<times> chars list \<Rightarrow> chars list \<times> chars list \<Rightarrow> bool" where
  "pulled rank r a b \<longleftrightarrow>
     (\<exists>new. fst b = fst a @ new \<and> (\<forall>x\<in>set new. rank x < r) \<and> snd b = filter (\<lambda>x. x \<notin> set new) (snd a))"

lemma pulled_refl: "pulled rank r st st"
  by (cases st) (auto simp: pulled_def filter_empty_conv filter_id_conv)

lemma pulled_trans: "pulled rank r a b \<Longrightarrow> pulled rank r b c \<Longrightarrow> pulled rank r a c"
proof -
  assume "pulled rank r a b" "pulled rank r b c"
  then obtain n1 n2 where n: "fst b = fst a @ n1" "snd b = filter (\<lambda>x. x \<notin> set n1) (snd a)" "fst c = fst b @ n2" "snd c = filter (\<lambda>x. x \<notin> set n2) (snd b)"
      "\<forall>x\<in>set (n1 @ n2). rank x < r"
    unfolding pulled_def by (metis UnE set_append)
  have "snd c = filter (\<lambda>x. x \<notin> set (n1 @ n2)) (snd a)" unfolding n(4,2) filter_filter by (intro filter_cong) auto
  then show ?thesis using n(1,3,5) unfolding pulled_def by (intro exI [of _ "n1 @ n2"]) simp
qed

lemma pulled_insert:
  assumes "pulled rank (rank d) (pre, remove1 d post) (pre', post')" "rank d < r" "distinct post"
  shows "pulled rank r (pre, post) (pre' @ [d], post')"
proof -
  obtain new where n: "pre' = pre @ new" "\<forall>x\<in>set new. rank x < rank d" "post' = filter (\<lambda>x. x \<notin> set new) (remove1 d post)"
    using assms(1) by (auto simp: pulled_def)
  have "post' = filter (\<lambda>x. x \<notin> set (new @ [d])) post"
    unfolding n(3) distinct_remove1_removeAll [OF assms(3)] removeAll_filter_not_eq filter_filter by (intro filter_cong) auto
  then show ?thesis using n assms(2) by (auto simp: pulled_def intro!: exI [of _ "new @ [d]"])
qed

lemma handle_dependencies_ok:
  assumes "resolvable ms rank" "set deps \<subseteq> set (dependencies ms m)"
    and "distinct (pre @ m # anc @ post)" "in_order ms pre" "\<forall>a\<in>set anc. rank m < rank a"
  shows "\<exists>pre' post'. handle_dependencies ms deps m pre anc post = Some (Inr (pre', post')) \<and>
    pulled rank (rank m) (pre, post) (pre', post') \<and> distinct (pre' @ m # anc @ post') \<and> in_order ms pre' \<and>
    {d. \<exists>dep\<in>set deps. probe ms dep = Some (Some d)} \<subseteq> set pre'"
  using assms(2-5)
proof (induction "rank m" arbitrary: m deps pre anc post rule: less_induct)
  case less
  note outer = less.hyps
  from less.prems show ?case
  proof (induction deps arbitrary: pre post)
    case Nil
    then show ?case by (subst handle_dependencies.simps) (simp add: pulled_refl)
  next
    case (Cons dep deps)
    obtain d where d: "probe ms dep = Some (Some d)" "rank d < rank m"
      using assms(1) Cons.prems(1) unfolding resolvable_def by (metis list.set_intros(1) subsetD)
    have na: "d \<notin> set anc" "d \<noteq> m" using Cons.prems(4) d(2) by auto
    show ?case
    proof (cases "d \<in> set pre")
      case True
      obtain pre' post' where r: "handle_dependencies ms deps m pre anc post = Some (Inr (pre', post'))"
          "pulled rank (rank m) (pre, post) (pre', post')" "distinct (pre' @ m # anc @ post')" "in_order ms pre'"
          "{d. \<exists>dep\<in>set deps. probe ms dep = Some (Some d)} \<subseteq> set pre'"
        using Cons.IH [of pre post] Cons.prems by auto
      have "set pre \<subseteq> set pre'" using r(2) by (auto simp: pulled_def)
      moreover have "handle_dependencies ms (dep # deps) m pre anc post = handle_dependencies ms deps m pre anc post"
        using d(1) True by (subst handle_dependencies.simps) simp
      ultimately show ?thesis using r True d(1) by auto
    next
      case False
      have dist: "distinct (pre @ d # (m # anc) @ remove1 d post)" using Cons.prems(2) False na by (auto simp: set_remove1_eq)
      have ranks: "\<forall>a\<in>set (m # anc). rank d < rank a" using Cons.prems(4) d(2) by fastforce
      obtain pre1 post1 where r1: "handle_dependencies ms (dependencies ms d) d pre (m # anc) (remove1 d post) = Some (Inr (pre1, post1))"
          "pulled rank (rank d) (pre, remove1 d post) (pre1, post1)" "distinct (pre1 @ d # (m # anc) @ post1)" "in_order ms pre1"
          "{x. \<exists>dep\<in>set (dependencies ms d). probe ms dep = Some (Some x)} \<subseteq> set pre1"
        using outer [OF d(2) subset_refl dist Cons.prems(3) ranks] by blast
      have p1: "pulled rank (rank m) (pre, post) (pre1 @ [d], post1)" using pulled_insert [OF r1(2) d(2)] Cons.prems(2) by simp
      have o1: "in_order ms (pre1 @ [d])" using r1(4,5) by (simp add: in_order_snoc needs_def)
      obtain pre' post' where r: "handle_dependencies ms deps m (pre1 @ [d]) anc post1 = Some (Inr (pre', post'))"
          "pulled rank (rank m) (pre1 @ [d], post1) (pre', post')" "distinct (pre' @ m # anc @ post')" "in_order ms pre'"
          "{d. \<exists>dep\<in>set deps. probe ms dep = Some (Some d)} \<subseteq> set pre'"
        using Cons.IH [of "pre1 @ [d]" post1] Cons.prems(1,4) r1(3) o1 by auto
      have "d \<in> set pre'" using r(2) by (auto simp: pulled_def)
      moreover have "handle_dependencies ms (dep # deps) m pre anc post = handle_dependencies ms deps m (pre1 @ [d]) anc post1"
        using d(1) False na(1) r1(1) by (subst handle_dependencies.simps) simp
      ultimately show ?thesis using r pulled_trans [OF p1 r(2)] d(1) by auto
    qed
  qed
qed

lemma order_modules_ok:
  assumes "resolvable ms rank" "distinct (pre @ rest)" "in_order ms pre"
  shows "\<exists>order. order_modules ms pre rest = Some (Inr order) \<and> distinct order \<and> in_order ms order \<and> set (pre @ rest) \<subseteq> set order"
  using assms(2,3)
proof (induction "length rest" arbitrary: pre rest rule: less_induct)
  case less
  show ?case
  proof (cases rest)
    case Nil
    then show ?thesis using less.prems by (subst order_modules.simps) simp
  next
    case (Cons m post)
    obtain pre' post' where r: "handle_dependencies ms (dependencies ms m) m pre [] post = Some (Inr (pre', post'))"
        "pulled rank (rank m) (pre, post) (pre', post')" "distinct (pre' @ m # post')" "in_order ms pre'" "needs ms m \<subseteq> set pre'"
      using handle_dependencies_ok [OF assms(1) subset_refl, where m = m and pre = pre and anc = "[]" and post = post] less.prems Cons by (auto simp: needs_def)
    have sub: "length post' < length rest" "set (pre @ rest) \<subseteq> set (pre' @ [m]) \<union> set post'"
      using r(2) Cons by (auto simp: pulled_def le_imp_less_Suc)
    obtain order where o: "order_modules ms (pre' @ [m]) post' = Some (Inr order)" "distinct order" "in_order ms order"
        "set ((pre' @ [m]) @ post') \<subseteq> set order"
      using less.hyps [OF sub(1), of "pre' @ [m]"] r(3-5) by (auto simp: in_order_snoc)
    moreover have "order_modules ms pre rest = order_modules ms (pre' @ [m]) post'"
      using r(1) Cons by (subst order_modules.simps) simp
    ultimately show ?thesis using sub(2) by auto
  qed
qed

lemma resolve_modules_ok:
  "\<forall>name\<in>set names. \<exists>m. probe ms name = Some (Some m) \<Longrightarrow>
    \<exists>ordered. resolve_modules ms names = Some (Inr ordered) \<and> map (\<lambda>name. Some (Some name)) ordered = map (probe ms) names"
  by (induction names) auto

text \<open>An alias of itself is resolved for ever, and two modules that need each other make \<^verbatim>\<open>handle_dependencies\<close> erase the
  element its caller stands at.\<close>

lemma self_alias_loops: "module_map ms name = None \<Longrightarrow> hashed_aliases ms name = Some name \<Longrightarrow> probe ms name = None"
proof (rule ccontr)
  assume m: "module_map ms name = None" "hashed_aliases ms name = Some name" and "probe ms name \<noteq> None"
  then obtain y where y: "probe ms name = Some y" by blast
  have "\<not> (module_map ms name = None \<and> hashed_aliases ms name = Some name)"
  proof (rule probe.raw_induct [OF _ y, where P = "\<lambda>ms name y. \<not> (module_map ms name = None \<and> hashed_aliases ms name = Some name)"])
    fix f and ms :: modules and name y
    assume ih: "\<And>ms name y. f ms name = Some y \<Longrightarrow> \<not> (module_map ms name = None \<and> hashed_aliases ms name = Some name)"
      and step: "(if module_map ms name \<noteq> None then Some (Some name)
        else case hashed_aliases ms name of
          Some target \<Rightarrow> f ms target
        | None \<Rightarrow> do {
            hit \<leftarrow> pattern_hit (pattern_aliases ms) name;
            (case hit of Some target \<Rightarrow> f ms target | None \<Rightarrow> Some None) }) = Some y"
    show "\<not> (module_map ms name = None \<and> hashed_aliases ms name = Some name)" using ih [of ms name y] step by auto
  qed
  then show False using m by blast
qed

lemma circular_dependency:
  assumes "dependencies ms a = [b]" "dependencies ms b = [a]" "probe ms a = Some (Some a)" "probe ms b = Some (Some b)" "a \<noteq> b"
  shows "modprobe ms [a] = None"
proof -
  have "handle_dependencies ms [a] b [] [a] [] = None" using assms(3) by (subst handle_dependencies.simps) simp
  then have "handle_dependencies ms [b] a [] [] [] = None" using assms(2,4) by (subst handle_dependencies.simps) simp
  then have "order_modules ms [] [a] = None" using assms(1) by (subst order_modules.simps) simp
  then show ?thesis using assms(3) by (simp add: modprobe_def)
qed

section \<open>A sample configuration\<close>

text \<open>Two modules, \<open>[1]\<close> and \<open>[2]\<close>; the first needs the second.\<close>

definition sample_modules :: modules where
  "sample_modules = \<lparr>module_map = [[1] \<mapsto> \<lparr>f_moduleName = [1], f_moduleFile = [1], f_dependencies = [[2]]\<rparr>,
     [2] \<mapsto> \<lparr>f_moduleName = [2], f_moduleFile = [2], f_dependencies = []\<rparr>], hashed_aliases = (\<lambda>_. None), pattern_aliases = []\<rparr>"

section \<open>Properties\<close>

text \<open>C27: \<^verbatim>\<open>strmatch\<close> terminates on every pattern and text and decides wildcard matching: going back only to the last star
  is enough.\<close>
theorem strmatch_decides: "strmatch wildcard str = Some (glob wildcard str)"
  unfolding strmatch_def by (rule match_loop_glob)



end
