(* ===== verification/Uevent.thy ===== *)
theory Uevent
  imports Prelude
begin

text \<open>
  \<^verbatim>\<open>UEvent\<close> (\<^verbatim>\<open>kernel/src/event/uevent.cpp\<close>): the text of a userspace event, an optional name line followed by lines
  \<^verbatim>\<open>key=value\<close>, is parsed in place: the separators of a copy of the text become terminating zeros and the event holds
  pointers into that copy. A pointer is an index into the buffer. The specification reads the same text as a list of lines.
\<close>

section \<open>String routines\<close>

text \<open>\<^verbatim>\<open>strchr\<close> on the bytes from a pointer to the end of the buffer, and the string at a pointer\<close>

fun strchr :: "u8 \<Rightarrow> u8 list \<Rightarrow> nat option" where
  "strchr c [] = None"
| "strchr c (x # xs) = (if x = c then Some 0 else if x = 0 then None else map_option Suc (strchr c xs))"

definition string_at :: "u8 list \<Rightarrow> nat \<Rightarrow> u8 list" where
  "string_at buf p = takeWhile (\<lambda>x. x \<noteq> 0) (drop p buf)"

text \<open>\<^verbatim>\<open>strcmp\<close> on the characters before the terminating zeros; \<^verbatim>\<open>char\<close> is signed.\<close>

fun strcmp :: "u8 list \<Rightarrow> u8 list \<Rightarrow> int" where
  "strcmp (x # xs) (y # ys) = (if x = y then strcmp xs ys else sint x - sint y)"
| "strcmp (x # xs) [] = sint x"
| "strcmp [] (y # ys) = - sint y"
| "strcmp [] [] = 0"

section \<open>Operations\<close>

record uevent =
  ue_buffer :: "u8 list"
  event_name :: "nat option"
  argc :: nat
  argv :: "(nat \<times> nat) list"

function uevent_loop :: "nat \<Rightarrow> u8 list \<Rightarrow> nat \<Rightarrow> nat option \<Rightarrow> (nat \<times> nat) list \<Rightarrow> u8 list \<times> nat option \<times> (nat \<times> nat) list" where
  "uevent_loop len dataCopy offset eventName eventArgs =
     (if offset < len then
        let nextSeparator = (case strchr 0x0A (drop offset dataCopy) of None \<Rightarrow> len | Some i \<Rightarrow> offset + i);
            dataCopy = dataCopy[nextSeparator := 0];
            valueSeparator = map_option (\<lambda>i. offset + i) (strchr 0x3D (drop offset dataCopy))
        in (case valueSeparator of
              None \<Rightarrow> uevent_loop len dataCopy (nextSeparator + 1) (if offset = 0 then Some 0 else eventName) eventArgs
            | Some v \<Rightarrow>
                if dataCopy ! offset \<noteq> 0
                then uevent_loop len (dataCopy[v := 0]) (nextSeparator + 1) eventName (eventArgs @ [(offset, v + 1)])
                else uevent_loop len dataCopy (nextSeparator + 1) eventName eventArgs)
      else (dataCopy, eventName, eventArgs))"
  by pat_completeness auto
termination by (relation "measure (\<lambda>(len, _, offset, _). len - offset)") (auto split: option.splits)

declare uevent_loop.simps [simp del]

definition parse_uevent :: "u8 list \<Rightarrow> uevent" where
  "parse_uevent text =
     (case uevent_loop (length text) (text @ [0]) 0 None [] of
        (dataCopy, eventName, eventArgs) \<Rightarrow>
          \<lparr>ue_buffer = dataCopy, event_name = eventName, argc = length eventArgs, argv = eventArgs\<rparr>)"

fun arg_from :: "u8 list \<Rightarrow> u8 list \<Rightarrow> (nat \<times> nat) list \<Rightarrow> nat option" where
  "arg_from buf name [] = None"
| "arg_from buf name ((n, v) # args) = (if strcmp name (string_at buf n) = 0 then Some v else arg_from buf name args)"

definition get_arg :: "u8 list \<Rightarrow> uevent \<Rightarrow> nat option" where
  "get_arg name u = arg_from (ue_buffer u) name (take (argc u) (argv u))"

section \<open>Specification\<close>

function lines_of :: "u8 list \<Rightarrow> u8 list list" where
  "lines_of s = (if s = [] then [] else takeWhile (\<lambda>x. x \<noteq> 0x0A) s # lines_of (drop 1 (dropWhile (\<lambda>x. x \<noteq> 0x0A) s)))"
  by pat_completeness auto
termination
proof (relation "measure length")
  fix s :: "u8 list"
  assume "s \<noteq> []"
  then have "0 < length s" "length (dropWhile (\<lambda>x. x \<noteq> 0x0A) s) \<le> length s" by (simp_all add: length_dropWhile_le)
  then show "(drop 1 (dropWhile (\<lambda>x. x \<noteq> 0x0A) s), s) \<in> measure length" unfolding in_measure length_drop by linarith
qed simp

declare lines_of.simps [simp del]

definition key_value :: "u8 list \<Rightarrow> u8 list \<times> u8 list" where
  "key_value line = (takeWhile (\<lambda>x. x \<noteq> 0x3D) line, tl (dropWhile (\<lambda>x. x \<noteq> 0x3D) line))"

definition pairs_of :: "u8 list list \<Rightarrow> (u8 list \<times> u8 list) list" where
  "pairs_of ls = map key_value (filter (\<lambda>l. 0x3D \<in> set l) ls)"

definition name_of :: "u8 list list \<Rightarrow> u8 list option" where
  "name_of ls = (if ls = [] \<or> 0x3D \<in> set (hd ls) then None else Some (hd ls))"

text \<open>The pairs of strings that a list of pairs of pointers stands for\<close>

definition strings :: "u8 list \<Rightarrow> (nat \<times> nat) list \<Rightarrow> (u8 list \<times> u8 list) list" where
  "strings buf args = map (\<lambda>(n, v). (string_at buf n, string_at buf v)) args"

lemma strchr_split: "c \<notin> set xs \<Longrightarrow> 0 \<notin> set xs \<Longrightarrow> strchr c (xs @ c # ys) = Some (length xs)"
  by (induction xs) auto

lemma strchr_none: "c \<notin> set xs \<Longrightarrow> 0 \<notin> set xs \<Longrightarrow> c \<noteq> 0 \<Longrightarrow> strchr c (xs @ 0 # ys) = None"
  by (induction xs) auto

lemma string_at_append: "0 \<notin> set s \<Longrightarrow> length pre = p \<Longrightarrow> string_at (pre @ s @ 0 # post) p = s"
  by (induction s) (auto simp: string_at_def takeWhile_append)

lemma sint_zero: "sint (x :: u8) = 0 \<longleftrightarrow> x = 0"
  by (metis signed_0 signed_word_eqI)

lemma strcmp_eq: "0 \<notin> set xs \<Longrightarrow> 0 \<notin> set ys \<Longrightarrow> strcmp xs ys = 0 \<longleftrightarrow> xs = ys"
proof (induction xs ys rule: strcmp.induct)
  case (1 x xs y ys)
  have "sint x - sint y = 0 \<longleftrightarrow> x = y" by (auto intro: signed_word_eqI)
  then show ?case using 1 by auto
qed (auto simp: sint_zero)

lemma key_value_split:
  assumes "0x3D \<in> set line"
  shows "fst (key_value line) @ 0x3D # snd (key_value line) = line" "0x3D \<notin> set (fst (key_value line))"
    "set (fst (key_value line)) \<subseteq> set line" "set (snd (key_value line)) \<subseteq> set line"
proof -
  show s: "fst (key_value line) @ 0x3D # snd (key_value line) = line"
    using assms by (induction line) (auto simp: key_value_def)
  show "0x3D \<notin> set (fst (key_value line))" by (auto simp: key_value_def dest: set_takeWhileD)
  show "set (fst (key_value line)) \<subseteq> set line" "set (snd (key_value line)) \<subseteq> set line"
    by (metis s Un_upper1 set_append) (metis s Un_upper2 set_append set_subset_Cons subset_trans)
qed

text \<open>What the loop makes of a line at the index \<open>p\<close>: the bytes it leaves and the pointers it appends\<close>

definition marked :: "u8 list \<Rightarrow> u8 list" where
  "marked line = (if 0x3D \<in> set line then fst (key_value line) @ 0 # snd (key_value line) else line)"

definition pointers :: "nat \<Rightarrow> u8 list \<Rightarrow> (nat \<times> nat) list" where
  "pointers p line = (if 0x3D \<in> set line then [(p, p + length (fst (key_value line)) + 1)] else [])"

lemma length_marked: "length (marked line) = length line"
proof (cases "0x3D \<in> set line")
  case True
  then show ?thesis using arg_cong [OF key_value_split(1) [OF True], of length] by (simp add: marked_def)
qed (simp add: marked_def)

lemma pointers_strings:
  assumes "0 \<notin> set line"
  shows "strings (pre @ marked line @ 0 # post) (pointers (length pre) line) = pairs_of [line]"
proof (cases "0x3D \<in> set line")
  case True
  let ?k = "fst (key_value line)" and ?v = "snd (key_value line)"
  have z: "0 \<notin> set ?k" "0 \<notin> set ?v" using assms key_value_split(3,4) [OF True] by auto
  have "string_at (pre @ marked line @ 0 # post) (length pre) = ?k"
    using string_at_append [OF z(1), of pre _ "?v @ 0 # post"] True by (simp add: marked_def)
  moreover have "string_at (pre @ marked line @ 0 # post) (length pre + length ?k + 1) = ?v"
    using string_at_append [OF z(2), of "pre @ ?k @ [0]" _ post] True by (simp add: marked_def)
  ultimately show ?thesis using True by (simp add: strings_def pointers_def pairs_of_def)
qed (simp add: strings_def pointers_def pairs_of_def)

text \<open>One line: the text from \<^verbatim>\<open>offset\<close> on is \<open>line\<close> up to a line feed or up to the end.\<close>

lemma loop_line:
  assumes "0 \<notin> set line" "0x0A \<notin> set line" "c = 0x0A \<and> rest \<noteq> [] \<or> c = 0 \<and> rest = [] \<and> line \<noteq> []"
    and "len = length pre + length line + length rest"
  shows "uevent_loop len (pre @ line @ c # rest) (length pre) name args =
    uevent_loop len (pre @ marked line @ 0 # rest) (length pre + length line + 1)
      (if pre = [] \<and> 0x3D \<notin> set line then Some 0 else name) (args @ pointers (length pre) line)"
proof -
  have lt: "length pre < len" using assms(3,4) by (cases line; cases rest) auto
  have next': "(case strchr 0x0A (line @ c # rest) of None \<Rightarrow> len | Some i \<Rightarrow> length pre + i) = length pre + length line"
    using assms strchr_split [of "0x0A" line rest] strchr_none [of "0x0A" line rest] by auto
  have upd: "(pre @ line @ c # rest)[length pre + length line := 0] = pre @ line @ 0 # rest" by (simp add: list_update_append)
  show ?thesis
  proof (cases "0x3D \<in> set line")
    case False
    then have "strchr 0x3D (line @ 0 # rest) = None" using strchr_none [of "0x3D" line rest] assms(1) by simp
    then show ?thesis using False lt by (subst uevent_loop.simps) (simp add: next' upd Let_def marked_def pointers_def)
  next
    case True
    let ?k = "fst (key_value line)" and ?v = "snd (key_value line)"
    note split = key_value_split [OF True]
    have "0 \<notin> set ?k" using assms(1) split(3) by blast
    then have "strchr 0x3D (?k @ 0x3D # ?v @ 0 # rest) = Some (length ?k)" using split(2) by (intro strchr_split)
    then have val: "strchr 0x3D (line @ 0 # rest) = Some (length ?k)"
      by (subst split(1) [symmetric]) simp
    have nz: "(pre @ line @ 0 # rest) ! length pre \<noteq> 0" using assms(1) True by (cases line) (auto simp: nth_append)
    have "(pre @ (?k @ 0x3D # ?v) @ 0 # rest)[length pre + length ?k := 0] = pre @ ?k @ 0 # ?v @ 0 # rest"
      by (simp add: list_update_append)
    then have upd2: "(pre @ line @ 0 # rest)[length pre + length ?k := 0] = pre @ ?k @ 0 # ?v @ 0 # rest" unfolding split(1) .
    show ?thesis using True lt nz val by (subst uevent_loop.simps) (simp add: next' upd upd2 Let_def marked_def pointers_def)
  qed
qed

lemma loop_end: "\<not> offset < len \<Longrightarrow> uevent_loop len buf offset name args = (buf, name, args)"
  by (subst uevent_loop.simps) simp

lemma line_split:
  assumes "s \<noteq> []"
  obtains line c rest where "s @ [0] = line @ c # rest" "0x0A \<notin> set line" "set line \<subseteq> set s"
    "c = 0 \<and> rest = [] \<and> line = s \<and> lines_of s = [line] \<or> (\<exists>r. c = 0x0A \<and> rest = r @ [0] \<and> s = line @ 0x0A # r \<and> lines_of s = line # lines_of r)"
proof (cases "0x0A \<in> set s")
  case False
  then have "takeWhile (\<lambda>x. x \<noteq> 0x0A) s = s" "dropWhile (\<lambda>x. x \<noteq> 0x0A) s = []" by (auto simp: takeWhile_eq_all_conv dropWhile_eq_Nil_conv)
  then have "lines_of s = [s]" using assms by (subst lines_of.simps) (simp only: lines_of.simps [of "[]"] drop_Nil if_True if_False simp_thms)
  then show ?thesis using that [of s 0 "[]"] False by auto
next
  case True
  then obtain l r where lr: "s = l @ 0x0A # r" "0x0A \<notin> set l" using split_list_first by metis
  then have "lines_of s = l # lines_of r" using assms by (subst lines_of.simps) (auto simp: takeWhile_append dropWhile_append)
  then show ?thesis using that [of l "0x0A" "r @ [0]"] lr by auto
qed

text \<open>The lines after the first: the buffer before \<^verbatim>\<open>offset\<close> is not written any more.\<close>

lemma loop_lines:
  assumes "0 \<notin> set s" "pre \<noteq> []"
  shows "\<exists>suf new. uevent_loop (length pre + length s) (pre @ s @ [0]) (length pre) name args = (pre @ suf, name, args @ new) \<and>
    strings (pre @ suf) new = pairs_of (lines_of s)"
  using assms
proof (induction "length s" arbitrary: s pre args rule: less_induct)
  case less
  show ?case
  proof (cases "s = []")
    case True
    then show ?thesis by (intro exI [of _ "[0]"] exI [of _ "[]"]) (simp add: loop_end strings_def pairs_of_def lines_of.simps [of "[]"])
  next
    case False
    then obtain line c rest where l: "s @ [0] = line @ c # rest" "0x0A \<notin> set line" "set line \<subseteq> set s"
      "c = 0 \<and> rest = [] \<and> line = s \<and> lines_of s = [line] \<or> (\<exists>r. c = 0x0A \<and> rest = r @ [0] \<and> s = line @ 0x0A # r \<and> lines_of s = line # lines_of r)"
      by (rule line_split)
    have z: "0 \<notin> set line" using l(3) less.prems(1) by blast
    let ?p = "pre @ marked line @ [0]" and ?a = "args @ pointers (length pre) line"
    from l(4) show ?thesis
    proof
      assume c: "c = 0 \<and> rest = [] \<and> line = s \<and> lines_of s = [line]"
      then have "uevent_loop (length pre + length s) (pre @ s @ [0]) (length pre) name args = (?p, name, ?a)"
        using loop_line [OF z l(2), of c rest "length pre + length s" pre name args] False less.prems(2) by (simp add: loop_end)
      then show ?thesis using c pointers_strings [OF z, of pre "[]"] by auto
    next
      assume "\<exists>r. c = 0x0A \<and> rest = r @ [0] \<and> s = line @ 0x0A # r \<and> lines_of s = line # lines_of r"
      then obtain r where r: "c = 0x0A" "rest = r @ [0]" "s = line @ 0x0A # r" "lines_of s = line # lines_of r" by blast
      have "uevent_loop (length pre + length s) (pre @ s @ [0]) (length pre) name args =
          uevent_loop (length ?p + length r) (?p @ r @ [0]) (length ?p) name ?a"
        using loop_line [OF z l(2), of c rest "length pre + length s" pre name args] less.prems(2) r by (simp add: length_marked add.assoc)
      moreover obtain suf new where n: "uevent_loop (length ?p + length r) (?p @ r @ [0]) (length ?p) name ?a = (?p @ suf, name, ?a @ new)"
          "strings (?p @ suf) new = pairs_of (lines_of r)"
        using less.hyps [of r ?p ?a] less.prems(1) r(3) by auto
      moreover have "strings (?p @ suf) (pointers (length pre) line @ new) = pairs_of (lines_of s)"
        using pointers_strings [OF z, of pre suf] n(2) r(4) by (simp add: strings_def pairs_of_def)
      ultimately show ?thesis by (intro exI [of _ "marked line @ 0 # suf"] exI [of _ "pointers (length pre) line @ new"]) simp
    qed
  qed
qed

lemma string_at_first: "0 \<notin> set s \<Longrightarrow> string_at (s @ 0 # post) 0 = s"
  using string_at_append [of s "[]"] by simp

lemma loop_all:
  assumes "0 \<notin> set s"
  shows "\<exists>buf name args. uevent_loop (length s) (s @ [0]) 0 None [] = (buf, name, args) \<and>
    map_option (string_at buf) name = name_of (lines_of s) \<and> strings buf args = pairs_of (lines_of s)"
proof (cases "s = []")
  case True
  then show ?thesis by (simp add: loop_end lines_of.simps [of "[]"] name_of_def pairs_of_def strings_def)
next
  case False
  then obtain line c rest where l: "s @ [0] = line @ c # rest" "0x0A \<notin> set line" "set line \<subseteq> set s"
    "c = 0 \<and> rest = [] \<and> line = s \<and> lines_of s = [line] \<or> (\<exists>r. c = 0x0A \<and> rest = r @ [0] \<and> s = line @ 0x0A # r \<and> lines_of s = line # lines_of r)"
    by (rule line_split)
  have z: "0 \<notin> set line" using l(3) assms by blast
  let ?p = "marked line @ [0]" and ?n = "if 0x3D \<notin> set line then Some 0 else None :: nat option" and ?a = "pointers 0 line"
  have name: "map_option (string_at (?p @ suf)) ?n = name_of (line # ls)" for suf ls
    using string_at_first [OF z] by (simp add: name_of_def marked_def)
  from l(4) show ?thesis
  proof
    assume c: "c = 0 \<and> rest = [] \<and> line = s \<and> lines_of s = [line]"
    then have "uevent_loop (length s) (s @ [0]) 0 None [] = (?p, ?n, ?a)"
      using loop_line [OF z l(2), of c rest "length s" "[]" None "[]"] False by (simp add: loop_end)
    then show ?thesis using c pointers_strings [OF z, of "[]" "[]"] name [of "[]" "[]"] by auto
  next
    assume "\<exists>r. c = 0x0A \<and> rest = r @ [0] \<and> s = line @ 0x0A # r \<and> lines_of s = line # lines_of r"
    then obtain r where r: "c = 0x0A" "rest = r @ [0]" "s = line @ 0x0A # r" "lines_of s = line # lines_of r" by blast
    have "uevent_loop (length s) (s @ [0]) 0 None [] = uevent_loop (length ?p + length r) (?p @ r @ [0]) (length ?p) ?n ?a"
      using loop_line [OF z l(2), of c rest "length s" "[]" None "[]"] r by (simp add: length_marked)
    moreover obtain suf new where n: "uevent_loop (length ?p + length r) (?p @ r @ [0]) (length ?p) ?n ?a = (?p @ suf, ?n, ?a @ new)"
        "strings (?p @ suf) new = pairs_of (lines_of r)"
      using loop_lines [of r ?p ?n ?a] assms r(3) by auto
    moreover have "strings (?p @ suf) (?a @ new) = pairs_of (lines_of s)"
      using pointers_strings [OF z, of "[]" suf] n(2) r(4) by (simp add: strings_def pairs_of_def)
    ultimately show ?thesis using name [of suf "lines_of r"] r(4) by metis
  qed
qed

lemma arg_from_spec:
  "0 \<notin> set name \<Longrightarrow> map_option (string_at buf) (arg_from buf name args) = map_of (strings buf args) name"
proof (induction buf name args rule: arg_from.induct)
  case (2 buf name n v args)
  have "0 \<notin> set (string_at buf n)" by (auto simp: string_at_def dest: set_takeWhileD)
  then show ?case using 2 strcmp_eq [of name "string_at buf n"] by (simp add: strings_def)
qed (simp add: strings_def)

section \<open>Properties\<close>

text \<open>C29: parsing the text of a userspace event gives the name in its first line, unless that line has a value, and the
  pairs of the lines that have one, in order; \<^verbatim>\<open>get_arg\<close> finds the value of the first pair with the name. The pointers stay
  valid although later lines are split in the same buffer.\<close>
theorem parse_uevent_correct:
  assumes "0 \<notin> set s" "0 \<notin> set key"
  shows "map_option (string_at (ue_buffer (parse_uevent s))) (event_name (parse_uevent s)) = name_of (lines_of s) \<and>
    strings (ue_buffer (parse_uevent s)) (argv (parse_uevent s)) = pairs_of (lines_of s) \<and>
    map_option (string_at (ue_buffer (parse_uevent s))) (get_arg key (parse_uevent s)) = map_of (pairs_of (lines_of s)) key"
proof -
  obtain buf name args where "uevent_loop (length s) (s @ [0]) 0 None [] = (buf, name, args)"
    "map_option (string_at buf) name = name_of (lines_of s)" "strings buf args = pairs_of (lines_of s)"
    using loop_all [OF assms(1)] by blast
  then show ?thesis using arg_from_spec [of key buf args] assms(2) by (simp add: parse_uevent_def get_arg_def)
qed

text \<open>\<^verbatim>\<open>add\<close>, a line feed and \<^verbatim>\<open>A=1\<close>\<close>

theorem parse_uevent_correct_witness:
  "map_option (string_at (ue_buffer (parse_uevent [0x61, 0x64, 0x64, 0x0A, 0x41, 0x3D, 0x31])))
     (get_arg [0x41] (parse_uevent [0x61, 0x64, 0x64, 0x0A, 0x41, 0x3D, 0x31])) = Some [0x31]"
proof -
  have "pairs_of (lines_of [0x61, 0x64, 0x64, 0x0A, 0x41, 0x3D, 0x31]) = [([0x41], [0x31])]"
    by (simp add: lines_of.simps pairs_of_def key_value_def)
  then show ?thesis using parse_uevent_correct [of "[0x61, 0x64, 0x64, 0x0A, 0x41, 0x3D, 0x31]" "[0x41]"] by simp
qed

end
