(* ===== verification/Events.thy ===== *)
theory Events
  imports Gpt Dir_Stream Uevent "HOL-Library.Monad_Syntax"
begin

unbundle bit_operations_syntax

text \<open>
  Kernel events and the event manager (\<^verbatim>\<open>kernel/include/event/event.hpp\<close>, \<^verbatim>\<open>event_manager.hpp\<close>,
  \<^verbatim>\<open>kernel/src/event/event_manager.cpp\<close>). The arguments of an event are encoded one after the other into a storage of
  1024 bytes inside the event and decoded in the same order. An event is an address in a heap; handlers other than those of
  the manager itself are parameters. \<open>None\<close> is a failed assertion, a write outside the storage or the use of a deleted event.
\<close>

section \<open>Events and their arguments\<close>

datatype arg = Word_Arg u64 | Null_Arg | Str_Arg "u8 list" | Argv_Arg "u8 list list"
datatype arg_type = Word_Type | Null_Type | Str_Type | Argv_Type

record event =
  ev_identifier :: u64
  ev_local_id :: u64
  ev_flags :: u32
  ev_status :: u64
  ev_arg_storage :: "u8 list"
  ev_arg_ptr :: nat

definition EVENT_FLAG_CONSUMED :: u32 where "EVENT_FLAG_CONSUMED = 1"
definition EVENT_FLAG_CLEAR :: u32 where "EVENT_FLAG_CLEAR = 2"
definition EVENT_FLAG_PROCESSED :: u32 where "EVENT_FLAG_PROCESSED = 4"
definition EVENT_FLAG_META_EVENT :: u32 where "EVENT_FLAG_META_EVENT = 8"

primrec le_bytes :: "nat \<Rightarrow> 'a::len word \<Rightarrow> u8 list" where
  "le_bytes 0 w = []"
| "le_bytes (Suc n) w = ucast w # le_bytes n (drop_bit 8 w)"

text \<open>\<^verbatim>\<open>EventArg<char**>\<close>: a size, the table of pointers with a null at its end, and the strings; the storage of the event
  is at the address \<open>base\<close>. The size is added to what the storage held before.\<close>

definition argv_size :: "u8 list list \<Rightarrow> nat" where
  "argv_size ss = 2 + 8 * (length ss + 1) + sum_list (map (\<lambda>s. length s + 1) ss)"

fun string_ptrs :: "u64 \<Rightarrow> u8 list list \<Rightarrow> u64 list" where
  "string_ptrs a [] = []"
| "string_ptrs a (s # ss) = a # string_ptrs (a + of_nat (length s + 1)) ss"

definition argv_bytes :: "u64 \<Rightarrow> nat \<Rightarrow> u8 list list \<Rightarrow> u8 list" where
  "argv_bytes base off ss =
     concat (map (le_bytes 8) (string_ptrs (base + of_nat (off + 2 + 8 * (length ss + 1))) ss)) @ le_bytes 8 (0 :: u64) @
     concat (map (\<lambda>s. s @ [0]) ss)"

definition encode_argv :: "u64 \<Rightarrow> nat \<Rightarrow> u8 list list \<Rightarrow> u8 list \<Rightarrow> u8 list \<times> nat" where
  "encode_argv base off ss buf =
     (let bytesTaken = le_field off 2 buf + of_nat (argv_size ss) :: u16
      in (put_bytes off (le_bytes 2 bytesTaken @ argv_bytes base off ss) buf, unat bytesTaken))"

fun encode_arg :: "u64 \<Rightarrow> nat \<Rightarrow> arg \<Rightarrow> u8 list \<Rightarrow> u8 list \<times> nat" where
  "encode_arg base off (Word_Arg w) buf = (put_bytes off (le_bytes 8 w) buf, 8)"
| "encode_arg base off Null_Arg buf = (put_bytes off (replicate 8 0) buf, 8)"
| "encode_arg base off (Str_Arg s) buf = (put_bytes off (s @ [0]) buf, length s + 1)"
| "encode_arg base off (Argv_Arg ss) buf = encode_argv base off ss buf"

text \<open>How many bytes are written\<close>

fun arg_extent :: "arg \<Rightarrow> nat" where
  "arg_extent (Word_Arg w) = 8"
| "arg_extent Null_Arg = 8"
| "arg_extent (Str_Arg s) = length s + 1"
| "arg_extent (Argv_Arg ss) = argv_size ss"

fun encode_args :: "u64 \<Rightarrow> nat \<Rightarrow> arg list \<Rightarrow> u8 list \<Rightarrow> u8 list option" where
  "encode_args base off [] buf = Some buf"
| "encode_args base off (a # as) buf =
     (if off + arg_extent a \<le> 1024
      then (case encode_arg base off a buf of (buf, n) \<Rightarrow> if off + n < 1024 then encode_args base (off + n) as buf else None)
      else None)"

text \<open>The constructor on the memory \<open>raw\<close>; \<^verbatim>\<open>f_local_id\<close> is not set.\<close>

definition event_new :: "event \<Rightarrow> u64 \<Rightarrow> u64 \<Rightarrow> arg list \<Rightarrow> event option" where
  "event_new raw base ident args =
     map_option (\<lambda>buf. raw\<lparr>ev_identifier := ident, ev_flags := EVENT_FLAG_CLEAR, ev_status := 0, ev_arg_storage := buf, ev_arg_ptr := 0\<rparr>)
       (encode_args base 0 args (ev_arg_storage raw))"

text \<open>The strings of a null-terminated table of pointers\<close>

function argv_at :: "u64 \<Rightarrow> u8 list \<Rightarrow> nat \<Rightarrow> u8 list list" where
  "argv_at base buf p =
     (if p + 8 \<le> length buf
      then let a = le_field p 8 buf :: u64
           in if a = 0 then [] else string_at buf (unat (a - base)) # argv_at base buf (p + 8)
      else [])"
  by pat_completeness auto
termination by (relation "measure (\<lambda>(base, buf, p). length buf - p)") auto

declare argv_at.simps [simp del]

fun decode_arg :: "u64 \<Rightarrow> arg_type \<Rightarrow> u8 list \<Rightarrow> nat \<Rightarrow> arg \<times> nat" where
  "decode_arg base Word_Type buf p = (Word_Arg (le_field p 8 buf), p + 8)"
| "decode_arg base Null_Type buf p = (Null_Arg, p + 8)"
| "decode_arg base Str_Type buf p = (Str_Arg (string_at buf p), p + length (string_at buf p) + 1)"
| "decode_arg base Argv_Type buf p = (Argv_Arg (argv_at base buf (p + 2)), p + unat (le_field p 2 buf :: u16))"

definition event_get_arg :: "u64 \<Rightarrow> arg_type \<Rightarrow> event \<Rightarrow> arg \<times> event" where
  "event_get_arg base t e =
     (case decode_arg base t (ev_arg_storage e) (ev_arg_ptr e) of (a, p) \<Rightarrow> (a, e\<lparr>ev_arg_ptr := p\<rparr>))"

definition reset_arg_ptr :: "event \<Rightarrow> event" where "reset_arg_ptr e = e\<lparr>ev_arg_ptr := 0\<rparr>"

definition set_flags :: "u32 \<Rightarrow> event \<Rightarrow> event" where "set_flags f e = e\<lparr>ev_flags := ev_flags e OR f\<rparr>"
definition clear_flags :: "u32 \<Rightarrow> event \<Rightarrow> event" where "clear_flags f e = e\<lparr>ev_flags := ev_flags e AND NOT f\<rparr>"
definition event_keep :: "event \<Rightarrow> event" where "event_keep e = clear_flags EVENT_FLAG_CLEAR e"
definition event_consume :: "event \<Rightarrow> event" where "event_consume e = set_flags EVENT_FLAG_CONSUMED e"
definition set_status :: "u64 \<Rightarrow> event \<Rightarrow> event" where "set_status v e = e\<lparr>ev_status := v\<rparr>"
definition is_consumed :: "event \<Rightarrow> bool" where "is_consumed e \<longleftrightarrow> ev_flags e AND EVENT_FLAG_CONSUMED \<noteq> 0"
definition should_clear :: "event \<Rightarrow> bool" where "should_clear e \<longleftrightarrow> ev_flags e AND EVENT_FLAG_CLEAR \<noteq> 0"
definition is_processed :: "event \<Rightarrow> bool" where "is_processed e \<longleftrightarrow> ev_flags e AND EVENT_FLAG_PROCESSED \<noteq> 0"
definition is_meta :: "event \<Rightarrow> bool" where "is_meta e \<longleftrightarrow> ev_flags e AND EVENT_FLAG_META_EVENT \<noteq> 0"

text \<open>The calls of \<^verbatim>\<open>get_arg\<close> that a handler makes, one after the other\<close>

fun get_args :: "u64 \<Rightarrow> arg_type list \<Rightarrow> event \<Rightarrow> arg list" where
  "get_args base [] e = []"
| "get_args base (t # ts) e = (case event_get_arg base t e of (a, e) \<Rightarrow> a # get_args base ts e)"

section \<open>The event manager\<close>

text \<open>The handlers of the manager itself, and those that other code registers\<close>

datatype handler = Sync_Handler | Processed_Handler | Handler nat

record wait =
  w_identifier :: u64
  w_eid :: u64
  w_thread :: nat

record event_manager =
  em_handlers :: "u64 \<Rightarrow> handler list option"
  em_next_eid :: u64
  em_event_queue :: "nat list"
  em_processing_event :: bool
  em_event_waits :: "wait list"
  em_sleeping :: "nat list"
  em_heap :: "nat \<Rightarrow> event option"
  em_fresh :: nat

text \<open>The memory that \<^verbatim>\<open>new\<close> returns and the address of the storage of an event, registered handlers and callbacks\<close>

record event_env =
  ev_raw :: "nat \<Rightarrow> event"
  ev_base :: "nat \<Rightarrow> u64"
  ext_handler :: "nat \<Rightarrow> nat \<Rightarrow> event_manager \<Rightarrow> event_manager option"
  ext_callback :: "u64 \<Rightarrow> u64 \<Rightarrow> event_manager \<Rightarrow> event_manager option"

definition EVENT_SYNC :: u64 where "EVENT_SYNC = 0x5ce90a4b4133c36a"
definition EVENT_QUEUE_EMPTY :: u64 where "EVENT_QUEUE_EMPTY = 0x2801da0cf10a2d25"
definition EVENT_PROCESSED_EVENT :: u64 where "EVENT_PROCESSED_EVENT = 0x9bbe5456af663f0f"

definition register_handler :: "u64 \<Rightarrow> handler \<Rightarrow> event_manager \<Rightarrow> event_manager" where
  "register_handler ident h m =
     m\<lparr>em_handlers := (em_handlers m)(ident \<mapsto> (case em_handlers m ident of None \<Rightarrow> [] | Some hs \<Rightarrow> hs) @ [h])\<rparr>"

definition event_manager_new :: event_manager where
  "event_manager_new =
     register_handler EVENT_SYNC Sync_Handler
       \<lparr>em_handlers = (\<lambda>_. None), em_next_eid = 1, em_event_queue = [], em_processing_event = False, em_event_waits = [],
        em_sleeping = [], em_heap = (\<lambda>_. None), em_fresh = 1\<rparr>"

definition update_event :: "nat \<Rightarrow> (event \<Rightarrow> event) \<Rightarrow> event_manager \<Rightarrow> event_manager option" where
  "update_event p f m = map_option (\<lambda>e. m\<lparr>em_heap := (em_heap m)(p \<mapsto> f e)\<rparr>) (em_heap m p)"

definition new_event :: "event_env \<Rightarrow> u64 \<Rightarrow> arg list \<Rightarrow> event_manager \<Rightarrow> (nat \<times> event_manager) option" where
  "new_event env ident args m =
     map_option (\<lambda>e. (em_fresh m, m\<lparr>em_heap := (em_heap m)(em_fresh m \<mapsto> e), em_fresh := Suc (em_fresh m)\<rparr>))
       (event_new (ev_raw env (em_fresh m)) (ev_base env (em_fresh m)) ident args)"

definition raise :: "nat \<Rightarrow> event_manager \<Rightarrow> event_manager option" where
  "raise p m =
     map_option (\<lambda>m. m\<lparr>em_next_eid := em_next_eid m + 1, em_event_queue := em_event_queue m @ [p]\<rparr>)
       (update_event p (\<lambda>e. e\<lparr>ev_local_id := em_next_eid m\<rparr>) m)"

definition raise_meta :: "event_env \<Rightarrow> u64 \<Rightarrow> arg list \<Rightarrow> event_manager \<Rightarrow> event_manager option" where
  "raise_meta env ident args m = do {
     (p, m) \<leftarrow> new_event env ident args m;
     m \<leftarrow> update_event p (set_flags EVENT_FLAG_META_EVENT) m;
     raise p m }"

definition sync_event_handler :: "event_env \<Rightarrow> nat \<Rightarrow> event_manager \<Rightarrow> event_manager option" where
  "sync_event_handler env p m = do {
     e \<leftarrow> em_heap m p;
     (case event_get_arg (ev_base env p) Word_Type e of
        (cb, e) \<Rightarrow> (case event_get_arg (ev_base env p) Word_Type e of
           (cbArg, e) \<Rightarrow>
             let m = m\<lparr>em_heap := (em_heap m)(p \<mapsto> e)\<rparr>
             in (case (cb, cbArg) of (Word_Arg f, Word_Arg x) \<Rightarrow> if f \<noteq> 0 then ext_callback env f x m else Some m | _ \<Rightarrow> Some m))) }"

definition wait_matches :: "event \<Rightarrow> wait \<Rightarrow> bool" where
  "wait_matches e w \<longleftrightarrow> (w_identifier w = 0 \<or> w_identifier w = ev_identifier e) \<and> (w_eid w = 0 \<or> w_eid w = ev_local_id e)"

definition event_processed_handler :: "nat \<Rightarrow> event_manager \<Rightarrow> event_manager option" where
  "event_processed_handler p m =
     map_option (\<lambda>e. m\<lparr>em_sleeping := filter (\<lambda>t. t \<notin> w_thread ` set (filter (wait_matches e) (em_event_waits m))) (em_sleeping m),
       em_event_waits := filter (\<lambda>w. \<not> wait_matches e w) (em_event_waits m)\<rparr>) (em_heap m p)"

definition em_wait :: "u64 \<Rightarrow> u64 \<Rightarrow> nat \<Rightarrow> event_manager \<Rightarrow> event_manager" where
  "em_wait ident eid t m =
     m\<lparr>em_event_waits := em_event_waits m @ [\<lparr>w_identifier = ident, w_eid = eid, w_thread = t\<rparr>], em_sleeping := em_sleeping m @ [t]\<rparr>"

definition raise_wait :: "nat \<Rightarrow> nat \<Rightarrow> event_manager \<Rightarrow> event_manager option" where
  "raise_wait p t m = do {
     m1 \<leftarrow> update_event p (\<lambda>e. e\<lparr>ev_local_id := em_next_eid m\<rparr>) m;
     e \<leftarrow> em_heap m1 p;
     Some (let m1 = m1\<lparr>em_next_eid := em_next_eid m1 + 1\<rparr>;
               m1 = m1\<lparr>em_event_waits := em_event_waits m1 @ [\<lparr>w_identifier = ev_identifier e, w_eid = ev_local_id e, w_thread = t\<rparr>]\<rparr>
           in m1\<lparr>em_event_queue := em_event_queue m1 @ [p], em_sleeping := em_sleeping m1 @ [t]\<rparr>) }"

fun run_handler :: "event_env \<Rightarrow> handler \<Rightarrow> nat \<Rightarrow> event_manager \<Rightarrow> event_manager option" where
  "run_handler env Sync_Handler p m = sync_event_handler env p m"
| "run_handler env Processed_Handler p m = event_processed_handler p m"
| "run_handler env (Handler k) p m = ext_handler env k p m"

text \<open>The loop over the handlers of an identifier reads the list while it may grow.\<close>

partial_function (option) run_handlers :: "event_env \<Rightarrow> u64 \<Rightarrow> nat \<Rightarrow> nat \<Rightarrow> event_manager \<Rightarrow> event_manager option" where
  "run_handlers env ident i p m =
     (case em_handlers m ident of
        None \<Rightarrow> Some m
      | Some hs \<Rightarrow>
          if i < length hs then do {
            m \<leftarrow> update_event p reset_arg_ptr m;
            m \<leftarrow> run_handler env (hs ! i) p m;
            e \<leftarrow> em_heap m p;
            if is_consumed e then Some m else run_handlers env ident (Suc i) p m }
          else Some m)"

text \<open>One event: what follows the wait for a non-empty queue\<close>

definition process_event :: "event_env \<Rightarrow> nat \<Rightarrow> event_manager \<Rightarrow> event_manager option" where
  "process_event env p m = do {
     e \<leftarrow> em_heap m p;
     let m1 = (if is_meta e then m else m\<lparr>em_processing_event := True\<rparr>);
     m2 \<leftarrow> run_handlers env (ev_identifier e) 0 p m1;
     m3 \<leftarrow> update_event p (set_flags EVENT_FLAG_PROCESSED) m2;
     e \<leftarrow> em_heap m3 p;
     m4 \<leftarrow> (if is_meta e then Some m3
            else raise_meta env EVENT_PROCESSED_EVENT [Word_Arg (ev_identifier e), Word_Arg (ev_local_id e)] m3);
     e \<leftarrow> em_heap m4 p;
     Some (if should_clear e then m4\<lparr>em_heap := (em_heap m4)(p := None)\<rparr> else m4) }"

text \<open>\<^verbatim>\<open>event_loop\<close> up to the first \<^verbatim>\<open>hlt\<close>, with the events it took from the queue\<close>

partial_function (option) event_loop :: "event_env \<Rightarrow> event list \<Rightarrow> event_manager \<Rightarrow> (event list \<times> event_manager) option" where
  "event_loop env log m =
     (case em_event_queue m of
        [] \<Rightarrow>
          if em_processing_event m
          then Option.bind (raise_meta env EVENT_QUEUE_EMPTY [] (m\<lparr>em_processing_event := False\<rparr>)) (event_loop env log)
          else Some (log, m)
      | p # ps \<Rightarrow> do {
          e \<leftarrow> em_heap m p;
          m \<leftarrow> process_event env p (m\<lparr>em_event_queue := ps\<rparr>);
          event_loop env (log @ [e]) m })"

section \<open>Decoding returns what was encoded\<close>

fun type_of :: "arg \<Rightarrow> arg_type" where
  "type_of (Word_Arg w) = Word_Type"
| "type_of Null_Arg = Null_Type"
| "type_of (Str_Arg s) = Str_Type"
| "type_of (Argv_Arg ss) = Argv_Type"

text \<open>Strings end at the first zero, and an address is neither null nor does it wrap.\<close>

fun arg_ok :: "arg \<Rightarrow> bool" where
  "arg_ok (Str_Arg s) \<longleftrightarrow> 0 \<notin> set s"
| "arg_ok (Argv_Arg ss) \<longleftrightarrow> list_all (\<lambda>s. 0 \<notin> set s) ss"
| "arg_ok a \<longleftrightarrow> True"

text \<open>The bytes of an argument in a storage that was cleared\<close>

fun arg_bytes :: "u64 \<Rightarrow> nat \<Rightarrow> arg \<Rightarrow> u8 list" where
  "arg_bytes base off (Word_Arg w) = le_bytes 8 w"
| "arg_bytes base off Null_Arg = replicate 8 0"
| "arg_bytes base off (Str_Arg s) = s @ [0]"
| "arg_bytes base off (Argv_Arg ss) = le_bytes 2 (of_nat (argv_size ss) :: u16) @ argv_bytes base off ss"

lemma length_le_bytes [simp]: "length (le_bytes n w) = n"
  by (induction n arbitrary: w) simp_all

lemma le_value_bytes: "le_value (le_bytes n w) = take_bit (8 * n) (w :: 'a::len word)"
proof (induction n arbitrary: w)
  case (Suc n)
  show ?case
  proof (rule bit_word_eqI)
    fix m assume "m < LENGTH('a)"
    then show "bit (le_value (le_bytes (Suc n) w) :: 'a word) m = bit (take_bit (8 * Suc n) w) m"
      by (auto simp: Suc bit_or_iff bit_push_bit_iff bit_take_bit_iff bit_drop_bit_eq bit_unsigned_iff)
  qed
qed simp

lemma le_field_bytes:
  "length pre = p \<Longrightarrow> LENGTH('a) \<le> 8 * n \<Longrightarrow> le_field p n (pre @ le_bytes n (w :: 'a::len word) @ post) = w"
  by (simp add: le_field_def le_value_bytes take_bit_word_eq_self)

lemma length_string_ptrs [simp]: "length (string_ptrs a ss) = length ss"
  by (induction ss arbitrary: a) simp_all

lemma length_concat_ptrs [simp]: "length (concat (map (le_bytes 8) ps)) = 8 * length ps"
  by (induction ps) simp_all

lemma length_arg_bytes [simp]: "length (arg_bytes base off a) = arg_extent a"
proof (cases a)
  case (Argv_Arg ss)
  have "length (concat (map (\<lambda>s. s @ [0]) ss)) = sum_list (map (\<lambda>s. length s + 1) ss)" by (simp add: length_concat o_def)
  then show ?thesis using Argv_Arg by (simp add: argv_bytes_def argv_size_def)
qed simp_all

lemma argv_at_table:
  assumes "list_all2 (\<lambda>a s. a \<noteq> 0 \<and> string_at buf (unat (a - base)) = s) ps ss"
    "buf = pre @ concat (map (le_bytes 8) ps) @ le_bytes 8 (0 :: u64) @ post" "p = length pre"
  shows "argv_at base buf p = ss"
  using assms
proof (induction ps ss arbitrary: pre p rule: list_all2_induct)
  case Nil
  then have "le_field p 8 buf = (0 :: u64)" using le_field_bytes [of pre p 8 "0 :: u64" post] by simp
  then show ?case by (subst argv_at.simps) simp
next
  case (Cons a ps s ss)
  let ?post = "concat (map (le_bytes 8) ps) @ le_bytes 8 (0 :: u64) @ post"
  have "le_field p 8 buf = a" using le_field_bytes [of pre p 8 a ?post] Cons.prems by simp
  moreover have "argv_at base buf (p + 8) = ss" using Cons.IH [of "pre @ le_bytes 8 a"] Cons.prems by simp
  moreover have "p + 8 \<le> length buf" using Cons.prems by simp
  ultimately show ?case using Cons.hyps by (subst argv_at.simps) (simp add: Let_def)
qed

lemma string_ptrs_point:
  assumes "list_all (\<lambda>s. 0 \<notin> set s) ss" "buf = pre @ concat (map (\<lambda>s. s @ [0]) ss) @ post" "m = length pre"
    and "base \<noteq> 0" "unat base + length buf < 2 ^ 64"
  shows "list_all2 (\<lambda>a s. a \<noteq> 0 \<and> string_at buf (unat (a - base)) = s) (string_ptrs (base + of_nat m) ss) ss"
  using assms
proof (induction ss arbitrary: pre m)
  case (Cons s ss)
  have m: "unat base + m < 2 ^ 64" using Cons.prems(2,3,5) by simp
  then have u: "unat (of_nat m :: u64) = m" by (intro unat_of_nat_less) simp
  then have "unat (base + of_nat m) = unat base + m" using m unat_add_lem [of base "of_nat m"] by simp
  moreover have "0 < unat base" using Cons.prems(4) by (simp add: unat_gt_0)
  ultimately have "base + of_nat m \<noteq> 0" by (metis add_is_0 less_numeral_extra(3) unat_0)
  moreover have "string_at buf (unat (base + of_nat m - base)) = s"
    using string_at_append [of s pre m "concat (map (\<lambda>s. s @ [0]) ss) @ post"] Cons.prems(1-3) u by simp
  moreover have "list_all2 (\<lambda>a s. a \<noteq> 0 \<and> string_at buf (unat (a - base)) = s) (string_ptrs (base + of_nat (m + (length s + 1))) ss) ss"
    using Cons.IH [of "pre @ s @ [0]" "m + (length s + 1)"] Cons.prems by simp
  ultimately show ?case unfolding string_ptrs.simps list_all2_Cons of_nat_add add.assoc by blast
qed simp

lemma decode_encoded:
  assumes "arg_ok a" "p = length pre" "buf = pre @ arg_bytes base p a @ post" "length buf \<le> 1024" "base \<noteq> 0" "unat base + 1024 < 2 ^ 64"
  shows "decode_arg base (type_of a) buf p = (a, p + arg_extent a)"
proof (cases a)
  case (Word_Arg w)
  then show ?thesis using le_field_bytes [of pre p 8 w post] assms(2,3) by simp
next
  case (Str_Arg s)
  then show ?thesis using string_at_append [of s pre p post] assms(1-3) by simp
next
  case (Argv_Arg ss)
  let ?ptrs = "string_ptrs (base + of_nat (p + 2 + 8 * (length ss + 1))) ss" and ?sz = "le_bytes 2 (of_nat (argv_size ss) :: u16)"
  let ?strs = "concat (map (\<lambda>s. s @ [0]) ss)"
  have buf: "buf = pre @ ?sz @ concat (map (le_bytes 8) ?ptrs) @ le_bytes 8 (0 :: u64) @ ?strs @ post"
    using assms(3) Argv_Arg by (simp add: argv_bytes_def)
  have "list_all2 (\<lambda>a s. a \<noteq> 0 \<and> string_at buf (unat (a - base)) = s) ?ptrs ss"
  proof (rule string_ptrs_point)
    show "buf = (pre @ ?sz @ concat (map (le_bytes 8) ?ptrs) @ le_bytes 8 (0 :: u64)) @ ?strs @ post" using buf by (simp only: append.assoc)
  qed (use assms Argv_Arg in simp_all)
  then have "argv_at base buf (p + 2) = ss"
    using argv_at_table [of buf base ?ptrs ss "pre @ ?sz" "?strs @ post"] buf assms(2) by simp
  moreover have "le_field p 2 buf = (of_nat (argv_size ss) :: u16)"
    using le_field_bytes [of pre p 2 "of_nat (argv_size ss) :: u16" "concat (map (le_bytes 8) ?ptrs) @ le_bytes 8 (0 :: u64) @ ?strs @ post"] buf assms(2) by simp
  moreover have "argv_size ss \<le> 1024"
    using length_arg_bytes [of base p a] assms(3,4) Argv_Arg by simp
  ultimately show ?thesis using Argv_Arg by (simp add: unat_of_nat_less)
qed (use assms in simp)

text \<open>The bytes of all arguments, laid out from \<open>off\<close> on\<close>

fun args_bytes :: "u64 \<Rightarrow> nat \<Rightarrow> arg list \<Rightarrow> u8 list" where
  "args_bytes base off [] = []"
| "args_bytes base off (a # as) = arg_bytes base off a @ args_bytes base (off + arg_extent a) as"

lemma put_at: "off = length pre \<Longrightarrow> put_bytes off bs (pre @ rest) = pre @ bs @ drop (length bs) rest"
  by (simp add: put_bytes_def)

lemma le_field_zeros: "off = length pre \<Longrightarrow> n \<le> k \<Longrightarrow> le_field off n (pre @ replicate k 0) = (0 :: 'a::len word)"
proof -
  have "le_value (replicate n 0) = (0 :: 'a word)" by (induction n) simp_all
  then show "off = length pre \<Longrightarrow> n \<le> k \<Longrightarrow> ?thesis" by (simp add: le_field_def min_def)
qed

lemma encode_arg_cleared:
  assumes "off = length pre" "arg_extent a \<le> k" "off + k = 1024"
  shows "encode_arg base off a (pre @ replicate k 0) = (pre @ arg_bytes base off a @ replicate (k - arg_extent a) 0, arg_extent a)"
proof (cases a)
  case (Argv_Arg ss)
  have "le_field off 2 (pre @ replicate k 0) = (0 :: u16)" using assms(1,2) Argv_Arg by (intro le_field_zeros) (auto simp: argv_size_def)
  moreover have "argv_size ss < 2 ^ 16" using assms(2,3) Argv_Arg by simp
  ultimately show ?thesis using assms(1) Argv_Arg length_arg_bytes [of base off a]
    by (simp add: encode_argv_def put_at unat_of_nat_less Let_def)
qed (use assms in \<open>simp_all add: put_at\<close>)

lemma encode_args_cleared:
  assumes "encode_args base off as (pre @ replicate k 0) = Some buf" "off = length pre" "off + k = 1024"
  shows "\<exists>n. buf = pre @ args_bytes base off as @ replicate n 0 \<and> length buf = 1024"
  using assms
proof (induction as arbitrary: off pre k)
  case (Cons a as)
  have fit: "arg_extent a \<le> k" using Cons.prems by (simp split: if_splits)
  note e = encode_arg_cleared [OF Cons.prems(2) fit Cons.prems(3), of base]
  have "encode_args base (off + arg_extent a) as ((pre @ arg_bytes base off a) @ replicate (k - arg_extent a) 0) = Some buf"
    using Cons.prems(1) e by (simp split: if_splits)
  then show ?case using Cons.IH [of "off + arg_extent a" "pre @ arg_bytes base off a" "k - arg_extent a"] Cons.prems(2,3) fit by simp
qed auto

lemma get_args_bytes:
  assumes "list_all arg_ok as" "ev_arg_ptr e = length pre" "ev_arg_storage e = pre @ args_bytes base (length pre) as @ post"
    "length (ev_arg_storage e) \<le> 1024" "base \<noteq> 0" "unat base + 1024 < 2 ^ 64"
  shows "get_args base (map type_of as) e = as"
  using assms
proof (induction as arbitrary: e pre)
  case (Cons a as)
  have "decode_arg base (type_of a) (ev_arg_storage e) (length pre) = (a, length pre + arg_extent a)"
    using Cons.prems by (intro decode_encoded [of a _ pre _ base "args_bytes base (length pre + arg_extent a) as @ post"]) simp_all
  then have "event_get_arg base (type_of a) e = (a, e\<lparr>ev_arg_ptr := length pre + arg_extent a\<rparr>)"
    using Cons.prems(2) by (simp add: event_get_arg_def)
  then show ?case using Cons.IH [of "e\<lparr>ev_arg_ptr := length pre + arg_extent a\<rparr>" "pre @ arg_bytes base (length pre) a"] Cons.prems by simp
qed simp

section \<open>Draining the queue\<close>

text \<open>What a handler leaves alone: all but the event it gets, and of that the identifiers and the flags that steer the loop\<close>

definition same_event :: "event \<Rightarrow> event \<Rightarrow> bool" where
  "same_event e e' \<longleftrightarrow> ev_identifier e' = ev_identifier e \<and> ev_local_id e' = ev_local_id e \<and> is_meta e' = is_meta e \<and>
     should_clear e' = should_clear e"

definition frame :: "nat \<Rightarrow> event_manager \<Rightarrow> event_manager \<Rightarrow> bool" where
  "frame p m m' \<longleftrightarrow> em_handlers m' = em_handlers m \<and> em_next_eid m' = em_next_eid m \<and> em_event_queue m' = em_event_queue m \<and>
     em_processing_event m' = em_processing_event m \<and> em_fresh m' = em_fresh m \<and>
     (\<exists>e e'. em_heap m p = Some e \<and> em_heap m' = (em_heap m)(p \<mapsto> e') \<and> same_event e e')"

definition quiet :: "event_env \<Rightarrow> bool" where
  "quiet env \<longleftrightarrow> (\<forall>p m. em_heap m p \<noteq> None \<longrightarrow>
     (\<forall>k. \<exists>m'. ext_handler env k p m = Some m' \<and> frame p m m') \<and> (\<forall>f x. \<exists>m'. ext_callback env f x m = Some m' \<and> frame p m m'))"

lemma same_event_trans: "same_event a b \<Longrightarrow> same_event b c \<Longrightarrow> same_event a c"
  by (auto simp: same_event_def)

lemma frame_trans: "frame p a b \<Longrightarrow> frame p b c \<Longrightarrow> frame p a c"
proof -
  assume ab: "frame p a b" and bc: "frame p b c"
  obtain e e' where e: "em_heap a p = Some e" "em_heap b = (em_heap a)(p \<mapsto> e')" "same_event e e'" using ab by (auto simp: frame_def)
  obtain e'' where e'': "em_heap c = (em_heap b)(p \<mapsto> e'')" "same_event e' e''" using bc e(2) by (auto simp: frame_def)
  have "em_heap c = (em_heap a)(p \<mapsto> e'')" using e''(1) e(2) by simp
  then show ?thesis using ab bc e(1) same_event_trans [OF e(3) e''(2)] unfolding frame_def by auto
qed

lemma frame_update: "em_heap m p = Some e \<Longrightarrow> same_event e e' \<Longrightarrow> frame p m (m\<lparr>em_heap := (em_heap m)(p \<mapsto> e')\<rparr>)"
  by (auto simp: frame_def)

lemma frame_same:
  assumes "em_heap m p \<noteq> None" "em_handlers m' = em_handlers m" "em_next_eid m' = em_next_eid m" "em_event_queue m' = em_event_queue m"
    "em_processing_event m' = em_processing_event m" "em_fresh m' = em_fresh m" "em_heap m' = em_heap m"
  shows "frame p m m'"
proof -
  obtain e where e: "em_heap m p = Some e" using assms(1) by blast
  then have "em_heap m' = (em_heap m)(p \<mapsto> e)" using assms(7) by (simp add: fun_upd_idem)
  then show ?thesis using assms(2-6) e by (auto simp: frame_def same_event_def)
qed

lemma frame_heap: "frame p m m' \<Longrightarrow> em_heap m' p \<noteq> None"
  by (auto simp: frame_def)

lemma sync_handler_quiet:
  assumes "quiet env" "em_heap m p = Some e"
  shows "\<exists>m'. sync_event_handler env p m = Some m' \<and> frame p m m'"
proof -
  let ?m = "m\<lparr>em_heap := (em_heap m)(p \<mapsto> e\<lparr>ev_arg_ptr := ev_arg_ptr e + 8 + 8\<rparr>)\<rparr>"
  let ?f = "le_field (ev_arg_ptr e) 8 (ev_arg_storage e) :: u64" and ?x = "le_field (ev_arg_ptr e + 8) 8 (ev_arg_storage e) :: u64"
  have fr: "frame p m ?m" using assms(2) by (intro frame_update) (simp_all add: same_event_def is_meta_def should_clear_def)
  have "sync_event_handler env p m = (if ?f \<noteq> 0 then ext_callback env ?f ?x ?m else Some ?m)"
    using assms(2) by (simp add: sync_event_handler_def event_get_arg_def)
  moreover obtain m' where "ext_callback env ?f ?x ?m = Some m'" "frame p ?m m'"
    using assms(1) frame_heap [OF fr] unfolding quiet_def by blast
  ultimately show ?thesis using fr frame_trans by auto
qed

lemma run_handler_quiet:
  assumes "quiet env" "em_heap m p \<noteq> None"
  shows "\<exists>m'. run_handler env h p m = Some m' \<and> frame p m m'"
proof (cases h)
  case Sync_Handler
  then show ?thesis using sync_handler_quiet assms by auto
next
  case Processed_Handler
  then show ?thesis using assms(2) by (auto simp: event_processed_handler_def intro!: frame_same)
next
  case (Handler k)
  then show ?thesis using assms unfolding quiet_def by auto
qed

lemma frame_reset:
  assumes "em_heap m p \<noteq> None"
  shows "\<exists>m'. update_event p reset_arg_ptr m = Some m' \<and> frame p m m'"
  using assms by (auto simp: update_event_def same_event_def reset_arg_ptr_def is_meta_def should_clear_def intro!: frame_update)

lemma frame_refl: "em_heap m p \<noteq> None \<Longrightarrow> frame p m m"
  by (rule frame_same) simp_all

lemma run_handlers_quiet:
  assumes "quiet env" "em_heap m p \<noteq> None"
  shows "\<exists>m'. run_handlers env ident i p m = Some m' \<and> frame p m m'"
proof (cases "em_handlers m ident")
  case None
  then show ?thesis using assms(2) frame_refl by (subst run_handlers.simps) simp
next
  case (Some hs)
  then show ?thesis using assms(2)
  proof (induction "length hs - i" arbitrary: i m)
    case 0
    then show ?case using frame_refl by (subst run_handlers.simps) simp
  next
    case (Suc n)
    obtain m1 where m1: "update_event p reset_arg_ptr m = Some m1" "frame p m m1" using frame_reset Suc.prems(2) by blast
    obtain m2 where m2: "run_handler env (hs ! i) p m1 = Some m2" "frame p m1 m2"
      using run_handler_quiet [OF assms(1) frame_heap [OF m1(2)]] by blast
    obtain e where e: "em_heap m2 p = Some e" using frame_heap [OF m2(2)] by blast
    have fr: "frame p m m2" using m1(2) m2(2) by (rule frame_trans)
    have "em_handlers m2 ident = Some hs" using fr Suc.prems(1) by (simp add: frame_def)
    then obtain m3 where m3: "run_handlers env ident (Suc i) p m2 = Some m3" "frame p m2 m3"
      using Suc.hyps(1) [of "Suc i" m2] Suc.hyps(2) e by (metis diff_Suc_1 diff_Suc_Suc Suc_diff_Suc diff_is_0_eq not_less option.distinct(1) zero_less_Suc zero_less_diff)
    have "run_handlers env ident i p m = (if is_consumed e then Some m2 else Some m3)"
      using m1(1) m2(1) m3(1) e Suc.hyps(2) Suc.prems(1) by (subst run_handlers.simps) simp
    then show ?case using fr frame_trans [OF fr m3(2)] by auto
  qed
qed

text \<open>The queue holds the events \<open>es\<close>.\<close>

definition queued :: "event_manager \<Rightarrow> event list \<Rightarrow> bool" where
  "queued m es \<longleftrightarrow> distinct (em_event_queue m) \<and> (\<forall>p\<in>set (em_event_queue m). p < em_fresh m) \<and>
     map (em_heap m) (em_event_queue m) = map Some es"

text \<open>The event that tells of the end of \<open>e\<close>: a meta event whose arguments are the two identifiers of \<open>e\<close>\<close>

definition tells :: "u64 \<Rightarrow> event \<Rightarrow> event \<Rightarrow> bool" where
  "tells n e x \<longleftrightarrow> is_meta x \<and> ev_identifier x = EVENT_PROCESSED_EVENT \<and> ev_local_id x = n \<and>
     take 16 (ev_arg_storage x) = le_bytes 8 (ev_identifier e) @ le_bytes 8 (ev_local_id e)"

lemma flag_simps:
  "is_meta (set_flags EVENT_FLAG_PROCESSED e) = is_meta e" "should_clear (set_flags EVENT_FLAG_PROCESSED e) = should_clear e"
  "is_meta (set_flags EVENT_FLAG_META_EVENT e)" "is_meta (e\<lparr>ev_local_id := n\<rparr>) = is_meta e"
  "ev_identifier (set_flags f e) = ev_identifier e" "ev_local_id (set_flags f e) = ev_local_id e" "ev_arg_storage (set_flags f e) = ev_arg_storage e"
  by (simp_all add: is_meta_def should_clear_def set_flags_def bit.conj_disj_distrib2 EVENT_FLAG_PROCESSED_def EVENT_FLAG_META_EVENT_def EVENT_FLAG_CLEAR_def)

lemma raise_meta_ok:
  assumes "event_new (ev_raw env (em_fresh m)) (ev_base env (em_fresh m)) ident args = Some e"
  shows "raise_meta env ident args m = Some (m\<lparr>em_heap := (em_heap m)(em_fresh m \<mapsto> (set_flags EVENT_FLAG_META_EVENT e)\<lparr>ev_local_id := em_next_eid m\<rparr>),
    em_fresh := Suc (em_fresh m), em_next_eid := em_next_eid m + 1, em_event_queue := em_event_queue m @ [em_fresh m]\<rparr>)"
  using assms by (simp add: raise_meta_def new_event_def update_event_def raise_def)

lemma queued_raise:
  assumes "queued m es"
  shows "queued (m\<lparr>em_heap := (em_heap m)(em_fresh m \<mapsto> x), em_fresh := Suc (em_fresh m), em_next_eid := n, em_event_queue := em_event_queue m @ [em_fresh m]\<rparr>) (es @ [x])"
proof -
  have "map ((em_heap m)(em_fresh m \<mapsto> x)) (em_event_queue m) = map (em_heap m) (em_event_queue m)"
    using assms by (auto simp: queued_def)
  then show ?thesis using assms by (auto simp: queued_def less_Suc_eq)
qed

lemma queued_heap:
  assumes "queued m es" "em_event_queue m' = em_event_queue m" "em_fresh m' = em_fresh m" "p \<notin> set (em_event_queue m)" "em_heap m' = (em_heap m)(p := v)"
  shows "queued m' es"
proof -
  have "map (em_heap m') (em_event_queue m) = map (em_heap m) (em_event_queue m)" using assms(4,5) by (intro map_cong) auto
  moreover have "map (em_heap m) (em_event_queue m) = map Some es" using assms(1) by (simp add: queued_def)
  ultimately have "map (em_heap m') (em_event_queue m) = map Some es" by (rule trans)
  then show ?thesis using assms(1-3) by (simp add: queued_def)
qed

lemma raise_empty_ok:
  assumes "queued m []"
  shows "\<exists>x m'. raise_meta env EVENT_QUEUE_EMPTY [] (m\<lparr>em_processing_event := False\<rparr>) = Some m' \<and> queued m' [x] \<and> is_meta x \<and>
    ev_identifier x = EVENT_QUEUE_EMPTY \<and> ev_local_id x = em_next_eid m \<and> \<not> em_processing_event m'"
proof -
  let ?m = "m\<lparr>em_processing_event := False\<rparr>"
  obtain e where e: "event_new (ev_raw env (em_fresh ?m)) (ev_base env (em_fresh ?m)) EVENT_QUEUE_EMPTY [] = Some e" "ev_identifier e = EVENT_QUEUE_EMPTY"
    by (simp add: event_new_def)
  have q: "queued ?m []" using assms by (simp add: queued_def)
  define x where "x = (set_flags EVENT_FLAG_META_EVENT e)\<lparr>ev_local_id := em_next_eid m\<rparr>"
  define m' where "m' = m\<lparr>em_processing_event := False, em_heap := (em_heap m)(em_fresh m \<mapsto> x), em_fresh := Suc (em_fresh m),
    em_next_eid := em_next_eid m + 1, em_event_queue := em_event_queue m @ [em_fresh m]\<rparr>"
  have "queued m' [x]" using queued_raise [OF q, where x = x] by (simp add: m'_def)
  moreover have "raise_meta env EVENT_QUEUE_EMPTY [] ?m = Some m'" using raise_meta_ok [OF e(1)] by (simp add: m'_def x_def)
  moreover have "\<not> em_processing_event m'" by (simp add: m'_def)
  moreover have "is_meta x" "ev_identifier x = EVENT_QUEUE_EMPTY" "ev_local_id x = em_next_eid m" using e(2) by (simp_all add: x_def flag_simps)
  ultimately show ?thesis by blast
qed

lemma event_new_processed:
  "\<exists>x. event_new raw base EVENT_PROCESSED_EVENT [Word_Arg a, Word_Arg b] = Some x \<and> ev_identifier x = EVENT_PROCESSED_EVENT \<and>
    take 16 (ev_arg_storage x) = le_bytes 8 a @ le_bytes 8 b"
  by (simp add: event_new_def put_bytes_def)

lemma process_event_ok:
  assumes "quiet env" "queued m (e # es)"
  shows "\<exists>p ps m' xs. em_event_queue m = p # ps \<and> em_heap m p = Some e \<and> process_event env p (m\<lparr>em_event_queue := ps\<rparr>) = Some m' \<and>
    queued m' (es @ xs) \<and> em_processing_event m' = (em_processing_event m \<or> \<not> is_meta e) \<and>
    (if is_meta e then xs = [] \<and> em_next_eid m' = em_next_eid m
     else \<exists>x. xs = [x] \<and> tells (em_next_eid m) e x \<and> em_next_eid m' = em_next_eid m + 1)"
proof -
  obtain p ps where q: "em_event_queue m = p # ps" using assms(2) by (cases "em_event_queue m") (auto simp: queued_def)
  have p: "em_heap m p = Some e" "p \<notin> set ps" "p < em_fresh m" using assms(2) q by (auto simp: queued_def)
  define m1 where "m1 = (if is_meta e then m\<lparr>em_event_queue := ps\<rparr> else m\<lparr>em_event_queue := ps, em_processing_event := True\<rparr>)"
  have m1: "em_event_queue m1 = ps" "em_heap m1 = em_heap m" "em_fresh m1 = em_fresh m" "em_next_eid m1 = em_next_eid m"
      "em_processing_event m1 = (em_processing_event m \<or> \<not> is_meta e)" by (simp_all add: m1_def)
  have q1: "queued m1 es" using assms(2) q m1 by (auto simp: queued_def)
  obtain m2 where m2: "run_handlers env (ev_identifier e) 0 p m1 = Some m2" "frame p m1 m2"
    using run_handlers_quiet [OF assms(1), of m1 p] p(1) m1(2) by auto
  obtain e2 where e2: "em_heap m2 = (em_heap m1)(p \<mapsto> e2)" "same_event e e2" using m2(2) p(1) m1(2) by (auto simp: frame_def)
  let ?e3 = "set_flags EVENT_FLAG_PROCESSED e2" and ?m3 = "m2\<lparr>em_heap := (em_heap m1)(p \<mapsto> set_flags EVENT_FLAG_PROCESSED e2)\<rparr>"
  have m3: "update_event p (set_flags EVENT_FLAG_PROCESSED) m2 = Some ?m3" using e2(1) by (simp add: update_event_def)
  have f: "em_event_queue m2 = ps" "em_fresh m2 = em_fresh m" "em_next_eid m2 = em_next_eid m" "em_processing_event m2 = em_processing_event m1"
    using m2(2) m1 by (simp_all add: frame_def)
  have q3: "queued ?m3 es" by (rule queued_heap [OF q1, of _ p "Some ?e3"]) (use f m1 p in simp_all)
  have s: "is_meta ?e3 = is_meta e" "ev_identifier ?e3 = ev_identifier e" "ev_local_id ?e3 = ev_local_id e"
    using e2(2) by (simp_all add: flag_simps same_event_def)
  have clear: "queued (if should_clear x then m4\<lparr>em_heap := (em_heap m4)(p := None)\<rparr> else m4) ys"
    if "queued m4 ys" "p \<notin> set (em_event_queue m4)" for m4 ys x
    using queued_heap [OF that(1), of "m4\<lparr>em_heap := (em_heap m4)(p := None)\<rparr>" p None] that by simp
  show ?thesis
  proof (cases "is_meta e")
    case True
    have "process_event env p (m\<lparr>em_event_queue := ps\<rparr>) =
        Some (if should_clear ?e3 then ?m3\<lparr>em_heap := (em_heap ?m3)(p := None)\<rparr> else ?m3)"
      using True p(1) m2(1) m3 s(1) by (simp add: process_event_def m1_def)
    then show ?thesis using clear [OF q3] q p f m1(5) True by auto
  next
    case False
    obtain x where x: "event_new (ev_raw env (em_fresh ?m3)) (ev_base env (em_fresh ?m3)) EVENT_PROCESSED_EVENT [Word_Arg (ev_identifier e), Word_Arg (ev_local_id e)] = Some x"
        "ev_identifier x = EVENT_PROCESSED_EVENT" "take 16 (ev_arg_storage x) = le_bytes 8 (ev_identifier e) @ le_bytes 8 (ev_local_id e)"
      using event_new_processed by blast
    let ?x = "(set_flags EVENT_FLAG_META_EVENT x)\<lparr>ev_local_id := em_next_eid m\<rparr>"
    let ?m4 = "?m3\<lparr>em_heap := (em_heap ?m3)(em_fresh ?m3 \<mapsto> ?x), em_fresh := Suc (em_fresh ?m3), em_next_eid := em_next_eid ?m3 + 1,
        em_event_queue := em_event_queue ?m3 @ [em_fresh ?m3]\<rparr>"
    have r: "raise_meta env EVENT_PROCESSED_EVENT [Word_Arg (ev_identifier e), Word_Arg (ev_local_id e)] ?m3 = Some ?m4"
      using raise_meta_ok [OF x(1)] f(3) by simp
    have h4: "em_heap ?m4 p = Some ?e3" using p(3) f(2) by simp
    have "process_event env p (m\<lparr>em_event_queue := ps\<rparr>) =
        Some (if should_clear ?e3 then ?m4\<lparr>em_heap := (em_heap ?m4)(p := None)\<rparr> else ?m4)"
      unfolding process_event_def using False p(1) m2(1) m3 s r h4 by (simp add: m1_def)
    moreover have "queued ?m4 (es @ [?x])" by (rule queued_raise [OF q3])
    moreover have "tells (em_next_eid m) e ?x" using x by (simp add: tells_def flag_simps)
    moreover have "p \<notin> set (em_event_queue ?m4)" using p f by simp
    moreover have "em_processing_event ?m4 = (em_processing_event m \<or> \<not> is_meta e)" "em_next_eid ?m4 = em_next_eid m + 1" using f m1(5) by simp_all
    ultimately show ?thesis
      using clear [of ?m4 "es @ [?x]" ?e3] q p(1) False
      by (intro exI [of _ p] exI [of _ ps] exI [of _ "if should_clear ?e3 then ?m4\<lparr>em_heap := (em_heap ?m4)(p := None)\<rparr> else ?m4"] exI [of _ "[?x]"]) auto
  qed
qed

lemma event_loop_event:
  "em_event_queue m = p # ps \<Longrightarrow> em_heap m p = Some e \<Longrightarrow> process_event env p (m\<lparr>em_event_queue := ps\<rparr>) = Some m' \<Longrightarrow>
    event_loop env log m = event_loop env (log @ [e]) m'"
  by (subst event_loop.simps) simp

lemma queued_Nil: "queued m [] \<Longrightarrow> em_event_queue m = []"
  by (simp add: queued_def)

lemma drain_meta_idle:
  assumes "quiet env" "queued m ms" "list_all is_meta ms" "\<not> em_processing_event m"
  shows "\<exists>m'. event_loop env log m = Some (log @ ms, m') \<and> em_event_queue m' = [] \<and> \<not> em_processing_event m'"
  using assms(2-)
proof (induction ms arbitrary: m log)
  case Nil
  then show ?case by (subst event_loop.simps) (simp add: queued_Nil)
next
  case (Cons x ms)
  obtain p ps m' where "em_event_queue m = p # ps" "em_heap m p = Some x" "process_event env p (m\<lparr>em_event_queue := ps\<rparr>) = Some m'"
      "queued m' ms" "\<not> em_processing_event m'"
    using process_event_ok [OF assms(1) Cons.prems(1)] Cons.prems(2,3) by auto
  then show ?case using event_loop_event [of m p ps x env m' log] Cons.IH [of m' "log @ [x]"] Cons.prems(2) by simp
qed

text \<open>The event that tells that the queue is empty, when one is due\<close>

definition tells_empty :: "bool \<Rightarrow> u64 \<Rightarrow> event list \<Rightarrow> bool" where
  "tells_empty due n xs \<longleftrightarrow>
     (if due then \<exists>x. xs = [x] \<and> is_meta x \<and> ev_identifier x = EVENT_QUEUE_EMPTY \<and> ev_local_id x = n else xs = [])"

lemma drain_meta:
  assumes "quiet env" "queued m ms" "list_all is_meta ms"
  shows "\<exists>m' xs. event_loop env log m = Some (log @ ms @ xs, m') \<and> tells_empty (em_processing_event m) (em_next_eid m) xs \<and>
    em_event_queue m' = [] \<and> \<not> em_processing_event m'"
  using assms(2-)
proof (induction ms arbitrary: m log)
  case Nil
  show ?case
  proof (cases "em_processing_event m")
    case True
    obtain x m1 where x: "raise_meta env EVENT_QUEUE_EMPTY [] (m\<lparr>em_processing_event := False\<rparr>) = Some m1" "queued m1 [x]" "is_meta x"
        "ev_identifier x = EVENT_QUEUE_EMPTY" "ev_local_id x = em_next_eid m" "\<not> em_processing_event m1"
      using raise_empty_ok [OF Nil.prems(1)] by blast
    then obtain m' where m': "event_loop env log m1 = Some (log @ [x], m')" "em_event_queue m' = []" "\<not> em_processing_event m'"
      using drain_meta_idle [OF assms(1) x(2), of log] by auto
    have "event_loop env log m = event_loop env log m1"
      using True x(1) queued_Nil [OF Nil.prems(1)] by (subst event_loop.simps) simp
    then show ?thesis using m' x(3-5) True by (auto simp: tells_empty_def)
  next
    case False
    then show ?thesis using drain_meta_idle [OF assms(1) Nil.prems, of log] by (auto simp: tells_empty_def)
  qed
next
  case (Cons x ms)
  obtain p ps m' where "em_event_queue m = p # ps" "em_heap m p = Some x" "process_event env p (m\<lparr>em_event_queue := ps\<rparr>) = Some m'"
      "queued m' ms" "em_processing_event m' = em_processing_event m" "em_next_eid m' = em_next_eid m"
    using process_event_ok [OF assms(1) Cons.prems(1)] Cons.prems(2) by auto
  then show ?case using event_loop_event [of m p ps x env m' log] Cons.IH [of m' "log @ [x]"] Cons.prems(2) by simp
qed

text \<open>One event tells of each of the events \<open>es\<close>, in their order, with consecutive numbers.\<close>

fun told :: "u64 \<Rightarrow> event list \<Rightarrow> event list \<Rightarrow> bool" where
  "told n [] xs \<longleftrightarrow> xs = []"
| "told n (e # es) xs \<longleftrightarrow> (\<exists>x ys. xs = x # ys \<and> tells n e x \<and> told (n + 1) es ys)"

lemma told_nth: "told n es xs \<Longrightarrow> length xs = length es \<and> (\<forall>i<length es. tells (n + of_nat i) (es ! i) (xs ! i))"
proof (induction n es xs rule: told.induct)
  case (2 n e es xs)
  then obtain x ys where x: "xs = x # ys" "tells n e x" "told (n + 1) es ys" by auto
  then have "tells (n + of_nat i) ((e # es) ! i) (xs ! i)" if "i < length (e # es)" for i
    using 2(1) [OF x(3)] that by (cases i) (simp_all add: add.assoc)
  then show ?case using 2(1) [OF x(3)] x(1) by simp
qed simp

lemma drain:
  assumes "quiet env" "queued m (es @ ms)" "list_all is_meta ms"
  shows "\<exists>m' news xs. event_loop env log m = Some (log @ es @ ms @ news @ xs, m') \<and> told (em_next_eid m) (filter (\<lambda>e. \<not> is_meta e) es) news \<and>
    tells_empty (em_processing_event m \<or> news \<noteq> []) (em_next_eid m + of_nat (length news)) xs \<and> em_event_queue m' = [] \<and> \<not> em_processing_event m'"
  using assms(2-)
proof (induction es arbitrary: m ms log)
  case Nil
  then show ?case using drain_meta [OF assms(1), of m ms log] by auto
next
  case (Cons e es)
  obtain p ps m1 xs where s: "em_event_queue m = p # ps" "em_heap m p = Some e" "process_event env p (m\<lparr>em_event_queue := ps\<rparr>) = Some m1"
      "queued m1 ((es @ ms) @ xs)" "em_processing_event m1 = (em_processing_event m \<or> \<not> is_meta e)"
      "if is_meta e then xs = [] \<and> em_next_eid m1 = em_next_eid m
       else \<exists>x. xs = [x] \<and> tells (em_next_eid m) e x \<and> em_next_eid m1 = em_next_eid m + 1"
    using process_event_ok [OF assms(1) Cons.prems(1) [unfolded append_Cons]] by blast
  have step: "event_loop env log m = event_loop env (log @ [e]) m1" using s(1-3) by (rule event_loop_event)
  have "list_all is_meta (ms @ xs)" using Cons.prems(2) s(6) by (auto simp: tells_def split: if_splits)
  then obtain m' news zs where r: "event_loop env (log @ [e]) m1 = Some ((log @ [e]) @ es @ (ms @ xs) @ news @ zs, m')"
      "told (em_next_eid m1) (filter (\<lambda>e. \<not> is_meta e) es) news" "tells_empty (em_processing_event m1 \<or> news \<noteq> []) (em_next_eid m1 + of_nat (length news)) zs"
      "em_event_queue m' = []" "\<not> em_processing_event m'"
    using Cons.IH [of m1 "ms @ xs" "log @ [e]"] s(4) by auto
  have "tells_empty (em_processing_event m \<or> xs @ news \<noteq> []) (em_next_eid m + of_nat (length (xs @ news))) zs"
    using r(3) s(5,6) by (auto simp: add.assoc split: if_splits)
  moreover have "told (em_next_eid m) (filter (\<lambda>e. \<not> is_meta e) (e # es)) (xs @ news)"
    using r(2) s(6) by (auto split: if_splits)
  ultimately show ?case using step r(1,4,5) by (intro exI [of _ m'] exI [of _ "xs @ news"] exI [of _ zs]) simp
qed

text \<open>\<^verbatim>\<open>event_processed_handler\<close> is registered nowhere, and it compares a wait with the event that tells of the end instead of
  the event that ended: the thread of \<^verbatim>\<open>raise_wait\<close> is not woken up.\<close>

lemma processed_handler_not_registered: "em_handlers event_manager_new EVENT_PROCESSED_EVENT = None"
  by (simp add: event_manager_new_def register_handler_def EVENT_PROCESSED_EVENT_def EVENT_SYNC_def)

lemma wait_not_woken:
  assumes "tells n e x" "em_heap m p = Some x" "w \<in> set (em_event_waits m)" "w_identifier w = ev_identifier e" "ev_identifier e \<noteq> 0"
    "ev_identifier e \<noteq> EVENT_PROCESSED_EVENT"
  shows "\<exists>m'. event_processed_handler p m = Some m' \<and> w \<in> set (em_event_waits m')"
  using assms by (auto simp: event_processed_handler_def tells_def wait_matches_def)

text \<open>In a storage that held other data the size of a table of strings is wrong.\<close>

lemma argv_size_garbage:
  "le_field off 2 buf = (7 :: u16) \<Longrightarrow> snd (encode_arg base off (Argv_Arg []) buf) = 17"
  by (simp add: encode_argv_def argv_size_def Let_def)

section \<open>A sample\<close>

definition sample_event :: event where
  "sample_event = \<lparr>ev_identifier = 5, ev_local_id = 1, ev_flags = EVENT_FLAG_CLEAR, ev_status = 0, ev_arg_storage = replicate 1024 0, ev_arg_ptr = 0\<rparr>"

definition sample_env :: event_env where
  "sample_env = \<lparr>ev_raw = (\<lambda>_. sample_event), ev_base = (\<lambda>_. 0x1000), ext_handler = (\<lambda>k p m. Some m), ext_callback = (\<lambda>f x m. Some m)\<rparr>"

definition sample_manager :: event_manager where
  "sample_manager = event_manager_new\<lparr>em_next_eid := 2, em_event_queue := [1], em_heap := [1 \<mapsto> sample_event], em_fresh := 2\<rparr>"

lemma sample_quiet: "quiet sample_env"
  by (simp add: quiet_def sample_env_def frame_refl)

section \<open>Properties\<close>



text \<open>C23: when the handlers raise no events, the event loop comes to rest: it takes every event from the queue in the order in
  which they were raised, then for each event that is not a meta event, in the same order, one meta event that carries its
  identifier and number, then, if there was any, the event of the empty queue, and these with consecutive numbers.\<close>
theorem event_loop_drains:
  assumes "quiet env" "queued m es"
  shows "\<exists>m' news xs. event_loop env [] m = Some (es @ news @ xs, m') \<and> length news = length (filter (\<lambda>e. \<not> is_meta e) es) \<and>
    (\<forall>i<length news. tells (em_next_eid m + of_nat i) (filter (\<lambda>e. \<not> is_meta e) es ! i) (news ! i)) \<and>
    tells_empty (em_processing_event m \<or> news \<noteq> []) (em_next_eid m + of_nat (length news)) xs \<and>
    em_event_queue m' = [] \<and> \<not> em_processing_event m'"
proof -
  obtain m' news xs where r: "event_loop env [] m = Some (es @ news @ xs, m')" "told (em_next_eid m) (filter (\<lambda>e. \<not> is_meta e) es) news"
      "tells_empty (em_processing_event m \<or> news \<noteq> []) (em_next_eid m + of_nat (length news)) xs" "em_event_queue m' = []" "\<not> em_processing_event m'"
    using drain [OF assms(1), of m es "[]" "[]"] assms(2) by auto
  then show ?thesis using told_nth [OF r(2)] by (intro exI [of _ m'] exI [of _ news] exI [of _ xs]) simp
qed

theorem event_loop_drains_witness:
  "\<exists>m' x y. event_loop sample_env [] sample_manager = Some ([sample_event, x, y], m') \<and> tells 2 sample_event x \<and>
    ev_identifier y = EVENT_QUEUE_EMPTY \<and> ev_local_id y = 3 \<and> em_event_queue m' = []"
proof -
  have q: "queued sample_manager [sample_event]" by (simp add: queued_def sample_manager_def)
  have m: "\<not> is_meta sample_event" by (simp add: is_meta_def sample_event_def EVENT_FLAG_CLEAR_def EVENT_FLAG_META_EVENT_def)
  have next_id: "em_next_eid sample_manager = 2" by (simp add: sample_manager_def)
  obtain m' news xs where r: "event_loop sample_env [] sample_manager = Some ([sample_event] @ news @ xs, m')" "length news = 1"
      "tells 2 sample_event (news ! 0)" "tells_empty (em_processing_event sample_manager \<or> news \<noteq> []) 3 xs" "em_event_queue m' = []"
    using event_loop_drains [OF sample_quiet q] m unfolding next_id by auto
  obtain x where x: "news = [x]" using r(2) by (cases news) auto
  obtain y where y: "xs = [y]" "ev_identifier y = EVENT_QUEUE_EMPTY" "ev_local_id y = 3" using r(4) x by (auto simp: tells_empty_def)
  show ?thesis using r(1,3,5) x y by (intro exI [of _ m'] exI [of _ x] exI [of _ y]) simp
qed

end
