(* ===== verification/Stream_Calls.thy ===== *)
theory Stream_Calls
  imports Descriptors Pipe_Stream Dir_Stream Vfs Pager
begin

unbundle bit_operations_syntax

text \<open>
  The system calls on streams (\<^verbatim>\<open>kernel/src/tasking/syscalls/streams.cpp\<close>), over the models of the descriptor table, the
  stream wrappers, the three kinds of streams and the VFS. The operations of the file system that owns a file are parameters. A
  call returns, spins for ever in the loop of a pipe (nothing else runs meanwhile) or uses an object that is not there. Stream
  objects, pipe data and wrappers are taken from one counter of addresses.
\<close>

section \<open>State\<close>

datatype stream = FileS "(nat \<times> vid) fstream" u64 | DirS dir_stream u64 | PipeS nat bool u64

datatype 'a outcome = Ret 'a | Spin | Fault

record 's kernel =
  k_table :: fd_table
  k_wrappers :: sw_state
  k_streams :: "nat \<Rightarrow> stream option"
  k_pipes :: "nat \<Rightarrow> stream_data option"
  k_next :: nat
  k_cwd :: cstring
  k_vfs :: vfs_state
  k_fs :: 's

record 's stream_env =
  env_open :: "nat \<times> vid \<Rightarrow> u32 \<Rightarrow> 's \<Rightarrow> unit value_or_error \<times> 's"
  env_read :: "nat \<times> vid \<Rightarrow> nat \<Rightarrow> 's \<Rightarrow> u8 list value_or_error \<times> 's"
  env_write :: "nat \<times> vid \<Rightarrow> u8 list \<Rightarrow> 's \<Rightarrow> nat value_or_error \<times> 's"
  env_seek :: "nat \<times> vid \<Rightarrow> u64 \<Rightarrow> u64 \<Rightarrow> 's \<Rightarrow> nat value_or_error \<times> 's"
  env_ioctl :: "nat \<times> vid \<Rightarrow> u64 \<Rightarrow> u64 \<Rightarrow> 's \<Rightarrow> nat value_or_error \<times> 's"
  env_close :: "nat \<times> vid \<Rightarrow> 's \<Rightarrow> 's"
  env_symlink :: "vid \<Rightarrow> cstring \<Rightarrow> cstring \<Rightarrow> 's \<Rightarrow> unit value_or_error \<times> 's"
  env_modules :: module_ops
  env_garbage :: "nat \<Rightarrow> u8"

section \<open>Calls on a stream\<close>

partial_function (option) pipe_read_loop :: "nat \<Rightarrow> u8 list \<Rightarrow> stream_data \<Rightarrow> (stream_data \<times> nat value_or_error \<times> u8 list) option" where
  "pipe_read_loop len got d =
     (case read_step len got d of
        (d, Running l g) \<Rightarrow> pipe_read_loop l g d
      | (d, Returned v g) \<Rightarrow> Some (d, v, g))"

partial_function (option) pipe_write_loop ::
  "u8 list \<Rightarrow> nat \<Rightarrow> u8 list \<Rightarrow> stream_data \<Rightarrow> (stream_data \<times> nat value_or_error \<times> u8 list) option" where
  "pipe_write_loop src len sent d =
     (case write_step src len sent d of
        (d, Running l s) \<Rightarrow> pipe_write_loop src l s d
      | (d, Returned v s) \<Rightarrow> Some (d, v, s))"

definition pipe_read :: "bool \<Rightarrow> nat \<Rightarrow> stream_data \<Rightarrow> (stream_data \<times> nat value_or_error \<times> u8 list) option" where
  "pipe_read isWrite len d =
     (case read_begin isWrite len d of Running l g \<Rightarrow> pipe_read_loop l g d | Returned v g \<Rightarrow> Some (d, v, g))"

definition pipe_write :: "bool \<Rightarrow> u8 list \<Rightarrow> stream_data \<Rightarrow> (stream_data \<times> nat value_or_error \<times> u8 list) option" where
  "pipe_write isWrite src d =
     (case write_begin isWrite (length src) d of Running l s \<Rightarrow> pipe_write_loop src l s d | Returned v s \<Rightarrow> Some (d, v, s))"

definition base_read :: "'s stream_env \<Rightarrow> nat \<Rightarrow> nat \<Rightarrow> 's kernel \<Rightarrow> (u8 list value_or_error \<times> 's kernel) outcome" where
  "base_read env b len k =
     (case k_streams k b of
        None \<Rightarrow> Fault
      | Some (FileS f fl) \<Rightarrow>
          (case fstream_call (\<lambda>file. env_read env file len) (f, k_fs k) of (r, s) \<Rightarrow> Ret (r, k\<lparr>k_fs := s\<rparr>))
      | Some (DirS ds fl) \<Rightarrow>
          (case dir_read len (ds, replicate len 0) of
             (r, ds, buf) \<Rightarrow> Ret (map_sum id (\<lambda>n. take n buf) r, k\<lparr>k_streams := (k_streams k)(b \<mapsto> DirS ds fl)\<rparr>))
      | Some (PipeS p w fl) \<Rightarrow>
          (case k_pipes k p of
             None \<Rightarrow> Fault
           | Some d \<Rightarrow>
               (case pipe_read w len d of
                  None \<Rightarrow> Spin
                | Some (d, v, got) \<Rightarrow> Ret (map_sum id (\<lambda>_. got) v, k\<lparr>k_pipes := (k_pipes k)(p \<mapsto> d)\<rparr>))))"

definition base_write :: "'s stream_env \<Rightarrow> nat \<Rightarrow> u8 list \<Rightarrow> 's kernel \<Rightarrow> (nat value_or_error \<times> 's kernel) outcome" where
  "base_write env b src k =
     (case k_streams k b of
        None \<Rightarrow> Fault
      | Some (FileS f fl) \<Rightarrow>
          (case fstream_call (\<lambda>file. env_write env file src) (f, k_fs k) of (r, s) \<Rightarrow> Ret (r, k\<lparr>k_fs := s\<rparr>))
      | Some (DirS ds fl) \<Rightarrow> Ret (Inl ENOTSUP, k)
      | Some (PipeS p w fl) \<Rightarrow>
          (case k_pipes k p of
             None \<Rightarrow> Fault
           | Some d \<Rightarrow>
               (case pipe_write w src d of
                  None \<Rightarrow> Spin
                | Some (d, v, sent) \<Rightarrow> Ret (v, k\<lparr>k_pipes := (k_pipes k)(p \<mapsto> d)\<rparr>))))"

definition base_seek :: "'s stream_env \<Rightarrow> nat \<Rightarrow> u64 \<Rightarrow> u64 \<Rightarrow> 's kernel \<Rightarrow> (nat value_or_error \<times> 's kernel) outcome" where
  "base_seek env b position mode k =
     (case k_streams k b of
        None \<Rightarrow> Fault
      | Some (FileS f fl) \<Rightarrow>
          (case fstream_call (\<lambda>file. env_seek env file position mode) (f, k_fs k) of (r, s) \<Rightarrow> Ret (r, k\<lparr>k_fs := s\<rparr>))
      | Some (DirS ds fl) \<Rightarrow> Ret (dir_seek, k)
      | Some (PipeS p w fl) \<Rightarrow> Ret (PipeStream_seek, k))"

text \<open>The destructors\<close>

definition delete_stream :: "'s stream_env \<Rightarrow> nat \<Rightarrow> 's kernel \<Rightarrow> 's kernel" where
  "delete_stream env b k =
     (case k_streams k b of
        None \<Rightarrow> k
      | Some (FileS f fl) \<Rightarrow> k\<lparr>k_streams := (k_streams k)(b := None), k_fs := fstream_delete (env_close env) (f, k_fs k)\<rparr>
      | Some (DirS ds fl) \<Rightarrow> k\<lparr>k_streams := (k_streams k)(b := None)\<rparr>
      | Some (PipeS p w fl) \<Rightarrow>
          k\<lparr>k_streams := (k_streams k)(b := None), k_pipes := (k_pipes k)(p := map_option (PipeStream_close w) (k_pipes k p))\<rparr>)"

text \<open>The table and the wrappers after a call, and the streams whose last wrapper it dropped\<close>

definition put_fds :: "'s stream_env \<Rightarrow> fd_table \<times> sw_state \<Rightarrow> 's kernel \<Rightarrow> 's kernel" where
  "put_fds env ts k =
     (case ts of (t, s) \<Rightarrow>
        fold (delete_stream env) (drop (length (sw_deleted (k_wrappers k))) (sw_deleted s)) (k\<lparr>k_table := t, k_wrappers := s\<rparr>))"

section \<open>The system calls\<close>

definition sys_close :: "'s stream_env \<Rightarrow> int \<Rightarrow> 's kernel \<Rightarrow> (unit value_or_error \<times> 's kernel) outcome" where
  "sys_close env fd k =
     (case close_stream fd (k_table k, k_wrappers k) of None \<Rightarrow> Fault | Some ts \<Rightarrow> Ret (Inr (), put_fds env ts k))"

definition with_stream :: "int \<Rightarrow> (nat \<Rightarrow> 's kernel \<Rightarrow> ('a value_or_error \<times> 's kernel) outcome) \<Rightarrow> 's kernel \<Rightarrow>
    ('a value_or_error \<times> 's kernel) outcome" where
  "with_stream fd f k =
     (case get_stream fd (k_table k, k_wrappers k) of
        None \<Rightarrow> Fault
      | Some None \<Rightarrow> Ret (Inl EBADF, k)
      | Some (Some b) \<Rightarrow> f b k)"

definition sys_read :: "'s stream_env \<Rightarrow> int \<Rightarrow> nat \<Rightarrow> 's kernel \<Rightarrow> (u8 list value_or_error \<times> 's kernel) outcome" where
  "sys_read env fd len = with_stream fd (\<lambda>b. base_read env b len)"

definition sys_write :: "'s stream_env \<Rightarrow> int \<Rightarrow> u8 list \<Rightarrow> 's kernel \<Rightarrow> (nat value_or_error \<times> 's kernel) outcome" where
  "sys_write env fd src = with_stream fd (\<lambda>b. base_write env b src)"

definition sys_seek :: "'s stream_env \<Rightarrow> int \<Rightarrow> u64 \<Rightarrow> u64 \<Rightarrow> 's kernel \<Rightarrow> (nat value_or_error \<times> 's kernel) outcome" where
  "sys_seek env fd position mode = with_stream fd (\<lambda>b. base_seek env b position mode)"

definition sys_ioctl :: "'s stream_env \<Rightarrow> int \<Rightarrow> u64 \<Rightarrow> u64 \<Rightarrow> 's kernel \<Rightarrow> (nat value_or_error \<times> 's kernel) outcome" where
  "sys_ioctl env fd request arg = with_stream fd (\<lambda>b k.
     case k_streams k b of
       None \<Rightarrow> Fault
     | Some (FileS f fl) \<Rightarrow>
         (case fstream_call (\<lambda>file. env_ioctl env file request arg) (f, k_fs k) of (r, s) \<Rightarrow> Ret (r, k\<lparr>k_fs := s\<rparr>))
     | Some _ \<Rightarrow> Ret (Inl EPIPE, k))"

definition sys_dup :: "'s stream_env \<Rightarrow> int \<Rightarrow> int \<Rightarrow> 's kernel \<Rightarrow> (int value_or_error \<times> 's kernel) outcome" where
  "sys_dup env oldfd newfd k =
     (case dup_stream oldfd newfd (k_table k, k_wrappers k) of None \<Rightarrow> Fault | Some (r, ts) \<Rightarrow> Ret (r, put_fds env ts k))"

text \<open>A new stream object at the next address, and its wrapper at the one after it\<close>

definition open_stream :: "'s stream_env \<Rightarrow> nat \<Rightarrow> stream \<Rightarrow> 's kernel \<Rightarrow> (int \<times> 's kernel) option" where
  "open_stream env b st k =
     (let k = k\<lparr>k_streams := (k_streams k)(b \<mapsto> st), k_next := k_next k + 1\<rparr>
      in map_option (\<lambda>(fd, ts). (fd, put_fds env ts k)) (add_stream (k_next k - 1) b (- 1) (k_table k, k_wrappers k)))"

definition VALIDATE_PTR :: "u64 \<Rightarrow> bool" where
  "VALIDATE_PTR a \<longleftrightarrow> a \<noteq> 0 \<and> a < KERNEL_START"

definition sys_pipe :: "'s stream_env \<Rightarrow> u64 \<Rightarrow> u64 \<Rightarrow> 's kernel \<Rightarrow> ((int \<times> int) value_or_error \<times> 's kernel) outcome" where
  "sys_pipe env pipeStorage flags k =
     (if \<not> VALIDATE_PTR pipeStorage then Ret (Inl EFAULT, k)
      else
        let p = k_next k;
            k = k\<lparr>k_pipes := (k_pipes k)(p \<mapsto> StreamData_init (env_garbage env)), k_next := p + 3\<rparr>
        in (case open_stream env (p + 1) (PipeS p False flags) k of
              None \<Rightarrow> Fault
            | Some (r, k) \<Rightarrow>
                (case open_stream env (p + 2) (PipeS p True flags) k of None \<Rightarrow> Fault | Some (w, k) \<Rightarrow> Ret (Inr (r, w), k))))"

definition AT_FDCWD :: int where "AT_FDCWD = - 1"
definition O_DIRECTORY :: u64 where "O_DIRECTORY = 0x20"
definition O_NOFOLLOW :: u64 where "O_NOFOLLOW = 0x100"
definition O_PATH :: u64 where "O_PATH = 0x8000"

text \<open>The directory a relative path starts from and the path to look up\<close>

definition path_start :: "int \<Rightarrow> cstring \<Rightarrow> 's kernel \<Rightarrow> (vid option \<times> cstring) value_or_error outcome" where
  "path_start dirfd path k =
     (if path \<noteq> [] \<and> hd path = 0x2F then Ret (Inr (None, path))
      else if dirfd = AT_FDCWD then Ret (Inr (None, k_cwd k @ path))
      else (case get_stream dirfd (k_table k, k_wrappers k) of
              None \<Rightarrow> Fault
            | Some None \<Rightarrow> Ret (Inl EBADF)
            | Some (Some b) \<Rightarrow>
                (case k_streams k b of
                   None \<Rightarrow> Fault
                 | Some (FileS f fl) \<Rightarrow> Ret (Inr (Some (snd (fst_file f)), path))
                 | Some _ \<Rightarrow> Ret (Inl EBADF))))"

definition open_directory :: "'s stream_env \<Rightarrow> vid \<Rightarrow> u64 \<Rightarrow> 's kernel \<Rightarrow> (stream value_or_error \<times> 's kernel) outcome" where
  "open_directory env v flags k =
     (if flags AND O_PATH \<noteq> 0 then Ret (Inr (DirS dir_stream_new flags), k)
      else (case vfs_get_files (env_modules env) (Some v) [] \<lparr>resolve_link = False, follow_links = False\<rparr> (k_vfs k) of
              None \<Rightarrow> Fault
            | Some (st, files) \<Rightarrow>
                let k = k\<lparr>k_vfs := st\<rparr>;
                    entries = map_sum id (map (\<lambda>i. case nodes st i of Some n \<Rightarrow> (f_type n, f_name n) | None \<Rightarrow> (FILE, []))) files
                in (case dir_stream_open entries dir_stream_new of
                      (Inl e, ds) \<Rightarrow> Ret (Inl e, k)
                    | (Inr _, ds) \<Rightarrow> Ret (Inr (DirS ds flags), k))))"

definition open_file :: "'s stream_env \<Rightarrow> nat \<Rightarrow> vid \<Rightarrow> u64 \<Rightarrow> u64 \<Rightarrow> 's kernel \<Rightarrow> stream value_or_error \<times> 's kernel" where
  "open_file env b v flags mode k =
     (if flags AND O_PATH \<noteq> 0 then (Inr (FileS (fstream_new (b, v)) flags), k)
      else (case fstream_open (env_open env) (ucast mode) (fstream_new (b, v), k_fs k) of
              (Inl e, f, s) \<Rightarrow> (Inl e, k\<lparr>k_fs := s\<rparr>)
            | (Inr _, f, s) \<Rightarrow> (Inr (FileS f flags), k\<lparr>k_fs := s\<rparr>)))"

definition open_node :: "'s stream_env \<Rightarrow> vid \<Rightarrow> u64 \<Rightarrow> u64 \<Rightarrow> 's kernel \<Rightarrow> (int value_or_error \<times> 's kernel) outcome" where
  "open_node env v flags mode k =
     (case nodes (k_vfs k) v of
        None \<Rightarrow> Fault
      | Some n \<Rightarrow>
          if flags AND O_NOFOLLOW \<noteq> 0 \<and> f_type n = LINK then Ret (Inl ELOOP, k)
          else if flags AND O_DIRECTORY \<noteq> 0 \<and> f_type n \<noteq> DIRECTORY then Ret (Inl ENOTDIR, k)
          else
            let b = k_next k; k = k\<lparr>k_next := b + 1\<rparr>
            in (case (if flags AND O_DIRECTORY \<noteq> 0 then open_directory env v flags k else Ret (open_file env b v flags mode k)) of
                  Spin \<Rightarrow> Spin
                | Fault \<Rightarrow> Fault
                | Ret (Inl e, k) \<Rightarrow> Ret (Inl e, k)
                | Ret (Inr st, k) \<Rightarrow> (case open_stream env b st k of None \<Rightarrow> Fault | Some (fd, k) \<Rightarrow> Ret (Inr fd, k))))"

definition sys_openat :: "'s stream_env \<Rightarrow> cstring \<Rightarrow> u64 \<Rightarrow> u64 \<Rightarrow> int \<Rightarrow> 's kernel \<Rightarrow> (int value_or_error \<times> 's kernel) outcome" where
  "sys_openat env path flags mode dirfd k =
     (case path_start dirfd path k of
        Spin \<Rightarrow> Spin
      | Fault \<Rightarrow> Fault
      | Ret (Inl e) \<Rightarrow> Ret (Inl e, k)
      | Ret (Inr (root, resolvePath)) \<Rightarrow>
          (case vfs_get_file (env_modules env) root resolvePath
                  \<lparr>resolve_link = flags AND O_NOFOLLOW = 0, follow_links = True\<rparr> 0 (k_vfs k) of
             None \<Rightarrow> Fault
           | Some (st, Inl e) \<Rightarrow> Ret (Inl e, k\<lparr>k_vfs := st\<rparr>)
           | Some (st, Inr v) \<Rightarrow> open_node env v flags mode (k\<lparr>k_vfs := st\<rparr>)))"

text \<open>\<open>target_ptr\<close> and \<open>link_ptr\<close> are the addresses of the two strings; the link is made at the first path.\<close>

definition sys_symlinkat :: "'s stream_env \<Rightarrow> u64 \<Rightarrow> u64 \<Rightarrow> cstring \<Rightarrow> int \<Rightarrow> cstring \<Rightarrow> 's kernel \<Rightarrow> (unit value_or_error \<times> 's kernel) outcome" where
  "sys_symlinkat env target_ptr link_ptr target dirfd linkpath k =
     (if \<not> VALIDATE_PTR target_ptr \<or> \<not> VALIDATE_PTR link_ptr then Ret (Inl EFAULT, k)
      else (case path_start dirfd target k of
         Spin \<Rightarrow> Spin
       | Fault \<Rightarrow> Fault
       | Ret (Inl e) \<Rightarrow> Ret (Inl e, k)
       | Ret (Inr (root, resolvePath)) \<Rightarrow>
           (case vfs_resolve_path (env_modules env) root resolvePath \<lparr>resolve_link = True, follow_links = True\<rparr> (k_vfs k) of
              None \<Rightarrow> Fault
            | Some (st, Inl e) \<Rightarrow> Ret (Inl e, k\<lparr>k_vfs := st\<rparr>)
            | Some (st, Inr (None, name)) \<Rightarrow> Fault
            | Some (st, Inr (Some dir, name)) \<Rightarrow>
                (case env_symlink env dir name linkpath (k_fs k) of (r, s) \<Rightarrow> Ret (r, k\<lparr>k_vfs := st, k_fs := s\<rparr>)))))"

section \<open>No call touches an object that is gone\<close>

text \<open>Every wrapper has a stream object of its own, and every end of a pipe its data.\<close>

definition objects_ok :: "'s kernel \<Rightarrow> bool" where
  "objects_ok k \<longleftrightarrow> (\<forall>b p w fl. k_streams k b = Some (PipeS p w fl) \<longrightarrow> (\<exists>d. k_pipes k p = Some d \<and> pipe_wf d))"

definition wrapped_ok :: "'s kernel \<Rightarrow> bool" where
  "wrapped_ok k \<longleftrightarrow>
     (\<forall>a b n. sw_heap (k_wrappers k) a = Some (b, n) \<longrightarrow> a < k_next k \<and> b < k_next k \<and> k_streams k b \<noteq> None) \<and>
     (\<forall>a a' b n n'. sw_heap (k_wrappers k) a = Some (b, n) \<longrightarrow> sw_heap (k_wrappers k) a' = Some (b, n') \<longrightarrow> a = a')"

definition kernel_ok :: "nat list \<Rightarrow> 's kernel \<Rightarrow> bool" where
  "kernel_ok os k \<longleftrightarrow> fd_inv (k_table k, os, k_wrappers k) \<and> 0 < k_next k \<and> wrapped_ok k \<and> objects_ok k"

text \<open>What dropping and copying wrappers do to them\<close>

definition shrinks :: "sw_state \<Rightarrow> sw_state \<Rightarrow> bool" where
  "shrinks s s' \<longleftrightarrow> (\<forall>a b n'. sw_heap s' a = Some (b, n') \<longrightarrow> (\<exists>n. sw_heap s a = Some (b, n))) \<and>
     (\<exists>ds. sw_deleted s' = sw_deleted s @ ds \<and> (\<forall>b\<in>set ds. \<exists>a n. sw_heap s a = Some (b, n) \<and> sw_heap s' a = None))"

lemma shrinks_refl: "shrinks s s"
  by (auto simp: shrinks_def)

lemma shrinks_trans:
  assumes "shrinks s s1" "shrinks s1 s2"
  shows "shrinks s s2"
proof -
  have h: "\<exists>n. sw_heap s a = Some (b, n)" if "sw_heap s1 a = Some (b, n')" for a b n' using assms(1) that unfolding shrinks_def by blast
  have h1: "\<exists>n. sw_heap s1 a = Some (b, n)" if "sw_heap s2 a = Some (b, n')" for a b n' using assms(2) that unfolding shrinks_def by blast
  obtain ds where ds: "sw_deleted s1 = sw_deleted s @ ds" "\<forall>b\<in>set ds. \<exists>a n. sw_heap s a = Some (b, n) \<and> sw_heap s1 a = None"
    using assms(1) unfolding shrinks_def by blast
  obtain es where es: "sw_deleted s2 = sw_deleted s1 @ es" "\<forall>b\<in>set es. \<exists>a n. sw_heap s1 a = Some (b, n) \<and> sw_heap s2 a = None"
    using assms(2) unfolding shrinks_def by blast
  have none: "sw_heap s2 a = None" if "sw_heap s1 a = None" for a using h1 [of a] that by (cases "sw_heap s2 a") auto
  have "\<exists>a n. sw_heap s a = Some (b, n) \<and> sw_heap s2 a = None" if "b \<in> set (ds @ es)" for b
    using that ds(2) es(2) none h by (auto; metis)
  then show ?thesis unfolding shrinks_def using h h1 ds(1) es(1) by (metis append.assoc)
qed

lemma shrinks_clear: "sw_clear h s = Some s' \<Longrightarrow> shrinks s s'"
  by (auto simp: sw_clear_def shrinks_def Let_def split: if_splits)

lemma shrinks_copy: "sw_copy h s = Some s' \<Longrightarrow> shrinks s s'"
  by (auto simp: sw_copy_def shrinks_def split: if_splits)

lemma shrinks_erase: "fd_erase fd (t, s) = Some (t', s') \<Longrightarrow> shrinks s s'"
  by (auto simp: fd_erase_def split: option.splits intro: shrinks_clear shrinks_refl)

lemma shrinks_insert: "fd_insert fd h (t, s) = Some (t', s') \<Longrightarrow> shrinks s s'"
  by (auto simp: fd_insert_def split: if_splits intro: shrinks_copy shrinks_refl)

lemma shrinks_close: "close_stream fd (t, s) = Some (t', s') \<Longrightarrow> shrinks s s'"
  by (auto simp: close_stream_def bind_eq_Some_conv dest: shrinks_erase)

lemma shrinks_dup:
  assumes "dup_stream oldFd newFd (t, s) = Some (r, t', s')"
  shows "shrinks s s'"
proof (cases "fd_at oldFd t")
  case None
  then show ?thesis using assms by (simp add: dup_stream_def shrinks_refl)
next
  case (Some h)
  then obtain fd t1 s1 h1 where "(if newFd \<noteq> - 1 \<and> fd_at newFd t \<noteq> None then fd_erase newFd (t, s) else Some (t, s)) = Some (t1, s1)"
      "fd_insert fd h1 (t1, s1) = Some (t', s')"
    using assms by (auto simp: dup_stream_def Let_def bind_eq_Some_conv)
  then have "shrinks s s1" "shrinks s1 s'" by (auto split: if_splits intro: shrinks_erase shrinks_insert shrinks_refl)
  then show ?thesis by (rule shrinks_trans)
qed

lemma delete_stream_simps [simp]:
  "k_table (delete_stream env b k) = k_table k" "k_wrappers (delete_stream env b k) = k_wrappers k" "k_next (delete_stream env b k) = k_next k"
  "k_streams (delete_stream env b k) = (k_streams k)(b := None)"
  by (auto simp: delete_stream_def split: option.splits stream.splits)

lemma objects_delete: "objects_ok k \<Longrightarrow> objects_ok (delete_stream env b k)"
  unfolding objects_ok_def delete_stream_simps
proof (intro allI impI)
  fix x p w fl
  assume k: "\<forall>b p w fl. k_streams k b = Some (PipeS p w fl) \<longrightarrow> (\<exists>d. k_pipes k p = Some d \<and> pipe_wf d)"
    and "((k_streams k)(b := None)) x = Some (PipeS p w fl)"
  then have "k_streams k x = Some (PipeS p w fl)" by (simp split: if_splits)
  then obtain d where d: "k_pipes k p = Some d" "pipe_wf d" using k by blast
  have "k_pipes (delete_stream env b k) p = Some d \<or> (\<exists>c. k_pipes (delete_stream env b k) p = Some (PipeStream_close c d))"
    using d(1) by (auto simp: delete_stream_def split: option.splits stream.splits)
  then show "\<exists>d. k_pipes (delete_stream env b k) p = Some d \<and> pipe_wf d" using d(2) by auto
qed

lemma fold_delete:
  "k_table (fold (delete_stream env) ds k) = k_table k \<and> k_wrappers (fold (delete_stream env) ds k) = k_wrappers k \<and>
   k_next (fold (delete_stream env) ds k) = k_next k \<and>
   k_streams (fold (delete_stream env) ds k) = (\<lambda>b. if b \<in> set ds then None else k_streams k b)"
  by (induction ds arbitrary: k) auto

lemma fold_objects: "objects_ok k \<Longrightarrow> objects_ok (fold (delete_stream env) ds k)"
  by (induction ds arbitrary: k) (simp_all add: objects_delete)

lemma put_fds_ok:
  assumes "kernel_ok os k" "fd_inv (t, os, s)" "shrinks (k_wrappers k) s"
  shows "kernel_ok os (put_fds env (t, s) k)"
proof -
  obtain ds where ds: "sw_deleted s = sw_deleted (k_wrappers k) @ ds"
      "\<forall>b\<in>set ds. \<exists>a n. sw_heap (k_wrappers k) a = Some (b, n) \<and> sw_heap s a = None"
    using assms(3) unfolding shrinks_def by blast
  have old: "\<exists>n. sw_heap (k_wrappers k) a = Some (b, n)" if "sw_heap s a = Some (b, n')" for a b n'
    using assms(3) that unfolding shrinks_def by blast
  let ?k = "k\<lparr>k_table := t, k_wrappers := s\<rparr>"
  have put: "put_fds env (t, s) k = fold (delete_stream env) ds ?k" using ds(1) by (simp add: put_fds_def)
  have w: "wrapped_ok k" using assms(1) by (simp add: kernel_ok_def)
  have inj: "a = a'" if "sw_heap (k_wrappers k) a = Some (b, n)" "sw_heap (k_wrappers k) a' = Some (b, n')" for a a' b n n'
    using w that unfolding wrapped_ok_def by blast
  have live: "b \<notin> set ds" if "sw_heap s a = Some (b, n)" for a b n
  proof
    assume "b \<in> set ds"
    then obtain a' n' where "sw_heap (k_wrappers k) a' = Some (b, n')" "sw_heap s a' = None" using ds(2) by blast
    then show False using inj [of a b _ a'] old [OF that] that by auto
  qed
  have bnd: "a < k_next k \<and> b < k_next k \<and> k_streams k b \<noteq> None" if "sw_heap (k_wrappers k) a = Some (b, n)" for a b n
    using w that unfolding wrapped_ok_def by blast
  have fd: "k_wrappers (fold (delete_stream env) ds ?k) = s" "k_next (fold (delete_stream env) ds ?k) = k_next k"
      "k_streams (fold (delete_stream env) ds ?k) = (\<lambda>b. if b \<in> set ds then None else k_streams k b)"
    using fold_delete [of env ds ?k] by (simp_all cong: if_cong)
  have "wrapped_ok (fold (delete_stream env) ds ?k)" unfolding wrapped_ok_def fd
  proof (intro conjI allI impI)
    fix a b n assume a: "sw_heap s a = Some (b, n)"
    obtain n' where "sw_heap (k_wrappers k) a = Some (b, n')" using old [OF a] by blast
    then show "a < k_next k" "b < k_next k" "(if b \<in> set ds then None else k_streams k b) \<noteq> None" using bnd live [OF a] by auto
  next
    fix a a' b n n' assume "sw_heap s a = Some (b, n)" "sw_heap s a' = Some (b, n')"
    then show "a = a'" using old inj by blast
  qed
  moreover have "objects_ok (fold (delete_stream env) ds ?k)"
    using assms(1) by (intro fold_objects) (simp add: kernel_ok_def objects_ok_def)
  ultimately show ?thesis using assms(1,2) fold_delete [of env ds ?k] by (simp add: kernel_ok_def put)
qed

lemma pipe_read_loop_wf:
  assumes "pipe_read_loop len got d = Some (d', v, g)" "pipe_wf d" "length got \<le> len"
  shows "pipe_wf d'"
proof -
  have "pipe_wf d \<longrightarrow> length got \<le> len \<longrightarrow> pipe_wf (fst (d', v, g))"
  proof (rule pipe_read_loop.raw_induct [OF _ assms(1), where P = "\<lambda>len got d y. pipe_wf d \<longrightarrow> length got \<le> len \<longrightarrow> pipe_wf (fst y)"])
    fix f and len :: nat and got :: "u8 list" and d :: stream_data and y :: "stream_data \<times> nat value_or_error \<times> u8 list"
    assume ih: "\<And>len got d y. f len got d = Some y \<Longrightarrow> pipe_wf d \<longrightarrow> length got \<le> len \<longrightarrow> pipe_wf (fst y)"
      and step: "(case read_step len got d of (d, Running l g) \<Rightarrow> f l g d | (d, Returned v g) \<Rightarrow> Some (d, v, g)) = Some y"
    obtain d1 c where r: "read_step len got d = (d1, c)" by (cases "read_step len got d")
    show "pipe_wf d \<longrightarrow> length got \<le> len \<longrightarrow> pipe_wf (fst y)"
    proof (intro impI)
      assume e: "pipe_wf d" "length got \<le> len"
      have s: "pipe_wf d1" "call_ok c" using read_step_spec [OF e r] by auto
      show "pipe_wf (fst y)"
      proof (cases c)
        case (Running l g)
        then show ?thesis using ih [of l g d1 y] step r s by simp
      next
        case (Returned v g)
        then show ?thesis using step r s by auto
      qed
    qed
  qed
  then show ?thesis using assms(2,3) by simp
qed

lemma pipe_write_loop_wf:
  assumes "pipe_write_loop src len sent d = Some (d', v, g)" "pipe_wf d" "length sent \<le> len" "len = length src" "sent = take (length sent) src"
  shows "pipe_wf d'"
proof -
  have "pipe_wf d \<longrightarrow> length sent \<le> len \<longrightarrow> len = length src \<longrightarrow> sent = take (length sent) src \<longrightarrow> pipe_wf (fst (d', v, g))"
  proof (rule pipe_write_loop.raw_induct [OF _ assms(1), where P = "\<lambda>src len sent d y. pipe_wf d \<longrightarrow> length sent \<le> len \<longrightarrow> len = length src \<longrightarrow> sent = take (length sent) src \<longrightarrow> pipe_wf (fst y)"])
    fix f and src :: "u8 list" and len :: nat and sent :: "u8 list" and d :: stream_data and y :: "stream_data \<times> nat value_or_error \<times> u8 list"
    assume ih: "\<And>src len sent d y. f src len sent d = Some y \<Longrightarrow>
        pipe_wf d \<longrightarrow> length sent \<le> len \<longrightarrow> len = length src \<longrightarrow> sent = take (length sent) src \<longrightarrow> pipe_wf (fst y)"
      and step: "(case write_step src len sent d of (d, Running l s) \<Rightarrow> f src l s d | (d, Returned v s) \<Rightarrow> Some (d, v, s)) = Some y"
    obtain d1 c where r: "write_step src len sent d = (d1, c)" by (cases "write_step src len sent d")
    show "pipe_wf d \<longrightarrow> length sent \<le> len \<longrightarrow> len = length src \<longrightarrow> sent = take (length sent) src \<longrightarrow> pipe_wf (fst y)"
    proof (intro impI)
      assume e: "pipe_wf d" "length sent \<le> len" "len = length src" "sent = take (length sent) src"
      note s = write_step_spec [OF e r]
      show "pipe_wf (fst y)"
      proof (cases c)
        case (Running l g)
        then have "l = length src" "length g \<le> l" "g = take (length g) src" using s e(3) by simp_all
        then show ?thesis using ih [of src l g d1 y] step r s Running by simp
      next
        case (Returned v g)
        then show ?thesis using step r s by auto
      qed
    qed
  qed
  then show ?thesis using assms(2-) by simp
qed

lemma pipe_calls_wf:
  assumes "pipe_wf d"
  shows "pipe_read w len d = Some (d', v, got) \<Longrightarrow> pipe_wf d'" "pipe_write w src d = Some (d', v, sent) \<Longrightarrow> pipe_wf d'"
  using assms pipe_read_loop_wf [of len "[]" d d' v got] pipe_write_loop_wf [of src "length src" "[]" d d' v sent]
  by (auto simp: pipe_read_def pipe_write_def read_begin_def write_begin_def split: if_splits)

lemma with_stream_ok:
  assumes "kernel_ok os k"
    "\<And>b. k_streams k b \<noteq> None \<Longrightarrow> f b k = Spin \<or> (\<exists>r k'. f b k = Ret (r, k') \<and> kernel_ok os k')"
  shows "with_stream fd f k = Spin \<or> (\<exists>r k'. with_stream fd f k = Ret (r, k') \<and> kernel_ok os k')"
proof (cases "fd_at fd (k_table k)")
  case None
  then show ?thesis using assms(1) by (simp add: with_stream_def get_stream_def)
next
  case (Some h)
  have "fd_inv (k_table k, os, k_wrappers k)" using assms(1) by (simp add: kernel_ok_def)
  from fd_at_live(1) [OF this Some] obtain b n where h: "sw_heap (k_wrappers k) h = Some (b, n)" "h \<noteq> 0" by blast
  then have "k_streams k b \<noteq> None" using assms(1) unfolding kernel_ok_def wrapped_ok_def by blast
  moreover have "with_stream fd f k = f b k" using Some h by (simp add: with_stream_def get_stream_def sw_base_def)
  ultimately show ?thesis using assms(2) by simp
qed

lemma kernel_ok_fs [simp]: "kernel_ok os (k\<lparr>k_fs := s\<rparr>) = kernel_ok os k" "kernel_ok os (k\<lparr>k_vfs := v\<rparr>) = kernel_ok os k"
  by (simp_all add: kernel_ok_def wrapped_ok_def objects_ok_def)

lemma kernel_ok_dir: "kernel_ok os k \<Longrightarrow> kernel_ok os (k\<lparr>k_streams := (k_streams k)(b \<mapsto> DirS ds fl)\<rparr>)"
  by (auto simp: kernel_ok_def wrapped_ok_def objects_ok_def)

lemma kernel_ok_pipe: "kernel_ok os k \<Longrightarrow> pipe_wf d \<Longrightarrow> kernel_ok os (k\<lparr>k_pipes := (k_pipes k)(p \<mapsto> d)\<rparr>)"
  by (auto simp: kernel_ok_def wrapped_ok_def objects_ok_def)

lemma pipe_data: "kernel_ok os k \<Longrightarrow> k_streams k b = Some (PipeS p w fl) \<Longrightarrow> \<exists>d. k_pipes k p = Some d \<and> pipe_wf d"
  unfolding kernel_ok_def objects_ok_def by blast

lemma base_read_ok:
  assumes "kernel_ok os k" "k_streams k b \<noteq> None"
  shows "base_read env b len k = Spin \<or> (\<exists>r k'. base_read env b len k = Ret (r, k') \<and> kernel_ok os k')"
proof -
  obtain st where st: "k_streams k b = Some st" using assms(2) by blast
  show ?thesis
  proof (cases st)
    case (PipeS p w fl)
    then obtain d where d: "k_pipes k p = Some d" "pipe_wf d" using pipe_data [OF assms(1)] st by blast
    show ?thesis using st PipeS d
      by (cases "pipe_read w len d") (auto simp: base_read_def intro!: kernel_ok_pipe [OF assms(1)] pipe_calls_wf(1) [OF d(2)])
  qed (use st assms(1) in \<open>simp_all add: base_read_def kernel_ok_dir split: prod.splits\<close>)
qed

lemma base_write_ok:
  assumes "kernel_ok os k" "k_streams k b \<noteq> None"
  shows "base_write env b src k = Spin \<or> (\<exists>r k'. base_write env b src k = Ret (r, k') \<and> kernel_ok os k')"
proof -
  obtain st where st: "k_streams k b = Some st" using assms(2) by blast
  show ?thesis
  proof (cases st)
    case (PipeS p w fl)
    then obtain d where d: "k_pipes k p = Some d" "pipe_wf d" using pipe_data [OF assms(1)] st by blast
    show ?thesis using st PipeS d
      by (cases "pipe_write w src d") (auto simp: base_write_def intro!: kernel_ok_pipe [OF assms(1)] pipe_calls_wf(2) [OF d(2)])
  qed (use st assms(1) in \<open>simp_all add: base_write_def split: prod.splits\<close>)
qed

lemma sys_read_ok: "kernel_ok os k \<Longrightarrow> sys_read env fd len k = Spin \<or> (\<exists>r k'. sys_read env fd len k = Ret (r, k') \<and> kernel_ok os k')"
  unfolding sys_read_def by (rule with_stream_ok) (simp_all add: base_read_ok)

lemma sys_write_ok: "kernel_ok os k \<Longrightarrow> sys_write env fd src k = Spin \<or> (\<exists>r k'. sys_write env fd src k = Ret (r, k') \<and> kernel_ok os k')"
  unfolding sys_write_def by (rule with_stream_ok) (simp_all add: base_write_ok)

lemma sys_seek_ok:
  "kernel_ok os k \<Longrightarrow> sys_seek env fd position mode k = Spin \<or> (\<exists>r k'. sys_seek env fd position mode k = Ret (r, k') \<and> kernel_ok os k')"
  unfolding sys_seek_def by (rule with_stream_ok) (auto simp: base_seek_def split: stream.splits prod.splits)

lemma sys_ioctl_ok:
  "kernel_ok os k \<Longrightarrow> sys_ioctl env fd request arg k = Spin \<or> (\<exists>r k'. sys_ioctl env fd request arg k = Ret (r, k') \<and> kernel_ok os k')"
  unfolding sys_ioctl_def by (rule with_stream_ok) (auto split: stream.splits prod.splits)

lemma sys_close_ok:
  assumes "kernel_ok os k" "0 \<le> fd"
  shows "\<exists>k'. sys_close env fd k = Ret (Inr (), k') \<and> kernel_ok os k'"
proof -
  have "fd_inv (k_table k, os, k_wrappers k)" using assms(1) by (simp add: kernel_ok_def)
  from close_stream_ok [OF this, of fd] assms(2) obtain t s where "close_stream fd (k_table k, k_wrappers k) = Some (t, s)" "fd_inv (t, os, s)"
    by auto
  then show ?thesis using put_fds_ok [OF assms(1), of t s env] by (simp add: sys_close_def shrinks_close)
qed

text \<open>The number of descriptors and of references held by other processes stays below the range of the counter.\<close>

definition few_handles :: "nat list \<Rightarrow> 's kernel \<Rightarrow> bool" where
  "few_handles os k \<longleftrightarrow> length (handles (k_table k) @ os) < 2 ^ 31 - 3"

lemma sys_dup_ok:
  assumes "kernel_ok os k" "oldfd \<noteq> newfd" "newfd = - 1 \<or> 0 \<le> newfd" "few_handles os k"
  shows "\<exists>r k'. sys_dup env oldfd newfd k = Ret (r, k') \<and> kernel_ok os k'"
proof -
  have inv: "fd_inv (k_table k, os, k_wrappers k)" using assms(1) by (simp add: kernel_ok_def)
  obtain r t s where r: "dup_stream oldfd newfd (k_table k, k_wrappers k) = Some (r, t, s)" "fd_inv (t, os, s)"
  proof (cases "oldfd \<in> fds (k_table k)")
    case True
    then show ?thesis using dup_stream_ok [OF inv True assms(2,3)] assms(4) that by (auto simp: few_handles_def)
  next
    case False
    then show ?thesis using that [of "Inl EBADF"] inv fd_at_None [of oldfd "k_table k"] by (auto simp: dup_stream_def)
  qed
  then show ?thesis using put_fds_ok [OF assms(1) r(2) shrinks_dup [OF r(1)], of env] by (simp add: sys_dup_def)
qed

lemma add_stream_deleted:
  assumes "add_stream a b (- 1) (t, s) = Some (fd, t', s')" "a \<noteq> 0"
  shows "sw_deleted s' = sw_deleted s"
proof -
  let ?fd = "next_free (f_next_fd t) t"
  have "fd_at ?fd t = None" using next_free_least [of "f_next_fd t" t] fd_at_None by blast
  then have "fd_insert ?fd a (t, sw_new a b s) = Some (t\<lparr>f_streams := f_streams t @ [(?fd, a)]\<rparr>, s\<lparr>sw_heap := (sw_heap s)(a \<mapsto> (b, 2))\<rparr>)"
    using assms(2) by (simp add: fd_insert_def sw_copy_def sw_new_def)
  then show ?thesis using assms by (auto simp: add_stream_def sw_clear_def Let_def)
qed

text \<open>A stream object that no wrapper refers to yet gets one and a descriptor.\<close>

lemma open_stream_ok:
  assumes "kernel_ok os k" "few_handles os k" "b < k_next k" "\<forall>a n. sw_heap (k_wrappers k) a \<noteq> Some (b, n)"
    and "\<And>p w fl. st = PipeS p w fl \<Longrightarrow> \<exists>d. k_pipes k p = Some d \<and> pipe_wf d"
  shows "\<exists>fd k'. open_stream env b st k = Some (fd, k') \<and> kernel_ok os k' \<and> 0 \<le> fd \<and> fd \<notin> fds (k_table k) \<and>
    f_streams (k_table k') = f_streams (k_table k) @ [(fd, k_next k)] \<and> sw_heap (k_wrappers k') = (sw_heap (k_wrappers k))(k_next k \<mapsto> (b, 1)) \<and>
    k_streams k' = (k_streams k)(b \<mapsto> st) \<and> k_pipes k' = k_pipes k \<and> k_next k' = k_next k + 1"
proof -
  have ok: "fd_inv (k_table k, os, k_wrappers k)" "0 < k_next k" "wrapped_ok k" "objects_ok k" using assms(1) by (simp_all add: kernel_ok_def)
  have new: "sw_heap (k_wrappers k) (k_next k) = None"
    using ok(3) unfolding wrapped_ok_def by (cases "sw_heap (k_wrappers k) (k_next k)") auto
  then have "sw_count (k_wrappers k) (k_next k) = 0" by (simp add: sw_count_def)
  then obtain fd t s where r: "add_stream (k_next k) b (- 1) (k_table k, k_wrappers k) = Some (fd, t, s)" "fd_inv (t, os, s)" "0 \<le> fd"
      "fd \<notin> fds (k_table k)" "f_streams t = f_streams (k_table k) @ [(fd, k_next k)]" "sw_heap s = (sw_heap (k_wrappers k))(k_next k \<mapsto> (b, 1))"
    using add_stream_new [OF ok(1), of "k_next k" b] ok(2) assms(2) by (auto simp: few_handles_def)
  let ?k = "k\<lparr>k_streams := (k_streams k)(b \<mapsto> st), k_next := k_next k + 1, k_table := t, k_wrappers := s\<rparr>"
  have del: "sw_deleted s = sw_deleted (k_wrappers k)" using add_stream_deleted [OF r(1)] ok(2) by simp
  then have o: "open_stream env b st k = Some (fd, ?k)" using r(1) by (simp add: open_stream_def put_fds_def)
  have "wrapped_ok ?k"
    using ok(3) assms(3,4) unfolding wrapped_ok_def by (auto simp: r(6) split: if_splits) (metis less_SucI)+
  moreover have "objects_ok ?k" using ok(4) assms(5) unfolding objects_ok_def by auto
  ultimately have "kernel_ok os ?k" using r(2) by (simp add: kernel_ok_def)
  then show ?thesis using o r(3-6) by (intro exI [of _ fd] exI [of _ ?k]) simp
qed

lemma kernel_ok_next: "kernel_ok os k \<Longrightarrow> k_next k \<le> n \<Longrightarrow> kernel_ok os (k\<lparr>k_next := n\<rparr>)"
  by (auto simp: kernel_ok_def wrapped_ok_def objects_ok_def) (meson less_le_trans)+

lemma unused_base: "kernel_ok os k \<Longrightarrow> k_next k \<le> b \<Longrightarrow> sw_heap (k_wrappers k) a \<noteq> Some (b, n)"
  unfolding kernel_ok_def wrapped_ok_def by force

lemma pipe_init: "pipe_wf (StreamData_init g)" "pipe_contents (StreamData_init g) = []"
  using pipe_start_inv [of g] by (simp_all add: pipe_inv_def pipe_start_def produced_def)

lemma sys_pipe_ok:
  assumes "kernel_ok os k" "few_handles os k" "length (handles (k_table k) @ os) + 1 < 2 ^ 31 - 3" "VALIDATE_PTR ptr"
  shows "\<exists>r w k'. sys_pipe env ptr flags k = Ret (Inr (r, w), k') \<and> kernel_ok os k' \<and> r \<notin> fds (k_table k) \<and> w \<notin> fds (k_table k) \<and> r \<noteq> w \<and>
    f_streams (k_table k') = f_streams (k_table k) @ [(r, k_next k + 3), (w, k_next k + 4)] \<and>
    sw_heap (k_wrappers k') = (sw_heap (k_wrappers k))(k_next k + 3 \<mapsto> (k_next k + 1, 1), k_next k + 4 \<mapsto> (k_next k + 2, 1)) \<and>
    k_streams k' = (k_streams k)(k_next k + 1 \<mapsto> PipeS (k_next k) False flags, k_next k + 2 \<mapsto> PipeS (k_next k) True flags) \<and>
    k_pipes k' = (k_pipes k)(k_next k \<mapsto> StreamData_init (env_garbage env))"
proof -
  let ?p = "k_next k"
  let ?k0 = "k\<lparr>k_pipes := (k_pipes k)(?p \<mapsto> StreamData_init (env_garbage env)), k_next := ?p + 3\<rparr>"
  have k0: "kernel_ok os ?k0" using kernel_ok_next [OF kernel_ok_pipe [OF assms(1) pipe_init(1)], where n = "?p + 3"] by simp
  have "few_handles os ?k0" using assms(2) by (simp add: few_handles_def)
  moreover have "\<forall>a n. sw_heap (k_wrappers ?k0) a \<noteq> Some (b, n)" if "?p \<le> b" for b using unused_base [OF assms(1) that] by simp
  ultimately obtain r k1 where r: "open_stream env (?p + 1) (PipeS ?p False flags) ?k0 = Some (r, k1)" "kernel_ok os k1" "r \<notin> fds (k_table k)"
      "f_streams (k_table k1) = f_streams (k_table k) @ [(r, ?p + 3)]" "sw_heap (k_wrappers k1) = (sw_heap (k_wrappers k))(?p + 3 \<mapsto> (?p + 1, 1))"
      "k_streams k1 = (k_streams k)(?p + 1 \<mapsto> PipeS ?p False flags)" "k_pipes k1 = k_pipes ?k0" "k_next k1 = ?p + 4"
    using open_stream_ok [OF k0, of "?p + 1" "PipeS ?p False flags" env] pipe_init(1) by auto
  have "few_handles os k1" using assms(3) r(4) by (simp add: few_handles_def handles_def)
  moreover have "\<forall>a n. sw_heap (k_wrappers k1) a \<noteq> Some (?p + 2, n)" using unused_base [OF assms(1), of "?p + 2"] r(5) by simp
  ultimately obtain w k2 where w: "open_stream env (?p + 2) (PipeS ?p True flags) k1 = Some (w, k2)" "kernel_ok os k2" "w \<notin> fds (k_table k1)"
      "f_streams (k_table k2) = f_streams (k_table k1) @ [(w, ?p + 4)]" "sw_heap (k_wrappers k2) = (sw_heap (k_wrappers k1))(?p + 4 \<mapsto> (?p + 2, 1))"
      "k_streams k2 = (k_streams k1)(?p + 2 \<mapsto> PipeS ?p True flags)" "k_pipes k2 = k_pipes k1"
    using open_stream_ok [OF r(2), of "?p + 2" "PipeS ?p True flags" env] pipe_init(1) r(7,8) by auto
  have "fds (k_table k1) = insert r (fds (k_table k))" using r(4) by (simp add: fds_def)
  then have "w \<notin> fds (k_table k)" "r \<noteq> w" using w(3) by auto
  moreover have "sys_pipe env ptr flags k = Ret (Inr (r, w), k2)" using assms(4) r(1) w(1) by (simp add: sys_pipe_def)
  ultimately show ?thesis using r(3-7) w(2,4-7) by (intro exI [of _ r] exI [of _ w] exI [of _ k2]) simp
qed

lemma sys_openat_ok:
  assumes "kernel_ok os k" "few_handles os k" "sys_openat env path flags mode dirfd k = Ret (r, k')"
  shows "kernel_ok os k'"
proof -
  have node: "kernel_ok os k'" if "kernel_ok os k" "few_handles os k" "open_node env v flags mode k = Ret (r, k')" for v and k :: "'a kernel"
  proof -
    let ?b = "k_next k" and ?k = "k\<lparr>k_next := k_next k + 1\<rparr>"
    have k: "kernel_ok os ?k" using kernel_ok_next [OF that(1), of "?b + 1"] by simp
    have new: "kernel_ok os k2" if o: "open_stream env ?b st k1 = Some (fd, k2)" "kernel_ok os k1" "k_wrappers k1 = k_wrappers k" "k_table k1 = k_table k"
        "k_next k1 = ?b + 1" "\<And>p w fl. st \<noteq> PipeS p w fl" for st fd k1 k2
      using open_stream_ok [OF o(2), of ?b st env] o unused_base [OF \<open>kernel_ok os k\<close>] \<open>few_handles os k\<close> by (auto simp: few_handles_def)
    show ?thesis
    proof (cases "flags AND O_DIRECTORY \<noteq> 0")
      case True
      then show ?thesis using that k new
        by (auto simp: open_node_def open_directory_def dir_stream_open_def Let_def split: option.splits if_splits sum.splits prod.splits)
    next
      case False
      then show ?thesis using that k new
        by (auto simp: open_node_def open_file_def fstream_open_def Let_def split: option.splits if_splits sum.splits prod.splits)
    qed
  qed
  have "kernel_ok os k'" if "open_node env v flags mode (k\<lparr>k_vfs := st\<rparr>) = Ret (r, k')" for v st
    using node [OF _ _ that] assms(1,2) by (simp add: few_handles_def)
  then show ?thesis using assms(1,3)
    by (auto simp: sys_openat_def split: outcome.splits sum.splits option.splits prod.splits)
qed

section \<open>Runs\<close>

text \<open>The calls of a process on its streams. Closing a negative number and duplicating a descriptor onto itself are excepted.\<close>

inductive call_step :: "'s stream_env \<Rightarrow> nat list \<Rightarrow> 's kernel \<Rightarrow> 's kernel \<Rightarrow> bool" for env os where
  call_read: "sys_read env fd len k = Ret (r, k') \<Longrightarrow> call_step env os k k'"
| call_write: "sys_write env fd src k = Ret (r, k') \<Longrightarrow> call_step env os k k'"
| call_seek: "sys_seek env fd position mode k = Ret (r, k') \<Longrightarrow> call_step env os k k'"
| call_ioctl: "sys_ioctl env fd request arg k = Ret (r, k') \<Longrightarrow> call_step env os k k'"
| call_close: "0 \<le> fd \<Longrightarrow> sys_close env fd k = Ret (r, k') \<Longrightarrow> call_step env os k k'"
| call_dup: "oldfd \<noteq> newfd \<Longrightarrow> newfd = - 1 \<or> 0 \<le> newfd \<Longrightarrow> few_handles os k \<Longrightarrow> sys_dup env oldfd newfd k = Ret (r, k') \<Longrightarrow> call_step env os k k'"
| call_pipe: "length (handles (k_table k) @ os) + 1 < 2 ^ 31 - 3 \<Longrightarrow> sys_pipe env ptr flags k = Ret (r, k') \<Longrightarrow> call_step env os k k'"
| call_openat: "few_handles os k \<Longrightarrow> sys_openat env path flags mode dirfd k = Ret (r, k') \<Longrightarrow> call_step env os k k'"
| call_symlinkat: "sys_symlinkat env target_ptr link_ptr target dirfd linkpath k = Ret (r, k') \<Longrightarrow> call_step env os k k'"

lemma call_step_ok: "call_step env os k k' \<Longrightarrow> kernel_ok os k \<Longrightarrow> kernel_ok os k'"
proof (induction rule: call_step.induct)
  case (call_read fd len k r k')
  then show ?case using sys_read_ok [of os k env fd len] by auto
next
  case (call_write fd src k r k')
  then show ?case using sys_write_ok [of os k env fd src] by auto
next
  case (call_seek fd position mode k r k')
  then show ?case using sys_seek_ok [of os k env fd position mode] by auto
next
  case (call_ioctl fd request arg k r k')
  then show ?case using sys_ioctl_ok [of os k env fd request arg] by auto
next
  case (call_close fd k r k')
  then show ?case using sys_close_ok [of os k fd env] by auto
next
  case (call_dup oldfd newfd k r k')
  then show ?case using sys_dup_ok [of os k oldfd newfd env] by auto
next
  case (call_pipe k ptr flags r k')
  show ?case
  proof (cases "VALIDATE_PTR ptr")
    case True
    then show ?thesis using sys_pipe_ok [OF call_pipe.prems _ call_pipe.hyps(1) True, of env flags] call_pipe by (auto simp: few_handles_def)
  qed (use call_pipe in \<open>simp add: sys_pipe_def\<close>)
next
  case (call_openat k path flags mode dirfd r k')
  then show ?case using sys_openat_ok by blast
next
  case (call_symlinkat target_ptr link_ptr target dirfd linkpath k r k')
  then show ?case
    by (auto simp: sys_symlinkat_def split: if_splits outcome.splits sum.splits option.splits prod.splits)
qed

lemma calls_ok: "(call_step env os)\<^sup>*\<^sup>* k k' \<Longrightarrow> kernel_ok os k \<Longrightarrow> kernel_ok os k'"
  by (induction rule: rtranclp_induct) (auto intro: call_step_ok)

text \<open>A process without streams\<close>

definition kernel_new :: "vfs_state \<Rightarrow> 's \<Rightarrow> 's kernel" where
  "kernel_new vfs fs = \<lparr>k_table = fd_table_new, k_wrappers = no_wrappers, k_streams = (\<lambda>_. None), k_pipes = (\<lambda>_. None), k_next = 1,
     k_cwd = [0x2F], k_vfs = vfs, k_fs = fs\<rparr>"

lemma kernel_new_ok: "kernel_ok [] (kernel_new vfs fs)"
  using fd_inv_start by (simp add: kernel_ok_def kernel_new_def wrapped_ok_def objects_ok_def no_wrappers_def)

section \<open>The loops of a pipe that do not wait\<close>

lemma pipe_read_available:
  assumes "pipe_wf d" "length got \<le> len" "len - length got \<le> length (pipe_contents d)"
  shows "\<exists>d'. pipe_read_loop len got d = Some (d', Inr len, got @ take (len - length got) (pipe_contents d)) \<and> pipe_wf d' \<and>
    pipe_contents d' = drop (len - length got) (pipe_contents d)"
  using assms
proof (induction "len - length got" arbitrary: got d)
  case 0
  then show ?case by (subst pipe_read_loop.simps) (simp add: read_step_def)
next
  case (Suc n)
  then obtain b bs where b: "pipe_contents d = b # bs" by (cases "pipe_contents d") auto
  note t = take_byte_spec [OF Suc.prems(1) b]
  have ne: "f_readHead d \<noteq> f_writeHead d" using pipe_empty_iff [OF Suc.prems(1)] b by auto
  have l: "length got < len" "len - length got = Suc n" using Suc.hyps(2) by linarith+
  then have step: "pipe_read_loop len got d = pipe_read_loop len (got @ [b]) (snd (take_byte d))"
    using ne t(1) by (subst pipe_read_loop.simps) (simp add: read_step_def split_beta)
  have n: "n = len - length (got @ [b])" "length (got @ [b]) \<le> len" "len - length (got @ [b]) \<le> length (pipe_contents (snd (take_byte d)))"
    using l Suc.prems(3) b t(3) by auto
  obtain d' where "pipe_read_loop len (got @ [b]) (snd (take_byte d)) = Some (d', Inr len, (got @ [b]) @ take n bs)" "pipe_wf d'" "pipe_contents d' = drop n bs"
    using Suc.hyps(1) [OF n(1) t(2) n(2,3)] unfolding t(3) n(1) [symmetric] by blast
  then show ?case using step l(2) b by auto
qed

lemma pipe_write_room:
  assumes "pipe_wf d" "sent = take (length sent) src" "length sent \<le> length src" "length (pipe_contents d) + (length src - length sent) < buffer_size"
  shows "\<exists>d'. pipe_write_loop src (length src) sent d = Some (d', Inr (length src), src) \<and> pipe_wf d' \<and>
    pipe_contents d' = pipe_contents d @ drop (length sent) src \<and> f_writeClosed d' = f_writeClosed d"
  using assms
proof (induction "length src - length sent" arbitrary: sent d)
  case 0
  have "length src \<le> length sent" using 0(1) by linarith
  then have "sent = src" using 0(3) take_all by metis
  moreover have "pipe_write_loop src (length src) src d = Some (d, Inr (length src), src)"
    by (subst pipe_write_loop.simps) (simp add: write_step_def)
  ultimately show ?case using 0(2) by simp
next
  case (Suc n)
  let ?b = "src ! length sent"
  have l: "length sent < length src" "length src - length sent = Suc n" using Suc.hyps(2) by linarith+
  have nf: "\<not> pipe_full d" using pipe_full_iff [OF Suc.prems(1)] Suc.prems(4) l(2) by auto
  note p = put_byte_spec [OF Suc.prems(1) nf, of ?b]
  have step: "pipe_write_loop src (length src) sent d = pipe_write_loop src (length src) (sent @ [?b]) (put_byte ?b d)"
    using l(1) nf by (subst pipe_write_loop.simps) (simp add: write_step_def Let_def)
  have "sent @ [?b] = take (length (sent @ [?b])) src" using take_Suc_conv_app_nth [OF l(1)] Suc.prems(2) by simp
  moreover have "n = length src - length (sent @ [?b])" "length (sent @ [?b]) \<le> length src"
    "length (pipe_contents (put_byte ?b d)) + (length src - length (sent @ [?b])) < buffer_size" using l Suc.prems(4) p(2) by auto
  ultimately obtain d' where "pipe_write_loop src (length src) (sent @ [?b]) (put_byte ?b d) = Some (d', Inr (length src), src)" "pipe_wf d'"
      "pipe_contents d' = pipe_contents (put_byte ?b d) @ drop (length (sent @ [?b])) src" "f_writeClosed d' = f_writeClosed (put_byte ?b d)"
    using Suc.hyps(1) [of "sent @ [?b]" "put_byte ?b d"] p(1) by blast
  moreover have "drop (length sent) src = ?b # drop (Suc (length sent)) src" using Cons_nth_drop_Suc [OF l(1)] by simp
  moreover have "f_writeClosed (put_byte ?b d) = f_writeClosed d" by (simp add: put_byte_def)
  ultimately show ?case using step p(2) by auto
qed

lemma get_pipe_end:
  assumes "fd_inv (t, os, s)" "(fd, a) \<in> set (f_streams t)" "sw_heap s a = Some (b, n)"
  shows "get_stream fd (t, s) = Some (Some b)"
proof -
  have at: "fd_at fd t = Some a" using assms(1,2) fd_at_cases [of t fd a] by (simp add: fd_inv_def)
  then have "a \<noteq> 0" using fd_at_live(1) [OF assms(1) at] by blast
  then show ?thesis using at assms(3) by (simp add: get_stream_def sw_base_def)
qed

definition sample_stream_env :: "unit stream_env" where
  "sample_stream_env = \<lparr>env_open = \<lambda>_ _ s. (Inl ENOTSUP, s), env_read = \<lambda>_ _ s. (Inl ENOTSUP, s), env_write = \<lambda>_ _ s. (Inl ENOTSUP, s),
     env_seek = \<lambda>_ _ _ s. (Inl ENOTSUP, s), env_ioctl = \<lambda>_ _ _ s. (Inl ENOTSUP, s), env_close = \<lambda>_ s. s, env_symlink = \<lambda>_ _ _ s. (Inl ENOTSUP, s), env_modules = no_modules, env_garbage = \<lambda>_. 0\<rparr>"

section \<open>Properties\<close>



text \<open>C25: after any calls, \<^verbatim>\<open>pipe\<close> returns two descriptors that were free; what is then written to the second one, up to the 4095
  bytes the pipe holds, is read from the first one in order, and neither call waits.\<close>
theorem pipe_write_then_read:
  assumes "(call_step env [])\<^sup>*\<^sup>* (kernel_new vfs fs) k" "length (handles (k_table k)) + 1 < 2 ^ 31 - 3" "VALIDATE_PTR ptr"
    "length src < buffer_size" "n \<le> length src"
  shows "\<exists>r w k1 k2 k3. sys_pipe env ptr flags k = Ret (Inr (r, w), k1) \<and> r \<notin> fds (k_table k) \<and> w \<notin> fds (k_table k) \<and> r \<noteq> w \<and>
    sys_write env w src k1 = Ret (Inr (length src), k2) \<and> sys_read env r n k2 = Ret (Inr (take n src), k3)"
proof -
  let ?p = "k_next k"
  have ok: "kernel_ok [] k" by (rule calls_ok [OF assms(1) kernel_new_ok])
  obtain r w k1 where k1: "sys_pipe env ptr flags k = Ret (Inr (r, w), k1)" "kernel_ok [] k1" "r \<notin> fds (k_table k)" "w \<notin> fds (k_table k)" "r \<noteq> w"
      "f_streams (k_table k1) = f_streams (k_table k) @ [(r, ?p + 3), (w, ?p + 4)]"
      "sw_heap (k_wrappers k1) = (sw_heap (k_wrappers k))(?p + 3 \<mapsto> (?p + 1, 1), ?p + 4 \<mapsto> (?p + 2, 1))"
      "k_streams k1 = (k_streams k)(?p + 1 \<mapsto> PipeS ?p False flags, ?p + 2 \<mapsto> PipeS ?p True flags)"
      "k_pipes k1 = (k_pipes k)(?p \<mapsto> StreamData_init (env_garbage env))"
    using sys_pipe_ok [OF ok _ _ assms(3), of env flags] assms(2) by (auto simp: few_handles_def)
  have inv: "fd_inv (k_table k1, [], k_wrappers k1)" using k1(2) by (simp add: kernel_ok_def)
  have ends: "get_stream r (k_table k1, k_wrappers k1) = Some (Some (?p + 1))" "get_stream w (k_table k1, k_wrappers k1) = Some (Some (?p + 2))"
    using get_pipe_end [OF inv, of r "?p + 3" "?p + 1" 1] get_pipe_end [OF inv, of w "?p + 4" "?p + 2" 1] by (simp_all add: k1(6,7))
  let ?d = "StreamData_init (env_garbage env)"
  obtain d where d: "pipe_write_loop src (length src) [] ?d = Some (d, Inr (length src), src)" "pipe_wf d" "pipe_contents d = src" "f_writeClosed d = f_writeClosed ?d"
    using pipe_write_room [of ?d "[]" src] pipe_init [of "env_garbage env"] assms(4) by auto
  have wr: "pipe_write True src ?d = Some (d, Inr (length src), src)" using d(1) by (simp add: pipe_write_def write_begin_def StreamData_init_def)
  let ?k2 = "k1\<lparr>k_pipes := (k_pipes k1)(?p \<mapsto> d)\<rparr>"
  have w2: "sys_write env w src k1 = Ret (Inr (length src), ?k2)"
    using ends(2) wr by (simp add: sys_write_def with_stream_def base_write_def k1(8,9))
  obtain d' where d': "pipe_read_loop n [] d = Some (d', Inr n, take n src)" using pipe_read_available [OF d(2), of "[]" n] d(3) assms(5) by auto
  have "\<not> f_writeClosed d" using d(4) by (simp add: StreamData_init_def)
  then have "pipe_read False n d = Some (d', Inr n, take n src)" using d' by (simp add: pipe_read_def read_begin_def)
  then have "sys_read env r n ?k2 = Ret (Inr (take n src), ?k2\<lparr>k_pipes := (k_pipes ?k2)(?p \<mapsto> d')\<rparr>)"
    using ends(1) by (simp add: sys_read_def with_stream_def base_read_def k1(8))
  then show ?thesis using k1(1,3,4,5) w2 by blast
qed

theorem pipe_write_then_read_witness:
  "\<exists>r w k1 k2 k3. sys_pipe sample_stream_env 0x1000 0 (kernel_new empty_devfs ()) = Ret (Inr (r, w), k1) \<and>
    sys_write sample_stream_env w [1, 2, 3] k1 = Ret (Inr 3, k2) \<and> sys_read sample_stream_env r 2 k2 = Ret (Inr [1, 2], k3)"
proof -
  have "(call_step sample_stream_env [])\<^sup>*\<^sup>* (kernel_new empty_devfs ()) (kernel_new empty_devfs ())" by simp
  moreover have "length (handles (k_table (kernel_new empty_devfs ()))) + 1 < 2 ^ 31 - 3" by (simp add: kernel_new_def handles_def fd_table_new_def)
  moreover have "VALIDATE_PTR 0x1000" by (simp add: VALIDATE_PTR_def KERNEL_START_def)
  ultimately show ?thesis
    using pipe_write_then_read [of sample_stream_env empty_devfs "()" "kernel_new empty_devfs ()" "0x1000" "[1, 2, 3]" 2 0]
    by (simp add: buffer_size_def numeral_3_eq_3) blast
qed

end
