(* ===== verification/Exec_Stack.thy ===== *)
theory Exec_Stack
  imports Events
begin

unbundle bit_operations_syntax

text \<open>
  The initial stack of a program (\<^verbatim>\<open>Process::execve\<close> in \<^verbatim>\<open>kernel/src/tasking/syscalls/process.cpp\<close>): the number of arguments, the
  pointers to arguments and environment strings, an empty auxiliary vector and the strings. The stack from \<^verbatim>\<open>execStack\<close> to
  \<^verbatim>\<open>stackEnd\<close> is a list of bytes; an address is the start of the stack plus an index.
\<close>

section \<open>Operations\<close>

definition arg_store_size :: "u8 list list \<Rightarrow> nat" where
  "arg_store_size args = sum_list (map (\<lambda>s. length s + 1) args)"

definition exec_stack_size :: "u8 list list \<Rightarrow> u8 list list \<Rightarrow> nat" where
  "exec_stack_size args envs =
     (let size = (4 + length args + length envs) * 8 + arg_store_size args + arg_store_size envs
      in if size AND 0xF \<noteq> 0 then (size OR 0xF) + 1 else size)"

text \<open>One of the two loops: the stack, \<^verbatim>\<open>stackOffset\<close> and \<^verbatim>\<open>infoBlock\<close>\<close>

fun put_strings :: "u64 \<Rightarrow> u8 list list \<Rightarrow> u8 list \<times> nat \<times> u64 \<Rightarrow> u8 list \<times> nat \<times> u64" where
  "put_strings execStack [] st = st"
| "put_strings execStack (arg # args) (buf, stackOffset, infoBlock) =
     put_strings execStack args
       (put_bytes (unat (infoBlock - execStack)) (arg @ [0]) (put_bytes (8 * stackOffset) (le_bytes 8 infoBlock) buf),
        stackOffset + 1, infoBlock + of_nat (length arg + 1))"

definition put_word :: "u64 \<Rightarrow> u8 list \<times> nat \<times> u64 \<Rightarrow> u8 list \<times> nat \<times> u64" where
  "put_word w st = (case st of (buf, stackOffset, infoBlock) \<Rightarrow>
     (put_bytes (8 * stackOffset) (le_bytes 8 w) buf, stackOffset + 1, infoBlock))"

definition exec_stack :: "u64 \<Rightarrow> u8 list \<Rightarrow> u8 list list \<Rightarrow> u8 list list \<Rightarrow> u64 \<times> u8 list" where
  "exec_stack stackEnd garbage args envs =
     (let execStack = stackEnd - of_nat (exec_stack_size args envs);
          infoBlock = execStack + of_nat ((4 + length args + length envs) * 8);
          st = put_word (of_nat (length args)) (garbage, 0, infoBlock);
          st = put_word 0 (put_strings execStack args st);
          st = put_word 0 (put_strings execStack envs st);
          st = put_word 0 st
      in (execStack, fst st))"

section \<open>Layout\<close>

lemma or_15: "(n :: nat) OR 15 = 16 * (n div 16) + 15"
proof -
  have m: "mask 4 = (15 :: nat)" by (simp add: mask_eq_exp_minus_1)
  have "take_bit 4 (n OR mask 4) = (mask 4 :: nat)" by (rule bit_eqI) (auto simp: bit_take_bit_iff bit_or_iff bit_mask_iff)
  then have "take_bit 4 (n OR 15) = 15" unfolding m .
  moreover have "drop_bit 4 (n OR 15) = drop_bit 4 n" by simp
  ultimately show ?thesis using bits_ident [of 4 "n OR 15"] by (simp add: push_bit_eq_mult drop_bit_eq_div mult.commute)
qed

lemma size_bounds:
  "(4 + length args + length envs) * 8 + arg_store_size args + arg_store_size envs \<le> exec_stack_size args envs"
  "16 dvd exec_stack_size args envs"
proof -
  let ?n = "(4 + length args + length envs) * 8 + arg_store_size args + arg_store_size envs"
  have m: "?n AND 15 = ?n mod 16" using take_bit_eq_mask [of 4 ?n] by (simp add: take_bit_eq_mod mask_eq_exp_minus_1)
  show "?n \<le> exec_stack_size args envs" unfolding exec_stack_size_def Let_def m or_15 using div_mult_mod_eq [of ?n 16] by auto
  show "16 dvd exec_stack_size args envs" unfolding exec_stack_size_def Let_def m or_15 by auto
qed

lemma len64: "LENGTH(64) = 64" by simp

lemma put_mid: "p = length A \<Longrightarrow> length bs \<le> length X \<Longrightarrow> put_bytes p bs (A @ X @ R) = A @ bs @ drop (length bs) X @ R"
  by (simp add: put_bytes_def)

definition ptr_table :: "u64 \<Rightarrow> u8 list list \<Rightarrow> u8 list" where
  "ptr_table a ss = concat (map (le_bytes 8) (string_ptrs a ss))"

definition string_block :: "u8 list list \<Rightarrow> u8 list" where
  "string_block ss = concat (map (\<lambda>s. s @ [0]) ss)"

lemma length_ptr_table [simp]: "length (ptr_table a ss) = 8 * length ss"
  by (simp add: ptr_table_def)

lemma length_string_block [simp]: "length (string_block ss) = arg_store_size ss"
  by (induction ss) (simp_all add: string_block_def arg_store_size_def)

lemma put_strings_layout:
  assumes "length A = 8 * slot" "8 * length ss \<le> length X" "arg_store_size ss \<le> length Y" "info = base + of_nat (length (A @ X @ B))"
    and "length (A @ X @ B @ Y) < 2 ^ 64"
  shows "put_strings base ss (A @ X @ B @ Y, slot, info) =
    (A @ ptr_table info ss @ drop (8 * length ss) X @ B @ string_block ss @ drop (arg_store_size ss) Y, slot + length ss,
     info + of_nat (arg_store_size ss))"
  using assms
proof (induction ss arbitrary: A X B Y slot info)
  case Nil
  then show ?case by (simp add: ptr_table_def string_block_def arg_store_size_def)
next
  case (Cons s ss)
  have len: "arg_store_size (s # ss) = length s + 1 + arg_store_size ss" by (simp add: arg_store_size_def)
  have "info - base = of_nat (length (A @ X @ B))" using Cons.prems(4) by (simp only: add_diff_cancel_left')
  moreover have "length (A @ X @ B) < 2 ^ 64" using Cons.prems(5) by simp
  ultimately have off: "unat (info - base) = length (A @ X @ B)" by (simp only: unat_of_nat_less len64)
  let ?A = "A @ le_bytes 8 info" and ?X = "drop 8 X" and ?B = "B @ s @ [0]" and ?Y = "drop (length s + 1) Y"
  have "put_bytes (8 * slot) (le_bytes 8 info) (A @ X @ B @ Y) = ?A @ ?X @ B @ Y"
    using put_mid [of "8 * slot" A "le_bytes 8 info" X "B @ Y"] Cons.prems(1,2) by simp
  moreover have "put_bytes (unat (info - base)) (s @ [0]) (?A @ ?X @ B @ Y) = ?A @ ?X @ ?B @ ?Y"
    using put_mid [of "unat (info - base)" "?A @ ?X @ B" "s @ [0]" Y "[]"] off Cons.prems(2,3) len by simp
  moreover have "put_strings base ss (?A @ ?X @ ?B @ ?Y, slot + 1, info + of_nat (length s + 1)) =
      (?A @ ptr_table (info + of_nat (length s + 1)) ss @ drop (8 * length ss) ?X @ ?B @ string_block ss @ drop (arg_store_size ss) ?Y,
       slot + 1 + length ss, info + of_nat (length s + 1) + of_nat (arg_store_size ss))"
    using Cons.prems len by (intro Cons.IH) (simp_all add: add.assoc)
  ultimately show ?case using len by (simp add: ptr_table_def string_block_def add.assoc add.commute)
qed

lemma put_word_layout:
  assumes "length A = 8 * slot" "8 \<le> length X"
  shows "put_word w (A @ X @ R, slot, info) = (A @ le_bytes 8 w @ drop 8 X @ R, slot + 1, info)"
  using put_mid [of "8 * slot" A "le_bytes 8 w" X R] assms by (simp add: put_word_def)

text \<open>The whole stack\<close>

lemma exec_stack_bytes:
  assumes "length garbage = exec_stack_size args envs" "exec_stack_size args envs < 2 ^ 64"
    and "base = stackEnd - of_nat (exec_stack_size args envs)" "info = base + of_nat ((4 + length args + length envs) * 8)"
  shows "\<exists>pad. exec_stack stackEnd garbage args envs = (base,
    le_bytes 8 (of_nat (length args) :: u64) @ ptr_table info args @ le_bytes 8 (0 :: u64) @
    ptr_table (info + of_nat (arg_store_size args)) envs @ le_bytes 8 (0 :: u64) @ le_bytes 8 (0 :: u64) @
    string_block args @ string_block envs @ pad) \<and>
    8 * (4 + length args + length envs) + arg_store_size args + arg_store_size envs + length pad = exec_stack_size args envs"
proof -
  let ?a = "length args" and ?e = "length envs" and ?z = "le_bytes 8 (0 :: u64)" and ?n = "le_bytes 8 (of_nat (length args) :: u64)"
  define X where "X = take (8 * (4 + ?a + ?e)) garbage"
  define Y where "Y = drop (8 * (4 + ?a + ?e)) garbage"
  have g: "garbage = [] @ X @ Y" by (simp add: X_def Y_def)
  note sz = size_bounds(1) [of args envs]
  have lX: "length X = 8 * (4 + ?a + ?e)" using assms(1) sz by (simp add: X_def)
  have lY: "arg_store_size args + arg_store_size envs \<le> length Y" "length X + length Y = exec_stack_size args envs"
    using assms(1) sz by (simp_all add: X_def Y_def)
  let ?X1 = "drop 8 X" and ?i2 = "info + of_nat (arg_store_size args)" and ?Y1 = "drop (arg_store_size args) Y"
  let ?X2 = "drop 8 (drop (8 * ?a) ?X1)" and ?A1 = "?n @ ptr_table info args"
  have s1: "put_word (of_nat ?a) (garbage, 0, info) = (?n @ ?X1 @ [] @ Y, 1, info)"
    using put_word_layout [of "[]" 0 X "of_nat ?a" Y info] lX g by simp
  have s2: "put_strings base args (?n @ ?X1 @ [] @ Y, 1, info) = (?A1 @ drop (8 * ?a) ?X1 @ string_block args @ ?Y1, 1 + ?a, ?i2)"
    using put_strings_layout [of ?n 1 args ?X1 Y info base "[]"] lX lY assms(2,4) by (simp add: mult.commute)
  have s3: "put_word 0 (?A1 @ drop (8 * ?a) ?X1 @ string_block args @ ?Y1, 1 + ?a, ?i2) =
      ((?A1 @ ?z) @ ?X2 @ string_block args @ ?Y1, 2 + ?a, ?i2)"
    using put_word_layout [of ?A1 "1 + ?a" "drop (8 * ?a) ?X1" 0 "string_block args @ ?Y1" ?i2] lX by simp
  have "?i2 = base + of_nat (length ((?A1 @ ?z) @ ?X2 @ string_block args))"
    unfolding assms(4) add.assoc of_nat_add [symmetric] using lX by (intro arg_cong2 [where f = "(+)"] refl arg_cong [where f = of_nat]) simp
  then have s4: "put_strings base envs ((?A1 @ ?z) @ ?X2 @ string_block args @ ?Y1, 2 + ?a, ?i2) =
      ((?A1 @ ?z) @ ptr_table ?i2 envs @ drop (8 * ?e) ?X2 @ string_block args @ string_block envs @ drop (arg_store_size envs) ?Y1, 2 + ?a + ?e,
       ?i2 + of_nat (arg_store_size envs))"
    using lX lY assms(2) by (intro put_strings_layout) simp_all
  let ?A2 = "(?A1 @ ?z) @ ptr_table ?i2 envs" and ?X3 = "drop (8 * ?e) ?X2" and ?R = "string_block args @ string_block envs @ drop (arg_store_size envs) ?Y1"
  let ?i3 = "?i2 + of_nat (arg_store_size envs)"
  have t4: "put_strings base envs ((?A1 @ ?z) @ ?X2 @ string_block args @ ?Y1, 2 + ?a, ?i2) = (?A2 @ ?X3 @ ?R, 2 + ?a + ?e, ?i3)"
    using s4 by (simp only: append.assoc)
  have s5: "put_word 0 (?A2 @ ?X3 @ ?R, 2 + ?a + ?e, ?i3) = ((?A2 @ ?z) @ drop 8 ?X3 @ ?R, 3 + ?a + ?e, ?i3)"
    using put_word_layout [of ?A2 "2 + ?a + ?e" ?X3 0 ?R ?i3] lX by simp
  have s6: "put_word 0 ((?A2 @ ?z) @ drop 8 ?X3 @ ?R, 3 + ?a + ?e, ?i3) = ((?A2 @ ?z) @ ?z @ ?R, 4 + ?a + ?e, ?i3)"
    using put_word_layout [of "?A2 @ ?z" "3 + ?a + ?e" "drop 8 ?X3" 0 ?R ?i3] lX by simp
  have "exec_stack stackEnd garbage args envs = (base, (?A2 @ ?z) @ ?z @ ?R)"
    unfolding exec_stack_def Let_def assms(3) [symmetric] assms(4) [symmetric] s1 s2 s3 t4 s5 s6 fst_conv ..
  moreover have "length (drop (arg_store_size envs) ?Y1) = length Y - arg_store_size args - arg_store_size envs" by simp
  then have "8 * (4 + ?a + ?e) + arg_store_size args + arg_store_size envs + length (drop (arg_store_size envs) ?Y1) = exec_stack_size args envs"
    using lX lY by linarith
  ultimately show ?thesis by (intro exI [of _ "drop (arg_store_size envs) ?Y1"]) (simp only: append.assoc)
qed

section \<open>Properties\<close>

text \<open>C26: the stack that \<^verbatim>\<open>execve\<close> prepares is aligned to 16 bytes, every write stays below \<^verbatim>\<open>stackEnd\<close>, and a program that reads it finds
  the number of arguments, a null-terminated table of its arguments, a null-terminated table of the environment and an empty
  auxiliary vector.\<close>
theorem exec_stack_correct:
  assumes "length garbage = exec_stack_size args envs" "exec_stack_size args envs < unat stackEnd" "unat stackEnd mod 16 = 0"
    "list_all (\<lambda>s. 0 \<notin> set s) (args @ envs)" "exec_stack stackEnd garbage args envs = (sp, stack)"
  shows "unat sp + length stack = unat stackEnd \<and> unat sp mod 16 = 0 \<and> le_field 0 8 stack = (of_nat (length args) :: u64) \<and>
    argv_at sp stack 8 = args \<and> argv_at sp stack (8 * (length args + 2)) = envs \<and>
    le_field (8 * (length args + length envs + 3)) 8 stack = (0 :: u64)"
proof -
  let ?n = "exec_stack_size args envs" and ?z = "le_bytes 8 (0 :: u64)" and ?c = "le_bytes 8 (of_nat (length args) :: u64)"
  let ?i = "sp + of_nat ((4 + length args + length envs) * 8)" and ?A = "arg_store_size args"
  have e64: "unat stackEnd < 2 ^ LENGTH(64)" by (rule unsigned_less)
  then have lt: "?n < 2 ^ 64" using assms(2) by simp
  have sp: "sp = stackEnd - of_nat ?n" using assms(5) by (simp add: exec_stack_def Let_def)
  have n: "unat (of_nat ?n :: u64) = ?n" using lt by (intro unat_of_nat_less) simp
  then have usp: "unat sp = unat stackEnd - ?n" using assms(2) unfolding sp by (subst unat_sub) (simp_all add: word_le_nat_alt)
  obtain pad where st: "stack = ?c @ ptr_table ?i args @ ?z @ ptr_table (?i + of_nat ?A) envs @ ?z @ ?z @ string_block args @ string_block envs @ pad"
      "8 * (4 + length args + length envs) + ?A + arg_store_size envs + length pad = ?n"
    using exec_stack_bytes [OF assms(1) lt sp refl] assms(5) by auto
  have len: "length stack = ?n" unfolding st(1) st(2) [symmetric] by simp
  have wrap: "unat sp + length stack < 2 ^ 64" using usp len assms(2) e64 by simp
  have nz: "sp \<noteq> 0" using usp assms(2) by auto
  have "16 dvd unat stackEnd - ?n" using assms(3) size_bounds(2) [of args envs] by (intro dvd_diff_nat) auto
  then have al: "unat sp mod 16 = 0" using usp by auto
  let ?P = "?c @ ptr_table ?i args @ ?z @ ptr_table (?i + of_nat ?A) envs @ ?z @ ?z"
  have ok: "list_all (\<lambda>s. 0 \<notin> set s) args" "list_all (\<lambda>s. 0 \<notin> set s) envs" using assms(4) by simp_all
  have pa: "list_all2 (\<lambda>a s. a \<noteq> 0 \<and> string_at stack (unat (a - sp)) = s) (string_ptrs ?i args) args"
    by (rule string_ptrs_point [OF ok(1), where pre = ?P and post = "string_block envs @ pad"]) (use st(1) nz wrap in \<open>simp_all add: string_block_def\<close>)
  have pe: "list_all2 (\<lambda>a s. a \<noteq> 0 \<and> string_at stack (unat (a - sp)) = s) (string_ptrs (sp + of_nat ((4 + length args + length envs) * 8 + ?A)) envs) envs"
    by (rule string_ptrs_point [OF ok(2), where pre = "?P @ string_block args" and post = pad])
      (use st(1) nz wrap in \<open>simp_all add: string_block_def length_string_block [unfolded string_block_def]\<close>)
  have "argv_at sp stack 8 = args"
    by (rule argv_at_table [OF pa, where pre = ?c]) (use st(1) in \<open>simp_all add: ptr_table_def\<close>)
  moreover have "argv_at sp stack (8 * (length args + 2)) = envs"
    by (rule argv_at_table [OF pe, where pre = "?c @ ptr_table ?i args @ ?z"]) (use st(1) in \<open>simp_all add: ptr_table_def add.assoc\<close>)
  moreover have "le_field 0 8 stack = (of_nat (length args) :: u64)" using le_field_bytes [of "[]" 0 8 "of_nat (length args) :: u64"] st(1) by simp
  moreover have "le_field (8 * (length args + length envs + 3)) 8 stack = (0 :: u64)"
  proof -
    have "length (?c @ ptr_table ?i args @ ?z @ ptr_table (?i + of_nat ?A) envs @ ?z) = 8 * (length args + length envs + 3)" by simp
    from le_field_bytes [OF this, of 8 "0 :: u64" "string_block args @ string_block envs @ pad"] show ?thesis
      unfolding st(1) append.assoc by simp
  qed
  ultimately show ?thesis using usp len al assms(2) by simp
qed

theorem exec_stack_correct_witness:
  "\<exists>sp stack. exec_stack 0x7FFF00000000 (replicate 48 0) [[0x61]] [] = (sp, stack) \<and> unat sp mod 16 = 0 \<and>
    argv_at sp stack 8 = [[0x61]] \<and> argv_at sp stack 24 = []"
proof -
  obtain sp stack where e: "exec_stack 0x7FFF00000000 (replicate 48 0) [[0x61]] [] = (sp, stack)" by fastforce
  have "exec_stack_size [[0x61]] [] = 48" by (simp add: exec_stack_size_def arg_store_size_def or_15)
  then show ?thesis using exec_stack_correct [OF _ _ _ _ e] e by simp
qed

end
