(* ===== verification/Module_Link.thy ===== *)
theory Module_Link
  imports Events Vfs
begin

unbundle bit_operations_syntax

text \<open>
  Loading and linking of kernel modules (\<^verbatim>\<open>kernel/src/modules/module.cpp\<close>, structures of \<^verbatim>\<open>kernel/std/include/elf.h\<close>): the extent of the
  segments, their copy into memory, the symbol table, the module header and the relocations. Memory is a function from addresses
  to bytes; the module file lies in it. \<open>None\<close> is a string without end, a division by zero or the use of a null module. The
  mapping of pages is left to the models of the pager and the page allocator.
\<close>

section \<open>Memory\<close>

definition mem_bytes :: "memory \<Rightarrow> u64 \<Rightarrow> nat \<Rightarrow> u8 list" where
  "mem_bytes mem a n = map (\<lambda>i. mem (a + of_nat i)) [0..<n]"

definition mem_read :: "nat \<Rightarrow> u64 \<Rightarrow> memory \<Rightarrow> 'a::len word" where
  "mem_read n a mem = le_value (mem_bytes mem a n)"

definition mem_write :: "u64 \<Rightarrow> u8 list \<Rightarrow> memory \<Rightarrow> memory" where
  "mem_write a bs mem = (\<lambda>x. if unat (x - a) < length bs then bs ! unat (x - a) else mem x)"

definition write64 :: "u64 \<Rightarrow> u64 \<Rightarrow> memory \<Rightarrow> memory" where
  "write64 a w mem = mem_write a (le_bytes 8 w) mem"

section \<open>Segments\<close>

record phdr =
  ph_type :: u32
  ph_flags :: u32
  ph_offset :: u64
  ph_vaddr :: u64
  ph_file_size :: u64
  ph_mem_size :: u64

definition PT_LOAD :: u32 where "PT_LOAD = 1"

definition phdr_at :: "u64 \<Rightarrow> memory \<Rightarrow> phdr" where
  "phdr_at a mem = \<lparr>ph_type = mem_read 4 a mem, ph_flags = mem_read 4 (a + 4) mem, ph_offset = mem_read 8 (a + 8) mem,
     ph_vaddr = mem_read 8 (a + 16) mem, ph_file_size = mem_read 8 (a + 32) mem, ph_mem_size = mem_read 8 (a + 40) mem\<rparr>"

definition phdrs_at :: "u64 \<Rightarrow> memory \<Rightarrow> phdr list" where
  "phdrs_at file mem =
     (let offset = mem_read 8 (file + 32) mem; count = mem_read 2 (file + 56) mem :: u16
      in map (\<lambda>i. phdr_at (file + offset + of_nat (56 * i)) mem) [0..<unat count])"

text \<open>The loop over the headers: the first and the last address\<close>

fun extent :: "phdr list \<Rightarrow> u64 \<times> u64 \<Rightarrow> u64 \<times> u64" where
  "extent [] fl = fl"
| "extent (p # ps) (firstAddr, lastAddr) =
     (if ph_type p \<noteq> PT_LOAD then extent ps (firstAddr, lastAddr)
      else
        let phdrFirst = ph_vaddr p AND NOT 0xFFF;
            phdrLast = ph_vaddr p + ph_mem_size p;
            phdrLast = (if phdrLast AND 0xFFF \<noteq> 0 then (phdrLast OR 0xFFF) + 1 else phdrLast)
        in extent ps (if firstAddr > phdrFirst then phdrFirst else firstAddr, if lastAddr < phdrLast then phdrLast else lastAddr))"

definition module_pages :: "phdr list \<Rightarrow> u64" where
  "module_pages ps =
     (case extent ps (NOT 0, 0) of (firstAddr, lastAddr) \<Rightarrow>
        let modSize = lastAddr - firstAddr in drop_bit 12 modSize + (if modSize AND 0xFFF = 0 then 0 else 1))"

definition load_segment :: "u64 \<Rightarrow> u64 \<Rightarrow> phdr \<Rightarrow> memory \<Rightarrow> memory" where
  "load_segment base file p mem =
     (if ph_type p = PT_LOAD
      then mem_write (base + ph_vaddr p + ph_file_size p) (replicate (unat (ph_mem_size p - ph_file_size p)) 0)
             (mem_write (base + ph_vaddr p) (mem_bytes mem (file + ph_offset p) (unat (ph_file_size p))) mem)
      else mem)"

definition load_segments :: "u64 \<Rightarrow> u64 \<Rightarrow> phdr list \<Rightarrow> memory \<Rightarrow> memory" where
  "load_segments base file ps mem = fold (load_segment base file) ps mem"

section \<open>Symbols\<close>

record section_info =
  sec_ptr :: u64
  sec_size :: u64
  sec_type :: u32
  sec_entry_size :: u64

text \<open>The sections are in the order in which the loop over the hash table meets them.\<close>

record kmodule =
  km_base :: u64
  km_sections :: "(cstring \<times> section_info) list"
  km_symbol_count :: u64
  km_symbols :: u64
  km_symbol_names :: u64
  km_name :: cstring
  km_dependencies :: "u16 list"

text \<open>\<^verbatim>\<open>load_symbols\<close>: the names of the two sections are \<^verbatim>\<open>.dynsym\<close> and \<^verbatim>\<open>.dynstr\<close>.\<close>

definition dynsym :: cstring where "dynsym = [0x2E, 0x64, 0x79, 0x6E, 0x73, 0x79, 0x6D]"
definition dynstr :: cstring where "dynstr = [0x2E, 0x64, 0x79, 0x6E, 0x73, 0x74, 0x72]"

definition load_symbols :: "kmodule \<Rightarrow> (nat + kmodule) option" where
  "load_symbols m =
     (case (map_of (km_sections m) dynsym, map_of (km_sections m) dynstr) of
        (Some symSec, Some symStr) \<Rightarrow>
          if sec_entry_size symSec = 0 then None
          else Some (Inr (m\<lparr>km_symbols := sec_ptr symSec, km_symbol_names := sec_ptr symStr,
                            km_symbol_count := sec_size symSec div sec_entry_size symSec\<rparr>))
      | _ \<Rightarrow> Some (Inl 1))"

definition sym_name_idx :: "u64 \<Rightarrow> memory \<Rightarrow> u32" where "sym_name_idx s mem = mem_read 4 s mem"
definition sym_addr :: "u64 \<Rightarrow> memory \<Rightarrow> u64" where "sym_addr s mem = mem_read 8 (s + 8) mem"

definition get_symbol_index :: "u64 \<Rightarrow> kmodule \<Rightarrow> u64" where
  "get_symbol_index index m = (if index \<ge> km_symbol_count m then 0 else km_symbols m + 24 * index)"

text \<open>The first symbol of a table with a name, or null\<close>

fun find_symbol :: "memory \<Rightarrow> u64 \<Rightarrow> cstring \<Rightarrow> u64 list \<Rightarrow> u64 option" where
  "find_symbol mem names name [] = Some 0"
| "find_symbol mem names name (s # ss) = do {
     n \<leftarrow> cstr_at mem (names + ucast (sym_name_idx s mem));
     if strcmp n name = 0 then Some s else find_symbol mem names name ss }"

definition symbol_table :: "u64 \<Rightarrow> u64 \<Rightarrow> u64 list" where
  "symbol_table start n = map (\<lambda>i. start + 24 * of_nat i) [0..<unat n]"

definition get_symbol_name :: "memory \<Rightarrow> cstring \<Rightarrow> kmodule \<Rightarrow> u64 option" where
  "get_symbol_name mem name m = find_symbol mem (km_symbol_names m) name (symbol_table (km_symbols m) (km_symbol_count m))"

definition get_symbol_ptr :: "memory \<Rightarrow> cstring \<Rightarrow> kmodule \<Rightarrow> u64 option" where
  "get_symbol_ptr mem name m = map_option (\<lambda>s. if s \<noteq> 0 then sym_addr s mem + km_base m else 0) (get_symbol_name mem name m)"

text \<open>The symbols of the kernel: \<^verbatim>\<open>_dynsym_start\<close>, the number of symbols up to \<^verbatim>\<open>_dynsym_end\<close>, and \<^verbatim>\<open>_dynstr_start\<close>\<close>

record kernel_symbols =
  ks_start :: u64
  ks_count :: u64
  ks_names :: u64

definition find_kernel_symbol :: "kernel_symbols \<Rightarrow> memory \<Rightarrow> cstring \<Rightarrow> u64 option" where
  "find_kernel_symbol ks mem name = find_symbol mem (ks_names ks) name (symbol_table (ks_start ks) (ks_count ks))"

section \<open>Linking\<close>

fun find_in_dependencies :: "(u16 \<Rightarrow> kmodule option) \<Rightarrow> memory \<Rightarrow> cstring \<Rightarrow> u16 list \<Rightarrow> u64 option" where
  "find_in_dependencies mods mem name [] = Some 0"
| "find_in_dependencies mods mem name (major # ms) = do {
     m \<leftarrow> mods major;
     p \<leftarrow> get_symbol_ptr mem name m;
     if p \<noteq> 0 then Some p else find_in_dependencies mods mem name ms }"

text \<open>What a relocation writes: the address and the value, nothing for an unknown type, or an error\<close>

definition glob_dat :: "kernel_symbols \<Rightarrow> (u16 \<Rightarrow> kmodule option) \<Rightarrow> kmodule \<Rightarrow> u64 \<Rightarrow> memory \<Rightarrow> (nat + u64) option" where
  "glob_dat ks mods m index mem =
     (let symbol = get_symbol_index index m
      in if symbol = 0 then Some (Inl 4)
         else if sym_addr symbol mem \<noteq> 0 then Some (Inr (sym_addr symbol mem))
         else do {
           name \<leftarrow> cstr_at mem (km_symbol_names m + ucast (sym_name_idx symbol mem));
           kern \<leftarrow> find_kernel_symbol ks mem name;
           if kern \<noteq> 0 then Some (Inr (sym_addr kern mem))
           else do {
             p \<leftarrow> find_in_dependencies mods mem name (km_dependencies m);
             Some (if p \<noteq> 0 then Inr p else Inl 6) } })"

definition resolve_rela :: "kernel_symbols \<Rightarrow> (u16 \<Rightarrow> kmodule option) \<Rightarrow> kmodule \<Rightarrow> u64 \<Rightarrow> memory \<Rightarrow> (nat + (u64 \<times> u64) option) option" where
  "resolve_rela ks mods m a mem =
     (let target = km_base m + mem_read 8 a mem; info = mem_read 8 (a + 8) mem; addend = mem_read 8 (a + 16) mem
      in if info AND 0xFFFFFFFF = 6 then map_option (map_sum id (\<lambda>v. Some (target, v))) (glob_dat ks mods m (drop_bit 32 info) mem)
         else if info AND 0xFFFFFFFF = 8 then Some (Inr (Some (target, km_base m + addend)))
         else Some (Inr None))"

fun link_entries :: "kernel_symbols \<Rightarrow> (u16 \<Rightarrow> kmodule option) \<Rightarrow> kmodule \<Rightarrow> u64 list \<Rightarrow> memory \<Rightarrow> (nat + memory) option" where
  "link_entries ks mods m [] mem = Some (Inr mem)"
| "link_entries ks mods m (a # as) mem =
     (case resolve_rela ks mods m a mem of
        None \<Rightarrow> None
      | Some (Inl e) \<Rightarrow> Some (Inl e)
      | Some (Inr None) \<Rightarrow> link_entries ks mods m as mem
      | Some (Inr (Some (t, v))) \<Rightarrow> link_entries ks mods m as (write64 t v mem))"

definition ST_RELA :: u32 where "ST_RELA = 4"

fun link_sections :: "kernel_symbols \<Rightarrow> (u16 \<Rightarrow> kmodule option) \<Rightarrow> kmodule \<Rightarrow> section_info list \<Rightarrow> memory \<Rightarrow> (nat + memory) option" where
  "link_sections ks mods m [] mem = Some (Inr mem)"
| "link_sections ks mods m (s # ss) mem =
     (if sec_type s \<noteq> ST_RELA then link_sections ks mods m ss mem
      else if sec_entry_size s = 0 then None
      else (case link_entries ks mods m (symbol_table (sec_ptr s) (sec_size s div sec_entry_size s)) mem of
              None \<Rightarrow> None
            | Some (Inl e) \<Rightarrow> Some (Inl e)
            | Some (Inr mem) \<Rightarrow> link_sections ks mods m ss mem))"

definition module_link :: "kernel_symbols \<Rightarrow> (u16 \<Rightarrow> kmodule option) \<Rightarrow> kmodule \<Rightarrow> memory \<Rightarrow> (nat + memory) option" where
  "module_link ks mods m mem = link_sections ks mods m (map snd (km_sections m)) mem"

section \<open>Ranges of memory\<close>

definition mem_range :: "u64 \<Rightarrow> nat \<Rightarrow> u64 set" where
  "mem_range a n = {x. unat (x - a) < n}"

lemma mem_write_outside: "x \<notin> mem_range a (length bs) \<Longrightarrow> mem_write a bs mem x = mem x"
  by (simp add: mem_write_def mem_range_def)

lemma unat_index: "i < 2 ^ 64 \<Longrightarrow> unat (a + of_nat i - a :: u64) = i"
  by (simp add: unat_of_nat_less)

lemma mem_write_inside: "i < length bs \<Longrightarrow> length bs \<le> 2 ^ 64 \<Longrightarrow> mem_write a bs mem (a + of_nat i) = bs ! i"
  using unat_index [of i a] by (simp add: mem_write_def)

lemma in_mem_range: "i < n \<Longrightarrow> n \<le> 2 ^ 64 \<Longrightarrow> a + of_nat i \<in> mem_range a n"
  using unat_index [of i a] by (simp add: mem_range_def)

lemma write64_same: "mem_read 8 a (write64 a w mem) = w"
proof -
  have "mem_bytes (write64 a w mem) a 8 = le_bytes 8 w"
    unfolding mem_bytes_def write64_def by (rule nth_equalityI) (simp_all add: mem_write_inside)
  then show ?thesis by (simp add: mem_read_def le_value_bytes take_bit_word_eq_self)
qed

lemma mem_read_cong: "(\<And>x. x \<in> mem_range a n \<Longrightarrow> mem' x = mem x) \<Longrightarrow> n \<le> 2 ^ 64 \<Longrightarrow> mem_read n a mem' = (mem_read n a mem :: 'a::len word)"
proof -
  assume "\<And>x. x \<in> mem_range a n \<Longrightarrow> mem' x = mem x" "n \<le> 2 ^ 64"
  then have "mem_bytes mem' a n = mem_bytes mem a n" unfolding mem_bytes_def by (intro map_cong refl) (simp add: in_mem_range)
  then show ?thesis by (simp add: mem_read_def)
qed

section \<open>The writes of the linker\<close>

definition word_at :: "u64 \<Rightarrow> u64 set" where "word_at t = mem_range t 8"

text \<open>The words the relocations \<open>as\<close> write, in order\<close>

definition rela_writes :: "kernel_symbols \<Rightarrow> (u16 \<Rightarrow> kmodule option) \<Rightarrow> kmodule \<Rightarrow> memory \<Rightarrow> u64 list \<Rightarrow> (u64 \<times> u64) list" where
  "rela_writes ks mods m mem as = concat (map (\<lambda>a. case resolve_rela ks mods m a mem of Some (Inr (Some tv)) \<Rightarrow> [tv] | _ \<Rightarrow> []) as)"

definition write_words :: "(u64 \<times> u64) list \<Rightarrow> memory \<Rightarrow> memory" where
  "write_words ws mem = fold (\<lambda>(t, v). write64 t v) ws mem"

definition words :: "(u64 \<times> u64) list \<Rightarrow> u64 set" where
  "words ws = (\<Union>(t, v)\<in>set ws. word_at t)"

text \<open>No relocation changes what another one reads: its own entry, symbols and names.\<close>

definition tables_apart :: "kernel_symbols \<Rightarrow> (u16 \<Rightarrow> kmodule option) \<Rightarrow> kmodule \<Rightarrow> memory \<Rightarrow> u64 list \<Rightarrow> u64 set \<Rightarrow> bool" where
  "tables_apart ks mods m mem as W \<longleftrightarrow>
     (\<forall>a\<in>set as. \<forall>mem'. (\<forall>x. x \<notin> W \<longrightarrow> mem' x = mem x) \<longrightarrow> resolve_rela ks mods m a mem' = resolve_rela ks mods m a mem)"

lemma write64_outside: "x \<notin> word_at t \<Longrightarrow> write64 t v mem x = mem x"
  by (simp add: write64_def mem_write_outside word_at_def)

lemma write_words_outside: "x \<notin> words ws \<Longrightarrow> write_words ws mem x = mem x"
proof (induction ws arbitrary: mem)
  case (Cons w ws)
  then show ?case using write64_outside [of x "fst w" "snd w" mem] by (cases w) (simp add: write_words_def words_def)
qed (simp add: write_words_def)

lemma write_words_read:
  assumes "sorted_wrt (\<lambda>(t, v) (t', v'). word_at t \<inter> word_at t' = {}) ws" "(t, v) \<in> set ws"
  shows "mem_read 8 t (write_words ws mem) = v"
  using assms
proof (induction ws arbitrary: mem)
  case (Cons w ws)
  show ?case
  proof (cases "w = (t, v)")
    case True
    then have "x \<notin> words ws" if "x \<in> word_at t" for x using Cons.prems(1) that by (auto simp: words_def)
    then have "mem_read 8 t (write_words ws (write64 t v mem)) = (mem_read 8 t (write64 t v mem) :: u64)"
      by (intro mem_read_cong write_words_outside) (simp_all add: word_at_def)
    then show ?thesis using True by (simp add: write_words_def write64_same)
  next
    case False
    then show ?thesis using Cons by (cases w) (auto simp: write_words_def)
  qed
qed simp

lemma tables_apartD:
  "tables_apart ks mods m mem as W \<Longrightarrow> a \<in> set as \<Longrightarrow> \<forall>x. x \<notin> W \<longrightarrow> mem' x = mem x \<Longrightarrow>
    resolve_rela ks mods m a mem' = resolve_rela ks mods m a mem"
  unfolding tables_apart_def by blast

lemma tables_apart_mono: "tables_apart ks mods m mem as W \<Longrightarrow> set bs \<subseteq> set as \<Longrightarrow> tables_apart ks mods m mem bs W"
  unfolding tables_apart_def by blast

lemma agree_write: "\<forall>x. x \<notin> W \<longrightarrow> mem' x = mem x \<Longrightarrow> word_at t \<subseteq> W \<Longrightarrow> \<forall>x. x \<notin> W \<longrightarrow> write64 t v mem' x = mem x"
proof (intro allI impI)
  fix x assume a: "\<forall>x. x \<notin> W \<longrightarrow> mem' x = mem x" "word_at t \<subseteq> W" "x \<notin> W"
  then have "x \<notin> word_at t" by blast
  then show "write64 t v mem' x = mem x" using a(1,3) by (simp add: write64_outside)
qed

lemma link_entries_writes:
  assumes "tables_apart ks mods m mem as W" "\<forall>a\<in>set as. \<exists>r. resolve_rela ks mods m a mem = Some (Inr r)"
    "words (rela_writes ks mods m mem as) \<subseteq> W" "\<forall>x. x \<notin> W \<longrightarrow> mem' x = mem x"
  shows "link_entries ks mods m as mem' = Some (Inr (write_words (rela_writes ks mods m mem as) mem'))"
  using assms
proof (induction as arbitrary: mem')
  case (Cons a as)
  obtain r where r: "resolve_rela ks mods m a mem = Some (Inr r)" using Cons.prems(2) by auto
  have r': "resolve_rela ks mods m a mem' = Some (Inr r)" using tables_apartD [OF Cons.prems(1) _ Cons.prems(4)] r by (metis list.set_intros(1) append_Cons)
  have ap: "tables_apart ks mods m mem as W" using Cons.prems(1) by (rule tables_apart_mono) auto
  show ?case
  proof (cases r)
    case None
    then show ?thesis using Cons.IH [OF ap, of mem'] Cons.prems r r' by (simp add: rela_writes_def)
  next
    case (Some tv)
    obtain t v where tv: "tv = (t, v)" by (cases tv)
    have w: "rela_writes ks mods m mem (a # as) = (t, v) # rela_writes ks mods m mem as" using r Some tv by (simp add: rela_writes_def)
    then have sub: "word_at t \<subseteq> W" "words (rela_writes ks mods m mem as) \<subseteq> W" using Cons.prems(3) by (auto simp: words_def)
    have "\<forall>x. x \<notin> W \<longrightarrow> write64 t v mem' x = mem x" by (rule agree_write [OF Cons.prems(4) sub(1)])
    then show ?thesis using Cons.IH [OF ap _ sub(2), of "write64 t v mem'"] Cons.prems(2) r' Some tv w by (simp add: write_words_def)
  qed
qed (simp add: rela_writes_def write_words_def)

text \<open>The first relocation that cannot be resolved ends the linking with its error.\<close>

lemma link_entries_error:
  assumes "tables_apart ks mods m mem (as @ [a]) W" "\<forall>a\<in>set as. \<exists>r. resolve_rela ks mods m a mem = Some (Inr r)"
    "words (rela_writes ks mods m mem as) \<subseteq> W" "\<forall>x. x \<notin> W \<longrightarrow> mem' x = mem x" "resolve_rela ks mods m a mem = Some (Inl e)"
  shows "link_entries ks mods m (as @ a # bs) mem' = Some (Inl e)"
  using assms
proof (induction as arbitrary: mem')
  case Nil
  have "resolve_rela ks mods m a mem' = Some (Inl e)" using tables_apartD [OF Nil.prems(1) _ Nil.prems(4), of a] Nil.prems(5) by simp
  then show ?case by simp
next
  case (Cons c cs)
  obtain r where r: "resolve_rela ks mods m c mem = Some (Inr r)" using Cons.prems(2) by auto
  have r': "resolve_rela ks mods m c mem' = Some (Inr r)" using tables_apartD [OF Cons.prems(1) _ Cons.prems(4)] r by (metis list.set_intros(1) append_Cons)
  have ap: "tables_apart ks mods m mem (cs @ [a]) W" using Cons.prems(1) by (rule tables_apart_mono) auto
  show ?case
  proof (cases r)
    case None
    then show ?thesis using Cons.IH [OF ap, of mem'] Cons.prems r r' by (simp add: rela_writes_def)
  next
    case (Some tv)
    obtain t v where tv: "tv = (t, v)" by (cases tv)
    have w: "rela_writes ks mods m mem (c # cs) = (t, v) # rela_writes ks mods m mem cs" using r Some tv by (simp add: rela_writes_def)
    then have sub: "word_at t \<subseteq> W" "words (rela_writes ks mods m mem cs) \<subseteq> W" using Cons.prems(3) by (auto simp: words_def)
    have "\<forall>x. x \<notin> W \<longrightarrow> write64 t v mem' x = mem x" by (rule agree_write [OF Cons.prems(4) sub(1)])
    then show ?thesis using Cons.IH [OF ap _ sub(2), of "write64 t v mem'"] Cons.prems(2,5) r' Some tv by simp
  qed
qed

lemma link_entries_append:
  "link_entries ks mods m (as @ bs) mem =
     (case link_entries ks mods m as mem of None \<Rightarrow> None | Some (Inl e) \<Rightarrow> Some (Inl e) | Some (Inr mem) \<Rightarrow> link_entries ks mods m bs mem)"
  by (induction as arbitrary: mem) (auto split: option.splits sum.splits)

definition rela_entries :: "kmodule \<Rightarrow> u64 list" where
  "rela_entries m = concat (map (\<lambda>s. symbol_table (sec_ptr s) (sec_size s div sec_entry_size s)) (filter (\<lambda>s. sec_type s = ST_RELA) (map snd (km_sections m))))"

lemma module_link_entries:
  assumes "\<forall>s\<in>set (map snd (km_sections m)). sec_type s = ST_RELA \<longrightarrow> sec_entry_size s \<noteq> 0"
  shows "module_link ks mods m mem = link_entries ks mods m (rela_entries m) mem"
proof -
  have "link_sections ks mods m ss mem = link_entries ks mods m
      (concat (map (\<lambda>s. symbol_table (sec_ptr s) (sec_size s div sec_entry_size s)) (filter (\<lambda>s. sec_type s = ST_RELA) ss))) mem"
    if "\<forall>s\<in>set ss. sec_type s = ST_RELA \<longrightarrow> sec_entry_size s \<noteq> 0" for ss
    using that by (induction ss arbitrary: mem) (auto simp: link_entries_append split: option.splits sum.splits)
  then show ?thesis using assms by (simp add: module_link_def rela_entries_def)
qed

section \<open>The image of the segments\<close>

definition seg_range :: "u64 \<Rightarrow> phdr \<Rightarrow> u64 set" where
  "seg_range base p = mem_range (base + ph_vaddr p) (unat (ph_mem_size p))"

definition src_range :: "u64 \<Rightarrow> phdr \<Rightarrow> u64 set" where
  "src_range file p = mem_range (file + ph_offset p) (unat (ph_file_size p))"

lemma unat_lt64: "unat (x :: u64) < 2 ^ 64"
proof -
  have "unat x < 2 ^ LENGTH(64)" by (rule unsigned_less)
  then show ?thesis by simp
qed

lemma zero_range: "ph_file_size p \<le> ph_mem_size p \<Longrightarrow> mem_range (a + ph_file_size p) (unat (ph_mem_size p - ph_file_size p)) \<subseteq> mem_range a (unat (ph_mem_size p))"
proof
  fix x assume le: "ph_file_size p \<le> ph_mem_size p" and "x \<in> mem_range (a + ph_file_size p) (unat (ph_mem_size p - ph_file_size p))"
  then have "unat (x - a - ph_file_size p) < unat (ph_mem_size p) - unat (ph_file_size p)" by (simp add: mem_range_def unat_sub diff_diff_eq)
  then have lt: "unat (x - a - ph_file_size p) + unat (ph_file_size p) < unat (ph_mem_size p)" by linarith
  then have "unat (x - a - ph_file_size p + ph_file_size p) = unat (x - a - ph_file_size p) + unat (ph_file_size p)"
    using unat_lt64 [of "ph_mem_size p"] unat_add_lem [of "x - a - ph_file_size p" "ph_file_size p"] by simp
  then show "x \<in> mem_range a (unat (ph_mem_size p))" using lt by (simp add: mem_range_def)
qed

lemma load_segment_outside:
  assumes "ph_type p = PT_LOAD \<Longrightarrow> ph_file_size p \<le> ph_mem_size p \<and> x \<notin> seg_range base p"
  shows "load_segment base file p mem x = mem x"
proof (cases "ph_type p = PT_LOAD")
  case True
  then have x: "ph_file_size p \<le> ph_mem_size p" "x \<notin> mem_range (base + ph_vaddr p) (unat (ph_mem_size p))" using assms by (simp_all add: seg_range_def)
  then have "x \<notin> mem_range (base + ph_vaddr p + ph_file_size p) (unat (ph_mem_size p - ph_file_size p))" using zero_range by blast
  moreover have "x \<notin> mem_range (base + ph_vaddr p) (unat (ph_file_size p))" using x by (auto simp: mem_range_def word_le_nat_alt)
  ultimately show ?thesis using True by (simp add: load_segment_def mem_write_outside mem_bytes_def)
qed (simp add: load_segment_def)

lemma load_segment_inside:
  assumes "ph_type p = PT_LOAD" "ph_file_size p \<le> ph_mem_size p" "i < unat (ph_mem_size p)"
  shows "load_segment base file p mem (base + ph_vaddr p + of_nat i) = (if i < unat (ph_file_size p) then mem (file + ph_offset p + of_nat i) else 0)"
proof -
  let ?a = "base + ph_vaddr p" and ?fs = "ph_file_size p" and ?ms = "ph_mem_size p"
  let ?mid = "mem_write ?a (mem_bytes mem (file + ph_offset p) (unat ?fs)) mem"
  have i64: "i < 2 ^ 64" using assms(3) unat_lt64 [of ?ms] by linarith
  have d: "?a + of_nat i - (?a + ?fs) = of_nat i - ?fs" by simp
  have ui: "unat (of_nat i :: u64) = i" using i64 by (simp add: unat_of_nat_less)
  have load: "load_segment base file p mem (?a + of_nat i) =
      (if unat (of_nat i - ?fs) < unat ?ms - unat ?fs then 0 else ?mid (?a + of_nat i))"
    using assms(1,2) unfolding load_segment_def mem_write_def [of "?a + ?fs"] d by (simp add: unat_sub)
  show ?thesis
  proof (cases "i < unat ?fs")
    case True
    have "unat (of_nat i - ?fs) = i + 2 ^ 64 - unat ?fs" using True ui unat_sub_if' [of "of_nat i" ?fs] by simp
    then have "\<not> unat (of_nat i - ?fs) < unat ?ms - unat ?fs" using unat_lt64 [of ?ms] True by linarith
    moreover have "?mid (?a + of_nat i) = mem (file + ph_offset p + of_nat i)"
      using mem_write_inside [of i "mem_bytes mem (file + ph_offset p) (unat ?fs)" ?a mem] True unat_lt64 [of ?fs] by (simp add: mem_bytes_def)
    ultimately show ?thesis using load True by simp
  next
    case False
    then have "unat (of_nat i - ?fs) = i - unat ?fs" using ui by (simp add: unat_sub word_le_nat_alt)
    then show ?thesis using load False assms(3) by (simp add: diff_less_mono)
  qed
qed

lemma load_segments_outside:
  assumes "\<forall>p\<in>set ps. ph_type p = PT_LOAD \<longrightarrow> ph_file_size p \<le> ph_mem_size p \<and> x \<notin> seg_range base p"
  shows "load_segments base file ps mem x = mem x"
  using assms load_segment_outside by (induction ps arbitrary: mem) (simp_all add: load_segments_def)

text \<open>Segments that fit, lie apart from each other and do not overwrite the file\<close>

definition segments_ok :: "u64 \<Rightarrow> u64 \<Rightarrow> phdr list \<Rightarrow> bool" where
  "segments_ok base file ps \<longleftrightarrow>
     (\<forall>p\<in>set ps. ph_file_size p \<le> ph_mem_size p \<and> (\<forall>q\<in>set ps. src_range file p \<inter> seg_range base q = {})) \<and>
     sorted_wrt (\<lambda>p q. seg_range base p \<inter> seg_range base q = {}) ps"

lemma load_segments_inside:
  assumes "\<forall>p\<in>set ps. ph_file_size p \<le> ph_mem_size p \<and> (\<forall>q\<in>set qs. src_range file p \<inter> seg_range base q = {})"
    "sorted_wrt (\<lambda>p q. seg_range base p \<inter> seg_range base q = {}) ps" "set ps \<subseteq> set qs"
    "\<forall>x. (\<forall>q\<in>set qs. x \<notin> seg_range base q) \<longrightarrow> mem' x = mem x" "p \<in> set ps" "ph_type p = PT_LOAD" "i < unat (ph_mem_size p)"
  shows "load_segments base file ps mem' (base + ph_vaddr p + of_nat i) =
    (if i < unat (ph_file_size p) then mem (file + ph_offset p + of_nat i) else 0)"
  using assms(1-5)
proof (induction ps arbitrary: mem')
  case (Cons c cs)
  have out: "load_segment base file c mem' x = mem x" if "\<forall>q\<in>set qs. x \<notin> seg_range base q" for x
    using load_segment_outside [where p = c and x = x and base = base and mem = mem'] Cons.prems(1,3,4) that by auto
  show ?case
  proof (cases "c = p")
    case True
    let ?x = "base + ph_vaddr p + of_nat i"
    have "?x \<in> seg_range base p" unfolding seg_range_def using assms(7) unat_lt64 [of "ph_mem_size p"] by (intro in_mem_range) auto
    then have "\<forall>q\<in>set cs. ?x \<notin> seg_range base q" using Cons.prems(2) True by auto
    then have "load_segments base file cs (load_segment base file p mem') ?x = load_segment base file p mem' ?x"
      using Cons.prems(1) by (intro load_segments_outside) auto
    moreover have "mem' (file + ph_offset p + of_nat i) = mem (file + ph_offset p + of_nat i)" if "i < unat (ph_file_size p)"
    proof -
      have "file + ph_offset p + of_nat i \<in> src_range file p"
        unfolding src_range_def using that unat_lt64 [of "ph_file_size p"] by (intro in_mem_range) auto
      then show ?thesis using Cons.prems(1,4) True by (metis disjoint_iff list.set_intros(1))
    qed
    ultimately show ?thesis using True load_segment_inside [OF assms(6) _ assms(7), where base = base and mem = mem'] Cons.prems(1) by (simp add: load_segments_def)
  next
    case False
    then have "load_segments base file cs (load_segment base file c mem') (base + ph_vaddr p + of_nat i) =
        (if i < unat (ph_file_size p) then mem (file + ph_offset p + of_nat i) else 0)"
      using Cons.prems out by (intro Cons.IH) auto
    then show ?thesis by (simp add: load_segments_def)
  qed
qed simp

text \<open>A relocation against a symbol that the module defines writes its offset in the module, while \<^verbatim>\<open>get_symbol_ptr\<close> adds the base.\<close>

lemma glob_dat_without_base:
  assumes "get_symbol_index index m = s" "s \<noteq> 0" "sym_addr s mem \<noteq> 0" "get_symbol_name mem name m = Some s" "km_base m \<noteq> 0"
  shows "\<exists>v p. glob_dat ks mods m index mem = Some (Inr v) \<and> get_symbol_ptr mem name m = Some p \<and> p = v + km_base m \<and> p \<noteq> v"
  using assms by (auto simp: glob_dat_def get_symbol_ptr_def Let_def)

text \<open>The pages reserved for a module do not account for the address of its first segment, at which it is then mapped.\<close>

lemma pages_without_first:
  "module_pages [\<lparr>ph_type = 1, ph_flags = 5, ph_offset = 0, ph_vaddr = 0x2000, ph_file_size = 16, ph_mem_size = 16\<rparr>] = 1"
  by (simp add: module_pages_def PT_LOAD_def Let_def)

lemma mem_range_interval:
  assumes "unat a + n \<le> 2 ^ 64" "x \<in> mem_range a n"
  shows "unat a \<le> unat x \<and> unat x < unat a + n"
proof -
  have "unat (x - a) + unat a < 2 ^ 64" "unat (x - a) < n" using assms by (simp_all add: mem_range_def)
  moreover have "unat (x - a + a) = unat (x - a) + unat a" using unat_add_lem [of "x - a" a] calculation(1) by simp
  ultimately show ?thesis by simp
qed

lemma disjoint_ranges: "unat a + n \<le> unat b \<Longrightarrow> unat b + k \<le> 2 ^ 64 \<Longrightarrow> mem_range a n \<inter> mem_range b k = {}"
proof (rule ccontr)
  assume a: "unat a + n \<le> unat b" "unat b + k \<le> 2 ^ 64" and "mem_range a n \<inter> mem_range b k \<noteq> {}"
  then obtain x where "x \<in> mem_range a n" "x \<in> mem_range b k" by blast
  then show False using mem_range_interval [of a n x] mem_range_interval [of b k x] a unat_lt64 [of b] by linarith
qed

section \<open>A sample module\<close>

text \<open>One relocation, at the address \<open>0x100\<close>, that stores the base plus \<open>0x20\<close> at \<open>0x1010\<close>; and one segment of two bytes\<close>

definition sample_module :: kmodule where
  "sample_module = \<lparr>km_base = 0x1000, km_sections = [([], \<lparr>sec_ptr = 0x100, sec_size = 24, sec_type = 4, sec_entry_size = 24\<rparr>)], km_symbol_count = 0,
     km_symbols = 0, km_symbol_names = 0, km_name = [], km_dependencies = []\<rparr>"

definition sample_memory :: memory where
  "sample_memory = mem_write 0x100 (le_bytes 8 (0x10 :: u64) @ le_bytes 8 (8 :: u64) @ le_bytes 8 (0x20 :: u64)) (\<lambda>_. 0)"

definition sample_symbols :: kernel_symbols where "sample_symbols = \<lparr>ks_start = 0, ks_count = 0, ks_names = 0\<rparr>"

definition sample_phdr :: phdr where
  "sample_phdr = \<lparr>ph_type = 1, ph_flags = 5, ph_offset = 0, ph_vaddr = 0, ph_file_size = 1, ph_mem_size = 2\<rparr>"

lemma sample_entries: "rela_entries sample_module = [0x100]"
  by (simp add: rela_entries_def sample_module_def ST_RELA_def symbol_table_def)

lemma sample_bytes: "mem_bytes sample_memory 0x100 24 = le_bytes 8 (0x10 :: u64) @ le_bytes 8 (8 :: u64) @ le_bytes 8 (0x20 :: u64)"
  unfolding mem_bytes_def sample_memory_def by (rule nth_equalityI) (simp_all add: mem_write_inside del: le_bytes.simps)

lemma mem_bytes_part: "k + n \<le> m \<Longrightarrow> mem_bytes mem (a + of_nat k) n = take n (drop k (mem_bytes mem a m))"
  unfolding mem_bytes_def by (rule nth_equalityI) (simp_all add: add.assoc)

lemma sample_reads: "mem_read 8 0x100 sample_memory = (0x10 :: u64)" "mem_read 8 (0x100 + 8) sample_memory = (8 :: u64)"
    "mem_read 8 (0x100 + 16) sample_memory = (0x20 :: u64)"
  using mem_bytes_part [of 0 8 24 sample_memory "0x100"] mem_bytes_part [of 8 8 24 sample_memory "0x100"] mem_bytes_part [of 16 8 24 sample_memory "0x100"]
  unfolding sample_bytes mem_read_def by (simp_all add: le_value_bytes take_bit_word_eq_self del: le_bytes.simps)

lemma sample_resolve:
  assumes "\<forall>x. x \<notin> word_at 0x1010 \<longrightarrow> mem' x = sample_memory x"
  shows "resolve_rela sample_symbols (\<lambda>_. None) sample_module 0x100 mem' = Some (Inr (Some (0x1010, 0x1020)))"
proof -
  have "mem_read 8 a mem' = (mem_read 8 a sample_memory :: u64)" if "unat a + 8 \<le> 0x1010" for a
  proof (rule mem_read_cong)
    fix x assume "x \<in> mem_range a 8"
    then have "x \<notin> word_at 0x1010" using disjoint_ranges [of a 8 "0x1010" 8] that by (auto simp: word_at_def)
    then show "mem' x = sample_memory x" using assms by blast
  qed simp
  from this [of "0x100"] this [of "0x100 + 8"] this [of "0x100 + 16"] show ?thesis
    using sample_reads by (simp add: resolve_rela_def sample_module_def)
qed

section \<open>Properties\<close>



text \<open>The segments of a module that fit, lie apart and do not overwrite the file end up in memory as the file has them,
  followed by zeros up to their size in memory, and nothing else changes.\<close>
theorem load_segments_image:
  assumes "segments_ok base img ps"
  shows "(\<forall>p\<in>set ps. \<forall>i<unat (ph_mem_size p). ph_type p = PT_LOAD \<longrightarrow>
      load_segments base img ps mem (base + ph_vaddr p + of_nat i) = (if i < unat (ph_file_size p) then mem (img + ph_offset p + of_nat i) else 0)) \<and>
    (\<forall>x. (\<forall>p\<in>set ps. x \<notin> seg_range base p) \<longrightarrow> load_segments base img ps mem x = mem x)"
proof -
  have "load_segments base img ps mem (base + ph_vaddr p + of_nat i) = (if i < unat (ph_file_size p) then mem (img + ph_offset p + of_nat i) else 0)"
    if "p \<in> set ps" "i < unat (ph_mem_size p)" "ph_type p = PT_LOAD" for p i
    using that assms by (intro load_segments_inside [of ps ps]) (auto simp: segments_ok_def)
  moreover have "load_segments base img ps mem x = mem x" if "\<forall>p\<in>set ps. x \<notin> seg_range base p" for x
    using that assms by (intro load_segments_outside) (auto simp: segments_ok_def)
  ultimately show ?thesis by blast
qed

theorem load_segments_image_witness:
  "load_segments 0x1000 0x100 [sample_phdr] (\<lambda>x. 7) (0x1000 + 0 + of_nat 0) = 7 \<and> load_segments 0x1000 0x100 [sample_phdr] (\<lambda>x. 7) (0x1000 + 0 + of_nat 1) = 0"
proof -
  have "segments_ok 0x1000 0x100 [sample_phdr]"
    using disjoint_ranges [of "0x100" 1 "0x1000" 2] by (simp add: segments_ok_def src_range_def seg_range_def sample_phdr_def)
  from conjunct1 [OF load_segments_image [OF this, of "\<lambda>x. 7"]]
  have "\<forall>i<2. load_segments 0x1000 0x100 [sample_phdr] (\<lambda>x. 7) (0x1000 + 0 + of_nat i) = (if i < 1 then 7 else 0)"
    by (simp add: sample_phdr_def PT_LOAD_def)
  from this [rule_format, of 0] this [rule_format, of 1] show ?thesis by simp
qed

end
