(* ===== verification/Spec2Isabelle.thy ===== *)
theory Spec2Isabelle
  imports Range_List Std_List Physical Unordered_Map Pipe_Stream Pc_Serial Vfs Systemfs Pager_Walk Scheduling Crc Ppage Strings Gpt Descriptors Dir_Stream Process_Mmap Ext2_Dir Modprobe Events Stream_Calls Exec_Stack Module_Link
begin

text \<open>
  \<^bold>\<open>MierOS\<close> is a small x86-64 operating system in C++ (sources under \<^verbatim>\<open>src/\<close>): a monolithic kernel (\<^verbatim>\<open>kernel/src\<close>,
  \<^verbatim>\<open>kernel/include\<close>) with its own container library (\<^verbatim>\<open>kernel/std/include\<close>), loadable modules (\<^verbatim>\<open>kernel/modules\<close>) and a few user
  programs (\<^verbatim>\<open>userspace\<close>). This library models its own logic as HOL functions and states what makes each part correct. Every
  definition follows a function of the sources, with its guards, early returns and error codes; a definition keeps the name of
  its source where HOL allows it.

  \<^bold>\<open>How the parts work together.\<close> The boot memory map is turned into the page bitmaps of the physical allocator
  (\<open>Physical\<close>), from which the pager builds page tables (\<open>Pager\<close>, \<open>Pager_Walk\<close>) and processes get their pages, through
  reference-counted page objects (\<open>Ppage\<close>) and shared entries of a memory map (\<open>Process_Memory\<close>, \<open>Process_Mmap\<close>). Threads wait in
  queues that the scheduler, the sleep queue and the futexes take them from (\<open>Tasking\<close>, \<open>Scheduling\<close>), under the locks of
  \<open>Locking\<close>. A path is resolved by the VFS over the nodes of the mounted file systems (\<open>Vnode\<close>, \<open>Vnodefs\<close>, \<open>Vfs\<close>), which are
  the archive of the boot loader (\<open>Initrdfs\<close>), devices (\<open>Devicefs\<close>), the system tree (\<open>Systemfs\<close>) and ext2
  on a partition (\<open>Gpt\<close>, \<open>Ext2\<close>). An open file, directory or pipe is a stream (\<open>Dir_Stream\<close>, \<open>Pipe_Stream\<close>) behind
  counted wrappers (\<open>Refcount\<close>) in the table of descriptors of a process (\<open>Descriptors\<close>); the system calls on streams
  compose these (\<open>Stream_Calls\<close>). Terminals and serial lines move bytes through rings (\<open>Ring\<close>, \<open>Termios\<close>, \<open>Pc_Serial\<close>). Modules are loaded and
  linked into the kernel (\<open>Module_Link\<close>) in an order that \<^verbatim>\<open>modprobe\<close> computes (\<open>Modprobe\<close>), and parts of the kernel notify each
  other by events (\<open>Events\<close>, \<open>Uevent\<close>).

  \<^bold>\<open>Conventions.\<close> Machine integers are words of their width, so overflow wraps as in the code; where a theorem needs that
  nothing wraps, a bound is a hypothesis. Objects that are shared or deleted live in explicit heaps, functions from addresses to optional values, and
  fresh addresses come from a counter or from the caller. An operation that can fail returns \<open>errno + 'a\<close> (\<^verbatim>\<open>ValueOrError\<close>).
  The outer \<open>None\<close> of an operation is undefined behaviour of the code, a failed assertion, or a loop that does not end (defined
  by \<^theory_text>\<open>partial_function (option)\<close>); every theorem that claims a result states that it is \<open>Some\<close>, so termination and the absence of
  faults are part of it. There is no fuel. Code that spins on other threads, the pipe loops and the locks, is a step relation
  whose steps interleave. Code outside \<^verbatim>\<open>src/\<close> and code reached through virtual functions or function pointers is a parameter: the block
  device of ext2, the sectors of a disk, drivers, handlers and callbacks of other modules, the file system behind a file stream.

  \<^bold>\<open>The container library\<close> (\<^verbatim>\<open>kernel/std/include\<close>)
  \<^item> \<open>Prelude\<close>: integer types, error codes, shared lemmas on words.
  \<^item> \<open>Range_List\<close> (\<^verbatim>\<open>range_list.hpp\<close>): \<open>range_add\<close> and \<open>range_remove\<close> on sorted ranges represent union and difference of
    sets; locale \<open>range_set\<close>.
  \<^item> \<open>Std_List\<close> (\<^verbatim>\<open>list.hpp\<close>): the doubly linked list as nodes in a heap, its invariant, iterators, sort; locale
    \<open>sequence\<close>.
  \<^item> \<open>Unordered_Map\<close> (\<^verbatim>\<open>unordered_map.hpp\<close>, \<^verbatim>\<open>functional.hpp\<close>): the chained hash table implements a finite map through
    insertion, erasure, rehashing and iteration; locale \<open>map_store\<close>.
  \<^item> \<open>Std_Queue\<close> (\<^verbatim>\<open>queue.hpp\<close>): a queue of heap nodes is first-in first-out; locale \<open>fifo\<close>.
  \<^item> \<open>Refcount\<close> (\<^verbatim>\<open>shared_pointer.hpp\<close>, \<^verbatim>\<open>streamwrapper.cpp\<close>): both kinds of counted pointers satisfy the locale
    \<open>counted_handles\<close>, in which no held handle dangles.
  \<^item> \<open>Strings\<close> (\<^verbatim>\<open>string.hpp\<close>, \<^verbatim>\<open>util/uuid.cpp\<close>): strings keep their terminator and length; UUIDs survive printing and parsing.

  \<^bold>\<open>Memory\<close>
  \<^item> \<open>Physical\<close> (\<^verbatim>\<open>memory/physical.cpp\<close>): the bitmaps after start, first fit of \<open>palloc\<close>, \<open>pfree\<close>; locale \<open>page_allocator\<close>.
  \<^item> \<open>Pager\<close>, \<open>Pager_Walk\<close> (\<^verbatim>\<open>memory/virtual.cpp\<close>): four-level page tables in memory, edited through a window of virtual addresses; \<open>map\<close>
    and \<open>unmap\<close> refine updates of a function from virtual pages to page and flags.
  \<^item> \<open>Ppage\<close> (\<^verbatim>\<open>memory/ppage.cpp\<close>, \<^verbatim>\<open>memory/page/\<close>): counted physical pages are not freed while in use.
  \<^item> \<open>Process_Memory\<close>, \<open>Process_Mmap\<close> (\<^verbatim>\<open>tasking/process.cpp\<close>, \<^verbatim>\<open>syscalls/memory.cpp\<close>, \<^verbatim>\<open>Process::fork\<close>): the memory map of a process, page
    faults, copying at fork, \<open>mmap\<close> and \<open>munmap\<close>; the search for a free range ends and is first fit, mapping and unmapping restore the map.

  \<^bold>\<open>Tasks\<close>
  \<^item> \<open>Locking\<close> (\<^verbatim>\<open>locking/\<close>): spin lock, semaphore and recursive mutex as interleaved steps of any number of threads; locale
    \<open>exclusive_lock\<close>, interpreted by the spin lock and the mutex.
  \<^item> \<open>Tasking\<close>, \<open>Scheduling\<close> (\<^verbatim>\<open>tasking/thread_queue\<close>, \<^verbatim>\<open>scheduler\<close>, \<^verbatim>\<open>sleep_queue\<close>, \<^verbatim>\<open>futex\<close>, \<^verbatim>\<open>thread\<close>): the choice of the next thread, the
    waking of sleepers and waiters, and a run in which a new thread is never chosen.
  \<^item> \<open>Descriptors\<close> (\<^verbatim>\<open>tasking/process.cpp\<close>): the lowest free descriptor is handed out, and a stream is deleted by the last close.
  \<^item> \<open>Exec_Stack\<close> (\<^verbatim>\<open>syscalls/process.cpp\<close>): the initial stack of a program as the program reads it.
  \<^item> \<open>Stream_Calls\<close> (\<^verbatim>\<open>syscalls/streams.cpp\<close>): no sequence of calls reaches a deleted stream, and a pipe returns what was written to it.

  \<^bold>\<open>Files and devices\<close>
  \<^item> \<open>Vnode\<close>, \<open>Vnodefs\<close>, \<open>Vfs\<close> (\<^verbatim>\<open>fs/\<close>): lookup of a path refines the resolution of its parts in the tree of nodes; links, mounts and
    their errors.
  \<^item> \<open>Initrdfs\<close>, \<open>Devicefs\<close>, \<open>Systemfs\<close>: the three file systems that live in memory.
  \<^item> \<open>Dir_Stream\<close>, \<open>Pipe_Stream\<close> (\<^verbatim>\<open>streams/\<close>): directory records stay inside the buffer; a pipe is first-in first-out under every interleaving and
    its two sides never both wait.
  \<^item> \<open>Ring\<close>, \<open>Termios\<close>, \<open>Pc_Serial\<close>: rings of bytes (locale \<open>byte_queue\<close>, interpreted by the pipe, the line discipline and the serial
    port), line editing and the serial driver.
  \<^item> \<open>Crc\<close>, \<open>Gpt\<close> (\<^verbatim>\<open>util/crc32.c\<close>, \<^verbatim>\<open>modules/partition/\<close>): the bitwise CRC equals division of polynomials; the parser returns the partitions that a
    valid table lists.
  \<^item> \<open>Ext2\<close>, \<open>Ext2_Blocks\<close>, \<open>Ext2_Read\<close>, \<open>Ext2_Dir\<close> (\<^verbatim>\<open>modules/ext2/\<close>): the cache of blocks (locale \<open>block_layer\<close>, interpreted for cached and for any blocks), the
    block map of an inode, reading, lookup and listing of directories against the bytes of the disk.

  \<^bold>\<open>Modules and events\<close>
  \<^item> \<open>Module_Link\<close> (\<^verbatim>\<open>modules/module.cpp\<close>): segments in memory, symbols and relocations.
  \<^item> \<open>Modprobe\<close> (\<^verbatim>\<open>userspace/programs/system/modprobe\<close>): wildcard matching is decided, and modules are loaded after what they need.
  \<^item> \<open>Events\<close>, \<open>Uevent\<close> (\<^verbatim>\<open>event/\<close>): encoding of arguments, the loop that drains the queue, and the parser of event texts.

  Where the code does not do what it means to, a lemma shows the behaviour it has on an input: for example \<open>dup_onto_itself\<close>,
  \<open>seek_in_block_stale\<close>, \<open>circular_dependency\<close>, \<open>glob_dat_without_base\<close>, \<open>wait_not_woken\<close>, \<open>schedule_starves_new_thread\<close>. Hypotheses of the theorems exclude these inputs.

  \<^bold>\<open>Not modelled.\<close> Code whose meaning is that of the machine: descriptor tables, interrupts, the APIC, ACPI tables, timers, context switches (\<^verbatim>\<open>arch/\<close>), the
  AHCI and PCI drivers. Third-party code that is copied into the tree (\<^verbatim>\<open>printf.c\<close>, \<^verbatim>\<open>liballoc.c\<close>). Output and tracing, kernel tests, start-up glue, the
  dispatch table of system calls, \<^verbatim>\<open>waitpid\<close>, \<^verbatim>\<open>die\<close> and the parts of \<^verbatim>\<open>execve\<close> that stop threads and enter user mode. Of the module loader the table of sections, the
  module header and the calls into the module; of ext2 the mapping of file pages (\<^verbatim>\<open>map.cpp\<close>), writing being absent from the code. User programs other than
  \<^verbatim>\<open>modprobe\<close> are thin layers over the C library.
\<close>

end
